(* ===== verification/Prelude.thy ===== *)
theory Prelude
  imports Main "HOL-Library.Word"
begin

text \<open>
  Shared vocabulary of the development: machine integers and byte buffers, the error and
  fault types behind every fallible operation, the subslice operations of Rust with their
  panics, big-endian fields, and the compilation target (the width of \<open>usize\<close> and whether
  overflow checks are compiled in). Every component theory builds on this one.
\<close>

unbundle bit_operations_syntax

section \<open>Machine integers and buffers\<close>

type_synonym u8 = "8 word"
type_synonym u16 = "16 word"
type_synonym u32 = "32 word"
type_synonym u64 = "64 word"
type_synonym bytes = "u8 list"

text \<open>
  A \<open>usize\<close> is a \<open>nat\<close>. Lengths and offsets into a live subslice are far below the largest
  \<open>usize\<close>, so sums of them are plain sums. Where an operand comes from the wire the sum can
  leave the range; there the code is modelled with \<open>usize_add\<close>, over a target that says how
  many values a \<open>usize\<close> has (\<open>2 ^ 32\<close> on an ESP32, \<open>2 ^ 64\<close> on a host) and whether
  overflow panics (a debug build) or wraps (a release build).
\<close>

lemma unat_bounds:
  "unat (b :: u8) < 2 ^ 8" "unat (h :: u16) < 2 ^ 16" "unat (w :: u32) < 2 ^ 32"
  by (rule order.strict_trans2 [OF unsigned_less], simp)+

lemma unat_ucast_up:
  "LENGTH('a::len) \<le> LENGTH('b::len) \<Longrightarrow> unat (ucast (w :: 'a word) :: 'b word) = unat w"
  by (simp add: unsigned_ucast_eq take_bit_nat_eq_self order.strict_trans2 [OF unsigned_less])

lemmas unat_u8_bound = unat_bounds(1) and unat_u16_bound = unat_bounds(2)
  and unat_u32_bound = unat_bounds(3)

lemma add_div_le: "a div n + b div n \<le> (a + b) div (n :: nat)"
  by (subst div_add1_eq) simp

section \<open>Errors, panics and results\<close>

text \<open>The variants of \<open>rusty_esp_core::error::Error\<close> that the source constructs.\<close>

datatype error =
    InvalidFormat
  | Unsupported
  | BufferTooSmall nat
  | InvalidGeometry
  | Hardware

text \<open>
  An operation ends with a value, with an error returned to the caller, or with a panic. A
  panic is a value of the model too, so that its absence is something to prove.
\<close>

datatype fault = Err error | Panic

type_synonym 'a result = "fault + 'a"

text \<open>An operation on a state (\<open>&mut self\<close>): the state is returned whatever the outcome.\<close>

type_synonym ('s, 'a) op = "'s \<Rightarrow> 'a result \<times> 's"

definition bind_r :: "'a result \<Rightarrow> ('a \<Rightarrow> 'b result) \<Rightarrow> 'b result" where
  "bind_r m f = (case m of Inl e \<Rightarrow> Inl e | Inr x \<Rightarrow> f x)"

text \<open>The \<open>?\<close> operator on an \<open>Option\<close> turned into an error with \<open>ok_or\<close>.\<close>

definition ok_or :: "'a option \<Rightarrow> error \<Rightarrow> 'a result" where
  "ok_or x e = (case x of None \<Rightarrow> Inl (Err e) | Some y \<Rightarrow> Inr y)"

definition no_panic :: "'a result \<Rightarrow> bool" where
  "no_panic r \<longleftrightarrow> r \<noteq> Inl Panic"

named_theorems result_simps \<open>rewriting of results, binds and subslice operations\<close>

lemma bind_r_simps [simp, result_simps]:
  "bind_r (Inl e) f = Inl e"
  "bind_r (Inr x) f = f x"
  by (simp_all add: bind_r_def)

lemma bind_r_eq_Inr_iff:
  "bind_r m f = Inr y \<longleftrightarrow> (\<exists>x. m = Inr x \<and> f x = Inr y)"
  by (cases m) auto

lemma bind_r_eq_Inl_iff:
  "bind_r m f = Inl e \<longleftrightarrow> m = Inl e \<or> (\<exists>x. m = Inr x \<and> f x = Inl e)"
  by (cases m) auto

lemma ok_or_simps [simp, result_simps]:
  "ok_or None e = Inl (Err e)"
  "ok_or (Some y) e = Inr y"
  by (simp_all add: ok_or_def)

lemma ok_or_eq_Inr_iff [simp]: "ok_or x e = Inr y \<longleftrightarrow> x = Some y"
  by (cases x) auto

lemma ok_or_no_panic [simp]: "ok_or x e \<noteq> Inl Panic"
  by (cases x) auto

lemma no_panic_simps [simp]:
  "no_panic (Inr x)"
  "no_panic (Inl (Err e))"
  "\<not> no_panic (Inl Panic)"
  "no_panic (ok_or y e)"
  by (simp_all add: no_panic_def)

lemma no_panic_bind_r:
  "no_panic m \<Longrightarrow> (\<And>x. m = Inr x \<Longrightarrow> no_panic (f x)) \<Longrightarrow> no_panic (bind_r m f)"
  by (cases m) (auto simp: no_panic_def)

section \<open>Slices\<close>

text \<open>\<open>s[i]\<close>, \<open>&s[i..j]\<close> and \<open>s.get(i..j)\<close>.\<close>

definition idx :: "'a list \<Rightarrow> nat \<Rightarrow> 'a result" where
  "idx s i = (if i < length s then Inr (s ! i) else Inl Panic)"

definition subslice :: "'a list \<Rightarrow> nat \<Rightarrow> nat \<Rightarrow> 'a list result" where
  "subslice s i j = (if i \<le> j \<and> j \<le> length s then Inr (take (j - i) (drop i s)) else Inl Panic)"

definition get_range :: "'a list \<Rightarrow> nat \<Rightarrow> nat \<Rightarrow> 'a list option" where
  "get_range s i j = (if i \<le> j \<and> j \<le> length s then Some (take (j - i) (drop i s)) else None)"

definition get :: "'a list \<Rightarrow> nat \<Rightarrow> 'a option" where
  "get s i = (if i < length s then Some (s ! i) else None)"

text \<open>
  \<open>&s[i..j]\<close> where the bounds are known to be in range; the component that uses it proves that
  they are.
\<close>

definition cut :: "'a list \<Rightarrow> nat \<Rightarrow> nat \<Rightarrow> 'a list" where
  "cut s i j = take (j - i) (drop i s)"

lemma cut_eq_subslice: "i \<le> j \<Longrightarrow> j \<le> length s \<Longrightarrow> subslice s i j = Inr (cut s i j)"
  by (simp add: subslice_def cut_def)

lemma length_cut [simp]: "length (cut s i j) = min (j - i) (length s - i)"
  by (simp add: cut_def min.commute)

lemma cut_append_cut:
  assumes "i \<le> j" "j \<le> k"
  shows "cut s i j @ cut s j k = cut s i k"
proof -
  have "k - i = (j - i) + (k - j)" "drop j s = drop (j - i) (drop i s)" using assms by simp_all
  then show ?thesis by (simp add: cut_def take_add)
qed

text \<open>\<open>buf[i..i + bs.len()].copy_from_slice(bs)\<close>, and \<open>buf[i] = b\<close> for a single byte.\<close>

definition put :: "'a list \<Rightarrow> nat \<Rightarrow> 'a list \<Rightarrow> 'a list result" where
  "put buf i bs =
     (if i + length bs \<le> length buf
      then Inr (take i buf @ bs @ drop (i + length bs) buf)
      else Inl Panic)"

text \<open>\<open>buf[i..j].copy_from_slice(bs)\<close>: the two lengths must agree.\<close>

definition copy_range :: "'a list \<Rightarrow> nat \<Rightarrow> nat \<Rightarrow> 'a list \<Rightarrow> 'a list result" where
  "copy_range buf i j bs =
     (if i \<le> j \<and> j \<le> length buf \<and> length bs = j - i
      then Inr (take i buf @ bs @ drop j buf)
      else Inl Panic)"

lemma copy_range_ok [simp, result_simps]:
  "j = i + length bs \<Longrightarrow> j \<le> length buf \<Longrightarrow>
   copy_range buf i j bs = Inr (take i buf @ bs @ drop j buf)"
  by (simp add: copy_range_def)

lemma idx_ok [simp, result_simps]: "i < length s \<Longrightarrow> idx s i = Inr (s ! i)"
  by (simp add: idx_def)

lemma slice_ok [simp, result_simps]:
  "i \<le> j \<Longrightarrow> j \<le> length s \<Longrightarrow> subslice s i j = Inr (take (j - i) (drop i s))"
  by (simp add: subslice_def)

lemma get_range_ok [simp]:
  "i \<le> j \<Longrightarrow> j \<le> length s \<Longrightarrow> get_range s i j = Some (take (j - i) (drop i s))"
  by (simp add: get_range_def)

lemma get_range_eq_Some_iff:
  "get_range s i j = Some x \<longleftrightarrow> i \<le> j \<and> j \<le> length s \<and> x = take (j - i) (drop i s)"
  by (auto simp: get_range_def)

lemma get_ok [simp]: "i < length s \<Longrightarrow> get s i = Some (s ! i)"
  by (simp add: get_def)

lemma get_eq_None_iff [simp]: "get s i = None \<longleftrightarrow> length s \<le> i"
  by (simp add: get_def not_less)

lemma get_eq_Some_iff: "get s i = Some x \<longleftrightarrow> i < length s \<and> x = s ! i"
  by (auto simp: get_def)

lemma put_ok [simp, result_simps]:
  "i + length bs \<le> length buf \<Longrightarrow>
   put buf i bs = Inr (take i buf @ bs @ drop (i + length bs) buf)"
  by (simp add: put_def)

lemma length_slice: "subslice s i j = Inr x \<Longrightarrow> length x = j - i"
  by (auto simp: subslice_def split: if_splits)

text \<open>
  Most packets are assembled left to right in a scratch buffer. \<open>filled buf h\<close> says that the
  buffer starts with \<open>h\<close>; a \<open>put\<close> at the end of what is filled extends it.
\<close>

definition filled :: "'a list \<Rightarrow> 'a list \<Rightarrow> bool" where
  "filled buf h \<longleftrightarrow> length h \<le> length buf \<and> take (length h) buf = h"

lemma filled_Nil [simp]: "filled buf []"
  by (simp add: filled_def)

lemma filled_length: "filled buf h \<Longrightarrow> length h \<le> length buf"
  by (simp add: filled_def)

lemma filled_take: "filled buf h \<Longrightarrow> n = length h \<Longrightarrow> take n buf = h"
  by (simp add: filled_def)

lemma put_filled:
  assumes "filled buf h" and "i = length h" and "i + length bs \<le> length buf"
  obtains buf' where "put buf i bs = Inr buf'" and "filled buf' (h @ bs)"
    and "length buf' = length buf"
proof -
  let ?buf = "take i buf @ bs @ drop (i + length bs) buf"
  have "take i buf = h" using assms by (simp add: filled_def)
  then have "filled ?buf (h @ bs)" using assms by (simp add: filled_def)
  moreover have "length ?buf = length buf" using assms by simp
  ultimately show thesis using that assms(3) by simp
qed

lemma put_at_end:
  "length h = i \<Longrightarrow> length bs \<le> length rest \<Longrightarrow>
   put (h @ rest) i bs = Inr ((h @ bs) @ drop (length bs) rest)"
  by simp

lemma copy_range_at_end:
  "length h = i \<Longrightarrow> j = i + length bs \<Longrightarrow> length bs \<le> length rest \<Longrightarrow>
   copy_range (h @ rest) i j bs = Inr ((h @ bs) @ drop (length bs) rest)"
  by simp

lemma subslice_prefix: "length h = j \<Longrightarrow> subslice (h @ rest) 0 j = Inr h"
  by simp

section \<open>Big-endian fields\<close>

definition be16 :: "u16 \<Rightarrow> bytes" where
  "be16 w = [ucast (drop_bit 8 w), ucast w]"

definition be32 :: "u32 \<Rightarrow> bytes" where
  "be32 w = [ucast (drop_bit 24 w), ucast (drop_bit 16 w), ucast (drop_bit 8 w), ucast w]"

definition be64 :: "u64 \<Rightarrow> bytes" where
  "be64 w = [ucast (drop_bit 56 w), ucast (drop_bit 48 w), ucast (drop_bit 40 w),
     ucast (drop_bit 32 w), ucast (drop_bit 24 w), ucast (drop_bit 16 w),
     ucast (drop_bit 8 w), ucast w]"

definition from_be16 :: "u8 \<Rightarrow> u8 \<Rightarrow> u16" where
  "from_be16 a b = push_bit 8 (ucast a) OR ucast b"

definition from_be32 :: "u8 \<Rightarrow> u8 \<Rightarrow> u8 \<Rightarrow> u8 \<Rightarrow> u32" where
  "from_be32 a b c d =
     push_bit 24 (ucast a) OR push_bit 16 (ucast b) OR push_bit 8 (ucast c) OR ucast d"

definition from_be64 ::
  "u8 \<Rightarrow> u8 \<Rightarrow> u8 \<Rightarrow> u8 \<Rightarrow> u8 \<Rightarrow> u8 \<Rightarrow> u8 \<Rightarrow> u8 \<Rightarrow> u64" where
  "from_be64 a b c d e f g h =
     push_bit 56 (ucast a) OR push_bit 48 (ucast b) OR push_bit 40 (ucast c) OR
     push_bit 32 (ucast d) OR push_bit 24 (ucast e) OR push_bit 16 (ucast f) OR
     push_bit 8 (ucast g) OR ucast h"

lemma length_be [simp]:
  "length (be16 x) = 2" "length (be32 y) = 4" "length (be64 z) = 8"
  by (simp_all add: be16_def be32_def be64_def)

named_theorems be_simps \<open>reading back what the big-endian writers wrote\<close>

lemma from_be16_be16 [be_simps]: "from_be16 (ucast (drop_bit 8 w)) (ucast w) = w"
  unfolding from_be16_def
  by (rule bit_word_eqI) (auto simp: bit_simps)

lemma from_be32_be32 [be_simps]:
  "from_be32 (ucast (drop_bit 24 w)) (ucast (drop_bit 16 w)) (ucast (drop_bit 8 w)) (ucast w)
   = w"
proof (rule bit_word_eqI)
  fix n assume "n < LENGTH(32)"
  then consider "n < 8" | "8 \<le> n" "n < 16" | "16 \<le> n" "n < 24" | "24 \<le> n" "n < 32"
    by fastforce
  then show "bit (from_be32 (ucast (drop_bit 24 w)) (ucast (drop_bit 16 w))
      (ucast (drop_bit 8 w)) (ucast w)) n = bit w n"
    by cases (simp_all add: from_be32_def bit_simps less_diff_conv2)
qed

lemma from_be64_be64 [be_simps]:
  "from_be64 (ucast (drop_bit 56 w)) (ucast (drop_bit 48 w)) (ucast (drop_bit 40 w))
     (ucast (drop_bit 32 w)) (ucast (drop_bit 24 w)) (ucast (drop_bit 16 w))
     (ucast (drop_bit 8 w)) (ucast w) = w"
proof (rule bit_word_eqI)
  fix n assume "n < LENGTH(64)"
  then consider "n < 8" | "8 \<le> n" "n < 16" | "16 \<le> n" "n < 24" | "24 \<le> n" "n < 32"
    | "32 \<le> n" "n < 40" | "40 \<le> n" "n < 48" | "48 \<le> n" "n < 56" | "56 \<le> n" "n < 64"
    by fastforce
  then show "bit (from_be64 (ucast (drop_bit 56 w)) (ucast (drop_bit 48 w))
     (ucast (drop_bit 40 w)) (ucast (drop_bit 32 w)) (ucast (drop_bit 24 w))
     (ucast (drop_bit 16 w)) (ucast (drop_bit 8 w)) (ucast w)) n = bit w n"
    by cases (simp_all add: from_be64_def bit_simps less_diff_conv2)
qed

section \<open>The compilation target\<close>

text \<open>
  \<open>usize_mod\<close> is the number of \<open>usize\<close> values, \<open>overflow_checks\<close> whether an overflowing
  addition panics or wraps.
\<close>

record target =
  usize_mod :: nat
  overflow_checks :: bool

definition usize_add :: "target \<Rightarrow> nat \<Rightarrow> nat \<Rightarrow> nat result" where
  "usize_add t a b =
     (if a + b < usize_mod t then Inr (a + b)
      else if overflow_checks t then Inl Panic
      else Inr ((a + b) mod usize_mod t))"

lemma usize_add_ok [simp, result_simps]:
  "a + b < usize_mod t \<Longrightarrow> usize_add t a b = Inr (a + b)"
  by (simp add: usize_add_def)

text \<open>\<open>+=\<close> on a \<open>u32\<close>: a panic where overflow is checked, and wrap-around where it is not.\<close>

definition u32_add :: "target \<Rightarrow> u32 \<Rightarrow> u32 \<Rightarrow> u32 result" where
  "u32_add t a b = (if overflow_checks t \<and> unat a + unat b \<ge> 2 ^ 32 then Inl Panic else Inr (a + b))"

lemma u32_add_ok [simp, result_simps]:
  "(overflow_checks t \<Longrightarrow> unat a + unat b < 2 ^ 32) \<Longrightarrow> u32_add t a b = Inr (a + b)"
  by (auto simp: u32_add_def)

lemma u32_add_no_overflow: "unat a + unat b < 2 ^ 32 \<Longrightarrow> unat (a + b) = unat a + unat (b :: u32)"
  by (simp add: unat_word_ariths)

lemma u32_add_cases:
  obtains (panic) "u32_add t a b = Inl Panic" "overflow_checks t" "2 ^ 32 \<le> unat a + unat b"
  | (added) "u32_add t a b = Inr (a + b)" "overflow_checks t \<longrightarrow> unat a + unat b < 2 ^ 32"
  by (cases "overflow_checks t \<and> unat a + unat b \<ge> 2 ^ 32") (auto simp: u32_add_def)

definition u64_mul :: "target \<Rightarrow> u64 \<Rightarrow> u64 \<Rightarrow> u64 result" where
  "u64_mul t a b =
     (if unat a * unat b \<ge> 2 ^ 64 \<and> overflow_checks t then Inl Panic else Inr (a * b))"

text \<open>The two families of targets the workspace is built for.\<close>

definition host_target :: "bool \<Rightarrow> target" where
  "host_target checks = \<lparr>usize_mod = 2 ^ 64, overflow_checks = checks\<rparr>"

definition esp32_target :: "bool \<Rightarrow> target" where
  "esp32_target checks = \<lparr>usize_mod = 2 ^ 32, overflow_checks = checks\<rparr>"

lemma target_simps [simp]:
  "usize_mod (host_target c) = 2 ^ 64" "overflow_checks (host_target c) = c"
  "usize_mod (esp32_target c) = 2 ^ 32" "overflow_checks (esp32_target c) = c"
  by (simp_all add: host_target_def esp32_target_def)

section \<open>Cutting a list into pieces\<close>

text \<open>
  The shape of every fragmentation in the program: pieces of \<open>n\<close> elements, the last one
  shorter, a single empty piece for an empty list (\<open>pieces\<close>) or none (\<open>chunks_of\<close>).
\<close>

function chunks_of :: "nat \<Rightarrow> 'a list \<Rightarrow> 'a list list" where
  "chunks_of n xs =
     (if xs = [] \<or> n = 0 then [] else take n xs # chunks_of n (drop n xs))"
  by pat_completeness auto
termination
  by (relation "measure (\<lambda>(n, xs). length xs)") auto

declare chunks_of.simps [simp del]

lemma chunks_of_Nil [simp]: "chunks_of n [] = []"
  by (simp add: chunks_of.simps)

lemma chunks_of_step:
  "xs \<noteq> [] \<Longrightarrow> 0 < n \<Longrightarrow> chunks_of n xs = take n xs # chunks_of n (drop n xs)"
  by (simp add: chunks_of.simps [of n xs])

lemma chunks_of_eq_Nil_iff [simp]: "0 < n \<Longrightarrow> chunks_of n xs = [] \<longleftrightarrow> xs = []"
  by (simp add: chunks_of.simps [of n xs])

lemma concat_chunks_of: "0 < n \<Longrightarrow> concat (chunks_of n xs) = xs"
proof (induction n xs rule: chunks_of.induct)
  case (1 n xs)
  then show ?case
    by (cases "xs = []") (simp_all add: chunks_of_step)
qed

lemma chunks_of_sizes:
  "c \<in> set (chunks_of n xs) \<Longrightarrow> c \<noteq> [] \<and> length c \<le> n"
proof (induction n xs rule: chunks_of.induct)
  case (1 n xs)
  then show ?case
    by (cases "xs = [] \<or> n = 0") (auto simp: chunks_of_step chunks_of.simps [of n xs])
qed

lemma length_chunks_of:
  "0 < n \<Longrightarrow> length (chunks_of n xs) = (length xs + n - 1) div n"
proof (induction n xs rule: chunks_of.induct)
  case (1 n xs)
  show ?case
  proof (cases "xs = []")
    case True
    then show ?thesis using 1 by simp
  next
    case False
    with 1 have IH: "length (chunks_of n (drop n xs)) = (length xs - n + n - 1) div n"
      by simp
    show ?thesis
    proof (cases "length xs \<le> n")
      case True
      have "(length xs + n - 1) div n = 1"
        using True False "1.prems"
        by (cases xs) (auto intro!: div_nat_eqI)
      then show ?thesis using False True "1.prems"
        by (simp add: chunks_of_step)
    next
      case False
      then have "length xs + n - 1 = (length xs - n + n - 1) + n" by simp
      then have "(length xs + n - 1) div n = Suc ((length xs - n + n - 1) div n)"
        using "1.prems" by (metis Suc_eq_plus1 div_add_self2 gr_implies_not0)
      then show ?thesis using \<open>xs \<noteq> []\<close> "1.prems" IH
        by (simp add: chunks_of_step)
    qed
  qed
qed

section \<open>Inputs fed to a machine one after the other\<close>

text \<open>Every answer and the final state; and what a client keeps of the answers.\<close>

fun feed :: "('s \<Rightarrow> 'x \<Rightarrow> 'y \<times> 's) \<Rightarrow> 's \<Rightarrow> 'x list \<Rightarrow> 'y list \<times> 's" where
  "feed push s [] = ([], s)"
| "feed push s (x # xs) =
     (case push s x of (y, s1) \<Rightarrow> (case feed push s1 xs of (ys, s2) \<Rightarrow> (y # ys, s2)))"

fun feed_kept :: "('s \<Rightarrow> 'x \<Rightarrow> 'y \<times> 's) \<Rightarrow> ('y \<Rightarrow> 's \<Rightarrow> 'k list) \<Rightarrow> 's \<Rightarrow> 'x list \<Rightarrow> 'k list" where
  "feed_kept push kept s [] = []"
| "feed_kept push kept s (x # xs) = (case push s x of (y, s1) \<Rightarrow> kept y s1 @ feed_kept push kept s1 xs)"

lemma feed_append:
  "feed push s (xs @ xs') =
     (case feed push s xs of (ys, s1) \<Rightarrow> (case feed push s1 xs' of (ys', s2) \<Rightarrow> (ys @ ys', s2)))"
  by (induction xs arbitrary: s) (auto split: prod.split)

lemma feed_kept_append:
  "feed_kept push kept s (xs @ xs') =
     feed_kept push kept s xs @ feed_kept push kept (snd (feed push s xs)) xs'"
  by (induction xs arbitrary: s) (auto split: prod.split)

lemma set_feed_Cons:
  "set (fst (feed push s (x # xs))) = insert (fst (push s x)) (set (fst (feed push (snd (push s x)) xs)))"
  by (simp split: prod.split)

text \<open>Answers of which only the last is kept.\<close>

lemma feed_kept_last:
  assumes "\<And>s. kept z s = []"
  shows "feed push s xs = (replicate k z @ [y], s1) \<Longrightarrow> feed_kept push kept s xs = kept y s1"
proof (induction xs arbitrary: s k)
  case (Cons x xs)
  obtain y1 s2 where p: "push s x = (y1, s2)" by fastforce
  obtain ys s3 where f: "feed push s2 xs = (ys, s3)" by fastforce
  from Cons.prems p f have eq: "y1 # ys = replicate k z @ [y]" "s3 = s1" by simp_all
  show ?case
  proof (cases k)
    case 0
    with eq have "y1 = y" "ys = []" by simp_all
    moreover from \<open>ys = []\<close> f have "xs = []" by (cases xs) (auto split: prod.splits)
    ultimately show ?thesis using p f eq(2) by simp
  next
    case (Suc m)
    with eq have "y1 = z" "ys = replicate m z @ [y]" by simp_all
    with Cons.IH [of s2 m] p f eq(2) show ?thesis by (simp add: assms)
  qed
qed simp

end
