(* ===== verification/Media.thy ===== *)
theory Media
  imports Prelude
begin

text \<open>
  The data every component passes on: a coded packet and its codec
  (\<open>rusty_esp_core::media\<close>, re-exported by \<open>packet.rs\<close>), and the microsecond clock value.
  The types belong to a crate that is not in the repository; the fields are the ones its
  clients name, and no function of that crate is defined here.
\<close>

text \<open>\<open>Micros(u64)\<close>: a device timestamp.\<close>

type_synonym micros = u64

text \<open>
  \<open>PcmFormat\<close> as \<open>udp.rs\<close> fills it in. The source names one sample format; the others are
  kept apart by a number.
\<close>

datatype sample_format = I16 | OtherSample nat

record pcm_format =
  sample_rate_hz :: nat
  channels :: nat
  sample :: sample_format

datatype codec = Jpeg | H264 | Pcm pcm_format

record media_packet =
  mp_codec :: codec
  mp_key :: bool
  mp_timestamp :: micros
  mp_data :: bytes

end
