(* ===== verification/Sinks.thy ===== *)
theory Sinks
  imports Prelude
begin

text \<open>
  Where bytes go: \<open>sink.rs\<close>. A sink is a state with one operation, \<open>write\<close>; packetizers take
  the operation as an argument, as the code takes the trait. The interface is the locale
  \<open>packet_sink\<close>, its datagram form (one packet per call, as the \<open>emit\<close> closures have it) is
  \<open>datagram_sink\<close>; both are interpreted on the sinks the crate has.
\<close>

type_synonym 's writer = "'s \<Rightarrow> bytes \<Rightarrow> unit result \<times> 's"

text \<open>\<open>w.write(b1)?; w.write(b2)?; ...\<close>: the first error ends the sequence.\<close>

fun write_seq :: "'s writer \<Rightarrow> bytes list \<Rightarrow> 's \<Rightarrow> unit result \<times> 's" where
  "write_seq w [] s = (Inr (), s)"
| "write_seq w (b # bs) s =
     (case w s b of
        (Inl e, s') \<Rightarrow> (Inl e, s')
      | (Inr _, s') \<Rightarrow> write_seq w bs s')"

lemma write_seq_append:
  "write_seq w (as @ bs) s =
     (case write_seq w as s of
        (Inl e, s') \<Rightarrow> (Inl e, s')
      | (Inr _, s') \<Rightarrow> write_seq w bs s')"
  by (induction as arbitrary: s) (auto split: prod.splits sum.splits)

section \<open>The interface\<close>

text \<open>
  What a packetizer may rely on: an accepted write appends exactly its bytes, a refused one
  appends at most a prefix of them (\<open>write_all\<close> on a socket can fail half way), and a write
  does not panic.
\<close>

locale packet_sink =
  fixes wr :: "'s writer"
    and content :: "'s \<Rightarrow> bytes"
    and usable :: "'s \<Rightarrow> bool"
  assumes write_usable: "usable s \<Longrightarrow> usable (snd (wr s b))"
    and write_ok:
      "usable s \<Longrightarrow> wr s b = (Inr u, s') \<Longrightarrow> content s' = content s @ b"
    and write_err:
      "usable s \<Longrightarrow> wr s b = (Inl e, s') \<Longrightarrow> \<exists>k. content s' = content s @ take k b"
    and write_no_panic: "usable s \<Longrightarrow> no_panic (fst (wr s b))"
begin

lemma write_seq_usable: "usable s \<Longrightarrow> usable (snd (write_seq wr bs s))"
proof (induction bs arbitrary: s)
  case (Cons b bs)
  then have "usable (snd (wr s b))" by (rule_tac write_usable)
  with Cons.IH show ?case by (auto split: prod.splits sum.splits)
qed simp

lemma write_seq_ok:
  "usable s \<Longrightarrow> write_seq wr bs s = (Inr u, s') \<Longrightarrow> content s' = content s @ concat bs"
proof (induction bs arbitrary: s)
  case (Cons b bs)
  from Cons.prems(2) obtain v s1 where w: "wr s b = (Inr v, s1)"
    and rest: "write_seq wr bs s1 = (Inr u, s')"
    by (auto split: prod.splits sum.splits)
  from write_usable [OF Cons.prems(1), of b] w have "usable s1" by simp
  from Cons.IH [OF this rest] write_ok [OF Cons.prems(1) w] show ?case by simp
qed simp

lemma write_seq_err:
  "usable s \<Longrightarrow> write_seq wr bs s = (Inl e, s') \<Longrightarrow>
   \<exists>k. content s' = content s @ take k (concat bs)"
proof (induction bs arbitrary: s)
  case (Cons b bs)
  show ?case
  proof (cases "wr s b")
    case (Pair r s1)
    show ?thesis
    proof (cases r)
      case (Inl f)
      with Pair Cons.prems have "wr s b = (Inl f, s')" by simp
      from write_err [OF Cons.prems(1) this] obtain k
        where "content s' = content s @ take k b" by blast
      then have "content s' = content s @ take (min k (length b)) (concat (b # bs))"
        by (simp add: min_def)
      then show ?thesis by blast
    next
      case (Inr v)
      with Pair have w: "wr s b = (Inr v, s1)" by simp
      from write_usable [OF Cons.prems(1), of b] w have "usable s1" by simp
      moreover from Cons.prems w have "write_seq wr bs s1 = (Inl e, s')" by simp
      ultimately obtain k where "content s' = content s1 @ take k (concat bs)"
        using Cons.IH by blast
      then have "content s' = content s @ take (length b + k) (concat (b # bs))"
        using write_ok [OF Cons.prems(1) w] by simp
      then show ?thesis by blast
    qed
  qed
qed simp

lemma write_seq_no_panic: "usable s \<Longrightarrow> no_panic (fst (write_seq wr bs s))"
proof (induction bs arbitrary: s)
  case (Cons b bs)
  then show ?case
    using write_no_panic [OF Cons.prems, of b] write_usable [OF Cons.prems, of b]
    by (auto split: prod.splits sum.splits)
qed simp

end

text \<open>
  An \<open>emit\<close> closure: each accepted call sends one whole datagram, a refused one sends
  nothing. \<open>sent\<close> lists the datagrams.
\<close>

locale datagram_sink =
  fixes emit :: "'s writer"
    and sent :: "'s \<Rightarrow> bytes list"
    and usable :: "'s \<Rightarrow> bool"
  assumes emit_usable: "usable s \<Longrightarrow> usable (snd (emit s d))"
    and emit_ok: "usable s \<Longrightarrow> emit s d = (Inr u, s') \<Longrightarrow> sent s' = sent s @ [d]"
    and emit_err: "usable s \<Longrightarrow> emit s d = (Inl e, s') \<Longrightarrow> sent s' = sent s"
    and emit_no_panic: "usable s \<Longrightarrow> no_panic (fst (emit s d))"

text \<open>The bytes of the datagrams, one after another, make a packet sink.\<close>

sublocale datagram_sink \<subseteq> stream: packet_sink emit "\<lambda>s. concat (sent s)" usable
proof unfold_locales
  fix s b u s'
  assume "usable s" and "emit s b = (Inr u, s')"
  then show "concat (sent s') = concat (sent s) @ b" by (simp add: emit_ok)
next
  fix s b e s'
  assume "usable s" and "emit s b = (Inl e, s')"
  then have "concat (sent s') = concat (sent s) @ take 0 b" by (simp add: emit_err)
  then show "\<exists>k. concat (sent s') = concat (sent s) @ take k b" by blast
qed (simp_all add: emit_usable emit_no_panic)

context datagram_sink
begin

lemma emit_seq_ok:
  "usable s \<Longrightarrow> write_seq emit ds s = (Inr u, s') \<Longrightarrow> sent s' = sent s @ ds"
proof (induction ds arbitrary: s)
  case (Cons d ds)
  from Cons.prems(2) obtain v s1 where w: "emit s d = (Inr v, s1)"
    and rest: "write_seq emit ds s1 = (Inr u, s')"
    by (auto split: prod.splits sum.splits)
  from emit_usable [OF Cons.prems(1), of d] w have "usable s1" by simp
  from Cons.IH [OF this rest] emit_ok [OF Cons.prems(1) w] show ?case by simp
qed simp

lemma emit_seq_err:
  "usable s \<Longrightarrow> write_seq emit ds s = (Inl e, s') \<Longrightarrow>
   \<exists>k < length ds. sent s' = sent s @ take k ds"
proof (induction ds arbitrary: s)
  case (Cons d ds)
  show ?case
  proof (cases "emit s d")
    case (Pair r s1)
    show ?thesis
    proof (cases r)
      case (Inl f)
      with Pair Cons.prems have "emit s d = (Inl f, s')" by simp
      from emit_err [OF Cons.prems(1) this] show ?thesis by auto
    next
      case (Inr v)
      with Pair have w: "emit s d = (Inr v, s1)" by simp
      from emit_usable [OF Cons.prems(1), of d] w have "usable s1" by simp
      moreover from Cons.prems w have "write_seq emit ds s1 = (Inl e, s')" by simp
      ultimately obtain k where "k < length ds" "sent s' = sent s1 @ take k ds"
        using Cons.IH by blast
      then have "Suc k < length (d # ds)" "sent s' = sent s @ take (Suc k) (d # ds)"
        using emit_ok [OF Cons.prems(1) w] by simp_all
      then show ?thesis by blast
    qed
  qed
qed simp

end

section \<open>The sinks of the crate\<close>

text \<open>\<open>SliceSink\<close>: a caller-owned slice, never overflowed.\<close>

record slice_sink =
  ss_buf :: bytes
  ss_len :: nat

definition SliceSink_new :: "bytes \<Rightarrow> slice_sink" where
  "SliceSink_new buf = \<lparr>ss_buf = buf, ss_len = 0\<rparr>"

definition SliceSink_len :: "slice_sink \<Rightarrow> nat" where
  "SliceSink_len s = ss_len s"

definition SliceSink_is_empty :: "slice_sink \<Rightarrow> bool" where
  "SliceSink_is_empty s \<longleftrightarrow> ss_len s = 0"

definition SliceSink_written :: "slice_sink \<Rightarrow> bytes" where
  "SliceSink_written s = take (ss_len s) (ss_buf s)"

definition SliceSink_clear :: "slice_sink \<Rightarrow> slice_sink" where
  "SliceSink_clear s = s\<lparr>ss_len := 0\<rparr>"

definition SliceSink_write :: "slice_sink writer" where
  "SliceSink_write s bs =
     (let new_len = ss_len s + length bs in
      if new_len > length (ss_buf s) then (Inl (Err (BufferTooSmall new_len)), s)
      else case put (ss_buf s) (ss_len s) bs of
             Inl e \<Rightarrow> (Inl e, s)
           | Inr buf \<Rightarrow> (Inr (), s\<lparr>ss_buf := buf, ss_len := new_len\<rparr>))"

definition slice_sink_ok :: "slice_sink \<Rightarrow> bool" where
  "slice_sink_ok s \<longleftrightarrow> ss_len s \<le> length (ss_buf s)"

lemma SliceSink_write_ok:
  "ss_len s + length bs \<le> length (ss_buf s) \<Longrightarrow>
   \<exists>s'. SliceSink_write s bs = (Inr (), s') \<and> slice_sink_ok s' \<and>
        length (ss_buf s') = length (ss_buf s) \<and> ss_len s' = ss_len s + length bs \<and>
        SliceSink_written s' = SliceSink_written s @ bs"
  by (simp add: SliceSink_write_def slice_sink_ok_def SliceSink_written_def Let_def)

lemma SliceSink_write_full:
  "length (ss_buf s) < ss_len s + length bs \<Longrightarrow>
   SliceSink_write s bs = (Inl (Err (BufferTooSmall (ss_len s + length bs))), s)"
  by (simp add: SliceSink_write_def Let_def)

text \<open>\<open>CountingSink\<close>: counts bytes and calls, at their width.\<close>

record counting_sink =
  cs_bytes :: u64
  cs_writes :: u64

definition CountingSink_write :: "counting_sink writer" where
  "CountingSink_write s bs =
     (Inr (), s\<lparr>cs_bytes := cs_bytes s + of_nat (length bs), cs_writes := cs_writes s + 1\<rparr>)"

text \<open>\<open>Vec<u8>\<close>, and the closure \<open>|d| { datagrams.push(d.to_vec()); Ok(()) }\<close>.\<close>

definition Vec_write :: "bytes writer" where
  "Vec_write v bs = (Inr (), v @ bs)"

definition Vec_emit :: "bytes list writer" where
  "Vec_emit v d = (Inr (), v @ [d])"

lemma SliceSink_write_cases:
  obtains (fits) s' where "SliceSink_write s bs = (Inr (), s')" "slice_sink_ok s'"
      "SliceSink_written s' = SliceSink_written s @ bs"
      "ss_len s + length bs \<le> length (ss_buf s)"
  | (full) "SliceSink_write s bs = (Inl (Err (BufferTooSmall (ss_len s + length bs))), s)"
      "length (ss_buf s) < ss_len s + length bs"
  using SliceSink_write_ok [of s bs] SliceSink_write_full [of s bs] by fastforce

interpretation slice_sink: packet_sink SliceSink_write SliceSink_written slice_sink_ok
proof unfold_locales
  fix s :: slice_sink and b
  show "slice_sink_ok s \<Longrightarrow> slice_sink_ok (snd (SliceSink_write s b))"
    by (cases rule: SliceSink_write_cases [of s b]) simp_all
  show "slice_sink_ok s \<Longrightarrow> no_panic (fst (SliceSink_write s b))"
    by (cases rule: SliceSink_write_cases [of s b]) simp_all
  fix s' u e
  show "SliceSink_write s b = (Inr u, s') \<Longrightarrow>
      SliceSink_written s' = SliceSink_written s @ b"
    by (cases rule: SliceSink_write_cases [of s b]) simp_all
  show "SliceSink_write s b = (Inl e, s') \<Longrightarrow>
      \<exists>k. SliceSink_written s' = SliceSink_written s @ take k b"
    by (cases rule: SliceSink_write_cases [of s b]) (auto intro: exI [of _ 0])
qed

interpretation vec_sink: packet_sink Vec_write "\<lambda>v. v" "\<lambda>_. True"
  by unfold_locales (auto simp: Vec_write_def)

interpretation vec_emit: datagram_sink Vec_emit "\<lambda>v. v" "\<lambda>_. True"
  by unfold_locales (auto simp: Vec_emit_def)

lemma write_seq_Vec_write [simp]: "write_seq Vec_write bs v = (Inr (), v @ concat bs)"
  by (induction bs arbitrary: v) (simp_all add: Vec_write_def)

lemma write_seq_Vec_emit [simp]: "write_seq Vec_emit ds v = (Inr (), v @ ds)"
  by (induction ds arbitrary: v) (simp_all add: Vec_emit_def)

end
