(* ===== verification/Udp.thy ===== *)
theory Udp
  imports Media Sinks "HOL-Library.Multiset"
begin

text \<open>
  Raw datagram framing, \<open>udp.rs\<close>: \<open>Framer\<close> cuts a packet into datagrams with a 28-byte
  header, \<open>Reassembler\<close> rebuilds one packet at a time in a caller buffer.
\<close>

section \<open>The framer\<close>

definition udp_HEADER_LEN :: nat where
  "udp_HEADER_LEN = 28"

text \<open>\<open>b"JNS1"\<close>\<close>

definition udp_MAGIC :: bytes where
  "udp_MAGIC = [0x4A, 0x4E, 0x53, 0x31]"

record framer =
  fr_mtu :: nat
  fr_seq :: u32

definition Framer_new :: "nat \<Rightarrow> framer result" where
  "Framer_new mtu =
     (if mtu \<le> udp_HEADER_LEN then Inl (Err InvalidFormat)
      else Inr \<lparr>fr_mtu = mtu, fr_seq = 0\<rparr>)"

text \<open>
  The header fields, written one after the other into the scratch buffer. \<open>tag\<close> is
  \<open>Codec::tag\<close> of the core crate.
\<close>

definition Framer_header ::
  "(codec \<Rightarrow> u8) \<Rightarrow> bytes \<Rightarrow> u32 \<Rightarrow> media_packet \<Rightarrow> u32 \<Rightarrow> nat \<Rightarrow> bytes result" where
  "Framer_header tag scratch seq p tot offset =
     bind_r (put scratch 0 udp_MAGIC) (\<lambda>h.
     bind_r (put h 4 (be32 seq)) (\<lambda>h.
     bind_r (put h 8 (be64 (mp_timestamp p))) (\<lambda>h.
     bind_r (put h 16 (be32 tot)) (\<lambda>h.
     bind_r (put h 20 (be32 (of_nat offset))) (\<lambda>h.
     bind_r (put h 24 [tag (mp_codec p)]) (\<lambda>h.
     bind_r (put h 25 [if mp_key p then 1 else 0]) (\<lambda>h.
     put h 26 [0, 0])))))))"

text \<open>
  The loop of \<open>Framer::frame\<close>; \<open>emit\<close> is the caller's closure over its own state. The loop
  makes no progress when \<open>payload_max\<close> is 0, which \<open>Framer::new\<close> excludes: not returning is
  \<open>None\<close>.
\<close>

partial_function (option) Framer_loop ::
  "(codec \<Rightarrow> u8) \<Rightarrow> 's writer \<Rightarrow> nat \<Rightarrow> u32 \<Rightarrow> u32 \<Rightarrow> media_packet \<Rightarrow>
   bytes \<Rightarrow> nat \<Rightarrow> nat \<Rightarrow> 's \<Rightarrow> (nat result \<times> bytes \<times> 's) option" where
  "Framer_loop tag emit payload_max seq tot p scratch offset sent s =
     (let len = length (mp_data p); n = min (len - offset) payload_max in
      case bind_r (Framer_header tag scratch seq p tot offset) (\<lambda>h.
           bind_r (subslice (mp_data p) offset (offset + n)) (\<lambda>body.
           copy_range h udp_HEADER_LEN (udp_HEADER_LEN + n) body)) of
        Inl e \<Rightarrow> Some (Inl e, scratch, s)
      | Inr scratch1 \<Rightarrow>
          (case subslice scratch1 0 (udp_HEADER_LEN + n) of
             Inl e \<Rightarrow> Some (Inl e, scratch1, s)
           | Inr datagram \<Rightarrow>
               (case emit s datagram of
                  (Inl e, s1) \<Rightarrow> Some (Inl e, scratch1, s1)
                | (Inr _, s1) \<Rightarrow>
                    if offset + n \<ge> len then Some (Inr (sent + 1), scratch1, s1)
                    else Framer_loop tag emit payload_max seq tot p scratch1
                           (offset + n) (sent + 1) s1)))"

definition Framer_frame ::
  "(codec \<Rightarrow> u8) \<Rightarrow> 's writer \<Rightarrow> framer \<Rightarrow> media_packet \<Rightarrow> bytes \<Rightarrow> 's \<Rightarrow>
   (nat result \<times> framer \<times> bytes \<times> 's) option" where
  "Framer_frame tag emit fr p scratch s =
     (if length scratch < fr_mtu fr
      then Some (Inl (Err (BufferTooSmall (fr_mtu fr))), fr, scratch, s)
      else if length (mp_data p) \<ge> 2 ^ 32 then Some (Inl (Err InvalidFormat), fr, scratch, s)
      else map_option (\<lambda>(r, scratch', s'). (r, fr\<lparr>fr_seq := fr_seq fr + 1\<rparr>, scratch', s'))
             (Framer_loop tag emit (fr_mtu fr - udp_HEADER_LEN) (fr_seq fr)
                (of_nat (length (mp_data p))) p scratch 0 0 s))"

section \<open>The reassembler\<close>

record udp_header =
  uh_seq :: u32
  uh_timestamp :: micros
  uh_total :: u32
  uh_offset :: u32
  uh_codec :: u8
  uh_key :: bool

text \<open>Past the length guard every index of the header is in range.\<close>

definition udp_Header_parse :: "bytes \<Rightarrow> udp_header result" where
  "udp_Header_parse d =
     (if length d < udp_HEADER_LEN \<or> take 4 d \<noteq> udp_MAGIC then Inl (Err InvalidFormat)
      else
        let u32_at = (\<lambda>i. from_be32 (d ! i) (d ! (i + 1)) (d ! (i + 2)) (d ! (i + 3)));
            ts = from_be64 (d ! 8) (d ! 9) (d ! 10) (d ! 11) (d ! 12) (d ! 13) (d ! 14) (d ! 15)
        in Inr \<lparr>uh_seq = u32_at 4, uh_timestamp = ts, uh_total = u32_at 16,
                uh_offset = u32_at 20, uh_codec = d ! 24, uh_key = (d ! 25 AND 1 = 1)\<rparr>)"

definition udp_Header_codec :: "udp_header \<Rightarrow> codec option" where
  "udp_Header_codec h =
     (if uh_codec h = 1 then Some Jpeg
      else if uh_codec h = 2 then Some H264
      else if uh_codec h = 3
        then Some (Pcm \<lparr>sample_rate_hz = 16000, channels = 1, sample = I16\<rparr>)
      else None)"

datatype reassembly =
    Partial
  | Complete udp_header
  | Gap u32

record reassembler =
  rs_buf :: bytes
  rs_current :: "udp_header option"
  rs_received :: nat
  rs_complete :: nat
  rs_lost :: nat

definition Reassembler_new :: "bytes \<Rightarrow> reassembler" where
  "Reassembler_new buf =
     \<lparr>rs_buf = buf, rs_current = None, rs_received = 0, rs_complete = 0, rs_lost = 0\<rparr>"

text \<open>The \<open>match self.current\<close> of \<open>push\<close>: the lost sequence, if any, and the new state.\<close>

definition Reassembler_start ::
  "reassembler \<Rightarrow> udp_header \<Rightarrow> u32 option \<times> reassembler" where
  "Reassembler_start r h =
     (case rs_current r of
        Some cur \<Rightarrow>
          if uh_seq cur = uh_seq h then (None, r)
          else (Some (uh_seq cur),
                r\<lparr>rs_lost := rs_lost r + 1, rs_current := Some h, rs_received := 0\<rparr>)
      | None \<Rightarrow> (None, r\<lparr>rs_current := Some h, rs_received := 0\<rparr>))"

definition Reassembler_push ::
  "target \<Rightarrow> reassembler \<Rightarrow> bytes \<Rightarrow> reassembly result \<times> reassembler" where
  "Reassembler_push t r datagram =
     (case udp_Header_parse datagram of
        Inl e \<Rightarrow> (Inl e, r)
      | Inr h \<Rightarrow>
          let payload = drop udp_HEADER_LEN datagram;
              tot = unat (uh_total h);
              offset = unat (uh_offset h) in
          if tot > length (rs_buf r) then (Inl (Err (BufferTooSmall tot)), r)
          else
            (case usize_add t offset (length payload) of
               Inl e \<Rightarrow> (Inl e, r)
             | Inr fin \<Rightarrow>
                 if fin > tot then (Inl (Err InvalidFormat), r)
                 else
                   (case Reassembler_start r h of (gap, r1) \<Rightarrow>
                      (case copy_range (rs_buf r1) offset fin payload of
                         Inl e \<Rightarrow> (Inl e, r1)
                       | Inr buf \<Rightarrow>
                           let received = rs_received r1 + length payload;
                               r2 = r1\<lparr>rs_buf := buf, rs_received := received\<rparr> in
                           if received \<ge> tot
                           then (Inr (Complete h),
                                 r2\<lparr>rs_current := None, rs_complete := rs_complete r2 + 1\<rparr>)
                           else (Inr (case gap of None \<Rightarrow> Partial | Some lost \<Rightarrow> Gap lost), r2)))))"

definition Reassembler_packet :: "reassembler \<Rightarrow> udp_header \<Rightarrow> bytes result" where
  "Reassembler_packet r h = subslice (rs_buf r) 0 (unat (uh_total h))"

text \<open>Datagrams pushed one after the other: every answer, and the final state.\<close>

abbreviation Reassembler_feed ::
  "target \<Rightarrow> reassembler \<Rightarrow> bytes list \<Rightarrow> reassembly result list \<times> reassembler" where
  "Reassembler_feed t \<equiv> feed (Reassembler_push t)"

section \<open>What the framer sends\<close>

definition udp_header_bytes ::
  "(codec \<Rightarrow> u8) \<Rightarrow> u32 \<Rightarrow> media_packet \<Rightarrow> u32 \<Rightarrow> nat \<Rightarrow> bytes" where
  "udp_header_bytes tag seq p tot offset =
     udp_MAGIC @ be32 seq @ be64 (mp_timestamp p) @ be32 tot @ be32 (of_nat offset) @
     [tag (mp_codec p), if mp_key p then 1 else 0, 0, 0]"

lemma length_udp_header_bytes [simp]: "length (udp_header_bytes tag seq p tot off) = 28"
  by (simp add: udp_header_bytes_def udp_MAGIC_def)

text \<open>The fragments of a payload: offset and bytes, at least one fragment.\<close>

function fragments :: "nat \<Rightarrow> nat \<Rightarrow> bytes \<Rightarrow> (nat \<times> bytes) list" where
  "fragments n off rest =
     (off, take n rest) #
     (if n = 0 \<or> length rest \<le> n then [] else fragments n (off + n) (drop n rest))"
  by pat_completeness auto
termination
  by (relation "measure (\<lambda>(n, off, rest). length rest)") auto

declare fragments.simps [simp del]

definition udp_datagram ::
  "(codec \<Rightarrow> u8) \<Rightarrow> u32 \<Rightarrow> media_packet \<Rightarrow> nat \<times> bytes \<Rightarrow> bytes" where
  "udp_datagram tag seq p f =
     udp_header_bytes tag seq p (of_nat (length (mp_data p))) (fst f) @ snd f"

definition udp_datagrams :: "(codec \<Rightarrow> u8) \<Rightarrow> framer \<Rightarrow> media_packet \<Rightarrow> bytes list" where
  "udp_datagrams tag fr p =
     map (udp_datagram tag (fr_seq fr) p) (fragments (fr_mtu fr - udp_HEADER_LEN) 0 (mp_data p))"

lemma Framer_header_eq:
  assumes "28 \<le> length scratch"
  shows "Framer_header tag scratch seq p tot off =
    Inr (udp_header_bytes tag seq p tot off @ drop 28 scratch)"
  using assms
  by (simp add: Framer_header_def udp_header_bytes_def udp_MAGIC_def be32_def be64_def)

lemma Framer_loop_spec:
  assumes "0 < n" and "udp_HEADER_LEN + n \<le> length scratch"
    and "rest = drop off (mp_data p)" and "off \<le> length (mp_data p)"
  shows "\<exists>scratch'. length scratch' = length scratch \<and>
    Framer_loop tag emit n seq (of_nat (length (mp_data p))) p scratch off k s =
      (let ds = map (udp_datagram tag seq p) (fragments n off rest) in
       case write_seq emit ds s of
         (Inl e, s') \<Rightarrow> Some (Inl e, scratch', s')
       | (Inr _, s') \<Rightarrow> Some (Inr (k + length ds), scratch', s'))"
  using assms
proof (induction n off rest arbitrary: scratch k s rule: fragments.induct)
  case (1 n off rest)
  let ?tot = "of_nat (length (mp_data p)) :: u32"
  let ?m = "min (length (mp_data p) - off) n"
  let ?d = "udp_datagram tag seq p (off, take n rest)"
  let ?sc = "?d @ drop (28 + ?m) scratch"
  have m: "take ?m (drop off (mp_data p)) = take n rest" "length (take n rest) = ?m"
    using "1.prems" by (simp_all add: min_def)
  have step: "bind_r (Framer_header tag scratch seq p ?tot off) (\<lambda>h.
      bind_r (subslice (mp_data p) off (off + ?m)) (\<lambda>body.
      copy_range h udp_HEADER_LEN (udp_HEADER_LEN + ?m) body)) = Inr ?sc"
    using "1.prems" m
    by (simp add: Framer_header_eq udp_HEADER_LEN_def udp_datagram_def min_def add.commute)
  have sl: "subslice ?sc 0 (udp_HEADER_LEN + ?m) = Inr ?d"
    using "1.prems" m by (simp add: udp_HEADER_LEN_def udp_datagram_def)
  have len: "length ?sc = length scratch"
    using "1.prems" m by (simp add: udp_HEADER_LEN_def udp_datagram_def)
  obtain o1 s1 where e: "emit s ?d = (o1, s1)" by (cases "emit s ?d")
  note unf = Framer_loop.simps [of tag emit n seq ?tot p scratch off k s]
  show ?case
  proof (cases o1)
    case (Inl f)
    then have "Framer_loop tag emit n seq ?tot p scratch off k s = Some (Inl f, ?sc, s1)"
      by (simp only: unf Let_def step sl e sum.case prod.case)
    moreover have "write_seq emit (map (udp_datagram tag seq p) (fragments n off rest)) s = (Inl f, s1)"
      using e Inl by (simp add: fragments.simps [of n off rest])
    ultimately show ?thesis using len by (auto simp: Let_def)
  next
    case (Inr u)
    show ?thesis
    proof (cases "length rest \<le> n")
      case True
      then have fin: "length (mp_data p) \<le> off + ?m" using "1.prems" by (simp add: min_def)
      have "Framer_loop tag emit n seq ?tot p scratch off k s = Some (Inr (k + 1), ?sc, s1)"
        by (simp only: unf Let_def step sl e Inr sum.case prod.case fin if_True)
      moreover have "write_seq emit (map (udp_datagram tag seq p) (fragments n off rest)) s = (Inr (), s1)"
        using e Inr True by (simp add: fragments.simps [of n off rest])
      ultimately show ?thesis using len True
        by (auto simp: Let_def fragments.simps [of n off rest])
    next
      case False
      then have fin: "\<not> length (mp_data p) \<le> off + ?m" "?m = n" using "1.prems" by (auto simp: min_def)
      have lp: "Framer_loop tag emit n seq ?tot p scratch off k s =
          Framer_loop tag emit n seq ?tot p ?sc (off + n) (k + 1) s1"
        using fin step sl e Inr by (simp add: unf)
      have "\<exists>scratch'. length scratch' = length ?sc \<and>
        Framer_loop tag emit n seq ?tot p ?sc (off + n) (k + 1) s1 =
          (let ds = map (udp_datagram tag seq p) (fragments n (off + n) (drop n rest)) in
           case write_seq emit ds s1 of
             (Inl e, s') \<Rightarrow> Some (Inl e, scratch', s')
           | (Inr _, s') \<Rightarrow> Some (Inr (k + 1 + length ds), scratch', s'))"
        using "1.prems" False len by (intro "1.IH") (auto simp: add.commute)
      moreover have fr: "fragments n off rest = (off, take n rest) # fragments n (off + n) (drop n rest)"
        using False "1.prems"(1) by (simp add: fragments.simps [of n off rest])
      moreover have "write_seq emit (map (udp_datagram tag seq p) (fragments n off rest)) s =
          write_seq emit (map (udp_datagram tag seq p) (fragments n (off + n) (drop n rest))) s1"
        using e Inr by (simp add: fr)
      ultimately show ?thesis
        by (simp only: lp Let_def len fr length_map length_Cons add_Suc_right add_Suc Suc_eq_plus1
             add.assoc add.commute [of 1])
    qed
  qed
qed

lemma Framer_frame_spec:
  assumes "udp_HEADER_LEN < fr_mtu fr" and "fr_mtu fr \<le> length scratch"
    and "length (mp_data p) < 2 ^ 32"
  obtains scratch' where "length scratch' = length scratch"
    and "Framer_frame tag emit fr p scratch s =
      (case write_seq emit (udp_datagrams tag fr p) s of
         (Inl e, s') \<Rightarrow> Some (Inl e, fr\<lparr>fr_seq := fr_seq fr + 1\<rparr>, scratch', s')
       | (Inr _, s') \<Rightarrow> Some (Inr (length (udp_datagrams tag fr p)),
           fr\<lparr>fr_seq := fr_seq fr + 1\<rparr>, scratch', s'))"
proof -
  have "0 < fr_mtu fr - udp_HEADER_LEN" "udp_HEADER_LEN + (fr_mtu fr - udp_HEADER_LEN) \<le> length scratch"
    using assms by simp_all
  from Framer_loop_spec [OF this drop_0 [of "mp_data p", symmetric] le0, of tag emit "fr_seq fr" 0 s]
  have "\<exists>scratch'. length scratch' = length scratch \<and>
    Framer_loop tag emit (fr_mtu fr - udp_HEADER_LEN) (fr_seq fr)
        (of_nat (length (mp_data p))) p scratch 0 0 s =
      (case write_seq emit (udp_datagrams tag fr p) s of
         (Inl e, s') \<Rightarrow> Some (Inl e, scratch', s')
       | (Inr _, s') \<Rightarrow> Some (Inr (length (udp_datagrams tag fr p)), scratch', s'))"
    unfolding udp_datagrams_def Let_def add_0 .
  then obtain scratch' where len: "length scratch' = length scratch"
    and loop: "Framer_loop tag emit (fr_mtu fr - udp_HEADER_LEN) (fr_seq fr)
        (of_nat (length (mp_data p))) p scratch 0 0 s =
      (case write_seq emit (udp_datagrams tag fr p) s of
         (Inl e, s') \<Rightarrow> Some (Inl e, scratch', s')
       | (Inr _, s') \<Rightarrow> Some (Inr (length (udp_datagrams tag fr p)), scratch', s'))"
    by blast
  show thesis
    by (rule that [OF len])
      (use assms in \<open>simp add: Framer_frame_def loop split: prod.split sum.split\<close>)
qed

lemma udp_Header_parse_header:
  "udp_Header_parse (udp_header_bytes tag seq p tot off @ body) =
     Inr \<lparr>uh_seq = seq, uh_timestamp = mp_timestamp p, uh_total = tot, uh_offset = of_nat off,
          uh_codec = tag (mp_codec p), uh_key = mp_key p\<rparr>"
  by (simp add: udp_Header_parse_def udp_header_bytes_def udp_HEADER_LEN_def udp_MAGIC_def
      be32_def be64_def be_simps nth_append Let_def)

text \<open>Facts about the fragments of a payload.\<close>

lemma fragments_offsets:
  "(o1, c) \<in> set (fragments n off rest) \<Longrightarrow>
    off \<le> o1 \<and> o1 + length c \<le> off + length rest \<and> c = take (length c) (drop (o1 - off) rest)
     \<and> length c \<le> max n (length c)"
proof (induction n off rest rule: fragments.induct)
  case (1 n off rest)
  then show ?case
    apply (subst (asm) (2) fragments.simps)
    apply (auto split: if_splits)
    done
qed

lemma sum_fragments: "0 < n \<Longrightarrow> (\<Sum>f\<leftarrow>fragments n off rest. length (snd f)) = length rest"
proof (induction n off rest rule: fragments.induct)
  case (1 n off rest)
  then show ?case
    by (subst fragments.simps) auto
qed

lemma fragments_nonempty: "rest \<noteq> [] \<Longrightarrow> 0 < n \<Longrightarrow> (o1, c) \<in> set (fragments n off rest) \<Longrightarrow> c \<noteq> []"
proof (induction n off rest rule: fragments.induct)
  case (1 n off rest)
  then show ?case
    apply (subst (asm) (2) fragments.simps)
    apply (auto split: if_splits)
    done
qed

lemma fragments_size:
  "(o1, c) \<in> set (fragments n off rest) \<Longrightarrow> 0 < n \<Longrightarrow> length c \<le> n"
proof (induction n off rest rule: fragments.induct)
  case (1 n off rest)
  then show ?case
    by (subst (asm) (2) fragments.simps) (auto split: if_splits)
qed

lemma concat_fragments: "0 < n \<Longrightarrow> concat (map snd (fragments n off rest)) = rest"
proof (induction n off rest rule: fragments.induct)
  case (1 n off rest)
  then show ?case by (subst fragments.simps) simp
qed

lemma fragments_cover:
  "0 < n \<Longrightarrow> off \<le> j \<Longrightarrow> j < off + length rest \<Longrightarrow>
   \<exists>(o1, c) \<in> set (fragments n off rest). o1 \<le> j \<and> j < o1 + length c"
proof (induction n off rest rule: fragments.induct)
  case (1 n off rest)
  show ?case
  proof (cases "j < off + length (take n rest)")
    case True
    with 1 show ?thesis by (subst fragments.simps) auto
  next
    case False
    with "1.prems" have "\<not> length rest \<le> n" "off + n \<le> j" "j < off + n + length (drop n rest)"
      by (auto simp: min_def split: if_splits)
    with 1 have "\<exists>(o1, c) \<in> set (fragments n (off + n) (drop n rest)). o1 \<le> j \<and> j < o1 + length c"
      by auto
    then show ?thesis using \<open>\<not> length rest \<le> n\<close> "1.prems"(1) by (subst fragments.simps) auto
  qed
qed

definition udp_fragment_header :: "(codec \<Rightarrow> u8) \<Rightarrow> u32 \<Rightarrow> media_packet \<Rightarrow> nat \<Rightarrow> udp_header" where
  "udp_fragment_header tag seq p off =
     \<lparr>uh_seq = seq, uh_timestamp = mp_timestamp p, uh_total = of_nat (length (mp_data p)),
      uh_offset = of_nat off, uh_codec = tag (mp_codec p), uh_key = mp_key p\<rparr>"

lemma unat_of_nat_u32: "n < 2 ^ 32 \<Longrightarrow> unat (of_nat n :: u32) = n"
  by (simp add: unat_of_nat)

lemma Reassembler_push_fragment:
  assumes fits: "off + length c \<le> length (mp_data p)" "length (mp_data p) < 2 ^ 32"
      "length (mp_data p) < usize_mod t" "length (mp_data p) \<le> length (rs_buf r)"
    and cur: "rs_current r = Some cur" "uh_seq cur = seq"
  shows "Reassembler_push t r (udp_datagram tag seq p (off, c)) =
    (let received = rs_received r + length c;
         r2 = r\<lparr>rs_buf := take off (rs_buf r) @ c @ drop (off + length c) (rs_buf r),
                rs_received := received\<rparr> in
     if length (mp_data p) \<le> received
     then (Inr (Complete (udp_fragment_header tag seq p off)),
           r2\<lparr>rs_current := None, rs_complete := rs_complete r + 1\<rparr>)
     else (Inr Partial, r2))"
proof -
  have "off < 2 ^ 32" using fits by simp
  then show ?thesis using assms
    by (simp add: Reassembler_push_def udp_datagram_def udp_Header_parse_header udp_HEADER_LEN_def
        Reassembler_start_def unat_of_nat_u32 udp_fragment_header_def Let_def)
qed

lemma Reassembler_push_first:
  assumes "off + length c \<le> length (mp_data p)" "length (mp_data p) < 2 ^ 32"
      "length (mp_data p) < usize_mod t" "length (mp_data p) \<le> length (rs_buf r)"
    and "rs_current r = None"
  shows "Reassembler_push t r (udp_datagram tag seq p (off, c)) =
    Reassembler_push t
      (r\<lparr>rs_current := Some (udp_fragment_header tag seq p off), rs_received := 0\<rparr>)
      (udp_datagram tag seq p (off, c))"
proof -
  have "off < 2 ^ 32" using assms by simp
  then show ?thesis using assms
    by (simp add: Reassembler_push_def udp_datagram_def udp_Header_parse_header udp_HEADER_LEN_def
        Reassembler_start_def unat_of_nat_u32 udp_fragment_header_def Let_def)
qed

lemma Reassembler_feed_fragments:
  assumes "frs \<noteq> []"
    and "\<And>off c. (off, c) \<in> set frs \<Longrightarrow>
          c \<noteq> [] \<and> off + length c \<le> length (mp_data p) \<and> c = take (length c) (drop off (mp_data p))"
    and "rs_received r + (\<Sum>f\<leftarrow>frs. length (snd f)) = length (mp_data p)"
    and "length (mp_data p) < 2 ^ 32" "length (mp_data p) < usize_mod t"
    and "length (mp_data p) \<le> length (rs_buf r)"
    and "rs_current r = Some cur" "uh_seq cur = seq"
  shows "\<exists>r'. Reassembler_feed t r (map (udp_datagram tag seq p) frs) =
        (replicate (length frs - 1) (Inr Partial) @
           [Inr (Complete (udp_fragment_header tag seq p (fst (last frs))))], r') \<and>
      rs_current r' = None \<and> rs_complete r' = rs_complete r + 1 \<and> rs_lost r' = rs_lost r \<and>
      length (rs_buf r') = length (rs_buf r) \<and>
      (\<forall>j < length (mp_data p).
         rs_buf r ! j = mp_data p ! j \<or> (\<exists>(off, c) \<in> set frs. off \<le> j \<and> j < off + length c) \<longrightarrow>
         rs_buf r' ! j = mp_data p ! j)"
  using assms
proof (induction frs arbitrary: r)
  case Nil
  then show ?case by simp
next
  case (Cons f frs)
  obtain off c where f: "f = (off, c)" by (cases f)
  from Cons.prems(2) [of off c] f
  have c: "c \<noteq> []" "off + length c \<le> length (mp_data p)"
    "c = take (length c) (drop off (mp_data p))" by auto
  let ?buf = "take off (rs_buf r) @ c @ drop (off + length c) (rs_buf r)"
  let ?r2 = "r\<lparr>rs_buf := ?buf, rs_received := rs_received r + length c\<rparr>"
  have nth: "?buf ! j = (if off \<le> j \<and> j < off + length c then mp_data p ! j else rs_buf r ! j)"
    if "j < length (mp_data p)" for j
  proof -
    have "c ! (j - off) = mp_data p ! j" if "off \<le> j" "j < off + length c"
    proof -
      have "c ! (j - off) = take (length c) (drop off (mp_data p)) ! (j - off)" using c(3) by simp
      also have "\<dots> = mp_data p ! j" using that c(2) by simp
      finally show ?thesis .
    qed
    then show ?thesis using c(2) Cons.prems(6) that
      by (auto simp: nth_append min_def)
  qed
  note push = Reassembler_push_fragment [OF c(2) Cons.prems(4,5,6,7,8), of tag, folded f]
  have len: "length ?buf = length (rs_buf r)" using c(2) Cons.prems(6) by simp
  show ?case
  proof (cases "frs = []")
    case True
    then have "length (mp_data p) \<le> rs_received r + length c" using Cons.prems(3) f by simp
    then show ?thesis using True push len nth f by (auto simp: Let_def)
  next
    case False
    then obtain off' c' fs where g: "frs = (off', c') # fs" by (metis list.exhaust surj_pair)
    with Cons.prems(2) [of off' c'] have "0 < length c'" by simp
    then have more: "\<not> length (mp_data p) \<le> rs_received r + length c"
      using Cons.prems(3) f g by (cases c') simp_all
    have "\<exists>r'. Reassembler_feed t ?r2 (map (udp_datagram tag seq p) frs) =
        (replicate (length frs - 1) (Inr Partial) @
           [Inr (Complete (udp_fragment_header tag seq p (fst (last frs))))], r') \<and>
      rs_current r' = None \<and> rs_complete r' = rs_complete ?r2 + 1 \<and> rs_lost r' = rs_lost ?r2 \<and>
      length (rs_buf r') = length (rs_buf ?r2) \<and>
      (\<forall>j < length (mp_data p).
         rs_buf ?r2 ! j = mp_data p ! j \<or> (\<exists>(off, c) \<in> set frs. off \<le> j \<and> j < off + length c) \<longrightarrow>
         rs_buf r' ! j = mp_data p ! j)"
      using False Cons.prems len f by (intro Cons.IH) auto
    then obtain r' where fd: "Reassembler_feed t ?r2 (map (udp_datagram tag seq p) frs) =
        (replicate (length frs - 1) (Inr Partial) @
           [Inr (Complete (udp_fragment_header tag seq p (fst (last frs))))], r')"
      and inv: "rs_current r' = None" "rs_complete r' = rs_complete r + 1" "rs_lost r' = rs_lost r"
       "length (rs_buf r') = length (rs_buf r)"
      and bits: "\<And>j. j < length (mp_data p) \<Longrightarrow>
         ?buf ! j = mp_data p ! j \<or> (\<exists>(off, c) \<in> set frs. off \<le> j \<and> j < off + length c) \<Longrightarrow>
         rs_buf r' ! j = mp_data p ! j"
      using len by auto
    have "Reassembler_feed t r (map (udp_datagram tag seq p) (f # frs)) =
        (replicate (length (f # frs) - 1) (Inr Partial) @
           [Inr (Complete (udp_fragment_header tag seq p (fst (last (f # frs)))))], r')"
      using push more fd False
      by (simp add: Let_def) (metis length_greater_0_conv replicate_Suc Suc_pred append_Cons)
    moreover have "rs_buf r' ! j = mp_data p ! j"
      if "j < length (mp_data p)"
        "rs_buf r ! j = mp_data p ! j \<or> (\<exists>(off, c) \<in> set (f # frs). off \<le> j \<and> j < off + length c)" for j
      using that nth [of j] f by (intro bits) auto
    ultimately show ?thesis using inv by blast
  qed
qed

section \<open>Any order of arrival\<close>

lemma mset_map_reorder:
  "mset ys = image_mset f (mset xs) \<Longrightarrow> \<exists>xs'. ys = map f xs' \<and> mset xs' = mset xs"
proof (induction ys arbitrary: xs)
  case Nil
  then show ?case by simp
next
  case (Cons y ys)
  then have "y \<in># image_mset f (mset xs)" by (metis list.set_intros(1) set_mset_mset)
  then obtain x where "x \<in> set xs" and y: "y = f x" by auto
  then obtain us vs where xs: "xs = us @ x # vs" by (metis split_list)
  with Cons.prems y have "mset ys = image_mset f (mset (us @ vs))" by simp
  with Cons.IH obtain xs' where "ys = map f xs'" "mset xs' = mset (us @ vs)" by blast
  with xs y have "y # ys = map f (x # xs')" "mset (x # xs') = mset xs" by simp_all
  then show ?case by (intro exI [of _ "x # xs'"] conjI)
qed

lemma udp_datagrams_length: "length (udp_datagrams tag fr p) =
    length (fragments (fr_mtu fr - udp_HEADER_LEN) 0 (mp_data p))"
  by (simp add: udp_datagrams_def)

lemma length_fragments:
  "0 < n \<Longrightarrow> length (fragments n off rest) = max 1 ((length rest + n - 1) div n)"
proof (induction n off rest rule: fragments.induct)
  case (1 n off rest)
  show ?case
  proof (cases "length rest \<le> n")
    case True
    then have "(length rest + n - 1) div n \<le> 1"
      using "1.prems" by (simp add: less_Suc_eq_le [symmetric] div_less_iff_less_mult)
    then show ?thesis using True by (subst fragments.simps) simp
  next
    case False
    then have l: "length rest + n - 1 = (length (drop n rest) + n - 1) + n" by simp
    have "(length rest + n - 1) div n = Suc ((length (drop n rest) + n - 1) div n)"
      unfolding l using "1.prems" by (metis Suc_eq_plus1 div_add_self2 not_gr_zero)
    moreover have "1 \<le> (length (drop n rest) + n - 1) div n"
      using False "1.prems" by (simp add: Suc_le_eq div_greater_zero_iff)
    ultimately show ?thesis using False 1 by (subst fragments.simps) simp
  qed
qed

text \<open>The state after all the fragments of a packet, in whatever order they arrived.\<close>

lemma Reassembler_feed_reordered:
  assumes "0 < n" and "length (mp_data p) < 2 ^ 32" "length (mp_data p) < usize_mod t"
    and "length (mp_data p) \<le> length (rs_buf r)"
    and "rs_current r = Some cur" "uh_seq cur = seq" "rs_received r = 0"
    and perm: "mset ds = mset (map (udp_datagram tag seq p) (fragments n 0 (mp_data p)))"
  shows "\<exists>r' h. Reassembler_feed t r ds =
        (replicate (length ds - 1) (Inr Partial) @ [Inr (Complete h)], r') \<and>
      Reassembler_packet r' h = Inr (mp_data p) \<and>
      (\<exists>off. h = udp_fragment_header tag seq p off) \<and>
      rs_current r' = None \<and> rs_complete r' = rs_complete r + 1 \<and> rs_lost r' = rs_lost r \<and>
      length (rs_buf r') = length (rs_buf r)"
proof -
  let ?D = "mp_data p" and ?F = "fragments n 0 (mp_data p)"
  from mset_map_reorder [of ds "udp_datagram tag seq p" ?F] perm
  obtain frs where ds: "ds = map (udp_datagram tag seq p) frs" and m: "mset frs = mset ?F"
    by auto
  have set: "set frs = set ?F" using m by (metis set_mset_mset)
  have ne: "frs \<noteq> []" using m by (auto simp: fragments.simps [of n 0])
  have sum: "(\<Sum>f\<leftarrow>frs. length (snd f)) = length ?D"
    using m sum_fragments [OF assms(1), of 0 ?D]
    by (simp add: mset_map flip: sum_mset_sum_list)
  show ?thesis
  proof (cases "?D = []")
    case True
    then have "?F = [(0, [])]" by (simp add: fragments.simps [of n 0])
    with m have "frs = [(0, [])]" by simp
    then show ?thesis
      using ds True assms Reassembler_push_fragment [of 0 "[]" p t r cur seq tag]
      by (simp add: Let_def Reassembler_packet_def udp_fragment_header_def exI [of _ 0])
  next
    case False
    have frag: "c \<noteq> [] \<and> off + length c \<le> length ?D \<and> c = take (length c) (drop off ?D)"
      if "(off, c) \<in> set frs" for off c
      using that set fragments_offsets [of off c n 0 ?D]
        fragments_nonempty [OF False assms(1), of off c 0] by auto
    from Reassembler_feed_fragments [OF ne frag, of r t cur seq tag] assms sum
    obtain r' where fd: "Reassembler_feed t r ds =
        (replicate (length frs - 1) (Inr Partial) @
           [Inr (Complete (udp_fragment_header tag seq p (fst (last frs))))], r')"
      and st: "rs_current r' = None" "rs_complete r' = rs_complete r + 1" "rs_lost r' = rs_lost r"
        "length (rs_buf r') = length (rs_buf r)"
      and buf: "\<And>j. j < length ?D \<Longrightarrow> (\<exists>(off, c) \<in> set frs. off \<le> j \<and> j < off + length c) \<Longrightarrow>
         rs_buf r' ! j = ?D ! j"
      unfolding ds by auto
    have "take (length ?D) (rs_buf r') = ?D"
      using st assms(4) buf fragments_cover [OF assms(1), of 0 _ ?D] set
      by (intro nth_equalityI) auto
    then have "Reassembler_packet r' (udp_fragment_header tag seq p (fst (last frs))) = Inr ?D"
      using st assms by (simp add: Reassembler_packet_def udp_fragment_header_def unat_of_nat_u32)
    then show ?thesis using fd st ds by auto
  qed
qed

text \<open>
  The first datagram of a packet starts it; with another packet in progress, that one is lost
  and the answer \<open>Partial\<close> becomes \<open>Gap\<close>.
\<close>

lemma Reassembler_push_gap:
  assumes "off + length c \<le> length (mp_data p)" "length (mp_data p) < 2 ^ 32"
      "length (mp_data p) < usize_mod t" "length (mp_data p) \<le> length (rs_buf r)"
    and "rs_current r = Some cur" "uh_seq cur \<noteq> seq"
  shows "Reassembler_push t r (udp_datagram tag seq p (off, c)) =
    (case Reassembler_push t
        (r\<lparr>rs_lost := rs_lost r + 1, rs_current := Some (udp_fragment_header tag seq p off),
           rs_received := 0\<rparr>)
        (udp_datagram tag seq p (off, c)) of
       (x, r1) \<Rightarrow> (if x = Inr Partial then Inr (Gap (uh_seq cur)) else x, r1))"
proof -
  have "off < 2 ^ 32" using assms by simp
  then show ?thesis using assms
    by (simp add: Reassembler_push_def udp_datagram_def udp_Header_parse_header udp_HEADER_LEN_def
        Reassembler_start_def unat_of_nat_u32 udp_fragment_header_def Let_def)
qed

lemma Reassembler_feed_change_head:
  assumes "Reassembler_push t r d = (y, r1)" "Reassembler_push t r0 d = (x, r1)"
    and "Reassembler_feed t r0 (d # ds) = (z # zs, r')"
  shows "Reassembler_feed t r (d # ds) = (y # zs, r')"
  using assms by (auto split: prod.splits)

lemma udp_datagrams_member:
  assumes "mset ds = mset (udp_datagrams tag fr p)" and "d \<in> set ds"
  obtains off c where "d = udp_datagram tag (fr_seq fr) p (off, c)"
    and "off + length c \<le> length (mp_data p)"
proof -
  from assms have "d \<in> set (udp_datagrams tag fr p)" by (metis set_mset_mset)
  then obtain off c where "(off, c) \<in> set (fragments (fr_mtu fr - udp_HEADER_LEN) 0 (mp_data p))"
    and "d = udp_datagram tag (fr_seq fr) p (off, c)"
    unfolding udp_datagrams_def by auto
  then show thesis
    using that fragments_offsets [of off c "fr_mtu fr - udp_HEADER_LEN" 0 "mp_data p"] by auto
qed

section \<open>Properties\<close>

lemma Reassembler_feed_packet:
  assumes "udp_HEADER_LEN < fr_mtu fr" and "length (mp_data p) < 2 ^ 32" "length (mp_data p) < usize_mod t"
    and "length (mp_data p) \<le> length (rs_buf r)" and "rs_current r = None"
    and arrival: "mset ds = mset (udp_datagrams tag fr p)"
  shows "\<exists>r' h. Reassembler_feed t r ds =
        (replicate (length ds - 1) (Inr Partial) @ [Inr (Complete h)], r') \<and>
      Reassembler_packet r' h = Inr (mp_data p) \<and>
      uh_seq h = fr_seq fr \<and> uh_timestamp h = mp_timestamp p \<and>
      uh_codec h = tag (mp_codec p) \<and> uh_key h = mp_key p \<and>
      rs_current r' = None \<and> rs_complete r' = rs_complete r + 1 \<and> rs_lost r' = rs_lost r \<and>
      length (rs_buf r') = length (rs_buf r)"
proof -
  let ?ds = "udp_datagrams tag fr p"
  have len: "length ds = length ?ds" using arrival by (rule mset_eq_length)
  have "?ds \<noteq> []"
    by (simp add: udp_datagrams_def fragments.simps [of "fr_mtu fr - udp_HEADER_LEN"])
  with len obtain d ds1 where ds: "ds = d # ds1" by (cases ds) auto
  obtain off c where d: "d = udp_datagram tag (fr_seq fr) p (off, c)"
    and le: "off + length c \<le> length (mp_data p)"
    using udp_datagrams_member [OF arrival, of d] ds by auto
  let ?r0 = "r\<lparr>rs_current := Some (udp_fragment_header tag (fr_seq fr) p off), rs_received := 0\<rparr>"
  have first: "Reassembler_feed t r ds = Reassembler_feed t ?r0 ds"
    using Reassembler_push_first [OF le assms(2-5), of tag "fr_seq fr"] by (simp add: ds d)
  have n: "0 < fr_mtu fr - udp_HEADER_LEN" using assms(1) by simp
  have r0: "length (mp_data p) \<le> length (rs_buf ?r0)"
    "rs_current ?r0 = Some (udp_fragment_header tag (fr_seq fr) p off)" "rs_received ?r0 = 0"
    "uh_seq (udp_fragment_header tag (fr_seq fr) p off) = fr_seq fr"
    using assms(4) by (simp_all add: udp_fragment_header_def)
  have eqs: "rs_complete ?r0 = rs_complete r" "rs_lost ?r0 = rs_lost r" "rs_buf ?r0 = rs_buf r" by simp_all
  from Reassembler_feed_reordered [OF n assms(2,3) r0(1,2,4,3) arrival [unfolded udp_datagrams_def]] eqs
  obtain r' h off' where f: "Reassembler_feed t ?r0 ds =
        (replicate (length ds - 1) (Inr Partial) @ [Inr (Complete h)], r')"
    and h: "h = udp_fragment_header tag (fr_seq fr) p off'"
    and r': "Reassembler_packet r' h = Inr (mp_data p)"
      "rs_current r' = None" "rs_complete r' = rs_complete r + 1" "rs_lost r' = rs_lost r"
      "length (rs_buf r') = length (rs_buf r)"
    by auto
  have "uh_seq h = fr_seq fr \<and> uh_timestamp h = mp_timestamp p \<and>
      uh_codec h = tag (mp_codec p) \<and> uh_key h = mp_key p"
    by (simp add: h udp_fragment_header_def)
  with f r' show ?thesis unfolding first by blast
qed

text \<open>C10: A packet cut by the framer comes back whole from the reassembler, whatever the order
  its datagrams arrive in: every datagram but the last to arrive is answered \<open>Partial\<close>, the last
  one \<open>Complete\<close>, and the buffer then holds exactly the packet's bytes, with its sequence,
  timestamp, codec tag and key flag in the header.\<close>

theorem udp_roundtrip_any_order:
  assumes "udp_HEADER_LEN < fr_mtu fr" and "fr_mtu fr \<le> length scratch"
    and "length (mp_data p) < 2 ^ 32" "length (mp_data p) < usize_mod t"
    and "length (mp_data p) \<le> length (rs_buf r)" and "rs_current r = None"
    and arrival: "mset ds = mset (udp_datagrams tag fr p)"
  shows "(\<exists>scratch'. Framer_frame tag Vec_emit fr p scratch [] =
      Some (Inr (length ds), fr\<lparr>fr_seq := fr_seq fr + 1\<rparr>, scratch', udp_datagrams tag fr p)) \<and>
    (\<exists>r' h. Reassembler_feed t r ds =
        (replicate (length ds - 1) (Inr Partial) @ [Inr (Complete h)], r') \<and>
      Reassembler_packet r' h = Inr (mp_data p) \<and>
      uh_seq h = fr_seq fr \<and> uh_timestamp h = mp_timestamp p \<and>
      uh_codec h = tag (mp_codec p) \<and> uh_key h = mp_key p \<and>
      rs_current r' = None \<and> rs_complete r' = rs_complete r + 1 \<and> rs_lost r' = rs_lost r)"
proof
  have len: "length ds = length (udp_datagrams tag fr p)" using arrival by (rule mset_eq_length)
  show "\<exists>scratch'. Framer_frame tag Vec_emit fr p scratch [] =
      Some (Inr (length ds), fr\<lparr>fr_seq := fr_seq fr + 1\<rparr>, scratch', udp_datagrams tag fr p)"
    by (rule Framer_frame_spec [OF assms(1-3), of tag Vec_emit "[]"]) (simp add: len)
qed (use Reassembler_feed_packet [OF assms(1,3-7)] in blast)

lemma udp_Header_parse_fields:
  "udp_Header_parse (udp_MAGIC @ be32 seq @ be64 ts @ be32 tot @ be32 off @ [c, k, x, y] @ body) =
     Inr \<lparr>uh_seq = seq, uh_timestamp = ts, uh_total = tot, uh_offset = off,
          uh_codec = c, uh_key = (k AND 1 = 1)\<rparr>"
  by (simp add: udp_Header_parse_def udp_HEADER_LEN_def udp_MAGIC_def
      be32_def be64_def be_simps nth_append Let_def)

text \<open>A small framer, packet and reassembler at which the properties are applied.\<close>

definition udp_example_packet :: media_packet where
  "udp_example_packet =
     \<lparr>mp_codec = Jpeg, mp_key = True, mp_timestamp = 5, mp_data = [1, 2, 3, 4, 5]\<rparr>"

definition udp_example_framer :: framer where
  "udp_example_framer = \<lparr>fr_mtu = 31, fr_seq = 7\<rparr>"

lemmas udp_example_defs = udp_example_packet_def udp_example_framer_def udp_HEADER_LEN_def
  Reassembler_new_def

theorem udp_roundtrip_any_order_witness:
  "\<exists>scratch' r' h.
     Framer_frame (\<lambda>_. 1) Vec_emit udp_example_framer udp_example_packet (replicate 31 0) [] =
       Some (Inr 2, udp_example_framer\<lparr>fr_seq := 8\<rparr>, scratch',
         udp_datagrams (\<lambda>_. 1) udp_example_framer udp_example_packet) \<and>
     Reassembler_feed (host_target True) (Reassembler_new (replicate 6 9))
         (rev (udp_datagrams (\<lambda>_. 1) udp_example_framer udp_example_packet)) =
       ([Inr Partial, Inr (Complete h)], r') \<and>
     Reassembler_packet r' h = Inr [1, 2, 3, 4, 5]"
  using udp_roundtrip_any_order [of udp_example_framer "replicate 31 0" udp_example_packet
    "host_target True" "Reassembler_new (replicate 6 9)"
    "rev (udp_datagrams (\<lambda>_. 1) udp_example_framer udp_example_packet)" "\<lambda>_. 1"]
  by (simp add: udp_example_defs udp_datagrams_length length_fragments flip: numeral_2_eq_2) blast

lemma fragments_single: "0 < n \<Longrightarrow> length (fragments n off rest) = 1 \<longleftrightarrow> length rest \<le> n"
  by (subst fragments.simps) (simp add: fragments.simps [of n "off + n"])

text \<open>C32: A packet that starts while another one is unfinished: the loss counter goes up by one and
  the new packet still comes back whole, whatever the order of its datagrams. With more than one of
  them, the first to arrive is answered \<open>Gap\<close> with the unfinished packet's sequence; a packet of a
  single datagram is answered \<open>Complete\<close> at once, and its gap is not reported but for the counter.\<close>

theorem udp_gap_reported:
  assumes "udp_HEADER_LEN < fr_mtu fr"
    and "length (mp_data p) < 2 ^ 32" "length (mp_data p) < usize_mod t"
    and "length (mp_data p) \<le> length (rs_buf r)"
    and "rs_current r = Some cur" and "uh_seq cur \<noteq> fr_seq fr"
    and "mset ds = mset (udp_datagrams tag fr p)"
  shows "\<exists>r' h. Reassembler_feed t r ds =
      (if length (mp_data p) \<le> fr_mtu fr - udp_HEADER_LEN then [Inr (Complete h)]
       else Inr (Gap (uh_seq cur)) # replicate (length ds - 2) (Inr Partial) @ [Inr (Complete h)], r') \<and>
    Reassembler_packet r' h = Inr (mp_data p) \<and> uh_seq h = fr_seq fr \<and> rs_current r' = None \<and>
    rs_lost r' = rs_lost r + 1 \<and> rs_complete r' = rs_complete r + 1"
proof -
  let ?n = "fr_mtu fr - udp_HEADER_LEN"
  have n: "0 < ?n" using assms(1) by auto
  have len: "length ds = length (fragments ?n 0 (mp_data p))"
    using mset_eq_length [OF assms(7)] by (simp add: udp_datagrams_length)
  moreover have "fragments ?n 0 (mp_data p) \<noteq> []" by (simp add: fragments.simps [of ?n 0])
  ultimately obtain d ds1 where ds: "ds = d # ds1" by (cases ds) auto
  have one: "ds1 = [] \<longleftrightarrow> length (mp_data p) \<le> ?n"
    using fragments_single [OF n, of 0 "mp_data p"] unfolding len [symmetric] by (simp add: ds)
  obtain off c where d: "d = udp_datagram tag (fr_seq fr) p (off, c)"
    and le: "off + length c \<le> length (mp_data p)"
    using udp_datagrams_member [OF assms(7), of d] ds by auto
  let ?r0 = "r\<lparr>rs_lost := rs_lost r + 1,
    rs_current := Some (udp_fragment_header tag (fr_seq fr) p off), rs_received := 0\<rparr>"
  from Reassembler_feed_reordered [OF n assms(2,3), of ?r0 _ "fr_seq fr" ds tag]
  obtain r' h off' where fd: "Reassembler_feed t ?r0 ds =
        (replicate (length ds - 1) (Inr Partial) @ [Inr (Complete h)], r')"
    and pk: "Reassembler_packet r' h = Inr (mp_data p)" "h = udp_fragment_header tag (fr_seq fr) p off'"
      "rs_current r' = None" "rs_complete r' = rs_complete r + 1" "rs_lost r' = rs_lost r + 1"
    using assms by (auto simp: udp_datagrams_def udp_fragment_header_def)
  obtain x r1 where push: "Reassembler_push t ?r0 d = (x, r1)"
    by (cases "Reassembler_push t ?r0 d") auto
  have gap: "Reassembler_push t r d = (if x = Inr Partial then Inr (Gap (uh_seq cur)) else x, r1)"
    using Reassembler_push_gap [OF le assms(2-6), of tag] push by (simp add: d)
  show ?thesis
  proof (cases ds1)
    case Nil
    then have "x = Inr (Complete h)" "r1 = r'" using fd push by (simp_all add: ds)
    then show ?thesis using gap pk one Nil by (auto simp: ds udp_fragment_header_def)
  next
    case (Cons d2 ds2)
    then have fd': "Reassembler_feed t ?r0 (d # ds1) =
        (Inr Partial # replicate (length ds2) (Inr Partial) @ [Inr (Complete h)], r')" using fd by (simp add: ds)
    with push have "x = Inr Partial" by (auto split: prod.splits)
    with gap have "Reassembler_push t r d = (Inr (Gap (uh_seq cur)), r1)" by simp
    from Reassembler_feed_change_head [OF this push fd'] pk one Cons show ?thesis
      by (auto simp: ds udp_fragment_header_def)
  qed
qed

text \<open>Over an MTU of 31 the packet takes two datagrams, over one of 40 a single one.\<close>

theorem udp_gap_reported_witness:
  "(\<exists>r' h. Reassembler_feed (host_target True)
        ((Reassembler_new (replicate 6 9))\<lparr>rs_current := Some (udp_fragment_header (\<lambda>_. 1) 6 udp_example_packet 0), rs_received := 3\<rparr>)
        (udp_datagrams (\<lambda>_. 1) udp_example_framer udp_example_packet) =
      ([Inr (Gap 6), Inr (Complete h)], r') \<and>
    Reassembler_packet r' h = Inr [1, 2, 3, 4, 5] \<and> rs_lost r' = 1) \<and>
   (\<exists>r' h. Reassembler_feed (host_target True)
        ((Reassembler_new (replicate 6 9))\<lparr>rs_current := Some (udp_fragment_header (\<lambda>_. 1) 6 udp_example_packet 0), rs_received := 3\<rparr>)
        (udp_datagrams (\<lambda>_. 1) (udp_example_framer\<lparr>fr_mtu := 40\<rparr>) udp_example_packet) = ([Inr (Complete h)], r') \<and>
    Reassembler_packet r' h = Inr [1, 2, 3, 4, 5] \<and> rs_lost r' = 1)"
  (is "?two \<and> ?one")
proof
  let ?r = "(Reassembler_new (replicate 6 9))\<lparr>rs_current := Some (udp_fragment_header (\<lambda>_. 1) 6 udp_example_packet 0), rs_received := 3\<rparr>"
  show ?two
    using udp_gap_reported [of udp_example_framer udp_example_packet "host_target True" ?r
      _ "udp_datagrams (\<lambda>_. 1) udp_example_framer udp_example_packet" "\<lambda>_. 1"]
    by (simp add: udp_example_defs udp_fragment_header_def udp_datagrams_length length_fragments flip: numeral_2_eq_2) blast
  show ?one
    using udp_gap_reported [of "udp_example_framer\<lparr>fr_mtu := 40\<rparr>" udp_example_packet "host_target True" ?r
      _ "udp_datagrams (\<lambda>_. 1) (udp_example_framer\<lparr>fr_mtu := 40\<rparr>) udp_example_packet" "\<lambda>_. 1"]
    by (simp add: udp_example_defs udp_fragment_header_def) blast
qed

text \<open>The framer always returns, whatever the caller's closure does. It offers the closure the
  packet's datagrams in order, none longer than the MTU and as many as the payload needs (one for
  an empty packet); it returns their number when all are accepted and stops at the first error
  with that error, having consumed one sequence number either way.\<close>

lemma Framer_frame_offers:
  assumes "udp_HEADER_LEN < fr_mtu fr" and "fr_mtu fr \<le> length scratch"
    and "length (mp_data p) < 2 ^ 32"
  shows "(\<exists>scratch'. Framer_frame tag emit fr p scratch s =
      Some (case write_seq emit (udp_datagrams tag fr p) s of
         (Inl e, s') \<Rightarrow> (Inl e, fr\<lparr>fr_seq := fr_seq fr + 1\<rparr>, scratch', s')
       | (Inr _, s') \<Rightarrow> (Inr (length (udp_datagrams tag fr p)),
           fr\<lparr>fr_seq := fr_seq fr + 1\<rparr>, scratch', s'))) \<and>
    (\<forall>d. d \<in> set (udp_datagrams tag fr p) \<longrightarrow> length d \<le> fr_mtu fr) \<and>
    length (udp_datagrams tag fr p) =
      max 1 ((length (mp_data p) + (fr_mtu fr - udp_HEADER_LEN) - 1) div (fr_mtu fr - udp_HEADER_LEN)) \<and>
    concat (map (drop udp_HEADER_LEN) (udp_datagrams tag fr p)) = mp_data p"
proof (intro conjI)
  let ?n = "fr_mtu fr - udp_HEADER_LEN"
  have n: "0 < ?n" using assms(1) by simp
  obtain scratch' where "Framer_frame tag emit fr p scratch s =
      (case write_seq emit (udp_datagrams tag fr p) s of
         (Inl e, s') \<Rightarrow> Some (Inl e, fr\<lparr>fr_seq := fr_seq fr + 1\<rparr>, scratch', s')
       | (Inr _, s') \<Rightarrow> Some (Inr (length (udp_datagrams tag fr p)),
           fr\<lparr>fr_seq := fr_seq fr + 1\<rparr>, scratch', s'))"
    by (rule Framer_frame_spec [OF assms])
  then show "\<exists>scratch'. Framer_frame tag emit fr p scratch s =
      Some (case write_seq emit (udp_datagrams tag fr p) s of
         (Inl e, s') \<Rightarrow> (Inl e, fr\<lparr>fr_seq := fr_seq fr + 1\<rparr>, scratch', s')
       | (Inr _, s') \<Rightarrow> (Inr (length (udp_datagrams tag fr p)),
           fr\<lparr>fr_seq := fr_seq fr + 1\<rparr>, scratch', s'))"
    by (intro exI [of _ scratch']) (auto split: prod.splits sum.splits)
  have "length c \<le> ?n" if "(off, c) \<in> set (fragments ?n 0 (mp_data p))" for off c
    using that n by (rule fragments_size)
  then show "\<forall>d. d \<in> set (udp_datagrams tag fr p) \<longrightarrow> length d \<le> fr_mtu fr"
    using assms(1) by (fastforce simp: udp_datagrams_def udp_datagram_def udp_HEADER_LEN_def)
  show "length (udp_datagrams tag fr p) = max 1 ((length (mp_data p) + ?n - 1) div ?n)"
    by (simp add: udp_datagrams_length length_fragments [OF n])
  show "concat (map (drop udp_HEADER_LEN) (udp_datagrams tag fr p)) = mp_data p"
    using n by (simp add: udp_datagrams_def udp_datagram_def udp_HEADER_LEN_def comp_def concat_fragments)
qed

lemma Framer_frame_offers_witness:
  "(\<exists>scratch'. Framer_frame (\<lambda>_. 1) Vec_emit udp_example_framer udp_example_packet (replicate 31 0) [] =
      Some (Inr 2, udp_example_framer\<lparr>fr_seq := 8\<rparr>, scratch',
        udp_datagrams (\<lambda>_. 1) udp_example_framer udp_example_packet))"
  using Framer_frame_offers [of udp_example_framer "replicate 31 0" udp_example_packet "\<lambda>_. 1" Vec_emit "[]"]
  by (simp add: udp_example_defs udp_datagrams_length length_fragments flip: numeral_2_eq_2)

text \<open>The header a datagram carries is the header the parser reads back.\<close>

lemma udp_header_roundtrip:
  assumes "28 \<le> length scratch"
  shows "\<exists>d. Framer_header tag scratch seq p tot off = Inr d \<and>
    udp_Header_parse d =
      Inr \<lparr>uh_seq = seq, uh_timestamp = mp_timestamp p, uh_total = tot, uh_offset = of_nat off,
           uh_codec = tag (mp_codec p), uh_key = mp_key p\<rparr>"
  using assms by (simp add: Framer_header_eq udp_Header_parse_header)

lemma Reassembler_push_no_panic':
  assumes "2 ^ 32 + length datagram \<le> usize_mod t"
  shows "no_panic (fst (Reassembler_push t r datagram))"
proof (cases "udp_Header_parse datagram")
  case (Inl e)
  then show ?thesis
    by (auto simp: Reassembler_push_def udp_Header_parse_def Let_def split: if_splits)
next
  case (Inr h)
  have "unat (uh_offset h) < 2 ^ 32" by (rule unat_u32_bound)
  then have "unat (uh_offset h) + length (drop udp_HEADER_LEN datagram) < usize_mod t"
    using assms by simp
  then show ?thesis using Inr
    by (auto simp: Reassembler_push_def Reassembler_start_def Let_def copy_range_def
        split: option.splits prod.splits if_splits)
qed

text \<open>C33: On a target whose \<open>usize\<close> is wider than the header's 32-bit offset (every host), no
  datagram of any content makes the reassembler panic, whatever state it is in.\<close>

theorem Reassembler_push_no_panic:
  assumes "2 ^ 32 + length datagram \<le> usize_mod t"
  shows "no_panic (fst (Reassembler_push t r datagram))"
  using assms by (rule Reassembler_push_no_panic')

theorem Reassembler_push_no_panic_witness:
  "no_panic (fst (Reassembler_push (host_target True) (Reassembler_new []) (replicate 40 0xFF)))"
  using Reassembler_push_no_panic [of "replicate 40 0xFF" "host_target True" "Reassembler_new []"]
  by simp

text \<open>C34: On a 32-bit target one 29-byte datagram makes the reassembler panic in any state, with
  or without overflow checks: the offset \<open>0xFFFFFFFF\<close> and one payload byte overflow the sum that
  is checked against the total. With checks the addition panics; without, the sum wraps to 0 and
  the slice \<open>buf[0xFFFFFFFF..0]\<close> panics.\<close>

theorem Reassembler_push_esp32_panics:
  "fst (Reassembler_push (esp32_target checks) r
     (udp_MAGIC @ be32 seq @ be64 ts @ be32 0 @ be32 0xFFFFFFFF @ [codec, flags, 0, 0] @ [payload]))
   = Inl Panic"
proof -
  let ?d = "udp_MAGIC @ be32 seq @ be64 ts @ be32 0 @ be32 0xFFFFFFFF @ [codec, flags, 0, 0] @ [payload]"
  have "drop udp_HEADER_LEN ?d = [payload]" by (simp add: udp_MAGIC_def udp_HEADER_LEN_def)
  moreover note udp_Header_parse_fields [of seq ts 0 "0xFFFFFFFF" codec flags 0 0 "[payload]"]
  ultimately show ?thesis
    by (simp add: Reassembler_push_def Reassembler_start_def Let_def usize_add_def copy_range_def
        split: option.splits)
qed

text \<open>C35: A duplicated datagram counts twice: a packet of two datagrams whose first one arrives
  twice is reported \<open>Complete\<close>, though its tail never arrived, and the packet handed out ends
  with whatever bytes the buffer held before.\<close>

theorem Reassembler_duplicate_completes:
  assumes "udp_HEADER_LEN < fr_mtu fr"
    and "fr_mtu fr - udp_HEADER_LEN < length (mp_data p)"
    and "length (mp_data p) \<le> 2 * (fr_mtu fr - udp_HEADER_LEN)"
    and "length (mp_data p) < 2 ^ 32" "length (mp_data p) < usize_mod t"
    and "length (mp_data p) \<le> length (rs_buf r)" and "rs_current r = None"
  shows "\<exists>first rest h r'. udp_datagrams tag fr p = [first, rest] \<and>
    Reassembler_feed t r [first, first] = ([Inr Partial, Inr (Complete h)], r') \<and>
    Reassembler_packet r' h =
      Inr (take (fr_mtu fr - udp_HEADER_LEN) (mp_data p) @
           drop (fr_mtu fr - udp_HEADER_LEN) (take (length (mp_data p)) (rs_buf r)))"
proof -
  let ?n = "fr_mtu fr - udp_HEADER_LEN" and ?D = "mp_data p"
  let ?c = "take ?n ?D" and ?h = "udp_fragment_header tag (fr_seq fr) p 0"
  have fr: "fragments ?n 0 ?D = [(0, ?c), (?n, drop ?n ?D)]"
  proof -
    have "?n \<noteq> 0" "\<not> length ?D \<le> ?n" "length (drop ?n ?D) \<le> ?n" using assms(1-3) by auto
    then show ?thesis by (simp add: fragments.simps [of ?n])
  qed
  have le: "0 + length ?c \<le> length ?D" by simp
  have len: "length ?c = ?n" using assms(2) by simp
  let ?r1 = "r\<lparr>rs_current := Some ?h, rs_received := 0\<rparr>"
  let ?buf = "?c @ drop ?n (rs_buf r)"
  let ?r2 = "?r1\<lparr>rs_buf := ?buf, rs_received := ?n\<rparr>"
  have p1: "Reassembler_push t r (udp_datagram tag (fr_seq fr) p (0, ?c)) = (Inr Partial, ?r2)"
    unfolding Reassembler_push_first [OF le assms(4-7)]
    using Reassembler_push_fragment [OF le assms(4,5), of ?r1 ?h "fr_seq fr" tag] assms(2,6) len
    by (simp add: udp_fragment_header_def Let_def)
  have p2: "\<exists>r'. Reassembler_push t ?r2 (udp_datagram tag (fr_seq fr) p (0, ?c)) =
      (Inr (Complete ?h), r') \<and> rs_buf r' = ?buf"
    using Reassembler_push_fragment [OF le assms(4,5), of ?r2 ?h "fr_seq fr" tag] assms(1-3,6) len
    by (simp add: udp_fragment_header_def Let_def)
  then obtain r' where p2: "Reassembler_push t ?r2 (udp_datagram tag (fr_seq fr) p (0, ?c)) =
      (Inr (Complete ?h), r')" and buf: "rs_buf r' = ?buf" by blast
  have "Reassembler_packet r' ?h = Inr (?c @ drop ?n (take (length ?D) (rs_buf r)))"
    using assms(1-6) by (simp add: Reassembler_packet_def buf udp_fragment_header_def unat_of_nat_u32 drop_take)
  then show ?thesis
    using p1 p2 fr by (intro exI conjI) (auto simp: udp_datagrams_def)
qed

theorem Reassembler_duplicate_completes_witness:
  "\<exists>first rest h r'. udp_datagrams (\<lambda>_. 1) udp_example_framer udp_example_packet = [first, rest] \<and>
    Reassembler_feed (host_target True) (Reassembler_new (replicate 6 9)) [first, first] =
      ([Inr Partial, Inr (Complete h)], r') \<and>
    Reassembler_packet r' h = Inr [1, 2, 3, 9, 9]"
  using Reassembler_duplicate_completes [of udp_example_framer udp_example_packet
    "host_target True" "Reassembler_new (replicate 6 9)" "\<lambda>_. 1"]
  by (simp add: udp_example_defs)

end
