(* ===== verification/Pacer.thy ===== *)
theory Pacer
  imports Media
begin

text \<open>
  Which frames to send, \<open>pacer.rs\<close>: \<open>Pacer\<close> caps the frame rate (the generic cell rate
  algorithm), \<open>Budget\<close> caps the bit rate (a token bucket in bytes). Both decide on whole
  frames and count what they drop.
\<close>

text \<open>\<open>u64::saturating_add\<close>\<close>

definition sat_add :: "u64 \<Rightarrow> u64 \<Rightarrow> u64" where
  "sat_add a b = (if unat a + unat b < 2 ^ 64 then a + b else - 1)"

lemma unat_max_u64: "unat (- 1 :: u64) = 2 ^ 64 - 1"
  by (simp add: unsigned_minus_1_eq_mask mask_eq_exp_minus_1)

lemma unat_sat_add: "unat (sat_add a b) = min (unat a + unat b) (2 ^ 64 - 1)"
proof (cases "unat a + unat b < 2 ^ 64")
  case True
  then have "unat (a + b) = unat a + unat b" by (simp add: unat_word_ariths)
  then show ?thesis using True by (simp add: sat_add_def)
next
  case False
  then show ?thesis by (simp add: sat_add_def unat_max_u64)
qed

section \<open>The frame-rate cap\<close>

record pacer =
  pc_interval :: u64
  pc_tolerance :: u64
  pc_due :: "u64 option"
  pc_admitted :: nat
  pc_dropped :: nat

definition Pacer_with_burst :: "u32 \<Rightarrow> u32 \<Rightarrow> pacer" where
  "Pacer_with_burst fps burst =
     (let interval = (if fps = 0 then 0 else 1000000 div ucast fps) in
      \<lparr>pc_interval = interval, pc_tolerance = interval * ucast burst, pc_due = None,
       pc_admitted = 0, pc_dropped = 0\<rparr>)"

definition Pacer_new :: "u32 \<Rightarrow> pacer" where
  "Pacer_new fps = Pacer_with_burst fps 0"

definition Pacer_admit :: "pacer \<Rightarrow> micros \<Rightarrow> bool \<times> pacer" where
  "Pacer_admit p t =
     (let ok = (pc_interval p = 0 \<or>
          (case pc_due p of None \<Rightarrow> True | Some due \<Rightarrow> sat_add t (pc_tolerance p) \<ge> due)) in
      (ok,
       if ok then
         (let p1 =
            (if pc_interval p \<noteq> 0 then
               (let start = (case pc_due p of None \<Rightarrow> t | Some due \<Rightarrow> max due t) in
                p\<lparr>pc_due := Some (sat_add start (pc_interval p))\<rparr>)
             else p) in
          p1\<lparr>pc_admitted := pc_admitted p1 + 1\<rparr>)
       else p\<lparr>pc_dropped := pc_dropped p + 1\<rparr>))"

definition Pacer_reset :: "pacer \<Rightarrow> pacer" where
  "Pacer_reset p = p\<lparr>pc_due := None\<rparr>"

text \<open>A run of the pacer over the arrival times of a sensor.\<close>

fun Pacer_run :: "pacer \<Rightarrow> micros list \<Rightarrow> bool list \<times> pacer" where
  "Pacer_run p [] = ([], p)"
| "Pacer_run p (t # ts) =
     (case Pacer_admit p t of (ok, p1) \<Rightarrow>
        (case Pacer_run p1 ts of (oks, p2) \<Rightarrow> (ok # oks, p2)))"

lemma Pacer_admit_counts:
  "Pacer_admit p t = (ok, p') \<Longrightarrow>
     pc_admitted p' = pc_admitted p + (if ok then 1 else 0) \<and>
     pc_dropped p' = pc_dropped p + (if ok then 0 else 1) \<and>
     pc_interval p' = pc_interval p \<and> pc_tolerance p' = pc_tolerance p"
  by (auto simp: Pacer_admit_def Let_def)

lemma Pacer_run_counts:
  "Pacer_run p ts = (oks, p') \<Longrightarrow>
     pc_admitted p' = pc_admitted p + count_list oks True \<and>
     pc_dropped p' = pc_dropped p + count_list oks False \<and> length oks = length ts \<and>
     pc_interval p' = pc_interval p \<and> pc_tolerance p' = pc_tolerance p"
proof (induction ts arbitrary: p oks p')
  case (Cons t ts)
  obtain ok p1 where a: "Pacer_admit p t = (ok, p1)" by fastforce
  obtain oks1 p2 where r: "Pacer_run p1 ts = (oks1, p2)" by fastforce
  from Cons.prems a r have "oks = ok # oks1" "p' = p2" by simp_all
  with Cons.IH [OF r] Pacer_admit_counts [OF a] show ?case by auto
qed simp

text \<open>The due time, as a number: 0 before the first frame.\<close>

definition due_at :: "pacer \<Rightarrow> nat" where
  "due_at p = (case pc_due p of None \<Rightarrow> 0 | Some d \<Rightarrow> unat d)"

lemma Pacer_admit_due:
  assumes "pc_interval p \<noteq> 0"
  shows "fst (Pacer_admit p t) \<longleftrightarrow>
      due_at p \<le> min (unat t + unat (pc_tolerance p)) (2 ^ 64 - 1)"
    and "due_at (snd (Pacer_admit p t)) =
      (if fst (Pacer_admit p t)
       then min (max (due_at p) (unat t) + unat (pc_interval p)) (2 ^ 64 - 1) else due_at p)"
  using assms
  by (auto simp: Pacer_admit_def due_at_def Let_def word_le_nat_alt unat_sat_add max_def
      split: option.splits)

text \<open>
  Every admitted frame moves the due time at least one interval on, and past its own arrival.
\<close>

lemma Pacer_run_due:
  assumes "pc_interval p \<noteq> 0" and "Pacer_run p ts = (oks, p')"
    and "\<forall>t \<in> set ts. lo \<le> unat t" and "min (2 ^ 64 - 1) (lo + k * unat (pc_interval p)) \<le> due_at p \<or> k = 0"
  shows "min (2 ^ 64 - 1) (lo + (k + count_list oks True) * unat (pc_interval p)) \<le> due_at p' \<or>
    k + count_list oks True = 0"
  using assms
proof (induction ts arbitrary: p oks p' k)
  case (Cons t ts)
  obtain ok p1 where a: "Pacer_admit p t = (ok, p1)" by fastforce
  obtain oks1 p2 where r: "Pacer_run p1 ts = (oks1, p2)" by fastforce
  from Cons.prems a r have eq: "oks = ok # oks1" "p' = p2" by simp_all
  from Pacer_admit_counts [OF a] have i: "pc_interval p1 = pc_interval p" by simp
  have lo: "lo \<le> unat t" using Cons.prems(3) by simp
  have d: "due_at p1 = (if ok then min (max (due_at p) (unat t) + unat (pc_interval p)) (2 ^ 64 - 1)
      else due_at p)"
    using Pacer_admit_due(2) [OF Cons.prems(1), of t] a by simp
  let ?k = "if ok then Suc k else k"
  have "min (2 ^ 64 - 1) (lo + ?k * unat (pc_interval p1)) \<le> due_at p1 \<or> ?k = 0"
    using Cons.prems(4) lo by (auto simp: d i)
  from Cons.IH [OF _ r _ this] Cons.prems i
  show ?case by (auto simp: eq split: if_splits)
qed simp

lemma Pacer_run_rate:
  assumes "pc_interval p \<noteq> 0" and "Pacer_run p ts = (oks, p')"
    and "\<forall>t \<in> set ts. lo \<le> unat t \<and> unat t \<le> hi"
    and "hi + unat (pc_tolerance p) < 2 ^ 64 - 1"
  shows "(count_list oks True - 1) * unat (pc_interval p) \<le> (hi - lo) + unat (pc_tolerance p)"
  using assms
proof (induction ts arbitrary: oks p' rule: rev_induct)
  case (snoc t ts)
  obtain oks1 p1 where r: "Pacer_run p ts = (oks1, p1)" by fastforce
  obtain ok p2 where a: "Pacer_admit p1 t = (ok, p2)" by fastforce
  have app: "Pacer_run q (us @ [t]) =
      (case Pacer_run q us of (xs, q1) \<Rightarrow> case Pacer_admit q1 t of (y, q2) \<Rightarrow> (xs @ [y], q2))"
    for q us by (induction us arbitrary: q) (auto split: prod.splits)
  from snoc.prems(2) r a have eq: "oks = oks1 @ [ok]" by (simp add: app)
  from Pacer_run_counts [OF r]
  have i: "pc_interval p1 = pc_interval p" "pc_tolerance p1 = pc_tolerance p" by simp_all
  show ?case
  proof (cases ok)
    case False
    then show ?thesis using snoc.IH [OF snoc.prems(1) r] snoc.prems eq by simp
  next
    case True
    let ?n = "count_list oks1 True"
    have t: "lo \<le> unat t" "unat t \<le> hi" using snoc.prems(3) by simp_all
    have "due_at p1 \<le> min (unat t + unat (pc_tolerance p)) (2 ^ 64 - 1)"
      using Pacer_admit_due(1) [of p1 t] snoc.prems(1) a True i by simp
    moreover have "min (2 ^ 64 - 1) (lo + ?n * unat (pc_interval p)) \<le> due_at p1 \<or> ?n = 0"
      using Pacer_run_due [OF snoc.prems(1) r, of lo 0] snoc.prems(3) by simp
    ultimately have "lo + ?n * unat (pc_interval p) \<le> hi + unat (pc_tolerance p) \<or> ?n = 0"
      using snoc.prems(4) t by (auto simp: min_def split: if_splits)
    then show ?thesis using True eq t by auto
  qed
qed simp

lemma unat_interval:
  "unat (pc_interval (Pacer_with_burst fps burst)) = 1000000 div unat fps"
  "unat (pc_tolerance (Pacer_with_burst fps burst)) = 1000000 div unat fps * unat burst"
  "pc_due (Pacer_with_burst fps burst) = None"
proof -
  have f: "unat (ucast fps :: u64) = unat fps" "unat (ucast burst :: u64) = unat burst"
    by (simp_all add: unat_ucast_up)
  let ?i = "if fps = 0 then 0 else 1000000 div (ucast fps :: u64)"
  have i: "unat ?i = 1000000 div unat fps"
    by (simp add: unat_div f)
  have "1000000 div unat fps < (2 ^ 20 :: nat)"
    using div_le_dividend [of 1000000 "unat fps"] by (rule le_less_trans) simp
  then have "1000000 div unat fps * unat burst < 2 ^ 20 * 2 ^ 32"
    using unat_u32_bound [of burst] by (intro mult_strict_mono') simp_all
  then have "1000000 div unat fps * unat burst < 2 ^ 64" by simp
  then have "unat (?i * ucast burst) = 1000000 div unat fps * unat burst"
    by (simp only: unat_word_ariths i f) simp
  then show "unat (pc_interval (Pacer_with_burst fps burst)) = 1000000 div unat fps"
    "unat (pc_tolerance (Pacer_with_burst fps burst)) = 1000000 div unat fps * unat burst"
    "pc_due (Pacer_with_burst fps burst) = None"
    using i by (simp_all only: Pacer_with_burst_def Let_def pacer.select_convs)
qed

text \<open>The spacing rule: a frame passes when an interval has gone by since the last that did.\<close>

fun spaced :: "nat \<Rightarrow> nat option \<Rightarrow> nat list \<Rightarrow> bool list" where
  "spaced I l [] = []"
| "spaced I l (t # ts) =
     (let ok = (case l of None \<Rightarrow> True | Some t0 \<Rightarrow> I \<le> t - t0) in
      ok # spaced I (if ok then Some t else l) ts)"

lemma Pacer_run_spaced:
  assumes "pc_tolerance p = 0" and "unat (pc_interval p) = I"
    and "\<forall>t \<in> set ts. unat t + I < 2 ^ 64 - 1"
    and "case l of None \<Rightarrow> pc_due p = None
           | Some t0 \<Rightarrow> I \<noteq> 0 \<longrightarrow> (\<exists>d. pc_due p = Some d \<and> unat d = t0 + I)"
  shows "fst (Pacer_run p ts) = spaced I l (map unat ts)"
  using assms
proof (induction ts arbitrary: p l)
  case (Cons t ts)
  obtain ok p1 where a: "Pacer_admit p t = (ok, p1)" by fastforce
  from Pacer_admit_counts [OF a] Cons.prems have c: "pc_tolerance p1 = 0" "unat (pc_interval p1) = I"
    by simp_all
  have t: "unat t + I < 2 ^ 64 - 1" using Cons.prems by simp
  have sat: "sat_add t 0 = t" "unat (sat_add t (pc_interval p)) = unat t + I"
    using t Cons.prems by (simp_all add: sat_add_def unat_word_ariths)
  have ok: "ok \<longleftrightarrow> (case l of None \<Rightarrow> True | Some t0 \<Rightarrow> I \<le> unat t - t0)"
  proof (cases "I = 0")
    case True
    then have "pc_interval p = 0" using Cons.prems(2) by (simp add: unat_eq_0)
    then show ?thesis using a True by (auto simp: Pacer_admit_def Let_def split: option.splits)
  next
    case False
    then have "pc_interval p \<noteq> 0" using Cons.prems(2) by auto
    then show ?thesis using a Cons.prems False sat
      by (auto simp: Pacer_admit_def Let_def word_le_nat_alt split: option.splits)
  qed
  have "case (if ok then Some (unat t) else l) of None \<Rightarrow> pc_due p1 = None
      | Some t0 \<Rightarrow> I \<noteq> 0 \<longrightarrow> (\<exists>d. pc_due p1 = Some d \<and> unat d = t0 + I)"
  proof (cases "I = 0 \<or> \<not> ok")
    case True
    then show ?thesis using a Cons.prems(4) ok by (auto simp: Pacer_admit_def Let_def split: option.splits)
  next
    case False
    then have nz: "pc_interval p \<noteq> 0" using Cons.prems(2) by auto
    have "(case pc_due p of None \<Rightarrow> t | Some due \<Rightarrow> max due t) = t"
      using Cons.prems(4) ok False
      by (auto simp: max_def word_le_nat_alt split: option.splits)
    then have "pc_due p1 = Some (sat_add t (pc_interval p))"
      using a nz False by (auto simp: Pacer_admit_def Let_def)
    then show ?thesis using sat False by simp
  qed
  from Cons.IH [OF c _ this] Cons.prems(3)
  have "fst (Pacer_run p1 ts) = spaced I (if ok then Some (unat t) else l) (map unat ts)" by simp
  then show ?case by (cases "Pacer_run p1 ts") (simp add: a flip: ok)
qed simp

section \<open>Properties of the frame-rate cap\<close>

text \<open>C23: The rate cap. A pacer with a cap of \<open>fps\<close> and an allowance of \<open>burst\<close>, whatever it saw
  before, admits at most \<open>burst + 1\<close> frames more than the whole intervals in the span its next
  frames arrive in (in any order), and counts every one of them once.\<close>

theorem Pacer_rate_cap:
  assumes "fps \<noteq> 0" and "unat fps \<le> 1000000"
    and "Pacer_run (Pacer_with_burst fps burst) past = (oks0, p)"
    and "Pacer_run p ts = (oks, p')"
    and "\<forall>t \<in> set ts. lo \<le> unat t \<and> unat t \<le> hi" and "lo \<le> hi"
    and "hi + 1000000 * unat burst < 2 ^ 64 - 1"
  shows "count_list oks True \<le> (hi - lo) div (1000000 div unat fps) + unat burst + 1 \<and>
    pc_admitted p' = pc_admitted p + count_list oks True \<and>
    pc_dropped p' = pc_dropped p + count_list oks False \<and> length oks = length ts"
proof -
  let ?I = "1000000 div unat fps"
  from Pacer_run_counts [OF assms(3)] have i: "unat (pc_interval p) = ?I"
    "unat (pc_tolerance p) = ?I * unat burst"
    by (simp_all add: unat_interval)
  have "0 < unat fps" using assms(1) by (simp add: unat_gt_0)
  then have I: "0 < ?I" using assms(2) by (simp add: div_greater_zero_iff)
  then have nz: "pc_interval p \<noteq> 0" using i by auto
  have "?I * unat burst \<le> 1000000 * unat burst" by (intro mult_le_mono1) simp
  then have "hi + unat (pc_tolerance p) < 2 ^ 64 - 1" using assms(7) i by linarith
  from Pacer_run_rate [OF nz assms(4,5) this] i
  have "(count_list oks True - 1) * ?I \<le> (hi - lo) + ?I * unat burst" by simp
  then have "count_list oks True - 1 \<le> ((hi - lo) + ?I * unat burst) div ?I"
    by (rule iffD2 [OF less_eq_div_iff_mult_less_eq [OF I]])
  also have "\<dots> = (hi - lo) div ?I + unat burst" using I by (subst div_mult_self2) auto
  finally show ?thesis using Pacer_run_counts [OF assms(4)] by simp
qed

theorem Pacer_rate_cap_witness:
  "count_list (fst (Pacer_run (Pacer_with_burst 10 1) [0, 0, 1, 100000, 150000])) True \<le> 3"
  using Pacer_rate_cap [of 10 1 "[]" "[]" "Pacer_with_burst 10 1" "[0, 0, 1, 100000, 150000]"
      "fst (Pacer_run (Pacer_with_burst 10 1) [0, 0, 1, 100000, 150000])"
      "snd (Pacer_run (Pacer_with_burst 10 1) [0, 0, 1, 100000, 150000])" 0 150000]
  by simp

text \<open>C36: Without an allowance the due-time rule is the spacing rule exactly: a frame is admitted
  when a whole interval has gone by since the last admitted one, whatever order the timestamps
  come in.\<close>

theorem Pacer_new_is_spacing:
  assumes "\<forall>t \<in> set ts. unat t + 1000000 < 2 ^ 64 - 1"
  shows "fst (Pacer_run (Pacer_new fps) ts) = spaced (1000000 div unat fps) None (map unat ts)"
proof (rule Pacer_run_spaced)
  show "\<forall>t \<in> set ts. unat t + 1000000 div unat fps < 2 ^ 64 - 1"
  proof
    fix t assume "t \<in> set ts"
    with assms have "unat t + 1000000 < 2 ^ 64 - 1" by blast
    with div_le_dividend [of 1000000 "unat fps"]
    show "unat t + 1000000 div unat fps < 2 ^ 64 - 1" by linarith
  qed
  have "unat (pc_tolerance (Pacer_new fps)) = 0" by (simp add: Pacer_new_def unat_interval)
  then show "pc_tolerance (Pacer_new fps) = 0" by (simp only: unat_eq_0)
qed (simp_all add: Pacer_new_def unat_interval)

theorem Pacer_new_is_spacing_witness:
  "fst (Pacer_run (Pacer_new 10) [0, 50000, 100000, 99999]) = [True, False, True, False]"
  using Pacer_new_is_spacing [of "[0, 50000, 100000, 99999]" 10] by simp

text \<open>The interval is \<open>1_000_000 / fps\<close> rounded down, so a cap that does not divide a million
  is exceeded: with \<open>fps = 3\<close> and no allowance four frames pass within one second.\<close>

lemma Pacer_three_fps_passes_four:
  "fst (Pacer_run (Pacer_new 3) [0, 333333, 666666, 999999]) = [True, True, True, True]"
  by (simp add: Pacer_new_def Pacer_with_burst_def Pacer_admit_def sat_add_def Let_def max_def)

section \<open>The bit-rate cap\<close>

record budget =
  bg_bytes_per_second :: u64
  bg_burst_bytes :: u64
  bg_tokens :: u64
  bg_last :: "micros option"
  bg_admitted :: nat
  bg_dropped :: nat
  bg_bytes_admitted :: nat

definition Budget_new :: "target \<Rightarrow> u32 \<Rightarrow> u32 \<Rightarrow> budget result" where
  "Budget_new t kbps burst_ms =
     (let bytes_per_second = ucast kbps * 1000 div 8 in
      bind_r (u64_mul t bytes_per_second (ucast (max burst_ms 1))) (\<lambda>m.
        let burst_bytes = m div 1000 in
        Inr \<lparr>bg_bytes_per_second = bytes_per_second, bg_burst_bytes = burst_bytes,
             bg_tokens = burst_bytes, bg_last = None, bg_admitted = 0, bg_dropped = 0,
             bg_bytes_admitted = 0\<rparr>))"

text \<open>
  \<open>since\<close> is \<open>Micros::since\<close> of the core crate. The product is taken in \<open>u128\<close>, where it fits;
  \<open>as u64\<close> then truncates the quotient.
\<close>

definition Budget_admit :: "(micros \<Rightarrow> micros \<Rightarrow> u64) \<Rightarrow> budget \<Rightarrow> micros \<Rightarrow> nat \<Rightarrow> bool \<times> budget" where
  "Budget_admit since b now n =
     (if bg_bytes_per_second b = 0 then
        (True, b\<lparr>bg_admitted := bg_admitted b + 1,
                 bg_bytes_admitted := bg_bytes_admitted b + n\<rparr>)
      else
        let b1 = (case bg_last b of
            None \<Rightarrow> b
          | Some l \<Rightarrow>
              let refill = of_nat (unat (since now l) * unat (bg_bytes_per_second b) div 1000000)
              in b\<lparr>bg_tokens := min (sat_add (bg_tokens b) refill) (bg_burst_bytes b)\<rparr>);
            b2 = b1\<lparr>bg_last := Some now\<rparr>;
            need = (of_nat n :: u64)
        in if need \<le> bg_tokens b2 then
             (True, b2\<lparr>bg_tokens := bg_tokens b2 - need, bg_admitted := bg_admitted b2 + 1,
                       bg_bytes_admitted := bg_bytes_admitted b2 + unat need\<rparr>)
           else (False, b2\<lparr>bg_dropped := bg_dropped b2 + 1\<rparr>))"

definition Budget_burst_bytes :: "budget \<Rightarrow> u64" where
  "Budget_burst_bytes b = bg_burst_bytes b"

definition Budget_reset :: "budget \<Rightarrow> budget" where
  "Budget_reset b = b\<lparr>bg_tokens := bg_burst_bytes b, bg_last := None\<rparr>"

text \<open>A run over the frames of a stream: capture time and size of each.\<close>

fun Budget_run ::
  "(micros \<Rightarrow> micros \<Rightarrow> u64) \<Rightarrow> budget \<Rightarrow> (micros \<times> nat) list \<Rightarrow> bool list \<times> budget" where
  "Budget_run since b [] = ([], b)"
| "Budget_run since b ((t, n) # fs) =
     (case Budget_admit since b t n of (ok, b1) \<Rightarrow>
        (case Budget_run since b1 fs of (oks, b2) \<Rightarrow> (ok # oks, b2)))"

text \<open>The bytes of the frames that were admitted.\<close>

definition admitted_bytes :: "(micros \<times> nat) list \<Rightarrow> bool list \<Rightarrow> nat" where
  "admitted_bytes fs oks = (\<Sum>((t, n), ok) \<leftarrow> zip fs oks. if ok then n else 0)"

definition budget_ok :: "budget \<Rightarrow> bool" where
  "budget_ok b \<longleftrightarrow> bg_tokens b \<le> bg_burst_bytes b"

definition monotone_clock :: "(micros \<Rightarrow> micros \<Rightarrow> u64) \<Rightarrow> bool" where
  "monotone_clock since \<longleftrightarrow> (\<forall>a b. unat a \<le> unat b \<longrightarrow> unat (since b a) = unat b - unat a)"

lemma Budget_admit_token_bound:
  assumes "bg_bytes_per_second b \<noteq> 0" and "budget_ok b" and "n < 2 ^ 64"
    and "Budget_admit since b t n = (ok, b')"
  shows "unat (bg_tokens b') + (if ok then n else 0) \<le> unat (bg_burst_bytes b) \<and>
    (bg_last b = Some l \<longrightarrow> unat (bg_tokens b') + (if ok then n else 0) \<le>
       unat (bg_tokens b) + unat (since t l) * unat (bg_bytes_per_second b) div 1000000) \<and>
    bg_last b' = Some t \<and> bg_burst_bytes b' = bg_burst_bytes b \<and>
    bg_bytes_per_second b' = bg_bytes_per_second b \<and> budget_ok b' \<and>
    bg_bytes_admitted b' = bg_bytes_admitted b + (if ok then n else 0) \<and>
    bg_admitted b' + bg_dropped b' = bg_admitted b + bg_dropped b + 1"
proof -
  let ?tok = "case bg_last b of None \<Rightarrow> bg_tokens b
    | Some l \<Rightarrow> min (sat_add (bg_tokens b)
        (of_nat (unat (since t l) * unat (bg_bytes_per_second b) div 1000000))) (bg_burst_bytes b)"
  have n: "unat (of_nat n :: u64) = n" using assms(3) by (simp add: unat_of_nat)
  have full: "unat ?tok \<le> unat (bg_burst_bytes b)"
    using assms(2) by (auto simp: budget_ok_def word_le_nat_alt min_def split: option.splits)
  have refill: "unat ?tok \<le> unat (bg_tokens b) +
      unat (since t l) * unat (bg_bytes_per_second b) div 1000000" if "bg_last b = Some l"
  proof -
    let ?q = "unat (since t l) * unat (bg_bytes_per_second b) div 1000000"
    have "unat (of_nat ?q :: u64) \<le> ?q" by (simp add: unat_of_nat)
    then have "unat (sat_add (bg_tokens b) (of_nat ?q)) \<le> unat (bg_tokens b) + ?q"
      by (simp add: unat_sat_add)
    then show ?thesis using that by (auto simp: min_def word_le_nat_alt)
  qed
  have a: "Budget_admit since b t n = (if of_nat n \<le> ?tok
      then (True, b\<lparr>bg_tokens := ?tok - of_nat n, bg_last := Some t, bg_admitted := bg_admitted b + 1,
        bg_bytes_admitted := bg_bytes_admitted b + n\<rparr>)
      else (False, b\<lparr>bg_tokens := ?tok, bg_last := Some t, bg_dropped := bg_dropped b + 1\<rparr>))"
    using assms(1) by (simp add: Budget_admit_def Let_def n split: option.splits)
  show ?thesis
  proof (cases "of_nat n \<le> ?tok")
    case True
    then have "unat (?tok - of_nat n) + n = unat ?tok"
      using n by (simp add: unat_sub word_le_nat_alt)
    then show ?thesis using a assms(4) True full refill
      by (auto simp: budget_ok_def word_le_nat_alt)
  next
    case False
    then show ?thesis using a assms(4) full refill
      by (auto simp: budget_ok_def word_le_nat_alt)
  qed
qed

lemma Budget_run_bound:
  assumes "bg_bytes_per_second b \<noteq> 0" and "budget_ok b" and "monotone_clock since"
    and "bg_last b = Some l" "unat l \<le> hi"
    and "sorted (map (\<lambda>f. unat (fst f)) fs)" "\<forall>f \<in> set fs. unat l \<le> unat (fst f) \<and> unat (fst f) \<le> hi"
    and "\<forall>f \<in> set fs. snd f < 2 ^ 64"
    and "Budget_run since b fs = (oks, b')"
  shows "admitted_bytes fs oks \<le>
      unat (bg_tokens b) + (hi - unat l) * unat (bg_bytes_per_second b) div 1000000 \<and>
    bg_bytes_admitted b' = bg_bytes_admitted b + admitted_bytes fs oks \<and>
    bg_admitted b' + bg_dropped b' = bg_admitted b + bg_dropped b + length fs \<and> budget_ok b'"
  using assms
proof (induction fs arbitrary: b l oks b')
  case Nil
  then show ?case by (simp add: admitted_bytes_def)
next
  case (Cons f fs)
  obtain t n where f: "f = (t, n)" by (cases f)
  obtain ok b1 where a: "Budget_admit since b t n = (ok, b1)" by fastforce
  obtain oks1 b2 where r: "Budget_run since b1 fs = (oks1, b2)" by fastforce
  from Cons.prems(9) a r f have eq: "oks = ok # oks1" "b' = b2" by simp_all
  have n: "n < 2 ^ 64" and t: "unat l \<le> unat t" "unat t \<le> hi" using Cons.prems(7,8) f by simp_all
  from Budget_admit_token_bound [OF Cons.prems(1,2) n a, of l] Cons.prems(4)
  have b: "unat (bg_tokens b1) + (if ok then n else 0) \<le>
       unat (bg_tokens b) + unat (since t l) * unat (bg_bytes_per_second b) div 1000000"
    "bg_last b1 = Some t" "bg_bytes_per_second b1 = bg_bytes_per_second b" "budget_ok b1"
    "bg_bytes_admitted b1 = bg_bytes_admitted b + (if ok then n else 0)"
    "bg_admitted b1 + bg_dropped b1 = bg_admitted b + bg_dropped b + 1"
    by simp_all
  have s: "unat (since t l) = unat t - unat l" using Cons.prems(3) t by (simp add: monotone_clock_def)
  have "\<forall>g \<in> set fs. unat t \<le> unat (fst g) \<and> unat (fst g) \<le> hi"
    using Cons.prems(6,7) f by simp
  then have IH: "admitted_bytes fs oks1 \<le>
      unat (bg_tokens b1) + (hi - unat t) * unat (bg_bytes_per_second b) div 1000000 \<and>
    bg_bytes_admitted b2 = bg_bytes_admitted b1 + admitted_bytes fs oks1 \<and>
    bg_admitted b2 + bg_dropped b2 = bg_admitted b1 + bg_dropped b1 + length fs \<and> budget_ok b2"
    using Cons.IH [of b1 t oks1 b2] Cons.prems b t r by simp
  have adm: "admitted_bytes (f # fs) oks = (if ok then n else 0) + admitted_bytes fs oks1"
    by (simp add: admitted_bytes_def eq f)
  let ?R = "unat (bg_bytes_per_second b)"
  have "(unat t - unat l) * ?R div 1000000 + (hi - unat t) * ?R div 1000000
      \<le> ((unat t - unat l) * ?R + (hi - unat t) * ?R) div 1000000"
    by (rule add_div_le)
  also have "(unat t - unat l) * ?R + (hi - unat t) * ?R = (hi - unat l) * ?R"
    using t by (simp flip: add_mult_distrib)
  finally show ?case using IH b s adm eq by auto
qed

lemma Budget_new_ok: "Budget_new t kbps burst_ms = Inr b \<Longrightarrow> budget_ok b"
  by (auto simp: Budget_new_def Let_def budget_ok_def bind_r_eq_Inr_iff)

text \<open>
  The product of rate and burst is taken in \<open>u64\<close> before the division, and the largest
  arguments overflow it: a panic where overflow is checked, a tiny bucket where it wraps.
\<close>

lemma Budget_new_overflow:
  "Budget_new (host_target True) 0xFFFFFFFF 0xFFFFFFFF = Inl Panic"
  by (simp add: Budget_new_def u64_mul_def max_def word_le_nat_alt)

lemma Budget_run_counts:
  "Budget_run since b fs = (oks, b1) \<Longrightarrow>
   bg_admitted b1 = bg_admitted b + count_list oks True \<and> bg_dropped b1 = bg_dropped b + count_list oks False"
proof (induction fs arbitrary: b oks b1)
  case (Cons f fs)
  obtain t n where f: "f = (t, n)" by (cases f)
  obtain ok b2 where a: "Budget_admit since b t n = (ok, b2)" by fastforce
  obtain oks2 b3 where r: "Budget_run since b2 fs = (oks2, b3)" by fastforce
  from a have "bg_admitted b2 = bg_admitted b + (if ok then 1 else 0) \<and> bg_dropped b2 = bg_dropped b + (if ok then 0 else 1)"
    by (auto simp: Budget_admit_def Let_def split: option.splits if_splits)
  with Cons.prems Cons.IH [OF r] a r f show ?case by auto
qed simp

lemma Budget_run_cap:
  assumes "bg_bytes_per_second b \<noteq> 0" and "budget_ok b" and "monotone_clock since"
    and "sorted (map (\<lambda>f. unat (fst f)) fs)" "\<forall>f \<in> set fs. lo \<le> unat (fst f) \<and> unat (fst f) \<le> hi"
    and "\<forall>f \<in> set fs. snd f < 2 ^ 64"
    and "Budget_run since b fs = (oks, b')"
  shows "admitted_bytes fs oks \<le>
      unat (bg_burst_bytes b) + (hi - lo) * unat (bg_bytes_per_second b) div 1000000 \<and>
    bg_bytes_admitted b' = bg_bytes_admitted b + admitted_bytes fs oks \<and>
    bg_admitted b' + bg_dropped b' = bg_admitted b + bg_dropped b + length fs \<and> budget_ok b'"
proof (cases fs)
  case Nil
  then show ?thesis using assms by (simp add: admitted_bytes_def)
next
  case (Cons f fs1)
  obtain t n where f: "f = (t, n)" by (cases f)
  obtain ok b1 where a: "Budget_admit since b t n = (ok, b1)" by fastforce
  obtain oks1 b2 where r: "Budget_run since b1 fs1 = (oks1, b2)" by fastforce
  from assms(7) a r f Cons have eq: "oks = ok # oks1" "b' = b2" by simp_all
  have n: "n < 2 ^ 64" and t: "lo \<le> unat t" "unat t \<le> hi" using assms(5,6) f Cons by simp_all
  from Budget_admit_token_bound [OF assms(1,2) n a]
  have b: "unat (bg_tokens b1) + (if ok then n else 0) \<le> unat (bg_burst_bytes b)"
    "bg_last b1 = Some t" "bg_bytes_per_second b1 = bg_bytes_per_second b" "budget_ok b1"
    "bg_bytes_admitted b1 = bg_bytes_admitted b + (if ok then n else 0)"
    "bg_admitted b1 + bg_dropped b1 = bg_admitted b + bg_dropped b + 1"
    by simp_all
  have "\<forall>g \<in> set fs1. unat t \<le> unat (fst g) \<and> unat (fst g) \<le> hi"
    using assms(4,5) f Cons by simp
  with Budget_run_bound [OF _ b(4) assms(3) b(2) t(2), of fs1 oks1 b2] assms b r Cons
  have rest: "admitted_bytes fs1 oks1 \<le>
      unat (bg_tokens b1) + (hi - unat t) * unat (bg_bytes_per_second b) div 1000000"
    "bg_bytes_admitted b2 = bg_bytes_admitted b1 + admitted_bytes fs1 oks1"
    "bg_admitted b2 + bg_dropped b2 = bg_admitted b1 + bg_dropped b1 + length fs1" "budget_ok b2"
    by simp_all
  have "(hi - unat t) * unat (bg_bytes_per_second b) div 1000000
      \<le> (hi - lo) * unat (bg_bytes_per_second b) div 1000000"
    using t by (intro div_le_mono mult_le_mono1 diff_le_mono2)
  moreover have "admitted_bytes fs oks = (if ok then n else 0) + admitted_bytes fs1 oks1"
    by (simp add: admitted_bytes_def eq f Cons)
  ultimately show ?thesis using rest b eq Cons by simp
qed

text \<open>C22: The bit-rate cap. From any reachable state, over frames captured in order within
  \<open>[lo, hi]\<close>, the bytes admitted are at most the burst plus the rate times the span; the counters
  account for every frame and every byte. \<open>since\<close> is only assumed to subtract timestamps that
  do not run backwards.\<close>

theorem Budget_rate_cap:
  assumes "bg_bytes_per_second b \<noteq> 0" and "budget_ok b" and "monotone_clock since"
    and "sorted (map (\<lambda>f. unat (fst f)) fs)" "\<forall>f \<in> set fs. lo \<le> unat (fst f) \<and> unat (fst f) \<le> hi"
    and "\<forall>f \<in> set fs. snd f < 2 ^ 64"
    and "Budget_run since b fs = (oks, b')"
  shows "admitted_bytes fs oks \<le>
      unat (bg_burst_bytes b) + (hi - lo) * unat (bg_bytes_per_second b) div 1000000 \<and>
    bg_bytes_admitted b' = bg_bytes_admitted b + admitted_bytes fs oks \<and>
    bg_admitted b' + bg_dropped b' = bg_admitted b + bg_dropped b + length fs \<and> budget_ok b'"
  using assms by (rule Budget_run_cap)

definition example_budget :: budget where
  "example_budget = \<lparr>bg_bytes_per_second = 25000, bg_burst_bytes = 12500, bg_tokens = 12500,
     bg_last = None, bg_admitted = 0, bg_dropped = 0, bg_bytes_admitted = 0\<rparr>"

lemma Budget_new_example: "Budget_new (esp32_target True) 200 500 = Inr example_budget"
  by (simp add: Budget_new_def u64_mul_def example_budget_def max_def word_le_nat_alt)

theorem Budget_rate_cap_witness:
  "admitted_bytes [(0, 6000), (100000, 6000), (200000, 6000)]
     (fst (Budget_run (\<lambda>b a. b - a) example_budget [(0, 6000), (100000, 6000), (200000, 6000)])) \<le> 17500"
proof -
  have "monotone_clock (\<lambda>b a. b - a)" by (simp add: monotone_clock_def unat_sub word_le_nat_alt)
  from Budget_rate_cap [OF _ _ this, of example_budget "[(0, 6000), (100000, 6000), (200000, 6000)]" 0 200000
      "fst (Budget_run (\<lambda>b a. b - a) example_budget [(0, 6000), (100000, 6000), (200000, 6000)])"
      "snd (Budget_run (\<lambda>b a. b - a) example_budget [(0, 6000), (100000, 6000), (200000, 6000)])"]
  show ?thesis by (simp add: example_budget_def budget_ok_def)
qed

end
