(* ===== verification/Annexb.thy ===== *)
theory Annexb
  imports Prelude
begin

text \<open>
  H.264 Annex B byte streams, \<open>annexb.rs\<close>: finding NAL units between start codes and splitting
  a stream into access units. The iterators are states with a \<open>next\<close> operation; a caller's
  \<open>for\<close> loop is the \<open>collect\<close> of that operation.
\<close>

section \<open>Start codes\<close>

text \<open>\<open>AUD_NAL\<close>, and the one NAL unit type the module compares with besides it.\<close>

definition AUD_NAL :: bytes where
  "AUD_NAL = [0x00, 0x00, 0x00, 0x01, 0x09, 0xF0]"

definition nal_type_IDR :: u8 where
  "nal_type_IDR = 5"

definition nal_type_AUD :: u8 where
  "nal_type_AUD = 9"

definition scan3 :: "bytes \<Rightarrow> nat option" where
  "scan3 bs =
     (if length bs < 3 then None
      else find (\<lambda>i. bs ! i = 0 \<and> bs ! (i + 1) = 0 \<and> bs ! (i + 2) = 1) [0..<length bs - 2])"

text \<open>The loop \<open>while i > 0 && bytes[i - 1] == 0 { i -= 1 }\<close>.\<close>

primrec back_up :: "bytes \<Rightarrow> nat \<Rightarrow> nat" where
  "back_up bs 0 = 0"
| "back_up bs (Suc i) = (if bs ! i = 0 then back_up bs i else Suc i)"

definition find_start_code :: "bytes \<Rightarrow> (nat \<times> nat) option" where
  "find_start_code bs =
     (case scan3 bs of None \<Rightarrow> None | Some i \<Rightarrow> Some (back_up bs i, i + 3))"

lemma scan3_Some_iff:
  "scan3 bs = Some i \<longleftrightarrow>
     i + 2 < length bs \<and> bs ! i = 0 \<and> bs ! (i + 1) = 0 \<and> bs ! (i + 2) = 1 \<and>
     (\<forall>j < i. \<not> (bs ! j = 0 \<and> bs ! (j + 1) = 0 \<and> bs ! (j + 2) = 1))"
proof (cases "length bs < 3")
  case True
  then show ?thesis by (simp add: scan3_def)
next
  case False
  let ?P = "\<lambda>i. bs ! i = 0 \<and> bs ! (i + 1) = 0 \<and> bs ! (i + 2) = 1"
  have "scan3 bs = Some i \<longleftrightarrow> (\<exists>k < length bs - 2. ?P ([0..<length bs - 2] ! k) \<and>
      i = [0..<length bs - 2] ! k \<and> (\<forall>j < k. \<not> ?P ([0..<length bs - 2] ! j)))"
    using False by (simp add: scan3_def find_Some_iff)
  also have "\<dots> \<longleftrightarrow> i < length bs - 2 \<and> ?P i \<and> (\<forall>j < i. \<not> ?P j)" by auto
  finally show ?thesis using False by auto
qed

lemma scan3_None_iff:
  "scan3 bs = None \<longleftrightarrow>
     (\<forall>j. j + 2 < length bs \<longrightarrow> \<not> (bs ! j = 0 \<and> bs ! (j + 1) = 0 \<and> bs ! (j + 2) = 1))"
  by (auto simp: scan3_def find_None_iff less_diff_conv)

lemma back_up_le: "back_up bs i \<le> i"
  by (induction i) auto

lemma back_up_zeros: "back_up bs i \<le> j \<Longrightarrow> j < i \<Longrightarrow> bs ! j = 0"
  by (induction i) (auto simp: less_Suc_eq split: if_splits)

lemma back_up_stop: "0 < back_up bs i \<Longrightarrow> bs ! (back_up bs i - 1) \<noteq> 0"
  by (induction i) auto

lemma find_start_code_bounds:
  assumes "find_start_code bs = Some (b, a)"
  shows "b + 3 \<le> a" "a \<le> length bs" "3 \<le> a"
  using assms back_up_le [of bs] by (auto simp: find_start_code_def scan3_Some_iff split: option.splits)

section \<open>NAL units\<close>

record nal_span =
  sp_start_code :: nat
  sp_nal_start :: nat
  sp_nal_end :: nat

record nal_iter =
  ni_stream :: bytes
  ni_pos :: nat
  ni_started :: bool

definition nal_spans :: "bytes \<Rightarrow> nal_iter" where
  "nal_spans stream = \<lparr>ni_stream = stream, ni_pos = 0, ni_started = False\<rparr>"

text \<open>
  \<open>NalSpans::next\<close>: the first start code when none was seen yet, then one NAL unit after the
  other until a non-empty one.
\<close>

function NalSpans_next :: "nal_iter \<Rightarrow> nal_span option \<times> nal_iter" where
  "NalSpans_next it =
     (case (if ni_started it then Some it
            else map_option (\<lambda>(_, after). it\<lparr>ni_pos := ni_pos it + after, ni_started := True\<rparr>)
                   (find_start_code (drop (ni_pos it) (ni_stream it)))) of
        None \<Rightarrow> (None, it)
      | Some it1 \<Rightarrow>
          (let s = ni_stream it1; pos = ni_pos it1 in
           if pos \<ge> length s then (None, it1)
           else
             (let nal_start = pos;
                  (nal_end, next_pos) =
                    (case find_start_code (drop pos s) of
                       Some (b, after) \<Rightarrow> (pos + b, pos + after)
                     | None \<Rightarrow> (length s, length s));
                  sc = back_up s (nal_start - 1);
                  it2 = it1\<lparr>ni_pos := next_pos\<rparr>
              in if nal_end > nal_start
                 then (Some \<lparr>sp_start_code = sc, sp_nal_start = nal_start, sp_nal_end = nal_end\<rparr>, it2)
                 else NalSpans_next it2)))"
  by pat_completeness auto
termination
  by (relation "measure (\<lambda>it. length (ni_stream it) - ni_pos it)")
    (auto split: if_splits option.splits dest!: find_start_code_bounds)

declare NalSpans_next.simps [simp del]

text \<open>All the spans of a stream from a position just past a start code.\<close>

function spans_from :: "bytes \<Rightarrow> nat \<Rightarrow> nal_span list" where
  "spans_from s pos =
     (if pos \<ge> length s then []
      else case find_start_code (drop pos s) of
         None \<Rightarrow> [\<lparr>sp_start_code = back_up s (pos - 1), sp_nal_start = pos, sp_nal_end = length s\<rparr>]
       | Some (b, after) \<Rightarrow>
           (if b > 0 then
              [\<lparr>sp_start_code = back_up s (pos - 1), sp_nal_start = pos, sp_nal_end = pos + b\<rparr>]
            else []) @ spans_from s (pos + after))"
  by pat_completeness auto
termination
  by (relation "measure (\<lambda>(s, pos). length s - pos)") (auto dest!: find_start_code_bounds)

declare spans_from.simps [simp del]

lemma spans_from_end [simp]: "length s \<le> pos \<Longrightarrow> spans_from s pos = []"
  by (simp add: spans_from.simps)

lemma NalSpans_next_started:
  assumes "ni_started it"
  shows "\<exists>it'. NalSpans_next it =
      (case spans_from (ni_stream it) (ni_pos it) of [] \<Rightarrow> (None, it') | sp # _ \<Rightarrow> (Some sp, it')) \<and>
    spans_from (ni_stream it) (ni_pos it') = tl (spans_from (ni_stream it) (ni_pos it)) \<and>
    ni_stream it' = ni_stream it \<and> ni_started it'"
  using assms
proof (induction "ni_stream it" "ni_pos it" arbitrary: it rule: spans_from.induct)
  case 1
  let ?s = "ni_stream it" and ?pos = "ni_pos it"
  note un = NalSpans_next.simps [of it] spans_from.simps [of ?s ?pos]
  show ?case
  proof (cases "length ?s \<le> ?pos")
    case True
    then show ?thesis using 1 by (simp add: un)
  next
    case False
    show ?thesis
    proof (cases "find_start_code (drop ?pos ?s)")
      case None
      then show ?thesis using "1.prems" False by (simp add: un Let_def)
    next
      case (Some ba)
      obtain b a where ba: "ba = (b, a)" by (cases ba)
      let ?it = "it\<lparr>ni_pos := ?pos + a\<rparr>"
      show ?thesis
      proof (cases "b > 0")
        case True
        then show ?thesis using "1.prems" False Some ba by (simp add: un Let_def)
      next
        case b: False
        have "NalSpans_next it = NalSpans_next ?it" "spans_from ?s ?pos = spans_from ?s (?pos + a)"
          using "1.prems" False Some ba b by (simp_all add: un Let_def)
        moreover from "1.hyps" [OF False Some _, of b a ?it] "1.prems" ba
        have "\<exists>it'. NalSpans_next ?it =
            (case spans_from ?s (?pos + a) of [] \<Rightarrow> (None, it') | sp # _ \<Rightarrow> (Some sp, it')) \<and>
          spans_from ?s (ni_pos it') = tl (spans_from ?s (?pos + a)) \<and>
          ni_stream it' = ?s \<and> ni_started it'" by simp
        ultimately show ?thesis by simp
      qed
    qed
  qed
qed

text \<open>The spans an iterator has yet to return.\<close>

definition spans_left :: "nal_iter \<Rightarrow> nal_span list" where
  "spans_left it =
     (if ni_started it then spans_from (ni_stream it) (ni_pos it)
      else case find_start_code (drop (ni_pos it) (ni_stream it)) of
             None \<Rightarrow> []
           | Some (_, after) \<Rightarrow> spans_from (ni_stream it) (ni_pos it + after))"

lemma NalSpans_next_spec:
  "\<exists>it'. NalSpans_next it =
      (case spans_left it of [] \<Rightarrow> (None, it') | sp # _ \<Rightarrow> (Some sp, it')) \<and>
    spans_left it' = tl (spans_left it) \<and> ni_stream it' = ni_stream it"
proof (cases "ni_started it")
  case True
  from NalSpans_next_started [OF this] show ?thesis by (auto simp: spans_left_def True)
next
  case False
  show ?thesis
  proof (cases "find_start_code (drop (ni_pos it) (ni_stream it))")
    case None
    then show ?thesis using False by (simp add: NalSpans_next.simps [of it] spans_left_def)
  next
    case (Some ba)
    obtain b a where ba: "ba = (b, a)" by (cases ba)
    let ?it = "it\<lparr>ni_pos := ni_pos it + a, ni_started := True\<rparr>"
    have "NalSpans_next it = NalSpans_next ?it" "spans_left it = spans_left ?it"
      using False Some ba
      by (simp_all add: NalSpans_next.simps [of it] NalSpans_next.simps [of ?it] spans_left_def)
    then show ?thesis using NalSpans_next_started [of ?it] by (auto simp: spans_left_def)
  qed
qed

lemma NalSpans_next_Some:
  "NalSpans_next it = (Some sp, it') \<Longrightarrow>
     spans_left it = sp # spans_left it' \<and> ni_stream it' = ni_stream it"
  using NalSpans_next_spec [of it] by (cases "spans_left it") auto

lemma NalSpans_next_None:
  "NalSpans_next it = (None, it') \<Longrightarrow> spans_left it = [] \<and> spans_left it' = []"
  using NalSpans_next_spec [of it] by (cases "spans_left it") auto

lemma NalSpans_next_shrinks:
  "(Some sp, it') = NalSpans_next it \<Longrightarrow> length (spans_left it') < length (spans_left it)"
  by (drule sym, drule NalSpans_next_Some) simp

text \<open>A \<open>for\<close> loop over the iterator sees every span that is left.\<close>

function NalSpans_collect :: "nal_iter \<Rightarrow> nal_span list" where
  "NalSpans_collect it =
     (case NalSpans_next it of (None, _) \<Rightarrow> [] | (Some sp, it') \<Rightarrow> sp # NalSpans_collect it')"
  by pat_completeness auto
termination
  by (relation "measure (\<lambda>it. length (spans_left it))") (auto dest: NalSpans_next_shrinks)

declare NalSpans_collect.simps [simp del]

lemma NalSpans_collect_eq: "NalSpans_collect it = spans_left it"
proof (induction it rule: NalSpans_collect.induct)
  case (1 it)
  obtain r it' where n: "NalSpans_next it = (r, it')" by fastforce
  show ?case
  proof (cases r)
    case None
    then show ?thesis using n NalSpans_next_None [of it it']
      by (simp add: NalSpans_collect.simps [of it])
  next
    case (Some sp)
    then show ?thesis using n NalSpans_next_Some [of it sp it'] "1.IH" [of r it' sp]
      by (simp add: NalSpans_collect.simps [of it])
  qed
qed

text \<open>\<open>nal_units\<close>\<close>

definition nal_at :: "bytes \<Rightarrow> nal_span \<Rightarrow> bytes" where
  "nal_at stream sp = cut stream (sp_nal_start sp) (sp_nal_end sp)"

definition nal_units :: "bytes \<Rightarrow> bytes list" where
  "nal_units stream = map (nal_at stream) (NalSpans_collect (nal_spans stream))"

definition nal_unit_type :: "bytes \<Rightarrow> u8 option" where
  "nal_unit_type nal = (case nal of [] \<Rightarrow> None | b # _ \<Rightarrow> Some (b AND 0x1F))"

definition is_vcl :: "bytes \<Rightarrow> bool" where
  "is_vcl nal = (case nal_unit_type nal of None \<Rightarrow> False | Some t \<Rightarrow> 1 \<le> t \<and> t \<le> 5)"

definition is_first_slice :: "bytes \<Rightarrow> bool" where
  "is_first_slice nal \<longleftrightarrow>
     is_vcl nal \<and> (case get nal 1 of None \<Rightarrow> False | Some b \<Rightarrow> b AND 0x80 \<noteq> 0)"

definition contains_idr :: "bytes \<Rightarrow> bool" where
  "contains_idr stream \<longleftrightarrow> list_ex (\<lambda>n. nal_unit_type n = Some nal_type_IDR) (nal_units stream)"

definition starts_with_aud :: "bytes \<Rightarrow> bool" where
  "starts_with_aud stream \<longleftrightarrow>
     (case NalSpans_next (nal_spans stream) of
        (None, _) \<Rightarrow> False
      | (Some sp, _) \<Rightarrow>
          (case nal_unit_type (nal_at stream sp) of None \<Rightarrow> False | Some t \<Rightarrow> t = nal_type_AUD))"

section \<open>Access units\<close>

record au_iter =
  au_stream :: bytes
  au_spans :: nal_iter
  au_start :: "nat option"
  au_has_vcl :: bool
  au_candidate :: "nat option"
  au_done :: bool

definition access_units :: "bytes \<Rightarrow> au_iter" where
  "access_units stream = \<lparr>au_stream = stream, au_spans = nal_spans stream, au_start = None,
     au_has_vcl = False, au_candidate = None, au_done = False\<rparr>"

text \<open>The \<open>for\<close> loop of \<open>AccessUnits::next\<close>: the access unit it returns early, or \<open>None\<close>.\<close>

function AccessUnits_loop :: "au_iter \<Rightarrow> bytes option \<times> au_iter" where
  "AccessUnits_loop it =
     (case NalSpans_next (au_spans it) of
        (None, spans) \<Rightarrow> (None, it\<lparr>au_spans := spans\<rparr>)
      | (Some sp, spans) \<Rightarrow>
          (let nal = nal_at (au_stream it) sp;
               start = (case au_start it of None \<Rightarrow> sp_start_code sp | Some a \<Rightarrow> a);
               it1 = it\<lparr>au_spans := spans, au_start := Some start\<rparr>
           in if is_vcl nal then
                (if is_first_slice nal \<and> au_has_vcl it1 then
                   let boundary =
                     (case au_candidate it1 of None \<Rightarrow> sp_start_code sp | Some c \<Rightarrow> c)
                   in (Some (cut (au_stream it1) start boundary),
                       it1\<lparr>au_start := Some boundary, au_has_vcl := True, au_candidate := None\<rparr>)
                 else AccessUnits_loop (it1\<lparr>au_has_vcl := True, au_candidate := None\<rparr>))
              else if au_has_vcl it1 \<and> au_candidate it1 = None then
                AccessUnits_loop (it1\<lparr>au_candidate := Some (sp_start_code sp)\<rparr>)
              else AccessUnits_loop it1))"
  by pat_completeness auto
termination
  by (relation "measure (\<lambda>it. length (spans_left (au_spans it)))")
    (auto dest: NalSpans_next_shrinks)

declare AccessUnits_loop.simps [simp del]

definition AccessUnits_next :: "au_iter \<Rightarrow> bytes option \<times> au_iter" where
  "AccessUnits_next it =
     (if au_done it then (None, it)
      else case AccessUnits_loop it of
        (Some au, it1) \<Rightarrow> (Some au, it1)
      | (None, it1) \<Rightarrow>
          (let it2 = it1\<lparr>au_done := True\<rparr> in
           case au_start it2 of
             None \<Rightarrow> (None, it2)
           | Some start \<Rightarrow>
               let au = drop start (au_stream it2) in
               if au = [] then (None, it2) else (Some au, it2)))"

section \<open>What the NAL iterator finds\<close>

text \<open>
  A start code with \<open>z\<close> extra leading zeros, and a stream put together from NAL units, each
  with its own start code.
\<close>

definition start_code :: "nat \<Rightarrow> bytes" where
  "start_code z = replicate (z + 2) 0 @ [1]"

definition annexb_join :: "(nat \<times> bytes) list \<Rightarrow> bytes" where
  "annexb_join xs = concat (map (\<lambda>(z, n). start_code z @ n) xs)"

text \<open>
  A NAL unit as an encoder produces it: not empty, no start code inside (emulation prevention)
  and no trailing zero byte (the \<open>rbsp_stop_one_bit\<close>).
\<close>

definition nal_ok :: "bytes \<Rightarrow> bool" where
  "nal_ok n \<longleftrightarrow> n \<noteq> [] \<and> last n \<noteq> 0 \<and> scan3 n = None"

lemma length_start_code [simp]: "length (start_code z) = z + 3"
  by (simp add: start_code_def)

lemma annexb_join_simps [simp]:
  "annexb_join [] = []"
  "annexb_join ((z, n) # xs) = start_code z @ n @ annexb_join xs"
  "annexb_join (xs @ ys) = annexb_join xs @ annexb_join ys"
  by (simp_all add: annexb_join_def)

lemma back_up_eqI:
  assumes "b \<le> i" "\<And>k. b \<le> k \<Longrightarrow> k < i \<Longrightarrow> bs ! k = 0" "b = 0 \<or> bs ! (b - 1) \<noteq> 0"
  shows "back_up bs i = b"
  using assms
proof (induction i)
  case (Suc i)
  show ?case
  proof (cases "b = Suc i")
    case True
    then show ?thesis using Suc.prems(3) by simp
  next
    case False
    then show ?thesis using Suc by simp
  qed
qed simp

lemma start_code_nth: "k < z + 2 \<Longrightarrow> start_code z ! k = 0" "start_code z ! (z + 2) = 1"
proof -
  show "k < z + 2 \<Longrightarrow> start_code z ! k = 0"
    by (simp only: start_code_def nth_append length_replicate nth_replicate if_True)
  show "start_code z ! (z + 2) = 1"
    unfolding start_code_def by (metis length_replicate nth_append_length)
qed

lemma nth_in_code:
  "length n \<le> k \<Longrightarrow> k < length n + z + 2 \<Longrightarrow> (n @ start_code z @ rest) ! k = 0"
  using start_code_nth(1) [of "k - length n" z] less_diff_conv2 [of "length n" k "z + 3"]
  by (simp add: nth_append)

lemma scan3_before_code:
  assumes "n = [] \<or> last n \<noteq> 0" "scan3 n = None"
  shows "scan3 (n @ start_code z @ rest) = Some (length n + z)"
proof -
  let ?s = "n @ start_code z @ rest" and ?l = "length n"
  have z: "?s ! k = 0" if "?l \<le> k" "k < ?l + z + 2" for k
    using that by (rule nth_in_code)
  have one: "?s ! (?l + z + 2) = 1"
    using start_code_nth(2) [of z] by (simp add: nth_append add.assoc)
  have no: "\<not> (?s ! j = 0 \<and> ?s ! (j + 1) = 0 \<and> ?s ! (j + 2) = 1)" if "j < ?l + z" for j
  proof (cases "j + 2 < ?l")
    case True
    then show ?thesis using assms(2) by (auto simp: scan3_None_iff nth_append)
  next
    case in_code: False
    show ?thesis
    proof (cases "?l \<le> j + 1 \<and> j < ?l \<or> j + 2 = ?l")
      case True
      then have "n \<noteq> []" by auto
      then have "n \<noteq> []" "last n = n ! (?l - 1)" by (simp_all add: last_conv_nth)
      moreover have "?l - 1 = j \<or> ?l - 1 = j + 1" "?l - 1 < ?l" using True by auto
      ultimately show ?thesis using assms(1) by (auto simp: nth_append)
    next
      case False
      then have "?l \<le> j" using in_code by auto
      then have "?s ! (j + 2) = 0" using z [of "j + 2"] that by simp
      then show ?thesis by simp
    qed
  qed
  show ?thesis using z [of "?l + z"] z [of "?l + z + 1"] one no
    by (auto simp: scan3_Some_iff)
qed

lemma back_up_code:
  assumes "n = [] \<or> last n \<noteq> 0" "length n \<le> i" "i \<le> length n + z + 2"
  shows "back_up (n @ start_code z @ rest) i = length n"
proof (rule back_up_eqI)
  fix k assume "length n \<le> k" "k < i"
  then show "(n @ start_code z @ rest) ! k = 0" using assms(3) by (intro nth_in_code) simp_all
next
  show "length n = 0 \<or> (n @ start_code z @ rest) ! (length n - 1) \<noteq> 0"
  proof (cases "n = []")
    case False
    then have "length n - 1 < length n" "last n = n ! (length n - 1)"
      by (simp_all add: last_conv_nth)
    then show ?thesis using assms(1) False by (simp add: nth_append)
  qed simp
qed (use assms in simp)

lemma find_start_code_after:
  assumes "n = [] \<or> last n \<noteq> 0" "scan3 n = None"
  shows "find_start_code (n @ start_code z @ rest) = Some (length n, length n + z + 3)"
proof -
  have "back_up (n @ start_code z @ rest) (length n + z) = length n"
    using assms(1) by (rule back_up_code) simp_all
  then show ?thesis using scan3_before_code [OF assms, of z rest]
    by (simp add: find_start_code_def)
qed

lemma find_start_code_first: "find_start_code (start_code z @ rest) = Some (0, z + 3)"
  using find_start_code_after [of "[]" z rest] by (simp add: scan3_def)

lemma find_start_code_None_iff: "find_start_code s = None \<longleftrightarrow> scan3 s = None"
  by (simp add: find_start_code_def split: option.splits)

text \<open>The other direction: what a found start code says of the bytes.\<close>

lemma find_start_code_split:
  assumes "find_start_code s = Some (b, a)"
  shows "s = take b s @ start_code (a - 3 - b) @ drop a s"
    and "take b s = [] \<or> last (take b s) \<noteq> 0" and "scan3 (take b s) = None"
    and "b + 3 \<le> a" "a \<le> length s"
proof -
  from assms obtain i where i: "scan3 s = Some i" and b: "b = back_up s i" and a: "a = i + 3"
    by (auto simp: find_start_code_def split: option.splits)
  have bi: "b \<le> i" using b back_up_le by simp
  from i have s: "i + 2 < length s" "s ! i = 0" "s ! (i + 1) = 0" "s ! (i + 2) = 1"
    and first: "\<And>j. j < i \<Longrightarrow> \<not> (s ! j = 0 \<and> s ! (j + 1) = 0 \<and> s ! (j + 2) = 1)"
    by (auto simp: scan3_Some_iff)
  show "b + 3 \<le> a" "a \<le> length s" using bi a s by simp_all
  have "take (a - b) (drop b s) = start_code (a - 3 - b)"
  proof (rule nth_equalityI)
    show "length (take (a - b) (drop b s)) = length (start_code (a - 3 - b))"
      using bi a s by simp
    fix k assume "k < length (take (a - b) (drop b s))"
    then have k: "k < i + 3 - b" using a by simp
    then have nth: "take (a - b) (drop b s) ! k = s ! (b + k)" using bi a s by simp
    consider "b + k < i" | "b + k = i" | "b + k = i + 1" | "b + k = i + 2" using k bi by linarith
    then show "take (a - b) (drop b s) ! k = start_code (a - 3 - b) ! k"
    proof cases
      case 1
      then have "s ! (b + k) = 0" using back_up_zeros [of s i "b + k"] b by simp
      then show ?thesis using 1 nth a start_code_nth(1) [of k "i - b"] by simp
    next
      case 4
      then have "k = i - b + 2" using bi by simp
      then show ?thesis using 4 nth a s start_code_nth(2) [of "i - b"] by simp
    qed (use nth a s start_code_nth(1) [of k "i - b"] in simp_all)
  qed
  moreover have "drop (a - b) (drop b s) = drop a s" using bi a by simp
  ultimately show "s = take b s @ start_code (a - 3 - b) @ drop a s"
    by (metis append_take_drop_id)
  show "take b s = [] \<or> last (take b s) \<noteq> 0"
  proof (cases "b = 0")
    case False
    then have "take b s \<noteq> []" "length (take b s) = b" using bi s by auto
    then have "last (take b s) = s ! (b - 1)" using False by (simp add: last_conv_nth)
    then show ?thesis using back_up_stop [of s i] b False by simp
  qed simp
  show "scan3 (take b s) = None" using first bi by (auto simp: scan3_None_iff)
qed


text \<open>The NAL units of what follows a start code, on the bytes themselves.\<close>

function nal_split :: "bytes \<Rightarrow> bytes list" where
  "nal_split r =
     (if r = [] then []
      else case find_start_code r of
         None \<Rightarrow> [r]
       | Some (b, after) \<Rightarrow> (if b > 0 then [take b r] else []) @ nal_split (drop after r))"
  by pat_completeness auto
termination
  by (relation "measure length") (auto dest!: find_start_code_bounds)

declare nal_split.simps [simp del]

lemma spans_from_nals: "map (nal_at s) (spans_from s pos) = nal_split (drop pos s)"
proof (induction s pos rule: spans_from.induct)
  case (1 s pos)
  show ?case
  proof (cases "length s \<le> pos")
    case True
    then show ?thesis by (simp add: nal_split.simps)
  next
    case False
    then show ?thesis using "1.IH" [OF False]
      by (cases "find_start_code (drop pos s)")
        (auto simp: spans_from.simps [of s pos] nal_split.simps [of "drop pos s"] nal_at_def cut_def
          add.commute)
  qed
qed

lemma nal_units_split:
  "nal_units s = (case find_start_code s of None \<Rightarrow> [] | Some (_, a) \<Rightarrow> nal_split (drop a s))"
  by (simp add: nal_units_def NalSpans_collect_eq nal_spans_def spans_left_def spans_from_nals
      split: option.splits)

lemma nal_split_decomposes:
  "\<exists>n0 xs. r = n0 @ annexb_join xs \<and> nal_split r = filter (\<lambda>n. n \<noteq> []) (n0 # map snd xs) \<and>
     (\<forall>n \<in> set (n0 # map snd xs). scan3 n = None) \<and>
     (\<forall>n \<in> set (butlast (n0 # map snd xs)). n = [] \<or> last n \<noteq> 0)"
proof (induction r rule: nal_split.induct)
  case (1 r)
  show ?case
  proof (cases "r = []")
    case True
    then show ?thesis
      by (intro exI [of _ "[]"]) (simp add: nal_split.simps scan3_def)
  next
    case False
    show ?thesis
    proof (cases "find_start_code r")
      case None
      then show ?thesis using False
        by (intro exI [of _ r] exI [of _ "[]"])
          (simp add: nal_split.simps [of r] flip: find_start_code_None_iff)
    next
      case (Some ba)
      obtain b a where ba: "ba = (b, a)" by (cases ba)
      with Some have fc: "find_start_code r = Some (b, a)" by simp
      note sp = find_start_code_split [OF fc]
      from "1.IH" [OF False Some ba [symmetric]] obtain n1 xs where IH:
        "drop a r = n1 @ annexb_join xs" "nal_split (drop a r) = filter (\<lambda>n. n \<noteq> []) (n1 # map snd xs)"
        "\<forall>n \<in> set (n1 # map snd xs). scan3 n = None"
        "\<forall>n \<in> set (butlast (n1 # map snd xs)). n = [] \<or> last n \<noteq> 0" by blast
      have "r = take b r @ annexb_join ((a - 3 - b, n1) # xs)"
        using sp(1) IH(1) by simp
      moreover have "nal_split r = filter (\<lambda>n. n \<noteq> []) (take b r # map snd ((a - 3 - b, n1) # xs))"
        using False fc IH(2) by (simp add: nal_split.simps [of r])
      moreover have "\<forall>n \<in> set (take b r # map snd ((a - 3 - b, n1) # xs)). scan3 n = None"
        using sp(3) IH(3) by simp
      moreover have "\<forall>n \<in> set (butlast (take b r # map snd ((a - 3 - b, n1) # xs))). n = [] \<or> last n \<noteq> 0"
        using sp(2) IH(4) by simp
      ultimately show ?thesis by blast
    qed
  qed
qed

text \<open>The positions of the NAL units of a joined stream.\<close>

fun spans_at :: "nat \<Rightarrow> (nat \<times> bytes) list \<Rightarrow> nal_span list" where
  "spans_at off [] = []"
| "spans_at off ((z, n) # xs) =
     \<lparr>sp_start_code = off, sp_nal_start = off + z + 3, sp_nal_end = off + z + 3 + length n\<rparr>
     # spans_at (off + z + 3 + length n) xs"

lemma spans_from_join:
  assumes "\<forall>(z, n) \<in> set ((z, n) # xs). nal_ok n" and "pre = [] \<or> last pre \<noteq> 0"
    and "s = pre @ annexb_join ((z, n) # xs)"
  shows "spans_from s (length pre + z + 3) = spans_at (length pre) ((z, n) # xs)"
  using assms
proof (induction xs arbitrary: pre z n)
  case Nil
  have n: "n \<noteq> []" "scan3 n = None" using Nil.prems(1) by (auto simp: nal_ok_def)
  have "back_up s (length pre + z + 2) = length pre"
    unfolding Nil.prems(3) annexb_join_simps append_assoc
    using Nil.prems(2) by (rule back_up_code) simp_all
  moreover have "drop (length pre + z + 3) s = n" "length s = length pre + z + 3 + length n"
    using Nil.prems(3) by simp_all
  moreover have "find_start_code n = None" using n(2) by (simp only: find_start_code_None_iff)
  ultimately show ?case using n(1)
    by (subst spans_from.simps) (simp del: back_up.simps)
next
  case (Cons x xs)
  obtain z' n' where x: "x = (z', n')" by (cases x)
  have n: "n \<noteq> []" "last n \<noteq> 0" "scan3 n = None" using Cons.prems(1) by (auto simp: nal_ok_def)
  have sc: "back_up s (length pre + z + 2) = length pre"
    unfolding Cons.prems(3) annexb_join_simps append_assoc
    using Cons.prems(2) by (rule back_up_code) simp_all
  have dr: "drop (length pre + z + 3) s = n @ start_code z' @ n' @ annexb_join xs"
    using Cons.prems(3) x by simp
  have fc: "find_start_code (n @ start_code z' @ n' @ annexb_join xs) =
      Some (length n, length n + z' + 3)"
    using find_start_code_after n by blast
  have "spans_from s (length pre + z + 3) =
      \<lparr>sp_start_code = length pre, sp_nal_start = length pre + z + 3,
       sp_nal_end = length pre + z + 3 + length n\<rparr>
      # spans_from s (length pre + z + 3 + (length n + z' + 3))"
  proof -
    have "length pre + z + 3 < length s" using Cons.prems(3) n by (cases n) simp_all
    then show ?thesis using n sc by (subst spans_from.simps) (simp add: dr fc del: back_up.simps)
  qed
  moreover have "spans_from s (length (pre @ start_code z @ n) + z' + 3) =
      spans_at (length (pre @ start_code z @ n)) ((z', n') # xs)"
    using Cons.prems x n by (intro Cons.IH) auto
  ultimately show ?case using x by (simp add: add.assoc add.left_commute)
qed

lemma NalSpans_collect_join:
  assumes "\<forall>(z, n) \<in> set xs. nal_ok n"
  shows "NalSpans_collect (nal_spans (annexb_join xs)) = spans_at 0 xs"
proof (cases xs)
  case Nil
  then show ?thesis
    by (simp add: NalSpans_collect_eq nal_spans_def spans_left_def find_start_code_def scan3_def)
next
  case (Cons x xs1)
  obtain z n where x: "x = (z, n)" by (cases x)
  from spans_from_join [of z n xs1 "[]" "annexb_join xs"] assms Cons x
  have "spans_from (annexb_join xs) (z + 3) = spans_at 0 xs" by simp
  then show ?thesis using Cons x
    by (simp add: NalSpans_collect_eq nal_spans_def spans_left_def find_start_code_first)
qed

lemma nal_at_span: "nal_at s \<lparr>sp_start_code = c, sp_nal_start = i, sp_nal_end = j\<rparr> = cut s i j"
  by (simp add: nal_at_def)

lemma spans_at_nals:
  "s = pre @ annexb_join xs @ post \<Longrightarrow> map (nal_at s) (spans_at (length pre) xs) = map snd xs"
proof (induction xs arbitrary: pre)
  case (Cons x xs)
  obtain z n where x: "x = (z, n)" by (cases x)
  have "map (nal_at s) (spans_at (length (pre @ start_code z @ n)) xs) = map snd xs"
    using Cons.prems x by (intro Cons.IH) simp
  moreover have "s = (pre @ start_code z) @ n @ annexb_join xs @ post" using Cons.prems x by simp
  then have "cut s (length (pre @ start_code z)) (length (pre @ start_code z) + length n) = n"
    by (simp add: cut_def)
  ultimately have "map (nal_at s) (spans_at (length pre + z + 3 + length n) xs) = map snd xs"
      "cut s (length pre + z + 3) (length pre + z + 3 + length n) = n"
    by (simp_all add: add.assoc)
  then show ?case by (simp add: x nal_at_span)
qed simp

lemma nal_units_join:
  assumes "\<forall>(z, n) \<in> set xs. nal_ok n"
  shows "nal_units (annexb_join xs) = map snd xs"
  using NalSpans_collect_join [OF assms] spans_at_nals [of "annexb_join xs" "[]" xs "[]"]
  by (simp add: nal_units_def)

text \<open>
  Every span is in range, not empty, and starts no earlier than the one before it ended: the
  slices the iterators take cannot panic.
\<close>

fun spans_chain :: "nat \<Rightarrow> bytes \<Rightarrow> nal_span list \<Rightarrow> bool" where
  "spans_chain lo s [] \<longleftrightarrow> True"
| "spans_chain lo s (sp # sps) \<longleftrightarrow>
     lo \<le> sp_start_code sp \<and> sp_start_code sp + 3 \<le> sp_nal_start sp \<and>
     sp_nal_start sp < sp_nal_end sp \<and> sp_nal_end sp \<le> length s \<and>
     spans_chain (sp_nal_end sp) s sps"

lemma spans_chain_mono: "spans_chain lo s sps \<Longrightarrow> lo' \<le> lo \<Longrightarrow> spans_chain lo' s sps"
  by (cases sps) auto

lemma back_up_ge: "k \<le> i \<Longrightarrow> k = 0 \<or> s ! (k - 1) \<noteq> 0 \<Longrightarrow> k \<le> back_up s i"
proof (induction i)
  case (Suc i)
  show ?case
  proof (cases "k = Suc i")
    case True
    then show ?thesis using Suc.prems by auto
  next
    case False
    then show ?thesis using Suc by auto
  qed
qed simp

lemma back_up_code_le:
  assumes "3 \<le> p" "s ! (p - 2) = 0" "s ! (p - 3) = 0"
  shows "back_up s (p - 1) + 3 \<le> p"
proof -
  obtain q where p: "p = Suc (Suc (Suc q))" using assms(1)
    by (metis Suc_eq_plus1 add_2_eq_Suc' le_Suc_ex numeral_3_eq_3 plus_nat.simps(2) add_Suc_right add.commute)
  then show ?thesis using assms back_up_le [of s q] by simp
qed

text \<open>The position is just past a start code.\<close>

definition past_code :: "bytes \<Rightarrow> nat \<Rightarrow> bool" where
  "past_code s p \<longleftrightarrow>
     3 \<le> p \<and> p \<le> length s \<and> s ! (p - 1) = 1 \<and> s ! (p - 2) = 0 \<and> s ! (p - 3) = 0"

lemma find_start_code_past:
  assumes "find_start_code (drop pos s) = Some (b, a)" "pos \<le> length s"
  shows "past_code s (pos + a)" "pos + b \<le> pos + a - 1" "b = 0 \<or> s ! (pos + b - 1) \<noteq> 0"
proof -
  let ?r = "drop pos s"
  note sp = find_start_code_split [OF assms(1)]
  from assms(1) obtain i where i: "scan3 ?r = Some i" and a: "a = i + 3" and b: "b = back_up ?r i"
    by (auto simp: find_start_code_def split: option.splits)
  from i have "i + 2 < length ?r" "?r ! i = 0" "?r ! (i + 1) = 0" "?r ! (i + 2) = 1"
    by (auto simp: scan3_Some_iff)
  then show "past_code s (pos + a)"
    using assms(2) by (simp add: past_code_def a add.assoc [symmetric])
  show "pos + b \<le> pos + a - 1" using sp(4) by simp
  show "b = 0 \<or> s ! (pos + b - 1) \<noteq> 0"
  proof (cases "b = 0")
    case False
    then have "?r ! (b - 1) \<noteq> 0" using back_up_stop [of ?r i] b by simp
    moreover have "?r ! (b - 1) = s ! (pos + b - 1)" using False assms(2) by simp
    ultimately show ?thesis by simp
  qed simp
qed

lemma spans_from_chain:
  assumes "past_code s pos" and "lo \<le> back_up s (pos - 1)"
  shows "spans_chain lo s (spans_from s pos)"
  using assms
proof (induction s pos arbitrary: lo rule: spans_from.induct)
  case (1 s pos)
  have sc: "back_up s (pos - 1) + 3 \<le> pos"
    using "1.prems"(1) by (intro back_up_code_le) (auto simp: past_code_def)
  show ?case
  proof (cases "length s \<le> pos")
    case False
    show ?thesis
    proof (cases "find_start_code (drop pos s)")
      case None
      then show ?thesis using False sc "1.prems"(2) by (simp add: spans_from.simps [of s pos])
    next
      case (Some ba)
      obtain b a where ba: "ba = (b, a)" by (cases ba)
      with Some have fc: "find_start_code (drop pos s) = Some (b, a)" by simp
      note past = find_start_code_past [OF fc]
      have bs: "a \<le> length (drop pos s)" "b + 3 \<le> a" using find_start_code_bounds [OF fc] by simp_all
      have ge: "pos + b \<le> back_up s (pos + a - 1)"
      proof (rule back_up_ge)
        show "pos + b \<le> pos + a - 1" using bs by simp
        show "pos + b = 0 \<or> s ! (pos + b - 1) \<noteq> 0"
          using past(3) False "1.prems"(1) by (cases "b = 0") (auto simp: past_code_def)
      qed
      have rest: "spans_chain (pos + b) s (spans_from s (pos + a))"
        using "1.IH" [OF False Some _ _ ge] ba past(1) False by simp
      show ?thesis
      proof (cases "b = 0")
        case True
        have "lo \<le> pos" using "1.prems"(2) sc by simp
        then show ?thesis using True False fc rest
          by (simp add: spans_from.simps [of s pos] spans_chain_mono)
      next
        case nz: False
        then show ?thesis using False fc rest sc "1.prems"(2) bs
          by (simp add: spans_from.simps [of s pos])
      qed
    qed
  qed simp
qed

lemma nal_spans_chain: "spans_chain 0 s (NalSpans_collect (nal_spans s))"
proof (cases "find_start_code s")
  case None
  then show ?thesis by (simp add: NalSpans_collect_eq nal_spans_def spans_left_def)
next
  case (Some ba)
  obtain b a where ba: "ba = (b, a)" by (cases ba)
  with Some have "find_start_code (drop 0 s) = Some (b, a)" by simp
  from find_start_code_past [OF this] have "past_code s a" by simp
  then show ?thesis using Some ba
    by (simp add: NalSpans_collect_eq nal_spans_def spans_left_def spans_from_chain)
qed

section \<open>What the access unit iterator returns\<close>

text \<open>The access units still to come, over the list of spans, once the first has begun.\<close>

fun au_split :: "bytes \<Rightarrow> nat \<Rightarrow> bool \<Rightarrow> nat option \<Rightarrow> nal_span list \<Rightarrow> bytes list" where
  "au_split s start has cand [] = (if drop start s = [] then [] else [drop start s])"
| "au_split s start has cand (sp # sps) =
     (if is_vcl (nal_at s sp) then
        (if is_first_slice (nal_at s sp) \<and> has then
           let boundary = (case cand of None \<Rightarrow> sp_start_code sp | Some c \<Rightarrow> c)
           in cut s start boundary # au_split s boundary True None sps
         else au_split s start True None sps)
      else if has \<and> cand = None then au_split s start has (Some (sp_start_code sp)) sps
      else au_split s start has cand sps)"

definition au_left :: "au_iter \<Rightarrow> bytes list" where
  "au_left it =
     (if au_done it then []
      else case (au_start it, spans_left (au_spans it)) of
        (None, []) \<Rightarrow> []
      | (None, sp # sps) \<Rightarrow>
          au_split (au_stream it) (sp_start_code sp) (au_has_vcl it) (au_candidate it) (sp # sps)
      | (Some st, sps) \<Rightarrow> au_split (au_stream it) st (au_has_vcl it) (au_candidate it) sps)"

lemma AccessUnits_loop_spec:
  assumes "\<not> au_done it"
  shows "case AccessUnits_loop it of
      (None, it') \<Rightarrow> spans_left (au_spans it') = [] \<and> \<not> au_done it' \<and>
         au_stream it' = au_stream it \<and> au_left it = au_left it'
    | (Some au, it') \<Rightarrow> au_left it = au # au_left it' \<and> \<not> au_done it' \<and>
         length (spans_left (au_spans it')) < length (spans_left (au_spans it))"
  using assms
proof (induction it rule: AccessUnits_loop.induct)
  case (1 it)
  obtain r sps where n: "NalSpans_next (au_spans it) = (r, sps)" by fastforce
  show ?case
  proof (cases r)
    case None
    with n NalSpans_next_None [of "au_spans it" sps] "1.prems" show ?thesis
      by (simp add: AccessUnits_loop.simps [of it] au_left_def split: option.splits)
  next
    case (Some sp)
    let ?start = "case au_start it of None \<Rightarrow> sp_start_code sp | Some a \<Rightarrow> a"
    let ?it1 = "it\<lparr>au_spans := sps, au_start := Some ?start\<rparr>"
    let ?nal = "nal_at (au_stream it) sp"
    from n Some NalSpans_next_Some [of "au_spans it" sp sps]
    have left: "spans_left (au_spans it) = sp # spans_left sps" by simp
    have al: "au_left it = au_split (au_stream it) ?start (au_has_vcl it) (au_candidate it) (sp # spans_left sps)"
      using "1.prems" left
      by (cases "au_start it") (simp_all add: au_left_def del: au_split.simps)
    show ?thesis
    proof (cases "is_vcl ?nal")
      case vcl: True
      show ?thesis
      proof (cases "is_first_slice ?nal \<and> au_has_vcl it")
        case True
        then show ?thesis using n Some vcl "1.prems" left
          by (simp add: AccessUnits_loop.simps [of it] al Let_def) (simp add: au_left_def)
      next
        case False
        let ?it2 = "?it1\<lparr>au_has_vcl := True, au_candidate := None\<rparr>"
        have "AccessUnits_loop it = AccessUnits_loop ?it2"
          by (subst AccessUnits_loop.simps) (simp add: n Some vcl False Let_def)
        moreover have "au_left it = au_left ?it2"
          using "1.prems" by (simp only: al) (auto simp add: au_left_def vcl False)
        moreover note "1.IH"(1) [OF n [symmetric] Some refl refl refl, simplified, OF vcl False [simplified] "1.prems"]
        ultimately show ?thesis using "1.prems" left
          by (auto split: prod.splits option.splits)
      qed
    next
      case nv: False
      show ?thesis
      proof (cases "au_has_vcl it \<and> au_candidate it = None")
        case True
        let ?it2 = "?it1\<lparr>au_candidate := Some (sp_start_code sp)\<rparr>"
        have "AccessUnits_loop it = AccessUnits_loop ?it2"
          by (subst AccessUnits_loop.simps) (simp add: n Some nv True Let_def)
        moreover have "au_left it = au_left ?it2"
          using True nv "1.prems" by (simp only: al) (simp add: au_left_def)
        moreover note "1.IH"(2) [OF n [symmetric] Some refl refl refl, simplified, OF nv True [simplified] "1.prems"]
        ultimately show ?thesis using "1.prems" left
          by (auto split: prod.splits option.splits)
      next
        case False
        have "AccessUnits_loop it = AccessUnits_loop ?it1"
          by (subst AccessUnits_loop.simps) (simp add: n Some nv False Let_def)
        moreover have "au_left it = au_left ?it1"
          using False nv "1.prems" by (simp only: al) (auto simp add: au_left_def)
        moreover note "1.IH"(3) [OF n [symmetric] Some refl refl refl, simplified, OF nv False [simplified] "1.prems"]
        ultimately show ?thesis using "1.prems" left
          by (auto split: prod.splits option.splits)
      qed
    qed
  qed
qed


lemma AccessUnits_next_spec:
  "case AccessUnits_next it of
      (None, it') \<Rightarrow> au_left it = []
    | (Some au, it') \<Rightarrow> au_left it = au # au_left it' \<and> \<not> au_done it \<and>
        (au_done it' \<or> length (spans_left (au_spans it')) < length (spans_left (au_spans it)))"
proof (cases "au_done it")
  case True
  then show ?thesis by (simp add: AccessUnits_next_def au_left_def)
next
  case False
  obtain r it' where l: "AccessUnits_loop it = (r, it')" by fastforce
  show ?thesis
  proof (cases r)
    case None
    with AccessUnits_loop_spec [OF False] l have i: "spans_left (au_spans it') = []" "\<not> au_done it'"
      "au_left it = au_left it'" by simp_all
    show ?thesis
    proof (cases "au_start it'")
      case None
      then show ?thesis using l \<open>r = None\<close> i False by (simp add: AccessUnits_next_def au_left_def Let_def)
    next
      case (Some st)
      then have "au_left it' = (if drop st (au_stream it') = [] then [] else [drop st (au_stream it')])"
        using i by (simp add: au_left_def)
      then show ?thesis using l \<open>r = None\<close> i False Some
        by (simp add: AccessUnits_next_def Let_def) (simp add: au_left_def)
    qed
  next
    case (Some au)
    with AccessUnits_loop_spec [OF False] l False show ?thesis by (simp add: AccessUnits_next_def)
  qed
qed

text \<open>A \<open>for\<close> loop over the access units.\<close>

function AccessUnits_collect :: "au_iter \<Rightarrow> bytes list" where
  "AccessUnits_collect it =
     (case AccessUnits_next it of (None, _) \<Rightarrow> [] | (Some au, it') \<Rightarrow> au # AccessUnits_collect it')"
  by pat_completeness auto
termination
proof (relation "measure (\<lambda>it. if au_done it then 0 else Suc (length (spans_left (au_spans it))))",
    goal_cases)
  case (2 it r it' au)
  then show ?case using AccessUnits_next_spec [of it] by (auto split: prod.splits)
qed simp

declare AccessUnits_collect.simps [simp del]

lemma AccessUnits_collect_eq: "AccessUnits_collect it = au_left it"
proof (induction it rule: AccessUnits_collect.induct)
  case (1 it)
  then show ?case using AccessUnits_next_spec [of it]
    by (auto simp: AccessUnits_collect.simps [of it] split: prod.splits option.splits)
qed

definition access_unit_list :: "bytes \<Rightarrow> bytes list" where
  "access_unit_list s = AccessUnits_collect (access_units s)"

lemma access_unit_list_eq:
  "access_unit_list s = (case NalSpans_collect (nal_spans s) of [] \<Rightarrow> []
     | sp # sps \<Rightarrow> au_split s (sp_start_code sp) False None (sp # sps))"
  by (simp add: access_unit_list_def AccessUnits_collect_eq access_units_def au_left_def
      NalSpans_collect_eq split: list.splits)

lemma cut_drop: "i \<le> j \<Longrightarrow> cut s i j @ drop j s = drop i s"
  by (simp add: cut_def) (metis append_take_drop_id drop_drop le_add_diff_inverse2)

lemma au_split_concat:
  assumes "spans_chain lo s sps" and "start \<le> lo"
    and "case cand of None \<Rightarrow> True | Some c \<Rightarrow> start \<le> c \<and> c \<le> lo"
  shows "concat (au_split s start has cand sps) = drop start s"
  using assms
proof (induction s start has cand sps arbitrary: lo rule: au_split.induct)
  case (2 s start has cand sp sps)
  let ?b = "case cand of None \<Rightarrow> sp_start_code sp | Some c \<Rightarrow> c"
  have ch: "spans_chain (sp_nal_end sp) s sps" and le: "lo \<le> sp_start_code sp"
    "sp_start_code sp \<le> sp_nal_end sp" using "2.prems"(1) by simp_all
  have b: "start \<le> ?b" "?b \<le> sp_nal_end sp" using "2.prems" le by (auto split: option.splits)
  consider (cut) "is_vcl (nal_at s sp)" "is_first_slice (nal_at s sp) \<and> has"
    | (vcl) "is_vcl (nal_at s sp)" "\<not> (is_first_slice (nal_at s sp) \<and> has)"
    | (cand) "\<not> is_vcl (nal_at s sp)" "has \<and> cand = None"
    | (other) "\<not> is_vcl (nal_at s sp)" "\<not> (has \<and> cand = None)" by blast
  then show ?case
  proof cases
    case cut
    have "concat (au_split s ?b True None sps) = drop ?b s"
      using "2.IH"(1) [OF cut refl ch b(2)] by simp
    then show ?thesis using cut b cut_drop [of start ?b s] by (simp add: Let_def)
  next
    case vcl
    then show ?thesis using "2.IH"(2) [OF vcl ch] "2.prems" le by auto
  next
    case cand
    then show ?thesis using "2.IH"(3) [OF cand ch] "2.prems" le by simp
  next
    case other
    have "concat (au_split s start has cand sps) = drop start s"
      using "2.IH"(4) [OF other ch] "2.prems" le by (auto split: option.splits)
    then show ?thesis using other by auto
  qed
qed simp

section \<open>Streams of pictures\<close>

text \<open>
  A picture as an encoder writes it: parameter sets, SEI and delimiters, then its slices, the
  first one with \<open>first_mb_in_slice\<close> 0 and no other.
\<close>

definition picture_ok :: "(nat \<times> bytes) list \<Rightarrow> bool" where
  "picture_ok p \<longleftrightarrow> (\<exists>pre f more. p = pre @ f # more \<and>
     (\<forall>x \<in> set pre. \<not> is_vcl (snd x)) \<and> is_first_slice (snd f) \<and>
     (\<forall>x \<in> set more. is_vcl (snd x) \<and> \<not> is_first_slice (snd x)))"

lemma spans_at_append:
  "spans_at off (xs @ ys) = spans_at off xs @ spans_at (off + length (annexb_join xs)) ys"
  by (induction off xs rule: spans_at.induct) (simp_all add: add.assoc)

lemma is_first_slice_vcl: "is_first_slice n \<Longrightarrow> is_vcl n"
  by (simp add: is_first_slice_def)

text \<open>The slices of a picture after its first change nothing.\<close>

lemma au_split_slices:
  assumes "\<forall>sp \<in> set sps. is_vcl (nal_at s sp) \<and> \<not> is_first_slice (nal_at s sp)"
  shows "au_split s start True None (sps @ rest) = au_split s start True None rest"
  using assms by (induction sps) simp_all

text \<open>What precedes a picture's first slice moves the boundary to its first NAL unit.\<close>

lemma au_split_prefix:
  assumes "\<forall>sp \<in> set sps. \<not> is_vcl (nal_at s sp)"
  shows "au_split s start True cand (sps @ rest) =
    au_split s start True
      (case cand of Some c \<Rightarrow> Some c
       | None \<Rightarrow> (case sps of [] \<Rightarrow> None | sp # _ \<Rightarrow> Some (sp_start_code sp))) rest"
  using assms by (induction sps arbitrary: cand) (auto split: option.splits list.splits)

lemma au_split_prefix_first:
  assumes "\<forall>sp \<in> set sps. \<not> is_vcl (nal_at s sp)"
  shows "au_split s start False None (sps @ rest) = au_split s start False None rest"
  using assms by (induction sps) simp_all

lemma spans_at_all:
  assumes "s = pre @ annexb_join xs @ post" "\<forall>x \<in> set xs. P (snd x)"
  shows "\<forall>sp \<in> set (spans_at (length pre) xs). P (nal_at s sp)"
proof
  fix sp assume "sp \<in> set (spans_at (length pre) xs)"
  then have "nal_at s sp \<in> set (map (nal_at s) (spans_at (length pre) xs))" by simp
  then have "nal_at s sp \<in> snd ` set xs" by (simp only: spans_at_nals [OF assms(1)] set_map)
  then show "P (nal_at s sp)" using assms(2) by auto
qed

text \<open>The first slice of the next picture closes the one before it.\<close>

lemma au_split_picture:
  assumes "picture_ok p" and "s = pre @ annexb_join p @ post"
  shows "au_split s start True None (spans_at (length pre) p @ rest) =
      cut s start (length pre) # au_split s (length pre) True None rest"
    and "au_split s start False None (spans_at (length pre) p @ rest) =
      au_split s start True None rest"
proof -
  from assms(1) obtain pr z f more where p: "p = pr @ (z, f) # more"
    and pr: "\<forall>x \<in> set pr. \<not> is_vcl (snd x)" and f: "is_first_slice f"
    and more: "\<forall>x \<in> set more. is_vcl (snd x) \<and> \<not> is_first_slice (snd x)"
    unfolding picture_ok_def by auto
  let ?a = "length (pre @ annexb_join pr)"
  let ?b = "length (pre @ annexb_join pr @ start_code z @ f)"
  let ?fs = "\<lparr>sp_start_code = ?a, sp_nal_start = ?a + z + 3, sp_nal_end = ?b\<rparr>"
  have split: "spans_at (length pre) p = spans_at (length pre) pr @ ?fs # spans_at ?b more"
    by (simp add: p spans_at_append add.assoc)
  have sps_pr: "\<forall>sp \<in> set (spans_at (length pre) pr). \<not> is_vcl (nal_at s sp)"
    using assms(2) p pr by (intro spans_at_all) auto
  have sps_more: "\<forall>sp \<in> set (spans_at ?b more). is_vcl (nal_at s sp) \<and> \<not> is_first_slice (nal_at s sp)"
    using assms(2) p more by (intro spans_at_all) auto
  have "map (nal_at s) (spans_at ?a [(z, f)]) = map snd [(z, f)]"
    using assms(2) p by (intro spans_at_nals) auto
  then have nf: "nal_at s ?fs = f" by (simp add: add.assoc)
  have hd_pr: "(case spans_at (length pre) pr of [] \<Rightarrow> None | sp # _ \<Rightarrow> Some (sp_start_code sp)) =
      (if pr = [] then None else Some (length pre))"
    by (cases pr) auto
  have "au_split s start True None (spans_at (length pre) p @ rest) =
      au_split s start True (if pr = [] then None else Some (length pre))
        (?fs # spans_at ?b more @ rest)"
    unfolding split append_assoc append_Cons au_split_prefix [OF sps_pr] option.case hd_pr ..
  also have "\<dots> = cut s start (length pre) # au_split s (length pre) True None (spans_at ?b more @ rest)"
    using nf f is_first_slice_vcl [OF f] by (auto simp: Let_def)
  finally show "au_split s start True None (spans_at (length pre) p @ rest) =
      cut s start (length pre) # au_split s (length pre) True None rest"
    by (simp only: au_split_slices [OF sps_more])
  have "au_split s start False None (spans_at (length pre) p @ rest) =
      au_split s start False None (?fs # spans_at ?b more @ rest)"
    unfolding split append_assoc append_Cons au_split_prefix_first [OF sps_pr] ..
  also have "\<dots> = au_split s start True None (spans_at ?b more @ rest)"
    using nf is_first_slice_vcl [OF f] by simp
  finally show "au_split s start False None (spans_at (length pre) p @ rest) =
      au_split s start True None rest"
    by (simp only: au_split_slices [OF sps_more])
qed

lemma au_split_pictures:
  assumes "\<forall>p \<in> set ps. picture_ok p" and "s = pre @ annexb_join (concat ps)"
    and "start < length pre"
  shows "au_split s start True None (spans_at (length pre) (concat ps)) =
    cut s start (length pre) # map annexb_join ps"
  using assms
proof (induction ps arbitrary: pre start)
  case Nil
  then show ?case by (simp add: cut_def)
next
  case (Cons p ps)
  have p: "picture_ok p" using Cons.prems(1) by simp
  then have "annexb_join p \<noteq> []" by (auto simp: picture_ok_def start_code_def)
  then have lt: "length pre < length (pre @ annexb_join p)" by simp
  have "au_split s start True None (spans_at (length pre) (concat (p # ps))) =
      cut s start (length pre) #
        au_split s (length pre) True None (spans_at (length (pre @ annexb_join p)) (concat ps))"
    using au_split_picture(1) [OF p, of s pre] Cons.prems(2)
    by (simp add: spans_at_append)
  also have "au_split s (length pre) True None (spans_at (length (pre @ annexb_join p)) (concat ps)) =
      cut s (length pre) (length (pre @ annexb_join p)) # map annexb_join ps"
    using Cons.prems lt by (intro Cons.IH) auto
  also have "cut s (length pre) (length (pre @ annexb_join p)) = annexb_join p"
    using Cons.prems(2) by (simp add: cut_def)
  finally show ?case by simp
qed

lemma access_unit_list_pictures:
  assumes "\<forall>p \<in> set ps. picture_ok p" and "\<forall>p \<in> set ps. \<forall>(z, n) \<in> set p. nal_ok n"
  shows "access_unit_list (annexb_join (concat ps)) = map annexb_join ps"
proof (cases ps)
  case Nil
  then show ?thesis using NalSpans_collect_join [of "[]"] by (simp add: access_unit_list_eq)
next
  case (Cons p ps1)
  let ?s = "annexb_join (concat ps)"
  have sp: "NalSpans_collect (nal_spans ?s) = spans_at 0 (concat ps)"
    using assms(2) by (intro NalSpans_collect_join) auto
  have p: "picture_ok p" using assms(1) Cons by simp
  then obtain z n p1 where p1: "p = (z, n) # p1"
    unfolding picture_ok_def by (metis append_eq_Cons_conv list.exhaust surj_pair append_is_Nil_conv list.discI)
  then have "access_unit_list ?s = au_split ?s 0 False None (spans_at 0 (concat ps))"
    using sp Cons by (simp add: access_unit_list_eq)
  also have "\<dots> = au_split ?s 0 True None (spans_at (length (annexb_join p)) (concat ps1))"
    using au_split_picture(2) [OF p, of ?s "[]"] Cons by (simp add: spans_at_append)
  also have "\<dots> = cut ?s 0 (length (annexb_join p)) # map annexb_join ps1"
    using assms(1) Cons p1 by (intro au_split_pictures) auto
  also have "cut ?s 0 (length (annexb_join p)) = annexb_join p" using Cons by (simp add: cut_def)
  finally show ?thesis using Cons by simp
qed

section \<open>Properties\<close>

text \<open>C38: A stream put together from encoder NAL units, each behind a start code of any length,
  is split back into exactly those NAL units, in order.\<close>

theorem nal_units_of_join:
  assumes "\<forall>(z, n) \<in> set xs. nal_ok n"
  shows "nal_units (annexb_join xs) = map snd xs"
  using assms by (rule nal_units_join)

theorem nal_units_of_join_witness:
  "nal_units [0, 0, 0, 1, 0x67, 0xAA, 0, 0, 1, 0x68, 0xBB, 0, 0, 1, 0x65, 0x88, 2] =
     [[0x67, 0xAA], [0x68, 0xBB], [0x65, 0x88, 2]]"
  using nal_units_of_join [of "[(1, [0x67, 0xAA]), (0, [0x68, 0xBB]), (0, [0x65, 0x88, 2])]"]
  by (simp add: start_code_def nal_ok_def scan3_def)

text \<open>C37: Nothing is lost or invented on any stream: it is the bytes before the first start code
  followed by start codes with pieces between them, and the NAL units are the non-empty pieces.
  No piece contains a start code, and only the last one may end in a zero byte. Without a start
  code there are no NAL units.\<close>

theorem nal_units_decomposition:
  "case find_start_code s of
     None \<Rightarrow> nal_units s = [] \<and> scan3 s = None
   | Some (b, a) \<Rightarrow>
       \<exists>xs. s = take b s @ annexb_join xs \<and> xs \<noteq> [] \<and>
         nal_units s = filter (\<lambda>n. n \<noteq> []) (map snd xs) \<and>
         scan3 (take b s) = None \<and> (\<forall>n \<in> set (map snd xs). scan3 n = None) \<and>
         (\<forall>n \<in> set (butlast (map snd xs)). n = [] \<or> last n \<noteq> 0)"
proof (cases "find_start_code s")
  case None
  then show ?thesis by (simp add: nal_units_split) (simp only: find_start_code_None_iff)
next
  case (Some ba)
  obtain b a where ba: "ba = (b, a)" by (cases ba)
  with Some have fc: "find_start_code s = Some (b, a)" by simp
  from nal_split_decomposes [of "drop a s"] obtain n0 xs where
    d: "drop a s = n0 @ annexb_join xs" "nal_split (drop a s) = filter (\<lambda>n. n \<noteq> []) (n0 # map snd xs)"
      "\<forall>n \<in> set (n0 # map snd xs). scan3 n = None"
      "\<forall>n \<in> set (butlast (n0 # map snd xs)). n = [] \<or> last n \<noteq> 0" by blast
  have "s = take b s @ annexb_join ((a - 3 - b, n0) # xs)"
    using find_start_code_split(1) [OF fc] d(1) by simp
  moreover have "nal_units s = filter (\<lambda>n. n \<noteq> []) (map snd ((a - 3 - b, n0) # xs))"
    using fc d(2) by (simp add: nal_units_split)
  ultimately show ?thesis using fc d(3,4) find_start_code_split(3) [OF fc]
    by (auto intro!: exI [of _ "(a - 3 - b, n0) # xs"])
qed

theorem nal_units_decomposition_witness:
  "\<exists>xs. [9, 0, 0, 1, 5, 6] = [9] @ annexb_join xs \<and> nal_units [9, 0, 0, 1, 5, 6] = filter (\<lambda>n. n \<noteq> []) (map snd xs) \<and>
     (\<forall>n \<in> set (map snd xs). scan3 n = None)"
proof -
  have f: "find_start_code [9, 0, 0, 1, 5, 6] = Some (1, 4)" by code_simp
  from nal_units_decomposition [of "[9, 0, 0, 1, 5, 6]", unfolded f option.case prod.case] show ?thesis
    by auto
qed

text \<open>Every span the iterator returns on any stream is in range, not empty, at least three
  bytes past its start code, and starts no earlier than the one before it ended: no slice taken
  from a span panics.\<close>

lemma nal_spans_in_range:
  "spans_chain 0 s (NalSpans_collect (nal_spans s))"
  by (rule nal_spans_chain)

text \<open>C17: A stream of pictures is split into access units at the picture boundaries: parameter
  sets, SEI and delimiters go with the slices that follow them, and further slices of a picture
  stay with its first one.\<close>

theorem access_units_of_pictures:
  assumes "\<forall>p \<in> set ps. picture_ok p" and "\<forall>p \<in> set ps. \<forall>(z, n) \<in> set p. nal_ok n"
  shows "AccessUnits_collect (access_units (annexb_join (concat ps))) = map annexb_join ps"
  using access_unit_list_pictures [OF assms] by (simp only: access_unit_list_def)

definition example_picture :: "(nat \<times> bytes) list" where
  "example_picture = [(1, [0x67, 0xAA]), (0, [0x65, 0x88]), (0, [0x65, 0x08])]"

theorem access_units_of_pictures_witness:
  "length (AccessUnits_collect (access_units (annexb_join (concat [example_picture, example_picture])))) = 2"
proof -
  have "picture_ok example_picture"
    unfolding picture_ok_def example_picture_def
    by (intro exI [of _ "[(1, [0x67, 0xAA])]"] exI [of _ "(0, [0x65, 0x88])"] exI [of _ "[(0, [0x65, 0x08])]"])
      (simp add: is_first_slice_def is_vcl_def nal_unit_type_def get_def)
  moreover have "\<forall>(z, n) \<in> set example_picture. nal_ok n"
    by (simp add: example_picture_def nal_ok_def scan3_def)
  ultimately show ?thesis
    using access_units_of_pictures [of "[example_picture, example_picture]"] by simp
qed

text \<open>On any stream the access units are consecutive pieces of it: put together they are the
  stream from the start code of its first NAL unit on, and there are none without a NAL unit.\<close>

lemma access_units_partition:
  "concat (AccessUnits_collect (access_units s)) =
     (case NalSpans_collect (nal_spans s) of
        [] \<Rightarrow> []
      | sp # _ \<Rightarrow> drop (sp_start_code sp) s)"
proof (cases "NalSpans_collect (nal_spans s)")
  case Nil
  then show ?thesis using access_unit_list_eq [of s] by (simp add: access_unit_list_def)
next
  case (Cons sp sps)
  have "spans_chain (sp_start_code sp) s (sp # sps)"
    using nal_spans_chain [of s] by (simp add: Cons)
  then show ?thesis using Cons access_unit_list_eq [of s]
    by (simp add: access_unit_list_def au_split_concat [of "sp_start_code sp"] del: au_split.simps)
qed

end
