(* ===== verification/Rtp.thy ===== *)
theory Rtp
  imports Media Sinks Annexb
begin

text \<open>
  RTP, \<open>rtp.rs\<close>: the fixed header, its parser, and the RFC 6184 payloader for H.264. The JPEG
  payload format is in its own theory.
\<close>

section \<open>The fixed header\<close>

definition rtp_HEADER_LEN :: nat where
  "rtp_HEADER_LEN = 12"

definition VIDEO_CLOCK_HZ :: u32 where
  "VIDEO_CLOCK_HZ = 90000"

definition PT_JPEG :: u8 where
  "PT_JPEG = 26"

definition PT_H264_DYNAMIC :: u8 where
  "PT_H264_DYNAMIC = 96"

record rtp =
  rt_ssrc :: u32
  rt_payload_type :: u8
  rt_clock_hz :: u32
  rt_seq :: u16

definition Rtp_new :: "u32 \<Rightarrow> u8 \<Rightarrow> u32 \<Rightarrow> u16 \<Rightarrow> rtp" where
  "Rtp_new ssrc payload_type clock_hz first_seq =
     \<lparr>rt_ssrc = ssrc, rt_payload_type = payload_type AND 0x7F, rt_clock_hz = clock_hz,
      rt_seq = first_seq\<rparr>"

text \<open>The product is taken in \<open>u128\<close>, where it fits; \<open>as u32\<close> truncates.\<close>

definition Rtp_timestamp :: "rtp \<Rightarrow> micros \<Rightarrow> u32" where
  "Rtp_timestamp r t = of_nat (unat t * unat (rt_clock_hz r) div 1000000)"

definition Rtp_write_header ::
  "rtp \<Rightarrow> bytes \<Rightarrow> bool \<Rightarrow> u32 \<Rightarrow> unit result \<times> rtp \<times> bytes" where
  "Rtp_write_header r out marker timestamp =
     (if length out < rtp_HEADER_LEN then (Inl (Err (BufferTooSmall rtp_HEADER_LEN)), r, out)
      else
        (case bind_r (put out 0 [0x80]) (\<lambda>o1.
              bind_r (put o1 1 [rt_payload_type r OR (if marker then 0x80 else 0)]) (\<lambda>o2.
              bind_r (put o2 2 (be16 (rt_seq r))) (\<lambda>o3.
              bind_r (put o3 4 (be32 timestamp)) (\<lambda>o4.
              put o4 8 (be32 (rt_ssrc r)))))) of
           Inl e \<Rightarrow> (Inl e, r, out)
         | Inr out' \<Rightarrow> (Inr (), r\<lparr>rt_seq := rt_seq r + 1\<rparr>, out')))"

record rtp_header =
  rh_marker :: bool
  rh_payload_type :: u8
  rh_seq :: u16
  rh_timestamp :: u32
  rh_ssrc :: u32

text \<open>
  \<open>Header::parse\<close>. The offset is at most \<open>12 + 60 + 4 + 4 * 65535\<close>, far inside a \<open>usize\<close>.
\<close>

definition rtp_Header_parse :: "bytes \<Rightarrow> (rtp_header \<times> bytes) result" where
  "rtp_Header_parse packet =
     (if length packet < rtp_HEADER_LEN \<or> drop_bit 6 (packet ! 0) \<noteq> 2
      then Inl (Err InvalidFormat)
      else
        let cc = unat (packet ! 0 AND 0x0F);
            ext = (packet ! 0 AND 0x10 \<noteq> 0);
            off = rtp_HEADER_LEN + 4 * cc
        in bind_r
             (if ext then
                (case get_range packet off (off + 4) of
                   None \<Rightarrow> Inl (Err InvalidFormat)
                 | Some eh \<Rightarrow> Inr (off + (4 + 4 * unat (from_be16 (eh ! 2) (eh ! 3)))))
              else Inr off)
             (\<lambda>off.
                if length packet < off then Inl (Err InvalidFormat)
                else Inr
                  (\<lparr>rh_marker = (packet ! 1 AND 0x80 \<noteq> 0),
                    rh_payload_type = packet ! 1 AND 0x7F,
                    rh_seq = from_be16 (packet ! 2) (packet ! 3),
                    rh_timestamp = from_be32 (packet ! 4) (packet ! 5) (packet ! 6) (packet ! 7),
                    rh_ssrc = from_be32 (packet ! 8) (packet ! 9) (packet ! 10) (packet ! 11)\<rparr>,
                   drop off packet)))"

text \<open>What the header looks like on the wire.\<close>

definition rtp_header_bytes :: "rtp \<Rightarrow> bool \<Rightarrow> u32 \<Rightarrow> bytes" where
  "rtp_header_bytes r marker ts =
     [0x80, rt_payload_type r OR (if marker then 0x80 else 0)] @
     be16 (rt_seq r) @ be32 ts @ be32 (rt_ssrc r)"

definition rtp_next :: "rtp \<Rightarrow> rtp" where
  "rtp_next r = r\<lparr>rt_seq := rt_seq r + 1\<rparr>"

lemma length_rtp_header_bytes [simp]: "length (rtp_header_bytes r m ts) = 12"
  by (simp add: rtp_header_bytes_def)

lemma Rtp_write_header_ok:
  "12 \<le> length out \<Longrightarrow>
   Rtp_write_header r out m ts = (Inr (), rtp_next r, rtp_header_bytes r m ts @ drop 12 out)"
  by (simp add: Rtp_write_header_def rtp_HEADER_LEN_def rtp_header_bytes_def rtp_next_def
      be16_def be32_def)

lemma rtp_Header_parse_bytes:
  assumes "rt_payload_type r AND 0x80 = 0"
  shows "rtp_Header_parse (rtp_header_bytes r m ts @ payload) =
    Inr (\<lparr>rh_marker = m, rh_payload_type = rt_payload_type r, rh_seq = rt_seq r,
          rh_timestamp = ts, rh_ssrc = rt_ssrc r\<rparr>, payload)"
proof -
  let ?p = "rt_payload_type r"
  have b7: "\<not> bit ?p 7" using assms by (simp add: and_exp_eq_0_iff_not_bit [of _ 7, simplified])
  have "?p AND 0x7F = ?p"
  proof (rule bit_word_eqI)
    fix n assume n: "n < LENGTH(8)"
    have m: "(0x7F :: u8) = mask 7" by (simp add: mask_eq_exp_minus_1)
    show "bit (?p AND 0x7F) n = bit ?p n" unfolding m using b7 n
      by (cases "n = 7") (auto simp: bit_and_iff bit_mask_iff)
  qed
  moreover have "(?p OR 0x80) AND 0x7F = ?p AND 0x7F"
    by (simp add: bit.conj_disj_distrib2)
  moreover have "(?p OR 0x80) AND 0x80 \<noteq> 0"
    by (simp add: bit.conj_disj_distrib2 assms)
  ultimately show ?thesis using assms
    by (simp add: rtp_Header_parse_def rtp_HEADER_LEN_def rtp_header_bytes_def be16_def be32_def
        be_simps Let_def)
qed

lemma rtp_Header_parse_no_panic: "no_panic (rtp_Header_parse packet)"
  by (auto simp: rtp_Header_parse_def Let_def intro!: no_panic_bind_r split: option.splits)

lemma rtp_Header_parse_len: "rtp_Header_parse packet = Inr (h, pl) \<Longrightarrow> length pl \<le> length packet"
  by (auto simp: rtp_Header_parse_def Let_def bind_r_eq_Inr_iff split: if_splits)

lemma Rtp_new_payload_type: "rt_payload_type (Rtp_new ssrc pt hz seq) AND 0x80 = 0"
  by (simp add: Rtp_new_def and.assoc)

section \<open>Sending a list of payloads\<close>

text \<open>
  What both payloaders do with the payloads they cut: a header with the next sequence number
  in front of each, one \<open>emit\<close> per packet, the first refusal ends it.
\<close>

fun rtp_send ::
  "'s writer \<Rightarrow> u32 \<Rightarrow> rtp \<Rightarrow> (bool \<times> bytes) list \<Rightarrow> 's \<Rightarrow> unit result \<times> rtp \<times> 's" where
  "rtp_send emit ts r [] s = (Inr (), r, s)"
| "rtp_send emit ts r ((m, pl) # ps) s =
     (case emit s (rtp_header_bytes r m ts @ pl) of
        (Inl e, s1) \<Rightarrow> (Inl e, rtp_next r, s1)
      | (Inr _, s1) \<Rightarrow> rtp_send emit ts (rtp_next r) ps s1)"

fun rtp_packets :: "u32 \<Rightarrow> rtp \<Rightarrow> (bool \<times> bytes) list \<Rightarrow> bytes list" where
  "rtp_packets ts r [] = []"
| "rtp_packets ts r ((m, pl) # ps) = (rtp_header_bytes r m ts @ pl) # rtp_packets ts (rtp_next r) ps"

lemma rtp_send_append:
  "rtp_send emit ts r (ps @ qs) s =
     (case rtp_send emit ts r ps s of
        (Inl e, r1, s1) \<Rightarrow> (Inl e, r1, s1)
      | (Inr _, r1, s1) \<Rightarrow> rtp_send emit ts r1 qs s1)"
  by (induction emit ts r ps s rule: rtp_send.induct) (auto split: prod.splits sum.splits)

lemma rtp_send_write_seq:
  "(case rtp_send emit ts r ps s of (x, r', s') \<Rightarrow> (x, s')) = write_seq emit (rtp_packets ts r ps) s"
  by (induction emit ts r ps s rule: rtp_send.induct) (auto split: prod.splits sum.splits)

lemma rtp_next_funpow_seq [simp]: "rt_seq ((rtp_next ^^ n) r) = rt_seq r + of_nat n"
  by (induction n) (simp_all add: rtp_next_def)

lemma rtp_next_funpow: "(rtp_next ^^ n) r = r\<lparr>rt_seq := rt_seq r + of_nat n\<rparr>"
  by (induction n) (simp_all add: rtp_next_def)

lemma rtp_send_ok_rtp:
  "rtp_send emit ts r ps s = (Inr u, r', s') \<Longrightarrow> r' = (rtp_next ^^ length ps) r"
  by (induction emit ts r ps s rule: rtp_send.induct)
    (auto split: prod.splits sum.splits simp: funpow_swap1)

lemma rtp_send_Vec_emit:
  "rtp_send Vec_emit ts r ps v = (Inr (), (rtp_next ^^ length ps) r, v @ rtp_packets ts r ps)"
  by (induction ps arbitrary: r v) (auto simp: Vec_emit_def funpow_swap1)

lemma rtp_packets_parse:
  assumes "rt_payload_type r AND 0x80 = 0"
  shows "map rtp_Header_parse (rtp_packets ts r ps) =
    map (\<lambda>(i, m, pl). Inr (\<lparr>rh_marker = m, rh_payload_type = rt_payload_type r,
        rh_seq = rt_seq r + of_nat i, rh_timestamp = ts, rh_ssrc = rt_ssrc r\<rparr>, pl))
      (enumerate 0 ps)"
proof -
  have "map rtp_Header_parse (rtp_packets ts ((rtp_next ^^ k) r) ps) =
    map (\<lambda>(i, m, pl). Inr (\<lparr>rh_marker = m, rh_payload_type = rt_payload_type r,
        rh_seq = rt_seq r + of_nat i, rh_timestamp = ts, rh_ssrc = rt_ssrc r\<rparr>, pl))
      (enumerate k ps)" for k
  proof (induction ps arbitrary: k)
    case (Cons p ps)
    obtain m pl where p: "p = (m, pl)" by (cases p)
    have "rt_payload_type ((rtp_next ^^ k) r) = rt_payload_type r"
      "rt_ssrc ((rtp_next ^^ k) r) = rt_ssrc r" by (simp_all add: rtp_next_funpow)
    then show ?case using Cons.IH [of "Suc k"] assms p
      by (simp add: rtp_Header_parse_bytes)
  qed simp
  from this [of 0] show ?thesis by simp
qed

section \<open>H.264, RFC 6184\<close>

record h264_payloader =
  hp_rtp :: rtp
  hp_mtu :: nat

definition FU_A :: u8 where
  "FU_A = 28"

definition H264Payloader_new :: "rtp \<Rightarrow> nat \<Rightarrow> h264_payloader result" where
  "H264Payloader_new r mtu =
     (if mtu < rtp_HEADER_LEN + 3 then Inl (Err InvalidFormat)
      else Inr \<lparr>hp_rtp = r, hp_mtu = mtu\<rparr>)"

text \<open>
  The \<open>while off < body.len()\<close> loop over one fragmented NAL unit. It makes no progress when
  \<open>frag_max\<close> is 0, which \<open>H264Payloader::new\<close> excludes: not returning is \<open>None\<close>.
\<close>

partial_function (option) FuA_loop ::
  "'s writer \<Rightarrow> nat \<Rightarrow> bool \<Rightarrow> u32 \<Rightarrow> u8 \<Rightarrow> u8 \<Rightarrow> bytes \<Rightarrow>
   nat \<Rightarrow> nat \<Rightarrow> rtp \<Rightarrow> bytes \<Rightarrow> 's \<Rightarrow> (nat result \<times> rtp \<times> bytes \<times> 's) option" where
  "FuA_loop emit frag_max last_nal ts indicator nal_type body off n r scratch s =
     (if off < length body then
        (let tk = min (length body - off) frag_max;
             fin = (off + tk = length body) in
         case Rtp_write_header r scratch (last_nal \<and> fin) ts of
           (Inl e, r1, sc1) \<Rightarrow> Some (Inl e, r1, sc1, s)
         | (Inr _, r1, sc1) \<Rightarrow>
             (case bind_r (put sc1 rtp_HEADER_LEN [indicator]) (\<lambda>sc2.
                   bind_r (put sc2 (rtp_HEADER_LEN + 1)
                     [nal_type OR (if off = 0 then 0x80 else 0) OR (if fin then 0x40 else 0)]) (\<lambda>sc3.
                   bind_r (subslice body off (off + tk)) (\<lambda>frag.
                   copy_range sc3 (rtp_HEADER_LEN + 2) (rtp_HEADER_LEN + 2 + tk) frag))) of
                Inl e \<Rightarrow> Some (Inl e, r1, sc1, s)
              | Inr sc4 \<Rightarrow>
                  (case subslice sc4 0 (rtp_HEADER_LEN + 2 + tk) of
                     Inl e \<Rightarrow> Some (Inl e, r1, sc4, s)
                   | Inr pkt \<Rightarrow>
                       (case emit s pkt of
                          (Inl e, s1) \<Rightarrow> Some (Inl e, r1, sc4, s1)
                        | (Inr _, s1) \<Rightarrow>
                            FuA_loop emit frag_max last_nal ts indicator nal_type body
                              (off + tk) (n + 1) r1 sc4 s1))))
      else Some (Inr n, r, scratch, s))"

text \<open>The body of \<open>for (i, nal) in nal_units(access_unit).enumerate()\<close>.\<close>

definition H264_nal ::
  "'s writer \<Rightarrow> nat \<Rightarrow> nat \<Rightarrow> u32 \<Rightarrow> bool \<Rightarrow> bytes \<Rightarrow> nat \<Rightarrow> rtp \<Rightarrow> bytes \<Rightarrow> 's \<Rightarrow>
   (nat result \<times> rtp \<times> bytes \<times> 's) option" where
  "H264_nal emit single_max frag_max ts last_nal nal n r scratch s =
     (if length nal \<le> single_max then
        (case Rtp_write_header r scratch last_nal ts of
           (Inl e, r1, sc1) \<Rightarrow> Some (Inl e, r1, sc1, s)
         | (Inr _, r1, sc1) \<Rightarrow>
             (case copy_range sc1 rtp_HEADER_LEN (rtp_HEADER_LEN + length nal) nal of
                Inl e \<Rightarrow> Some (Inl e, r1, sc1, s)
              | Inr sc2 \<Rightarrow>
                  (case subslice sc2 0 (rtp_HEADER_LEN + length nal) of
                     Inl e \<Rightarrow> Some (Inl e, r1, sc2, s)
                   | Inr pkt \<Rightarrow>
                       (case emit s pkt of
                          (Inl e, s1) \<Rightarrow> Some (Inl e, r1, sc2, s1)
                        | (Inr _, s1) \<Rightarrow> Some (Inr (n + 1), r1, sc2, s1)))))
      else
        (case idx nal 0 of
           Inl e \<Rightarrow> Some (Inl e, r, scratch, s)
         | Inr b \<Rightarrow>
             FuA_loop emit frag_max last_nal ts (b AND 0xE0 OR FU_A) (b AND 0x1F) (drop 1 nal)
               0 n r scratch s))"

fun H264_nals ::
  "'s writer \<Rightarrow> nat \<Rightarrow> nat \<Rightarrow> u32 \<Rightarrow> nat \<Rightarrow> nat \<Rightarrow> bytes list \<Rightarrow> nat \<Rightarrow> rtp \<Rightarrow> bytes \<Rightarrow> 's \<Rightarrow>
   (nat result \<times> rtp \<times> bytes \<times> 's) option" where
  "H264_nals emit single_max frag_max ts nals i [] n r scratch s = Some (Inr n, r, scratch, s)"
| "H264_nals emit single_max frag_max ts nals i (nal # rest) n r scratch s =
     (case H264_nal emit single_max frag_max ts (i + 1 = nals) nal n r scratch s of
        None \<Rightarrow> None
      | Some (Inl e, r1, sc1, s1) \<Rightarrow> Some (Inl e, r1, sc1, s1)
      | Some (Inr n1, r1, sc1, s1) \<Rightarrow>
          H264_nals emit single_max frag_max ts nals (i + 1) rest n1 r1 sc1 s1)"

definition H264Payloader_packetize ::
  "'s writer \<Rightarrow> h264_payloader \<Rightarrow> bytes \<Rightarrow> micros \<Rightarrow> bytes \<Rightarrow> 's \<Rightarrow>
   (nat result \<times> h264_payloader \<times> bytes \<times> 's) option" where
  "H264Payloader_packetize emit p access_unit timestamp scratch s =
     (if length scratch < hp_mtu p
      then Some (Inl (Err (BufferTooSmall (hp_mtu p))), p, scratch, s)
      else
        let ts = Rtp_timestamp (hp_rtp p) timestamp;
            nals = length (nal_units access_unit)
        in if nals = 0 then Some (Inl (Err InvalidFormat), p, scratch, s)
           else map_option (\<lambda>(x, r, sc, s'). (x, p\<lparr>hp_rtp := r\<rparr>, sc, s'))
                  (H264_nals emit (hp_mtu p - rtp_HEADER_LEN) (hp_mtu p - rtp_HEADER_LEN - 2) ts
                     nals 0 (nal_units access_unit) 0 (hp_rtp p) scratch s))"

section \<open>The payloads of an access unit\<close>

text \<open>The FU-A payloads of the fragments of a NAL unit body; \<open>first\<close> for the first one.\<close>

fun fu_a_payloads :: "u8 \<Rightarrow> u8 \<Rightarrow> bool \<Rightarrow> bytes list \<Rightarrow> bytes list" where
  "fu_a_payloads ind ty first [] = []"
| "fu_a_payloads ind ty first (c # cs) =
     ([ind, ty OR (if first then 0x80 else 0) OR (if cs = [] then 0x40 else 0)] @ c)
     # fu_a_payloads ind ty False cs"

definition h264_nal_payloads :: "nat \<Rightarrow> bytes \<Rightarrow> bytes list" where
  "h264_nal_payloads mtu nal =
     (if length nal \<le> mtu - 12 then [nal]
      else fu_a_payloads (nal ! 0 AND 0xE0 OR FU_A) (nal ! 0 AND 0x1F) True
             (chunks_of (mtu - 14) (drop 1 nal)))"

definition mark_last :: "bool \<Rightarrow> bytes list \<Rightarrow> (bool \<times> bytes) list" where
  "mark_last m pls = map (\<lambda>(i, pl). (m \<and> i + 1 = length pls, pl)) (enumerate 0 pls)"

definition h264_payloads :: "nat \<Rightarrow> bytes list \<Rightarrow> (bool \<times> bytes) list" where
  "h264_payloads mtu nals = mark_last True (concat (map (h264_nal_payloads mtu) nals))"

lemma enumerate_map_shift: "map (\<lambda>(i, x). f i x) (enumerate (Suc k) xs) =
    map (\<lambda>(i, x). f (Suc i) x) (enumerate k xs)"
  by (induction xs arbitrary: k) auto

lemma mark_last_Nil [simp]: "mark_last m [] = []"
  by (simp add: mark_last_def)

lemma mark_last_Cons: "mark_last m (x # xs) = (m \<and> xs = [], x) # mark_last m xs"
  by (simp add: mark_last_def enumerate_map_shift)

lemma mark_last_append:
  "ys \<noteq> [] \<Longrightarrow> mark_last m (xs @ ys) = mark_last False xs @ mark_last m ys"
  by (induction xs) (auto simp: mark_last_Cons)

lemma length_mark_last [simp]: "length (mark_last m pls) = length pls"
  by (simp add: mark_last_def)

lemma map_snd_mark_last [simp]: "map snd (mark_last m pls) = pls"
  by (induction pls) (simp_all add: mark_last_Cons)

text \<open>What a loop returns when it behaves as a list of payloads sent one after the other.\<close>

definition sends_as ::
  "(nat result \<times> rtp \<times> bytes \<times> 's) option \<Rightarrow> nat \<Rightarrow> nat \<Rightarrow> nat \<Rightarrow> unit result \<times> rtp \<times> 's \<Rightarrow> bool" where
  "sends_as y len n k sent \<longleftrightarrow> (\<exists>scratch'. length scratch' = len \<and>
     y = (case sent of (Inl e, r', s') \<Rightarrow> Some (Inl e, r', scratch', s')
                     | (Inr _, r', s') \<Rightarrow> Some (Inr (n + k), r', scratch', s')))"

lemma sends_as_cong:
  "sends_as y len n k sent \<Longrightarrow> n + k = n' + k' \<Longrightarrow> sends_as y len n' k' sent"
  unfolding sends_as_def by (elim exE, rule exI) (auto split: sum.splits prod.splits)

lemma FuA_loop_spec:
  assumes "0 < frag_max" and "14 + frag_max \<le> length scratch"
    and "rest = drop off body" and "off \<le> length body"
  shows "sends_as (FuA_loop emit frag_max m ts ind ty body off n r scratch s)
    (length scratch) n (length (chunks_of frag_max rest))
    (rtp_send emit ts r (mark_last m (fu_a_payloads ind ty (off = 0) (chunks_of frag_max rest))) s)"
  using assms
proof (induction frag_max rest arbitrary: off scratch n r s rule: chunks_of.induct)
  case (1 frag_max rest)
  note un = FuA_loop.simps [of emit frag_max m ts ind ty body off n r scratch s]
  show ?case
  proof (cases "off < length body")
    case False
    then have "rest = []" "FuA_loop emit frag_max m ts ind ty body off n r scratch s =
        Some (Inr n, r, scratch, s)" using "1.prems" un by simp_all
    then show ?thesis by (auto simp: sends_as_def)
  next
    case True
    define tk where tk: "tk = min (length body - off) frag_max"
    let ?tk = tk
    let ?c = "take frag_max rest" and ?cs = "chunks_of frag_max (drop frag_max rest)"
    let ?fin = "off + ?tk = length body"
    have ne: "rest \<noteq> []" using True "1.prems" by simp
    have c: "take ?tk (drop off body) = ?c" "length ?c = ?tk"
      using "1.prems" by (simp_all add: tk min_def)
    have bd: "off + tk \<le> length body" "tk \<le> length scratch - 14" "0 < tk"
      using "1.prems" True unfolding tk by linarith+
    have fin: "?fin \<longleftrightarrow> ?cs = []"
      using "1.prems" True by (auto simp: tk min_def)
    let ?pl = "[ind, ty OR (if off = 0 then 0x80 else 0) OR (if ?fin then 0x40 else 0)] @ ?c"
    let ?pkt = "rtp_header_bytes r (m \<and> ?fin) ts @ ?pl"
    let ?sc = "?pkt @ drop (14 + ?tk) scratch"
    have w: "Rtp_write_header r scratch (m \<and> ?fin) ts =
        (Inr (), rtp_next r, rtp_header_bytes r (m \<and> ?fin) ts @ drop 12 scratch)"
      using "1.prems" by (intro Rtp_write_header_ok) simp
    let ?x = "ty OR (if off = 0 then 0x80 else 0) OR (if ?fin then 0x40 else 0)"
    have sub: "subslice body off (off + tk) = Inr ?c" using c bd by simp
    have p1: "put (rtp_header_bytes r (m \<and> ?fin) ts @ drop 12 scratch) rtp_HEADER_LEN [ind] =
        Inr ((rtp_header_bytes r (m \<and> ?fin) ts @ [ind]) @ drop 13 scratch)"
      using put_at_end [of "rtp_header_bytes r (m \<and> ?fin) ts" rtp_HEADER_LEN "[ind]" "drop 12 scratch"]
        "1.prems" by (simp add: rtp_HEADER_LEN_def)
    have p2: "put ((rtp_header_bytes r (m \<and> ?fin) ts @ [ind]) @ drop 13 scratch) (rtp_HEADER_LEN + 1) [?x] =
        Inr ((rtp_header_bytes r (m \<and> ?fin) ts @ [ind, ?x]) @ drop 14 scratch)"
      using put_at_end [of "rtp_header_bytes r (m \<and> ?fin) ts @ [ind]" "rtp_HEADER_LEN + 1" "[?x]"
          "drop 13 scratch"] "1.prems" by (simp add: rtp_HEADER_LEN_def)
    have p3: "copy_range ((rtp_header_bytes r (m \<and> ?fin) ts @ [ind, ?x]) @ drop 14 scratch)
        (rtp_HEADER_LEN + 2) (rtp_HEADER_LEN + 2 + tk) ?c = Inr ?sc"
      using copy_range_at_end [of "rtp_header_bytes r (m \<and> ?fin) ts @ [ind, ?x]" "rtp_HEADER_LEN + 2"
          "rtp_HEADER_LEN + 2 + tk" ?c "drop 14 scratch"] c bd
      by (simp add: rtp_HEADER_LEN_def add.commute)
    have sl: "subslice ?sc 0 (rtp_HEADER_LEN + 2 + tk) = Inr ?pkt"
      using c by (intro subslice_prefix) (simp add: rtp_HEADER_LEN_def)
    have len: "length ?sc = length scratch" using "1.prems" c bd by simp
    note step = p1 p2 p3 sub bind_r_simps
    have ch: "mark_last m (fu_a_payloads ind ty (off = 0) (chunks_of frag_max rest)) =
        (m \<and> ?fin, ?pl) # mark_last m (fu_a_payloads ind ty False ?cs)"
      using ne "1.prems"(1) fin
      by (cases ?cs) (simp_all add: chunks_of_step mark_last_Cons)
    obtain o1 s1 where e: "emit s ?pkt = (o1, s1)" by (cases "emit s ?pkt")
    show ?thesis
    proof (cases o1)
      case (Inl f)
      then have "FuA_loop emit frag_max m ts ind ty body off n r scratch s =
          Some (Inl f, rtp_next r, ?sc, s1)"
        by (simp only: un Let_def flip: tk) (simp only: w step sl e True if_True sum.case prod.case)
      moreover have "rtp_send emit ts r ((m \<and> ?fin, ?pl) # mark_last m (fu_a_payloads ind ty False ?cs)) s =
          (Inl f, rtp_next r, s1)" using e Inl by simp
      ultimately show ?thesis unfolding ch sends_as_def using len by auto
    next
      case (Inr u)
      have lp: "FuA_loop emit frag_max m ts ind ty body off n r scratch s =
          FuA_loop emit frag_max m ts ind ty body (off + ?tk) (n + 1) (rtp_next r) ?sc s1"
        using Inr by (simp only: un Let_def flip: tk) (simp only: w step sl e True if_True sum.case prod.case)
      have snd: "rtp_send emit ts r ((m \<and> ?fin, ?pl) # mark_last m (fu_a_payloads ind ty False ?cs)) s =
          rtp_send emit ts (rtp_next r) (mark_last m (fu_a_payloads ind ty False ?cs)) s1"
        using e Inr by simp
      have IH: "sends_as (FuA_loop emit frag_max m ts ind ty body (off + ?tk) (n + 1) (rtp_next r) ?sc s1)
          (length ?sc) (n + 1) (length ?cs)
          (rtp_send emit ts (rtp_next r) (mark_last m (fu_a_payloads ind ty (off + ?tk = 0) ?cs)) s1)"
        using "1.prems" ne True len by (intro "1.IH") (auto simp: tk min_def add.commute)
      have nz: "(off + ?tk = 0) = False" using bd by simp
      have "sends_as (FuA_loop emit frag_max m ts ind ty body off n r scratch s)
          (length scratch) (n + 1) (length ?cs)
          (rtp_send emit ts r ((m \<and> ?fin, ?pl) # mark_last m (fu_a_payloads ind ty False ?cs)) s)"
        unfolding lp snd using IH unfolding len nz .
      moreover have "n + 1 + length ?cs = n + length (chunks_of frag_max rest)"
        using ne "1.prems"(1) by (simp add: chunks_of_step)
      ultimately show ?thesis unfolding ch by (rule sends_as_cong)
    qed
  qed
qed


lemma h264_nal_payloads_nonempty: "nal \<noteq> [] \<Longrightarrow> 14 < mtu \<Longrightarrow> h264_nal_payloads mtu nal \<noteq> []"
proof -
  assume a: "nal \<noteq> []" "14 < mtu"
  show ?thesis
  proof (cases "length nal \<le> mtu - 12")
    case False
    with a have "drop 1 nal \<noteq> []" by (cases nal) auto
    with a show ?thesis using False by (simp add: h264_nal_payloads_def chunks_of_step)
  qed (simp add: h264_nal_payloads_def)
qed

lemma length_fu_a_payloads [simp]: "length (fu_a_payloads ind ty f cs) = length cs"
  by (induction cs arbitrary: f) simp_all

lemma H264_nal_spec:
  assumes "14 < mtu" and "mtu \<le> length scratch" and "nal \<noteq> []"
  shows "sends_as (H264_nal emit (mtu - rtp_HEADER_LEN) (mtu - rtp_HEADER_LEN - 2) ts m nal n r scratch s)
    (length scratch) n (length (h264_nal_payloads mtu nal))
    (rtp_send emit ts r (mark_last m (h264_nal_payloads mtu nal)) s)"
proof (cases "length nal \<le> mtu - 12")
  case True
  let ?h = "rtp_header_bytes r m ts"
  let ?sc = "(?h @ nal) @ drop (12 + length nal) scratch"
  have w: "Rtp_write_header r scratch m ts = (Inr (), rtp_next r, ?h @ drop 12 scratch)"
    using assms by (intro Rtp_write_header_ok) simp
  have c: "copy_range (?h @ drop 12 scratch) rtp_HEADER_LEN (rtp_HEADER_LEN + length nal) nal = Inr ?sc"
    using copy_range_at_end [of ?h rtp_HEADER_LEN "rtp_HEADER_LEN + length nal" nal "drop 12 scratch"]
      assms True by (simp add: rtp_HEADER_LEN_def add.commute)
  have sl: "subslice ?sc 0 (rtp_HEADER_LEN + length nal) = Inr (?h @ nal)"
    by (intro subslice_prefix) (simp add: rtp_HEADER_LEN_def)
  have len: "length ?sc = length scratch" using assms True by simp
  have le: "length nal \<le> mtu - rtp_HEADER_LEN" using True by (simp add: rtp_HEADER_LEN_def)
  obtain o1 s1 where e: "emit s (?h @ nal) = (o1, s1)" by (cases "emit s (?h @ nal)")
  have "H264_nal emit (mtu - rtp_HEADER_LEN) (mtu - rtp_HEADER_LEN - 2) ts m nal n r scratch s =
      (case o1 of Inl f \<Rightarrow> Some (Inl f, rtp_next r, ?sc, s1)
       | Inr _ \<Rightarrow> Some (Inr (n + 1), rtp_next r, ?sc, s1))"
    by (simp only: H264_nal_def le if_True w c sl e sum.case prod.case)
  then show ?thesis using True len e
    by (cases o1) (auto simp: sends_as_def h264_nal_payloads_def mark_last_Cons)
next
  case False
  then obtain b body where nal: "nal = b # body" by (cases nal) auto
  have f: "\<not> length nal \<le> mtu - rtp_HEADER_LEN" "mtu - rtp_HEADER_LEN - 2 = mtu - 14"
    using False by (simp_all add: rtp_HEADER_LEN_def)
  have "H264_nal emit (mtu - rtp_HEADER_LEN) (mtu - rtp_HEADER_LEN - 2) ts m nal n r scratch s =
      FuA_loop emit (mtu - 14) m ts (b AND 0xE0 OR FU_A) (b AND 0x1F) body 0 n r scratch s"
    using f nal by (simp add: H264_nal_def)
  moreover have "sends_as (FuA_loop emit (mtu - 14) m ts (b AND 0xE0 OR FU_A) (b AND 0x1F) body 0 n r scratch s)
      (length scratch) n (length (chunks_of (mtu - 14) body))
      (rtp_send emit ts r (mark_last m (fu_a_payloads (b AND 0xE0 OR FU_A) (b AND 0x1F) (0 = (0::nat))
         (chunks_of (mtu - 14) body))) s)"
    using assms by (intro FuA_loop_spec) simp_all
  ultimately show ?thesis using False nal by (simp add: h264_nal_payloads_def)
qed

lemma H264_nals_spec:
  assumes "14 < mtu" and "mtu \<le> length scratch" and "\<forall>nal \<in> set rest. nal \<noteq> []"
    and "i + length rest = nals"
  shows "sends_as
    (H264_nals emit (mtu - rtp_HEADER_LEN) (mtu - rtp_HEADER_LEN - 2) ts nals i rest n r scratch s)
    (length scratch) n (length (concat (map (h264_nal_payloads mtu) rest)))
    (rtp_send emit ts r (h264_payloads mtu rest) s)"
  using assms
proof (induction rest arbitrary: i n r scratch s)
  case Nil
  then show ?case by (simp add: sends_as_def h264_payloads_def)
next
  case (Cons nal rest)
  let ?pl = "h264_nal_payloads mtu nal" and ?m = "i + 1 = nals"
  have m: "?m \<longleftrightarrow> rest = []" using Cons.prems(4) by auto
  have split: "h264_payloads mtu (nal # rest) = mark_last ?m ?pl @ h264_payloads mtu rest"
  proof (cases "rest = []")
    case False
    then obtain x xs where x: "rest = x # xs" by (cases rest) auto
    then have "concat (map (h264_nal_payloads mtu) rest) \<noteq> []"
      using h264_nal_payloads_nonempty [of x mtu] Cons.prems by simp
    then show ?thesis using m False by (simp add: h264_payloads_def mark_last_append)
  qed (use m in \<open>simp add: h264_payloads_def\<close>)
  have "sends_as (H264_nal emit (mtu - rtp_HEADER_LEN) (mtu - rtp_HEADER_LEN - 2) ts ?m nal n r scratch s)
    (length scratch) n (length ?pl) (rtp_send emit ts r (mark_last ?m ?pl) s)"
    using Cons.prems by (intro H264_nal_spec) simp_all
  then obtain sc1 where len: "length sc1 = length scratch"
    and h: "H264_nal emit (mtu - rtp_HEADER_LEN) (mtu - rtp_HEADER_LEN - 2) ts ?m nal n r scratch s =
      (case rtp_send emit ts r (mark_last ?m ?pl) s of
         (Inl e, r', s') \<Rightarrow> Some (Inl e, r', sc1, s')
       | (Inr _, r', s') \<Rightarrow> Some (Inr (n + length ?pl), r', sc1, s'))"
    unfolding sends_as_def by blast
  obtain x r1 s1 where snd: "rtp_send emit ts r (mark_last ?m ?pl) s = (x, r1, s1)"
    by (metis prod_cases3)
  show ?case
  proof (cases x)
    case (Inl e)
    then show ?thesis using h snd len
      by (auto simp: sends_as_def split rtp_send_append)
  next
    case (Inr u)
    have IH: "sends_as
      (H264_nals emit (mtu - rtp_HEADER_LEN) (mtu - rtp_HEADER_LEN - 2) ts nals (i + 1) rest
         (n + length ?pl) r1 sc1 s1)
      (length sc1) (n + length ?pl) (length (concat (map (h264_nal_payloads mtu) rest)))
      (rtp_send emit ts r1 (h264_payloads mtu rest) s1)"
      using Cons.prems len by (intro Cons.IH) simp_all
    have "H264_nals emit (mtu - rtp_HEADER_LEN) (mtu - rtp_HEADER_LEN - 2) ts nals i (nal # rest) n r scratch s
      = H264_nals emit (mtu - rtp_HEADER_LEN) (mtu - rtp_HEADER_LEN - 2) ts nals (i + 1) rest
         (n + length ?pl) r1 sc1 s1"
      using h snd Inr by simp
    moreover have "rtp_send emit ts r (h264_payloads mtu (nal # rest)) s =
        rtp_send emit ts r1 (h264_payloads mtu rest) s1"
      by (simp only: split rtp_send_append snd Inr prod.case sum.case)
    ultimately have "sends_as
      (H264_nals emit (mtu - rtp_HEADER_LEN) (mtu - rtp_HEADER_LEN - 2) ts nals i (nal # rest) n r scratch s)
      (length scratch) (n + length ?pl) (length (concat (map (h264_nal_payloads mtu) rest)))
      (rtp_send emit ts r (h264_payloads mtu (nal # rest)) s)"
      using IH len by simp
    then show ?thesis by (rule sends_as_cong) simp
  qed
qed

lemma nal_units_nonempty: "n \<in> set (nal_units s) \<Longrightarrow> n \<noteq> []"
proof -
  assume "n \<in> set (nal_units s)"
  then obtain b a where "n \<in> set (nal_split (drop a s))"
    by (auto simp: nal_units_split split: option.splits)
  then show "n \<noteq> []" using nal_split_decomposes [of "drop a s"] by (auto split: if_splits)
qed

lemma H264Payloader_packetize_spec:
  assumes "15 \<le> hp_mtu p" and "hp_mtu p \<le> length scratch" and "nal_units au \<noteq> []"
  shows "\<exists>scratch'. H264Payloader_packetize emit p au t scratch s =
    (case rtp_send emit (Rtp_timestamp (hp_rtp p) t) (hp_rtp p)
        (h264_payloads (hp_mtu p) (nal_units au)) s of
       (Inl e, r', s') \<Rightarrow> Some (Inl e, p\<lparr>hp_rtp := r'\<rparr>, scratch', s')
     | (Inr _, r', s') \<Rightarrow> Some (Inr (length (h264_payloads (hp_mtu p) (nal_units au))),
         p\<lparr>hp_rtp := r'\<rparr>, scratch', s'))"
proof -
  have "sends_as
    (H264_nals emit (hp_mtu p - rtp_HEADER_LEN) (hp_mtu p - rtp_HEADER_LEN - 2)
       (Rtp_timestamp (hp_rtp p) t) (length (nal_units au)) 0 (nal_units au) 0 (hp_rtp p) scratch s)
    (length scratch) 0 (length (concat (map (h264_nal_payloads (hp_mtu p)) (nal_units au))))
    (rtp_send emit (Rtp_timestamp (hp_rtp p) t) (hp_rtp p) (h264_payloads (hp_mtu p) (nal_units au)) s)"
    using assms nal_units_nonempty by (intro H264_nals_spec) auto
  then show ?thesis using assms
    by (auto simp: sends_as_def H264Payloader_packetize_def Let_def h264_payloads_def
        split: sum.splits prod.splits intro!: exI)
qed

section \<open>What a receiver rebuilds\<close>

text \<open>
  The receiver of RFC 6184 for the two packet kinds the payloader sends: a single NAL unit
  packet is the NAL unit; FU-A fragments are collected from the start bit to the end bit, the
  header byte put back together from the indicator's top bits and the fragment header's type.
\<close>

fun rfc6184_receive :: "bytes \<Rightarrow> bytes list \<Rightarrow> bytes list" where
  "rfc6184_receive acc [] = []"
| "rfc6184_receive acc (pl # pls) =
     (if pl ! 0 AND 0x1F = FU_A then
        let acc' = (if pl ! 1 AND 0x80 \<noteq> 0 then [pl ! 0 AND 0xE0 OR pl ! 1 AND 0x1F] else acc) @ drop 2 pl
        in if pl ! 1 AND 0x40 \<noteq> 0 then acc' # rfc6184_receive [] pls else rfc6184_receive acc' pls
      else pl # rfc6184_receive acc pls)"

lemma fu_indicator_bits:
  "((b :: u8) AND 0xE0 OR FU_A) AND 0x1F = FU_A"
  "(b AND 0xE0 OR FU_A) AND 0xE0 = b AND 0xE0"
  by (simp_all add: FU_A_def bit.conj_disj_distrib2 and.assoc)

lemma fu_header_bits:
  fixes ty :: u8
  assumes "ty = b AND 0x1F"
  shows "(ty OR (if f then 0x80 else 0) OR (if l then 0x40 else 0)) AND 0x1F = ty"
    "((ty OR (if f then 0x80 else 0) OR (if l then 0x40 else 0)) AND 0x80 \<noteq> 0) = f"
    "((ty OR (if f then 0x80 else 0) OR (if l then 0x40 else 0)) AND 0x40 \<noteq> 0) = l"
  unfolding assms by (simp_all add: bit.conj_disj_distrib2 and.assoc)

lemma nal_header_split: "(b :: u8) AND 0xE0 OR b AND 0x1F = b"
proof -
  have "b AND 0xE0 OR b AND 0x1F = b AND (0xE0 OR 0x1F)" by (simp only: bit.conj_disj_distrib)
  also have "(0xE0 OR 0x1F :: u8) = - 1" by simp
  finally show ?thesis by simp
qed

lemma receive_fu_packet:
  "rfc6184_receive acc
     (([b AND 0xE0 OR FU_A, b AND 0x1F OR (if f then 0x80 else 0) OR (if l then 0x40 else 0)] @ c) # pls) =
   (if l then ((if f then [b] else acc) @ c) # rfc6184_receive [] pls
    else rfc6184_receive ((if f then [b] else acc) @ c) pls)"
proof -
  define h where "h = b AND 0x1F OR (if f then 0x80 else 0) OR (if l then 0x40 else 0)"
  have "h AND 0x1F = b AND 0x1F" "(h AND 0x80 \<noteq> 0) = f" "(h AND 0x40 \<noteq> 0) = l"
    unfolding h_def by (rule fu_header_bits, rule refl)+
  then show ?thesis unfolding h_def [symmetric]
    by (simp add: fu_indicator_bits nal_header_split Let_def)
qed

lemma receive_fu_a:
  assumes "cs \<noteq> []"
  shows "rfc6184_receive acc (fu_a_payloads (b AND 0xE0 OR FU_A) (b AND 0x1F) f cs @ rest) =
    ((if f then [b] else acc) @ concat cs) # rfc6184_receive [] rest"
  using assms
proof (induction cs arbitrary: acc f)
  case (Cons c cs)
  have "rfc6184_receive acc (fu_a_payloads (b AND 0xE0 OR FU_A) (b AND 0x1F) f (c # cs) @ rest) =
      (let pls = fu_a_payloads (b AND 0xE0 OR FU_A) (b AND 0x1F) False cs @ rest in
       if cs = [] then ((if f then [b] else acc) @ c) # rfc6184_receive [] pls
       else rfc6184_receive ((if f then [b] else acc) @ c) pls)"
    unfolding fu_a_payloads.simps Let_def append_Cons [of _ _ rest] receive_fu_packet ..
  then show ?case using Cons.IH by (cases "cs = []") simp_all
qed simp

lemma receive_nal:
  assumes "14 < mtu" "nal \<noteq> []" "nal ! 0 AND 0x1F \<noteq> FU_A"
  shows "rfc6184_receive [] (h264_nal_payloads mtu nal @ rest) = nal # rfc6184_receive [] rest"
proof (cases "length nal \<le> mtu - 12")
  case False
  with assms have "drop 1 nal \<noteq> []" by (cases nal) auto
  then have "chunks_of (mtu - 14) (drop 1 nal) \<noteq> []" using assms(1) by simp
  from receive_fu_a [OF this, of "[]" "nal ! 0" True rest] False assms show ?thesis
    by (cases nal) (simp_all add: h264_nal_payloads_def concat_chunks_of)
qed (use assms in \<open>simp add: h264_nal_payloads_def\<close>)

lemma receive_nals:
  assumes "14 < mtu" "\<forall>nal \<in> set nals. nal \<noteq> [] \<and> nal ! 0 AND 0x1F \<noteq> FU_A"
  shows "rfc6184_receive [] (concat (map (h264_nal_payloads mtu) nals)) = nals"
  using assms(2) by (induction nals) (simp_all add: receive_nal [OF assms(1)])

lemma fu_a_payloads_size:
  "pl \<in> set (fu_a_payloads ind ty f cs) \<Longrightarrow> \<forall>c \<in> set cs. length c \<le> n \<Longrightarrow> length pl \<le> n + 2"
  by (induction cs arbitrary: f) auto

lemma h264_nal_payloads_size:
  assumes "14 < mtu" "pl \<in> set (h264_nal_payloads mtu nal)"
  shows "length pl \<le> mtu - 12"
proof (cases "length nal \<le> mtu - 12")
  case True
  then show ?thesis using assms by (simp add: h264_nal_payloads_def)
next
  case False
  have "\<forall>c \<in> set (chunks_of (mtu - 14) (drop 1 nal)). length c \<le> mtu - 14"
    using chunks_of_sizes by blast
  moreover have "pl \<in> set (fu_a_payloads (nal ! 0 AND 0xE0 OR FU_A) (nal ! 0 AND 0x1F) True
      (chunks_of (mtu - 14) (drop 1 nal)))"
    using assms(2) False by (simp add: h264_nal_payloads_def)
  ultimately have "length pl \<le> mtu - 14 + 2" by (intro fu_a_payloads_size)
  then show ?thesis using assms(1) by simp
qed

lemma h264_payloads_size:
  "14 < mtu \<Longrightarrow> \<forall>pl \<in> snd ` set (h264_payloads mtu nals). length pl \<le> mtu - 12"
  unfolding set_map [symmetric] h264_payloads_def map_snd_mark_last
  using h264_nal_payloads_size by auto

lemma length_rtp_packets [simp]: "length (rtp_packets ts r ps) = length ps"
  by (induction ps arbitrary: r) auto

lemma rtp_packets_size:
  "d \<in> set (rtp_packets ts r ps) \<Longrightarrow> \<forall>pl \<in> snd ` set ps. length pl \<le> n \<Longrightarrow> length d \<le> 12 + n"
  by (induction ps arbitrary: r) auto

lemma mark_last_markers: "map fst (mark_last True pls) = map (\<lambda>i. i + 1 = length pls) [0..<length pls]"
  by (auto simp: mark_last_def intro!: nth_equalityI simp: nth_enumerate_eq)

section \<open>Properties\<close>

text \<open>The header round trip: what \<open>write_header\<close> writes into any buffer of at least 12 bytes
  is parsed back field for field, with the rest of the buffer as the payload, and the sequence
  number advances by one, wrapping.\<close>

lemma rtp_header_roundtrip:
  assumes "12 \<le> length out"
  shows "case Rtp_write_header (Rtp_new ssrc pt hz seq) out marker ts of
      (x, r', out') \<Rightarrow> x = Inr () \<and> rt_seq r' = seq + 1 \<and>
        rtp_Header_parse out' =
          Inr (\<lparr>rh_marker = marker, rh_payload_type = pt AND 0x7F, rh_seq = seq,
                rh_timestamp = ts, rh_ssrc = ssrc\<rparr>, drop 12 out)"
  using Rtp_write_header_ok [OF assms, of "Rtp_new ssrc pt hz seq" marker ts]
    rtp_Header_parse_bytes [OF Rtp_new_payload_type, of ssrc pt hz seq marker ts "drop 12 out"]
  by (simp add: rtp_next_def Rtp_new_def)

lemma rtp_header_roundtrip_witness:
  "case Rtp_write_header (Rtp_new 0xDEADBEEF 96 90000 65534) (replicate 13 7) True 90000 of
      (x, r', out') \<Rightarrow> x = Inr () \<and> rt_seq r' = 65535 \<and>
        rtp_Header_parse out' =
          Inr (\<lparr>rh_marker = True, rh_payload_type = 96, rh_seq = 65534,
                rh_timestamp = 90000, rh_ssrc = 0xDEADBEEF\<rparr>, [7])"
  using rtp_header_roundtrip [where out = "replicate 13 7" and ssrc = "0xDEADBEEF" and pt = 96
    and hz = 90000 and seq = 65534 and marker = True and ts = 90000]
  by simp

text \<open>The headers of packets sent by a fresh sender, as a receiver parses them.\<close>

lemma rtp_packets_headers:
  "\<exists>hs. map rtp_Header_parse (rtp_packets ts (Rtp_new ssrc pt hz seq) ps) = map Inr hs \<and>
     map (rh_seq \<circ> fst) hs = map (\<lambda>i. seq + of_nat i) [0..<length ps] \<and>
     (\<forall>h \<in> set hs. rh_timestamp (fst h) = ts \<and> rh_ssrc (fst h) = ssrc) \<and>
     map (rh_marker \<circ> fst) hs = map fst ps \<and> map snd hs = map snd ps"
proof -
  let ?r = "Rtp_new ssrc pt hz seq"
  let ?hs = "map (\<lambda>(i, m, pl). (\<lparr>rh_marker = m, rh_payload_type = rt_payload_type ?r,
        rh_seq = rt_seq ?r + of_nat i, rh_timestamp = ts, rh_ssrc = rt_ssrc ?r\<rparr>, pl)) (enumerate 0 ps)"
  have "map rtp_Header_parse (rtp_packets ts ?r ps) = map Inr ?hs"
    using rtp_packets_parse [of ?r ts ps] Rtp_new_payload_type [of ssrc pt hz seq]
    by (simp add: split_def comp_def)
  moreover have "map (rh_seq \<circ> fst) ?hs = map (\<lambda>i. seq + of_nat i) [0..<length ps]"
    by (intro nth_equalityI) (simp_all add: nth_enumerate_eq Rtp_new_def split_def)
  moreover have "\<forall>h \<in> set ?hs. rh_timestamp (fst h) = ts \<and> rh_ssrc (fst h) = ssrc"
    by (auto simp: Rtp_new_def)
  moreover have "map (rh_marker \<circ> fst) ?hs = map fst ps" "map snd ?hs = map snd ps"
    by (intro nth_equalityI; simp add: nth_enumerate_eq split_def)+
  ultimately show ?thesis by blast
qed

text \<open>C7: H.264 over RTP. For any access unit with a NAL unit, \<open>packetize\<close> returns whatever the
  closure does: it offers the closure the packets below in order and stops at the first refusal.
  No packet exceeds the MTU; they carry consecutive sequence numbers and one timestamp; exactly
  the last one is marked; and an RFC 6184 receiver rebuilds exactly the NAL units of the access
  unit from their payloads.\<close>

theorem H264Payloader_roundtrip:
  assumes "H264Payloader_new (Rtp_new ssrc pt hz seq) mtu = Inr p" and "mtu \<le> length scratch"
    and "nal_units au \<noteq> []" and "\<forall>nal \<in> set (nal_units au). nal_unit_type nal \<noteq> Some FU_A"
  shows "\<exists>packets hs. packets = rtp_packets (Rtp_timestamp (hp_rtp p) t) (hp_rtp p) (h264_payloads mtu (nal_units au)) \<and>
    (\<exists>scratch' p'. H264Payloader_packetize emit p au t scratch s =
       (case write_seq emit packets s of
          (Inl e, s') \<Rightarrow> Some (Inl e, p', scratch', s')
        | (Inr _, s') \<Rightarrow> Some (Inr (length packets), p', scratch', s'))) \<and>
    (\<forall>d \<in> set packets. length d \<le> mtu) \<and>
    map rtp_Header_parse packets = map Inr hs \<and>
    map (rh_seq \<circ> fst) hs = map (\<lambda>i. seq + of_nat i) [0..<length packets] \<and>
    (\<forall>h \<in> set hs. rh_timestamp (fst h) = Rtp_timestamp (hp_rtp p) t \<and> rh_ssrc (fst h) = ssrc) \<and>
    map (rh_marker \<circ> fst) hs = map (\<lambda>i. i + 1 = length packets) [0..<length packets] \<and>
    rfc6184_receive [] (map snd hs) = nal_units au"
proof -
  let ?r = "hp_rtp p" and ?ts = "Rtp_timestamp (hp_rtp p) t"
  let ?pls = "h264_payloads mtu (nal_units au)"
  let ?packets = "rtp_packets ?ts ?r ?pls"
  have mtu: "15 \<le> mtu" "hp_mtu p = mtu" and r: "?r = Rtp_new ssrc pt hz seq"
    using assms(1) by (auto simp: H264Payloader_new_def rtp_HEADER_LEN_def split: if_splits)
  have nals: "\<forall>nal \<in> set (nal_units au). nal \<noteq> [] \<and> nal ! 0 AND 0x1F \<noteq> FU_A"
    using assms(4) nal_units_nonempty by (fastforce simp: nal_unit_type_def neq_Nil_conv)
  obtain x r' s' where snd: "rtp_send emit ?ts ?r ?pls s = (x, r', s')" by (metis prod_cases3)
  then have ws: "write_seq emit ?packets s = (x, s')"
    using rtp_send_write_seq [of emit ?ts ?r ?pls s] by simp
  have pk: "\<exists>scratch' p'. H264Payloader_packetize emit p au t scratch s =
       (case write_seq emit ?packets s of
          (Inl e, s') \<Rightarrow> Some (Inl e, p', scratch', s')
        | (Inr _, s') \<Rightarrow> Some (Inr (length ?packets), p', scratch', s'))"
    using H264Payloader_packetize_spec [of p scratch au emit t s] mtu assms(2,3)
    by (auto simp: snd ws split: sum.splits)
  have size: "\<forall>d \<in> set ?packets. length d \<le> mtu"
  proof
    fix d assume d: "d \<in> set ?packets"
    have "14 < mtu" using mtu by simp
    from rtp_packets_size [OF d h264_payloads_size [OF this]] mtu show "length d \<le> mtu" by simp
  qed
  from rtp_packets_headers [of ?ts ssrc pt hz seq ?pls, folded r] obtain hs where
    hs: "map rtp_Header_parse ?packets = map Inr hs"
      "map (rh_seq \<circ> fst) hs = map (\<lambda>i. seq + of_nat i) [0..<length ?pls]"
      "\<forall>h \<in> set hs. rh_timestamp (fst h) = ?ts \<and> rh_ssrc (fst h) = ssrc"
      "map (rh_marker \<circ> fst) hs = map fst ?pls" "map snd hs = map snd ?pls" by blast
  have "rfc6184_receive [] (map snd hs) = nal_units au"
    using receive_nals [of mtu "nal_units au"] nals mtu by (simp add: hs(5) h264_payloads_def)
  moreover have "map fst ?pls = map (\<lambda>i. i + 1 = length ?pls) [0..<length ?pls]"
    by (simp add: h264_payloads_def mark_last_markers)
  ultimately show ?thesis using pk size hs by (intro exI [of _ ?packets] exI [of _ hs]) simp
qed


theorem H264Payloader_roundtrip_witness:
  "\<exists>hs. map rtp_Header_parse (rtp_packets 0 (Rtp_new 1 96 90000 0) (h264_payloads 15 [[0x67, 1], [0x65, 1, 2, 3, 4]]))
      = map Inr hs \<and>
    rfc6184_receive [] (map snd hs) = [[0x67, 1], [0x65, 1, 2, 3, 4]]"
proof -
  let ?nals = "[[0x67, 1], [0x65, 1, 2, 3, 4]] :: bytes list"
  let ?p = "\<lparr>hp_rtp = Rtp_new 1 96 90000 0, hp_mtu = 15\<rparr>"
  obtain au where au: "nal_units au = ?nals"
    using that nal_units_join [of "map (\<lambda>n. (1, n)) ?nals"] by (simp add: nal_ok_def scan3_def comp_def)
  have "H264Payloader_new (Rtp_new 1 96 90000 0) 15 = Inr ?p"
    by (simp add: H264Payloader_new_def rtp_HEADER_LEN_def)
  from H264Payloader_roundtrip [OF this, where scratch = "replicate 15 0" and au = au and emit = Vec_emit and t = 0 and s = "[]"]
  obtain hs where "map rtp_Header_parse (rtp_packets (Rtp_timestamp (Rtp_new 1 96 90000 0) 0) (Rtp_new 1 96 90000 0) (h264_payloads 15 ?nals))
      = map Inr hs" "rfc6184_receive [] (map snd hs) = ?nals"
    by (auto simp add: au nal_unit_type_def FU_A_def)
  moreover have "Rtp_timestamp (Rtp_new 1 96 90000 0) 0 = 0" by (simp add: Rtp_timestamp_def)
  ultimately show ?thesis by auto
qed

end
