(* ===== verification/RtpJpeg.thy ===== *)
theory RtpJpeg
  imports Rtp
begin

text \<open>
  JPEG over RTP (RFC 2435), \<open>rtp.rs\<close>: picking a baseline JPEG apart, the payloader, the
  headers a receiver regenerates, and the depayloader that rebuilds the file in a caller
  buffer.
\<close>

section \<open>Tables\<close>

record huffman_table =
  ht_class_id :: u8
  ht_codelens :: bytes
  ht_symbols :: bytes

definition LUM_DC :: huffman_table where
  "LUM_DC = \<lparr>ht_class_id = 0x00,
     ht_codelens = [0, 1, 5, 1, 1, 1, 1, 1, 1, 0, 0, 0, 0, 0, 0, 0],
     ht_symbols = [0, 1, 2, 3, 4, 5, 6, 7, 8, 9, 10, 11]\<rparr>"

definition LUM_AC :: huffman_table where
  "LUM_AC = \<lparr>ht_class_id = 0x10,
     ht_codelens = [0, 2, 1, 3, 3, 2, 4, 3, 5, 5, 4, 4, 0, 0, 1, 0x7d],
     ht_symbols = [
       0x01, 0x02, 0x03, 0x00, 0x04, 0x11, 0x05, 0x12, 0x21, 0x31, 0x41, 0x06, 0x13, 0x51,
       0x61, 0x07, 0x22, 0x71, 0x14, 0x32, 0x81, 0x91, 0xa1, 0x08, 0x23, 0x42, 0xb1, 0xc1,
       0x15, 0x52, 0xd1, 0xf0, 0x24, 0x33, 0x62, 0x72, 0x82, 0x09, 0x0a, 0x16, 0x17, 0x18,
       0x19, 0x1a, 0x25, 0x26, 0x27, 0x28, 0x29, 0x2a, 0x34, 0x35, 0x36, 0x37, 0x38, 0x39,
       0x3a, 0x43, 0x44, 0x45, 0x46, 0x47, 0x48, 0x49, 0x4a, 0x53, 0x54, 0x55, 0x56, 0x57,
       0x58, 0x59, 0x5a, 0x63, 0x64, 0x65, 0x66, 0x67, 0x68, 0x69, 0x6a, 0x73, 0x74, 0x75,
       0x76, 0x77, 0x78, 0x79, 0x7a, 0x83, 0x84, 0x85, 0x86, 0x87, 0x88, 0x89, 0x8a, 0x92,
       0x93, 0x94, 0x95, 0x96, 0x97, 0x98, 0x99, 0x9a, 0xa2, 0xa3, 0xa4, 0xa5, 0xa6, 0xa7,
       0xa8, 0xa9, 0xaa, 0xb2, 0xb3, 0xb4, 0xb5, 0xb6, 0xb7, 0xb8, 0xb9, 0xba, 0xc2, 0xc3,
       0xc4, 0xc5, 0xc6, 0xc7, 0xc8, 0xc9, 0xca, 0xd2, 0xd3, 0xd4, 0xd5, 0xd6, 0xd7, 0xd8,
       0xd9, 0xda, 0xe1, 0xe2, 0xe3, 0xe4, 0xe5, 0xe6, 0xe7, 0xe8, 0xe9, 0xea, 0xf1, 0xf2,
       0xf3, 0xf4, 0xf5, 0xf6, 0xf7, 0xf8, 0xf9, 0xfa]\<rparr>"

definition CHM_DC :: huffman_table where
  "CHM_DC = \<lparr>ht_class_id = 0x01,
     ht_codelens = [0, 3, 1, 1, 1, 1, 1, 1, 1, 1, 1, 0, 0, 0, 0, 0],
     ht_symbols = [0, 1, 2, 3, 4, 5, 6, 7, 8, 9, 10, 11]\<rparr>"

definition CHM_AC :: huffman_table where
  "CHM_AC = \<lparr>ht_class_id = 0x11,
     ht_codelens = [0, 2, 1, 2, 4, 4, 3, 4, 7, 5, 4, 4, 0, 1, 2, 0x77],
     ht_symbols = [
       0x00, 0x01, 0x02, 0x03, 0x11, 0x04, 0x05, 0x21, 0x31, 0x06, 0x12, 0x41, 0x51, 0x07,
       0x61, 0x71, 0x13, 0x22, 0x32, 0x81, 0x08, 0x14, 0x42, 0x91, 0xa1, 0xb1, 0xc1, 0x09,
       0x23, 0x33, 0x52, 0xf0, 0x15, 0x62, 0x72, 0xd1, 0x0a, 0x16, 0x24, 0x34, 0xe1, 0x25,
       0xf1, 0x17, 0x18, 0x19, 0x1a, 0x26, 0x27, 0x28, 0x29, 0x2a, 0x35, 0x36, 0x37, 0x38,
       0x39, 0x3a, 0x43, 0x44, 0x45, 0x46, 0x47, 0x48, 0x49, 0x4a, 0x53, 0x54, 0x55, 0x56,
       0x57, 0x58, 0x59, 0x5a, 0x63, 0x64, 0x65, 0x66, 0x67, 0x68, 0x69, 0x6a, 0x73, 0x74,
       0x75, 0x76, 0x77, 0x78, 0x79, 0x7a, 0x82, 0x83, 0x84, 0x85, 0x86, 0x87, 0x88, 0x89,
       0x8a, 0x92, 0x93, 0x94, 0x95, 0x96, 0x97, 0x98, 0x99, 0x9a, 0xa2, 0xa3, 0xa4, 0xa5,
       0xa6, 0xa7, 0xa8, 0xa9, 0xaa, 0xb2, 0xb3, 0xb4, 0xb5, 0xb6, 0xb7, 0xb8, 0xb9, 0xba,
       0xc2, 0xc3, 0xc4, 0xc5, 0xc6, 0xc7, 0xc8, 0xc9, 0xca, 0xd2, 0xd3, 0xd4, 0xd5, 0xd6,
       0xd7, 0xd8, 0xd9, 0xda, 0xe2, 0xe3, 0xe4, 0xe5, 0xe6, 0xe7, 0xe8, 0xe9, 0xea, 0xf2,
       0xf3, 0xf4, 0xf5, 0xf6, 0xf7, 0xf8, 0xf9, 0xfa]\<rparr>"

definition huffman_ALL :: "huffman_table list" where
  "huffman_ALL = [LUM_DC, LUM_AC, CHM_DC, CHM_AC]"

definition table_for :: "u8 \<Rightarrow> huffman_table option" where
  "table_for class_id = find (\<lambda>t. ht_class_id t = class_id) huffman_ALL"

definition ZIGZAG :: "nat list" where
  "ZIGZAG = [
       0, 1, 8, 16, 9, 2, 3, 10, 17, 24, 32, 25, 18, 11, 4, 5, 12, 19, 26, 33, 40, 48, 41, 34, 27, 20,
       13, 6, 7, 14, 21, 28, 35, 42, 49, 56, 57, 50, 43, 36, 29, 22, 15, 23, 30, 37, 44, 51, 58, 59,
       52, 45, 38, 31, 39, 46, 53, 60, 61, 54, 47, 55, 62, 63]"

definition LUMA_QUANT :: bytes where
  "LUMA_QUANT = [
       16, 11, 10, 16, 24, 40, 51, 61, 12, 12, 14, 19, 26, 58, 60, 55, 14, 13, 16, 24, 40, 57, 69, 56,
       14, 17, 22, 29, 51, 87, 80, 62, 18, 22, 37, 56, 68, 109, 103, 77, 24, 35, 55, 64, 81, 104, 113,
       92, 49, 64, 78, 87, 103, 121, 120, 101, 72, 92, 95, 98, 112, 100, 103, 99]"

definition CHROMA_QUANT :: bytes where
  "CHROMA_QUANT = [
       17, 18, 24, 47, 99, 99, 99, 99, 18, 21, 26, 66, 99, 99, 99, 99, 24, 26, 56, 99, 99, 99, 99, 99,
       47, 66, 99, 99, 99, 99, 99, 99, 99, 99, 99, 99, 99, 99, 99, 99, 99, 99, 99, 99, 99, 99, 99, 99,
       99, 99, 99, 99, 99, 99, 99, 99, 99, 99, 99, 99, 99, 99, 99, 99]"

text \<open>\<open>default_quant_tables\<close>; \<open>u32\<close> arithmetic that stays below \<open>255 * 5000 + 50\<close>.\<close>

definition default_quant_tables :: "u8 \<Rightarrow> bytes list" where
  "default_quant_tables q0 =
     (let q = max 1 (min (unat q0) 99);
          factor = (if q < 50 then 5000 div q else 200 - q * 2);
          scale = (\<lambda>base. map (\<lambda>z. of_nat (max 1 (min ((unat (base ! z) * factor + 50) div 100) 255)) :: u8) ZIGZAG)
      in [scale LUMA_QUANT, scale CHROMA_QUANT])"

section \<open>Picking a JPEG apart\<close>

record jpeg_scan =
  js_width :: u16
  js_height :: u16
  js_type :: u8
  js_restart_interval :: "u16 option"
  js_qtables :: "bytes list"
  js_qtable_count :: nat
  js_scan :: bytes

text \<open>The locals of \<open>JpegScan::parse\<close>.\<close>

record jpeg_parse =
  jp_qtables :: "bytes list"
  jp_qcount :: nat
  jp_dims :: "(u16 \<times> u16 \<times> u8) option"
  jp_restart :: "u16 option"

text \<open>\<open>while jpeg.get(i) == Some(&0xFF) { i += 1 }\<close>\<close>

function skip_ff :: "bytes \<Rightarrow> nat \<Rightarrow> nat" where
  "skip_ff jpeg i = (if get jpeg i = Some 0xFF then skip_ff jpeg (i + 1) else i)"
  by pat_completeness auto
termination
  by (relation "measure (\<lambda>(jpeg, i). length jpeg - i)") (auto simp: get_def split: if_splits)

declare skip_ff.simps [simp del]

text \<open>The loop over the tables of a DQT segment. After the guards, every slice is in range.\<close>

function JpegScan_dqt :: "bytes \<Rightarrow> jpeg_parse \<Rightarrow> jpeg_parse result" where
  "JpegScan_dqt s st =
     (if s = [] then Inr st
      else
        (let pq = drop_bit 4 (s ! 0); tq = unat (s ! 0 AND 0x0F) in
         if pq \<noteq> 0 \<or> length s < 65 \<or> tq > 1 then Inl (Err Unsupported)
         else JpegScan_dqt (drop 65 s)
                (st\<lparr>jp_qtables := (jp_qtables st)[tq := cut s 1 65],
                    jp_qcount := max (jp_qcount st) (tq + 1)\<rparr>)))"
  by pat_completeness auto
termination
  by (relation "measure (\<lambda>(s, st). length s)") auto

declare JpegScan_dqt.simps [simp del]

definition JpegScan_sof :: "bytes \<Rightarrow> jpeg_parse \<Rightarrow> jpeg_parse result" where
  "JpegScan_sof seg st =
     (if length seg < 6 \<or> seg ! 0 \<noteq> 8 \<or> seg ! 5 \<noteq> 3 then Inl (Err Unsupported)
      else
        let h = from_be16 (seg ! 1) (seg ! 2); w = from_be16 (seg ! 3) (seg ! 4) in
        if w = 0 \<or> h = 0 \<or> w mod 8 \<noteq> 0 \<or> h mod 8 \<noteq> 0 \<or> w > 2040 \<or> h > 2040
        then Inl (Err Unsupported)
        else bind_r (ok_or (get seg 7) InvalidFormat) (\<lambda>hv.
          if hv = 0x21 then Inr (st\<lparr>jp_dims := Some (w, h, 0)\<rparr>)
          else if hv = 0x22 then Inr (st\<lparr>jp_dims := Some (w, h, 1)\<rparr>)
          else Inl (Err Unsupported)))"

text \<open>The loop over the tables of a DHT segment: only the Annex K tables pass.\<close>

function JpegScan_dht :: "bytes \<Rightarrow> unit result" where
  "JpegScan_dht s =
     (if s = [] then Inr ()
      else if length s < 17 then Inl (Err InvalidFormat)
      else
        (case table_for (s ! 0) of
           None \<Rightarrow> Inl (Err Unsupported)
         | Some expected \<Rightarrow>
             (let codelens = cut s 1 17; nsym = sum_list (map unat codelens) in
              case get_range s 17 (17 + nsym) of
                None \<Rightarrow> Inl (Err InvalidFormat)
              | Some symbols \<Rightarrow>
                  if codelens \<noteq> ht_codelens expected \<or> symbols \<noteq> ht_symbols expected
                  then Inl (Err Unsupported)
                  else JpegScan_dht (drop (17 + nsym) s))))"
  by pat_completeness auto
termination
  by (relation "measure length") auto

declare JpegScan_dht.simps [simp del]

text \<open>The arms of \<open>match marker\<close> that go on to the next segment.\<close>

definition JpegScan_segment :: "u8 \<Rightarrow> bytes \<Rightarrow> jpeg_parse \<Rightarrow> jpeg_parse result" where
  "JpegScan_segment marker seg st =
     (if marker = 0xDB then JpegScan_dqt seg st
      else if marker = 0xC0 \<or> marker = 0xC1 then JpegScan_sof seg st
      else if 0xC2 \<le> marker \<and> marker \<le> 0xCF \<and> marker \<noteq> 0xC4 \<and> marker \<noteq> 0xC8 \<and> marker \<noteq> 0xCC
        then Inl (Err Unsupported)
      else if marker = 0xC4 then bind_r (JpegScan_dht seg) (\<lambda>_. Inr st)
      else if marker = 0xDD then
        (if length seg < 2 then Inl (Err InvalidFormat)
         else Inr (st\<lparr>jp_restart := Some (from_be16 (seg ! 0) (seg ! 1))\<rparr>))
      else if marker = 0xD9 then Inl (Err InvalidFormat)
      else Inr st)"

text \<open>\<open>while end >= 2 && !(jpeg[end - 2] == 0xFF && jpeg[end - 1] == 0xD9) { end -= 1 }\<close>\<close>

primrec eoi_back :: "bytes \<Rightarrow> nat \<Rightarrow> nat" where
  "eoi_back jpeg 0 = 0"
| "eoi_back jpeg (Suc e) =
     (if 2 \<le> Suc e \<and> \<not> (jpeg ! (Suc e - 2) = 0xFF \<and> jpeg ! (Suc e - 1) = 0xD9)
      then eoi_back jpeg e else Suc e)"

text \<open>The SOS arm, which returns.\<close>

definition JpegScan_sos :: "bytes \<Rightarrow> nat \<Rightarrow> jpeg_parse \<Rightarrow> jpeg_scan result" where
  "JpegScan_sos jpeg scan_start st =
     bind_r (ok_or (jp_dims st) InvalidFormat) (\<lambda>(w, h, type0).
       if jp_qcount st = 0 then Inl (Err InvalidFormat)
       else
         let ty = (if jp_restart st \<noteq> None then type0 + 64 else type0);
             fin = eoi_back jpeg (length jpeg)
         in if fin < 2 \<or> fin - 2 < scan_start then Inl (Err InvalidFormat)
            else bind_r (subslice jpeg scan_start (fin - 2)) (\<lambda>scan.
              Inr \<lparr>js_width = w, js_height = h, js_type = ty, js_restart_interval = jp_restart st,
                   js_qtables = jp_qtables st, js_qtable_count = jp_qcount st, js_scan = scan\<rparr>))"

lemma skip_ff_ge: "i \<le> skip_ff jpeg i"
  by (induction jpeg i rule: skip_ff.induct) (subst skip_ff.simps, fastforce)

lemma skip_ff_progress:
  "get jpeg (skip_ff jpeg i) = Some m \<Longrightarrow> skip_ff jpeg i < k \<Longrightarrow> length jpeg - k < length jpeg - i"
  using skip_ff_ge [of i jpeg] by (auto simp: get_def split: if_splits)

function JpegScan_loop :: "bytes \<Rightarrow> nat \<Rightarrow> jpeg_parse \<Rightarrow> jpeg_scan result" where
  "JpegScan_loop jpeg i0 st =
     (let i1 = skip_ff jpeg i0 in
      case get jpeg i1 of
        None \<Rightarrow> Inl (Err InvalidFormat)
      | Some marker \<Rightarrow>
          (let i = i1 + 1 in
           if marker = 0x01 \<or> (0xD0 \<le> marker \<and> marker \<le> 0xD7) then JpegScan_loop jpeg i st
           else
             (case get jpeg i of
                None \<Rightarrow> Inl (Err InvalidFormat)
              | Some a \<Rightarrow>
                  (case get jpeg (i + 1) of
                     None \<Rightarrow> Inl (Err InvalidFormat)
                   | Some b \<Rightarrow>
                       (let len = unat (from_be16 a b) in
                        if len < 2 then Inl (Err InvalidFormat)
                        else
                          (case get_range jpeg (i + 2) (i + len) of
                             None \<Rightarrow> Inl (Err InvalidFormat)
                           | Some seg \<Rightarrow>
                               if marker = 0xDA then JpegScan_sos jpeg (i + len) st
                               else
                                 (case JpegScan_segment marker seg st of
                                    Inl e \<Rightarrow> Inl e
                                  | Inr st' \<Rightarrow> JpegScan_loop jpeg (i + len) st')))))))"
  by pat_completeness auto
termination
  by (relation "measure (\<lambda>(jpeg, i, st). length jpeg - i)") (auto intro: skip_ff_progress)

declare JpegScan_loop.simps [simp del]

definition JpegScan_parse :: "bytes \<Rightarrow> jpeg_scan result" where
  "JpegScan_parse jpeg =
     (if length jpeg < 4 \<or> jpeg ! 0 \<noteq> 0xFF \<or> jpeg ! 1 \<noteq> 0xD8 then Inl (Err InvalidFormat)
      else JpegScan_loop jpeg 2
             \<lparr>jp_qtables = [[], []], jp_qcount = 0, jp_dims = None, jp_restart = None\<rparr>)"

section \<open>The payloader\<close>

record jpeg_payloader =
  jpp_rtp :: rtp
  jpp_mtu :: nat

definition JpegPayloader_new :: "u32 \<Rightarrow> u16 \<Rightarrow> nat \<Rightarrow> jpeg_payloader result" where
  "JpegPayloader_new ssrc first_seq mtu =
     (if mtu < rtp_HEADER_LEN + 8 + 4 + 4 + 128 + 1 then Inl (Err InvalidFormat)
      else Inr \<lparr>jpp_rtp = Rtp_new ssrc PT_JPEG VIDEO_CLOCK_HZ first_seq, jpp_mtu = mtu\<rparr>)"

text \<open>\<open>for t in &info.qtables[..n] { scratch[p..p + 64].copy_from_slice(t); p += 64; }\<close>\<close>

fun JpegPayloader_tables :: "bytes list \<Rightarrow> nat \<Rightarrow> bytes \<Rightarrow> (nat \<times> bytes) result" where
  "JpegPayloader_tables [] p sc = Inr (p, sc)"
| "JpegPayloader_tables (t # ts) p sc =
     bind_r (copy_range sc p (p + 64) t) (\<lambda>sc'. JpegPayloader_tables ts (p + 64) sc')"

text \<open>The RFC 2435 headers of the packet at \<open>off\<close>: the position after them, and the buffer.\<close>

definition JpegPayloader_head :: "jpeg_scan \<Rightarrow> nat \<Rightarrow> bytes \<Rightarrow> (nat \<times> bytes) result" where
  "JpegPayloader_head info off sc0 =
     (let p = rtp_HEADER_LEN; o32 = (of_nat off :: u32) in
      bind_r (put sc0 p [0]) (\<lambda>sc.
      bind_r (put sc (p + 1) [ucast (drop_bit 16 o32)]) (\<lambda>sc.
      bind_r (put sc (p + 2) [ucast (drop_bit 8 o32)]) (\<lambda>sc.
      bind_r (put sc (p + 3) [ucast o32]) (\<lambda>sc.
      bind_r (put sc (p + 4) [js_type info]) (\<lambda>sc.
      bind_r (put sc (p + 5) [255]) (\<lambda>sc.
      bind_r (put sc (p + 6) [ucast (js_width info div 8)]) (\<lambda>sc.
      bind_r (put sc (p + 7) [ucast (js_height info div 8)]) (\<lambda>sc.
      bind_r (case js_restart_interval info of
                None \<Rightarrow> Inr (p + 8, sc)
              | Some ri \<Rightarrow>
                  bind_r (put sc (p + 8) (be16 ri)) (\<lambda>sc.
                  bind_r (put sc (p + 8 + 2) (be16 0xFFFF)) (\<lambda>sc. Inr (p + 8 + 4, sc)))) (\<lambda>(p, sc).
      if off = 0 then
        (let n = js_qtable_count info in
         bind_r (put sc p [0]) (\<lambda>sc.
         bind_r (put sc (p + 1) [0]) (\<lambda>sc.
         bind_r (put sc (p + 2) (be16 (of_nat (64 * n)))) (\<lambda>sc.
         bind_r (subslice (js_qtables info) 0 n) (\<lambda>ts.
         JpegPayloader_tables ts (p + 4) sc)))))
      else Inr (p, sc)))))))))))"

text \<open>
  The \<open>while off < info.scan.len()\<close> loop. The headers take at most 156 bytes and
  \<open>JpegPayloader::new\<close> asks for 157, so the room is not negative and not 0.
\<close>

partial_function (option) JpegPayloader_loop ::
  "'s writer \<Rightarrow> nat \<Rightarrow> jpeg_scan \<Rightarrow> u32 \<Rightarrow> nat \<Rightarrow> nat \<Rightarrow> rtp \<Rightarrow> bytes \<Rightarrow> 's \<Rightarrow>
   (nat result \<times> rtp \<times> bytes \<times> 's) option" where
  "JpegPayloader_loop emit mtu info ts off n r scratch s =
     (if off < length (js_scan info) then
        (case JpegPayloader_head info off scratch of
           Inl e \<Rightarrow> Some (Inl e, r, scratch, s)
         | Inr (p, sc1) \<Rightarrow>
             (let room = mtu - p;
                  tk = min (length (js_scan info) - off) room;
                  final = (off + tk = length (js_scan info)) in
              case Rtp_write_header r sc1 final ts of
                (Inl e, r1, sc2) \<Rightarrow> Some (Inl e, r1, sc2, s)
              | (Inr _, r1, sc2) \<Rightarrow>
                  (case bind_r (subslice (js_scan info) off (off + tk)) (copy_range sc2 p (p + tk)) of
                     Inl e \<Rightarrow> Some (Inl e, r1, sc2, s)
                   | Inr sc3 \<Rightarrow>
                       (case subslice sc3 0 (p + tk) of
                          Inl e \<Rightarrow> Some (Inl e, r1, sc3, s)
                        | Inr pkt \<Rightarrow>
                            (case emit s pkt of
                               (Inl e, s1) \<Rightarrow> Some (Inl e, r1, sc3, s1)
                             | (Inr _, s1) \<Rightarrow>
                                 JpegPayloader_loop emit mtu info ts (off + tk) (n + 1) r1 sc3 s1)))))
      else Some (Inr n, r, scratch, s))"

definition JpegPayloader_packetize ::
  "'s writer \<Rightarrow> jpeg_payloader \<Rightarrow> bytes \<Rightarrow> micros \<Rightarrow> bytes \<Rightarrow> 's \<Rightarrow>
   (nat result \<times> jpeg_payloader \<times> bytes \<times> 's) option" where
  "JpegPayloader_packetize emit p jpeg timestamp scratch s =
     (if length scratch < jpp_mtu p
      then Some (Inl (Err (BufferTooSmall (jpp_mtu p))), p, scratch, s)
      else
        (case JpegScan_parse jpeg of
           Inl e \<Rightarrow> Some (Inl e, p, scratch, s)
         | Inr info \<Rightarrow>
             map_option (\<lambda>(x, r, sc, s'). (x, p\<lparr>jpp_rtp := r\<rparr>, sc, s'))
               (JpegPayloader_loop emit (jpp_mtu p) info (Rtp_timestamp (jpp_rtp p) timestamp)
                  0 0 (jpp_rtp p) scratch s)))"

section \<open>The headers a receiver writes\<close>

definition jpeg_header_len :: "nat \<Rightarrow> bool \<Rightarrow> nat" where
  "jpeg_header_len qtables restart =
     2 + (4 + 65 * qtables) + 19 + (33 + 183 + 33 + 183) + (if restart then 6 else 0) + 14"

text \<open>
  The pieces \<open>write_jpeg_headers\<close> hands to its \<open>put\<close> closure, in order, and the closure over
  the output buffer.
\<close>

definition jpeg_header_parts ::
  "u16 \<Rightarrow> u16 \<Rightarrow> u8 \<Rightarrow> u16 option \<Rightarrow> bytes list \<Rightarrow> bytes list" where
  "jpeg_header_parts width height ty restart_interval qtables =
     [[0xFF, 0xD8], [0xFF, 0xDB], be16 (of_nat (2 + 65 * length qtables))] @
     concat (map (\<lambda>(i, t). [[of_nat i], t]) (enumerate 0 qtables)) @
     (let hv = (if ty = 0 then 0x21 else 0x22);
          ctab = (if length qtables > 1 then 1 else 0) in
      [[0xFF, 0xC0, 0, 17, 8], be16 height, be16 width,
       [3, 1, hv, 0, 2, 0x11, ctab, 3, 0x11, ctab]]) @
     concat (map (\<lambda>t. [[0xFF, 0xC4], be16 (of_nat (2 + 1 + 16 + length (ht_symbols t))),
       [ht_class_id t], ht_codelens t, ht_symbols t]) huffman_ALL) @
     (case restart_interval of None \<Rightarrow> [] | Some ri \<Rightarrow> [[0xFF, 0xDD, 0, 4], be16 ri]) @
     [[0xFF, 0xDA, 0, 12, 3, 1, 0x00, 2, 0x11, 3, 0x11, 0, 63, 0]]"

fun put_parts :: "bytes \<Rightarrow> nat \<Rightarrow> bytes list \<Rightarrow> (nat \<times> bytes) result" where
  "put_parts out p [] = Inr (p, out)"
| "put_parts out p (b # bs) = bind_r (put out p b) (\<lambda>out'. put_parts out' (p + length b) bs)"

definition write_jpeg_headers ::
  "bytes \<Rightarrow> u16 \<Rightarrow> u16 \<Rightarrow> u8 \<Rightarrow> u16 option \<Rightarrow> bytes list \<Rightarrow> (nat \<times> bytes) result" where
  "write_jpeg_headers out width height ty restart_interval qtables =
     (if qtables = [] \<or> length qtables > 2 \<or> ty > 1 then Inl (Err InvalidFormat)
      else
        let needed = jpeg_header_len (length qtables) (restart_interval \<noteq> None) in
        if length out < needed then Inl (Err (BufferTooSmall needed))
        else put_parts out 0 (jpeg_header_parts width height ty restart_interval qtables))"

section \<open>The depayloader\<close>

definition HEADER_RESERVE :: nat where
  "HEADER_RESERVE = 1024"

datatype depayload =
    Fragment
  | Frame nat u32 u16 u16
  | Dropped

record jpeg_depayloader =
  dp_buf :: bytes
  dp_scan_len :: nat
  dp_in_frame :: bool
  dp_timestamp :: u32
  dp_width :: u16
  dp_height :: u16
  dp_type :: u8
  dp_restart_interval :: "u16 option"
  dp_qtables :: "bytes list"
  dp_qcount :: nat
  dp_last_seq :: "u16 option"
  dp_jpeg :: "(nat \<times> nat) option"
  dp_frames :: u32
  dp_dropped :: u32
  dp_lost :: u32

definition JpegDepayloader_new :: "bytes \<Rightarrow> jpeg_depayloader result" where
  "JpegDepayloader_new buf =
     (if length buf < HEADER_RESERVE + 2 then Inl (Err (BufferTooSmall (HEADER_RESERVE + 2)))
      else Inr \<lparr>dp_buf = buf, dp_scan_len = 0, dp_in_frame = False, dp_timestamp = 0,
        dp_width = 0, dp_height = 0, dp_type = 0, dp_restart_interval = None,
        dp_qtables = [replicate 64 0, replicate 64 0], dp_qcount = 0, dp_last_seq = None,
        dp_jpeg = None, dp_frames = 0, dp_dropped = 0, dp_lost = 0\<rparr>)"

definition JpegDepayloader_jpeg :: "jpeg_depayloader \<Rightarrow> bytes result" where
  "JpegDepayloader_jpeg d =
     (case dp_jpeg d of Some (a, b) \<Rightarrow> subslice (dp_buf d) a b | None \<Rightarrow> Inr [])"

text \<open>
  A frame start (\<open>off == 0\<close>): the state takes the frame's parameters, then the quantization
  tables are found; the result is the position after them.
\<close>

definition JpegDepayloader_start ::
  "target \<Rightarrow> jpeg_depayloader \<Rightarrow> u32 \<Rightarrow> u16 \<Rightarrow> u16 \<Rightarrow> u8 \<Rightarrow> u8 \<Rightarrow> u16 option \<Rightarrow> bytes \<Rightarrow> nat \<Rightarrow>
   nat result \<times> jpeg_depayloader" where
  "JpegDepayloader_start t d0 ts width height ty q restart payload p =
     (case (if dp_in_frame d0 \<and> dp_scan_len d0 > 0 then u32_add t (dp_dropped d0) 1 else Inr (dp_dropped d0)) of
        Inl e \<Rightarrow> (Inl e, d0)
      | Inr dropped \<Rightarrow>
     (let d = d0\<lparr>dp_dropped := dropped,
                 dp_in_frame := True, dp_scan_len := 0, dp_timestamp := ts, dp_width := width,
                 dp_height := height, dp_type := ty AND 0x3F, dp_restart_interval := restart\<rparr> in
      if q \<ge> 128 then
        (case get_range payload p (p + 4) of
           None \<Rightarrow> (Inl (Err InvalidFormat), d)
         | Some qh \<Rightarrow>
             let precision = qh ! 1; len = unat (from_be16 (qh ! 2) (qh ! 3)); p = p + 4 in
             if len = 0 then
               (if dp_qcount d = 0 then (Inl (Err InvalidFormat), d) else (Inr p, d))
             else if len = 64 \<or> len = 128 then
               (if precision \<noteq> 0 then (Inl (Err Unsupported), d)
                else
                  (case get_range payload p (p + len) of
                     None \<Rightarrow> (Inl (Err InvalidFormat), d)
                   | Some tables \<Rightarrow>
                       (Inr (p + len),
                        d\<lparr>dp_qcount := len div 64,
                          dp_qtables := chunks_of 64 tables @ drop (len div 64) (dp_qtables d)\<rparr>)))
             else (Inl (Err InvalidFormat), d))
      else if q = 0 then (Inl (Err InvalidFormat), d)
      else (Inr p, d\<lparr>dp_qtables := default_quant_tables q, dp_qcount := 2\<rparr>)))"

text \<open>The marker packet: headers in front of the scan, \<open>FF D9\<close> after it.\<close>

definition JpegDepayloader_finish :: "target \<Rightarrow> jpeg_depayloader \<Rightarrow> depayload result \<times> jpeg_depayloader" where
  "JpegDepayloader_finish t d =
     (let hlen = jpeg_header_len (dp_qcount d) (dp_restart_interval d \<noteq> None);
          start = HEADER_RESERVE - hlen;
          eoi = HEADER_RESERVE + dp_scan_len d in
      case bind_r (subslice (dp_buf d) start HEADER_RESERVE) (\<lambda>out.
           bind_r (subslice (dp_qtables d) 0 (dp_qcount d)) (\<lambda>qt.
           write_jpeg_headers out (dp_width d) (dp_height d) (dp_type d)
             (dp_restart_interval d) qt)) of
        Inl e \<Rightarrow> (Inl e, d)
      | Inr (_, out) \<Rightarrow>
          (let buf = take start (dp_buf d) @ out @ drop HEADER_RESERVE (dp_buf d) in
           case bind_r (put buf eoi [0xFF]) (\<lambda>b. put b (eoi + 1) [0xD9]) of
             Inl e \<Rightarrow> (Inl e, d\<lparr>dp_buf := buf\<rparr>)
           | Inr buf' \<Rightarrow>
               (case u32_add t (dp_frames d) 1 of
                  Inl e \<Rightarrow> (Inl e, d\<lparr>dp_buf := buf', dp_in_frame := False\<rparr>)
                | Inr frames \<Rightarrow>
                    (Inr (Frame (eoi + 2 - start) (dp_timestamp d) (dp_width d) (dp_height d)),
                     d\<lparr>dp_buf := buf', dp_in_frame := False, dp_frames := frames,
                       dp_jpeg := Some (start, eoi + 2)\<rparr>))))"

text \<open>\<open>self.in_frame = false; self.dropped += 1\<close>, and the answer.\<close>

definition JpegDepayloader_abandon ::
  "target \<Rightarrow> jpeg_depayloader \<Rightarrow> depayload result \<Rightarrow> depayload result \<times> jpeg_depayloader" where
  "JpegDepayloader_abandon t d answer =
     (case u32_add t (dp_dropped d) 1 of
        Inl e \<Rightarrow> (Inl e, d\<lparr>dp_in_frame := False\<rparr>)
      | Inr dropped \<Rightarrow> (answer, d\<lparr>dp_in_frame := False, dp_dropped := dropped\<rparr>))"

text \<open>From \<open>let data = &payload[p..]\<close> on.\<close>

definition JpegDepayloader_data ::
  "target \<Rightarrow> jpeg_depayloader \<Rightarrow> bool \<Rightarrow> bytes \<Rightarrow> nat \<Rightarrow> depayload result \<times> jpeg_depayloader" where
  "JpegDepayloader_data t d marker payload p =
     (case subslice payload p (length payload) of
        Inl e \<Rightarrow> (Inl e, d)
      | Inr bs \<Rightarrow>
          (let start = HEADER_RESERVE + dp_scan_len d; fin = start + length bs in
           if fin + 2 > length (dp_buf d) then
             JpegDepayloader_abandon t d (Inl (Err (BufferTooSmall (fin + 2))))
           else
             (case copy_range (dp_buf d) start fin bs of
                Inl e \<Rightarrow> (Inl e, d)
              | Inr buf \<Rightarrow>
                  (let d1 = d\<lparr>dp_buf := buf, dp_scan_len := dp_scan_len d + length bs\<rparr> in
                   if \<not> marker then (Inr Fragment, d1) else JpegDepayloader_finish t d1))))"

text \<open>
  The packet's loss accounting: the gap in front of it, and the counter. A gap of \<open>0x8000\<close> or
  more is a reordered or repeated packet and counts as none.
\<close>

definition JpegDepayloader_gap :: "target \<Rightarrow> jpeg_depayloader \<Rightarrow> u16 \<Rightarrow> (u16 \<times> u32) result" where
  "JpegDepayloader_gap t d seq =
     (case dp_last_seq d of
        None \<Rightarrow> Inr (0, dp_lost d)
      | Some prev \<Rightarrow>
          (let gap = seq - prev - 1 in
           if gap \<noteq> 0 \<and> gap < 0x8000 then bind_r (u32_add t (dp_lost d) (ucast gap)) (\<lambda>lost. Inr (gap, lost))
           else if gap \<ge> 0x8000 then Inr (0, dp_lost d)
           else Inr (gap, dp_lost d)))"

text \<open>From \<open>if payload.len() < 8\<close> on, with the gap in front of the packet.\<close>

definition JpegDepayloader_payload ::
  "target \<Rightarrow> jpeg_depayloader \<Rightarrow> rtp_header \<Rightarrow> bytes \<Rightarrow> u16 \<Rightarrow> depayload result \<times> jpeg_depayloader" where
  "JpegDepayloader_payload t d h payload gap =
     (if length payload < 8 then (Inl (Err InvalidFormat), d)
      else
        let off = unat (payload ! 1) * 2 ^ 16 + unat (payload ! 2) * 2 ^ 8 + unat (payload ! 3);
            ty = payload ! 4;
            q = payload ! 5;
            width = (ucast (payload ! 6) :: u16) * 8;
            height = (ucast (payload ! 7) :: u16) * 8 in
        if width = 0 \<or> height = 0 \<or> ty AND 0x3F > 1 then (Inl (Err Unsupported), d)
        else
          (case (if ty \<ge> 64 then
                   (case get_range payload 8 (8 + 4) of
                      None \<Rightarrow> Inl (Err InvalidFormat)
                    | Some r \<Rightarrow> Inr (Some (from_be16 (r ! 0) (r ! 1)), 8 + 4))
                 else Inr (None, 8)) of
             Inl e \<Rightarrow> (Inl e, d)
           | Inr (restart, p) \<Rightarrow>
               if off = 0 then
                 (case JpegDepayloader_start t d (rh_timestamp h) width height ty q restart payload p of
                    (Inl e, d1) \<Rightarrow> (Inl e, d1)
                  | (Inr p1, d1) \<Rightarrow> JpegDepayloader_data t d1 (rh_marker h) payload p1)
               else if \<not> dp_in_frame d then (Inr Fragment, d)
               else if gap \<noteq> 0 \<or> off \<noteq> dp_scan_len d \<or> rh_timestamp h \<noteq> dp_timestamp d
               then JpegDepayloader_abandon t d (Inr Dropped)
               else JpegDepayloader_data t d (rh_marker h) payload p))"

definition JpegDepayloader_push ::
  "target \<Rightarrow> jpeg_depayloader \<Rightarrow> bytes \<Rightarrow> depayload result \<times> jpeg_depayloader" where
  "JpegDepayloader_push t d packet =
     (case rtp_Header_parse packet of
        Inl e \<Rightarrow> (Inl e, d)
      | Inr (h, payload) \<Rightarrow>
          if rh_payload_type h \<noteq> PT_JPEG then (Inl (Err InvalidFormat), d)
          else
            (case JpegDepayloader_gap t d (rh_seq h) of
               Inl e \<Rightarrow> (Inl e, d\<lparr>dp_jpeg := None\<rparr>)
             | Inr (gap, lost) \<Rightarrow>
                 JpegDepayloader_payload t (d\<lparr>dp_jpeg := None, dp_lost := lost, dp_last_seq := Some (rh_seq h)\<rparr>)
                   h payload gap))"

text \<open>Room in the counters for that much more, where a build checks them.\<close>

definition counters_room :: "target \<Rightarrow> nat \<Rightarrow> nat \<Rightarrow> nat \<Rightarrow> jpeg_depayloader \<Rightarrow> bool" where
  "counters_room t frames dropped lost d \<longleftrightarrow> (overflow_checks t \<longrightarrow>
     unat (dp_frames d) + frames < 2 ^ 32 \<and> unat (dp_dropped d) + dropped < 2 ^ 32 \<and> unat (dp_lost d) + lost < 2 ^ 32)"

lemma unat_of_nat_u16: "n < 65536 \<Longrightarrow> unat (of_nat n :: u16) = n"
  by (simp add: unat_of_nat)

section \<open>The regenerated headers are parsed back\<close>

lemma put_parts_spec:
  "length (concat bs) \<le> length rest \<Longrightarrow>
   put_parts (pre @ rest) (length pre) bs =
     Inr (length pre + length (concat bs), pre @ concat bs @ drop (length (concat bs)) rest)"
proof (induction bs arbitrary: pre rest)
  case (Cons b bs)
  have "put (pre @ rest) (length pre) b = Inr ((pre @ b) @ drop (length b) rest)"
    using Cons.prems by (intro put_at_end) simp_all
  moreover have "put_parts ((pre @ b) @ drop (length b) rest) (length (pre @ b)) bs =
      Inr (length (pre @ b) + length (concat bs),
        (pre @ b) @ concat bs @ drop (length (concat bs)) (drop (length b) rest))"
    using Cons.prems by (intro Cons.IH) simp
  ultimately show ?case by (simp add: add.commute)
qed simp

definition jpeg_header :: "u16 \<Rightarrow> u16 \<Rightarrow> u8 \<Rightarrow> u16 option \<Rightarrow> bytes list \<Rightarrow> bytes" where
  "jpeg_header w h ty ri qts = concat (jpeg_header_parts w h ty ri qts)"

definition huffman_ok :: "huffman_table \<Rightarrow> bool" where
  "huffman_ok t \<longleftrightarrow> length (ht_codelens t) = 16 \<and>
     sum_list (map unat (ht_codelens t)) = length (ht_symbols t)"

lemma huffman_tables_ok:
  "huffman_ok LUM_DC" "huffman_ok LUM_AC" "huffman_ok CHM_DC" "huffman_ok CHM_AC"
  by (simp_all add: huffman_ok_def LUM_DC_def LUM_AC_def CHM_DC_def CHM_AC_def)

lemma huffman_symbol_counts:
  "length (ht_symbols LUM_DC) = 12" "length (ht_symbols LUM_AC) = 162"
  "length (ht_symbols CHM_DC) = 12" "length (ht_symbols CHM_AC) = 162"
  by (simp_all add: LUM_DC_def LUM_AC_def CHM_DC_def CHM_AC_def)

lemma huffman_class_ids:
  "ht_class_id LUM_DC = 0x00" "ht_class_id LUM_AC = 0x10"
  "ht_class_id CHM_DC = 0x01" "ht_class_id CHM_AC = 0x11"
  by (simp_all add: LUM_DC_def LUM_AC_def CHM_DC_def CHM_AC_def)

lemma table_for_class_id:
  "t \<in> set huffman_ALL \<Longrightarrow> table_for (ht_class_id t) = Some t"
  by (auto simp: huffman_ALL_def table_for_def huffman_class_ids)

lemma huffman_codelens_length:
  "length (ht_codelens LUM_DC) = 16" "length (ht_codelens LUM_AC) = 16"
  "length (ht_codelens CHM_DC) = 16" "length (ht_codelens CHM_AC) = 16"
  using huffman_tables_ok by (simp_all add: huffman_ok_def)

lemma length_jpeg_header:
  assumes "\<forall>t \<in> set qts. length t = 64" "length qts = n"
  shows "length (jpeg_header w h ty ri qts) = jpeg_header_len n (ri \<noteq> None)"
proof -
  have "length (concat (concat (map (\<lambda>(i, t). [[of_nat i], t]) (enumerate k qts)))) = 65 * length qts" for k
    using assms(1) by (induction qts arbitrary: k) auto
  then show ?thesis using assms(2)
    by (auto simp: jpeg_header_def jpeg_header_parts_def jpeg_header_len_def huffman_ALL_def Let_def
        huffman_symbol_counts huffman_codelens_length split: option.splits)
qed

lemma write_jpeg_headers_ok:
  assumes "qts \<noteq> []" "length qts \<le> 2" "ty \<le> 1" "\<forall>t \<in> set qts. length t = 64"
    and "jpeg_header_len (length qts) (ri \<noteq> None) \<le> length out"
  shows "write_jpeg_headers out w h ty ri qts =
    Inr (jpeg_header_len (length qts) (ri \<noteq> None),
      jpeg_header w h ty ri qts @ drop (jpeg_header_len (length qts) (ri \<noteq> None)) out)"
proof -
  have len: "length (concat (jpeg_header_parts w h ty ri qts)) = jpeg_header_len (length qts) (ri \<noteq> None)"
    using length_jpeg_header [OF assms(4) refl] by (simp only: jpeg_header_def)
  have "\<not> (qts = [] \<or> length qts > 2 \<or> ty > 1)" using assms by (auto simp: not_less)
  then show ?thesis
    using put_parts_spec [of "jpeg_header_parts w h ty ri qts" out "[]"] assms(5) len
    by (simp add: write_jpeg_headers_def Let_def jpeg_header_def del: jpeg_header_parts_def)
qed

lemma skip_ff_one: "i < length J \<Longrightarrow> J ! i = 0xFF \<Longrightarrow> i + 1 < length J \<Longrightarrow> J ! (i + 1) \<noteq> 0xFF \<Longrightarrow>
    skip_ff J i = i + 1"
  by (simp add: skip_ff.simps [of J i] skip_ff.simps [of J "Suc i"])

lemma JpegScan_loop_segment:
  assumes J: "J = pre @ [0xFF, m] @ be16 (of_nat (2 + length seg)) @ seg @ rest"
    and m: "m \<noteq> 0xFF" "m \<noteq> 0x01" "\<not> (0xD0 \<le> m \<and> m \<le> 0xD7)" and "length seg < 65000"
  shows "JpegScan_loop J (length pre) st =
    (if m = 0xDA then JpegScan_sos J (length pre + 4 + length seg) st
     else (case JpegScan_segment m seg st of
        Inl e \<Rightarrow> Inl e
      | Inr st' \<Rightarrow> JpegScan_loop J (length pre + 4 + length seg) st'))"
proof -
  let ?p = "length pre" and ?L = "of_nat (2 + length seg) :: u16"
  have nth: "J ! ?p = 0xFF" "J ! (?p + 1) = m"
    "J ! (?p + 2) = ucast (drop_bit 8 ?L)" "J ! (?p + 3) = ucast ?L"
    using J by (simp_all add: nth_append be16_def)
  have len: "?p + 4 + length seg \<le> length J" using J by (simp add: be16_def)
  have sk: "skip_ff J ?p = ?p + 1" using nth len m by (intro skip_ff_one) simp_all
  have L: "unat ?L = 2 + length seg" using assms(5) by (intro unat_of_nat_u16) simp
  have be: "from_be16 (J ! (?p + 2)) (J ! (?p + 3)) = ?L" by (simp only: nth from_be16_be16)
  have seg: "get_range J (?p + 2 + 2) (?p + 2 + (2 + length seg)) = Some seg"
    using len J by (simp add: be16_def)
  have g: "get J (?p + 1) = Some m" "get J (?p + 2) = Some (J ! (?p + 2))"
    "get J (?p + 3) = Some (J ! (?p + 3))"
    using len nth(2) by simp_all
  have step: "JpegScan_loop J ?p st =
      (let len = unat (from_be16 (J ! (?p + 2)) (J ! (?p + 3))) in
       if len < 2 then Inl (Err InvalidFormat)
       else (case get_range J (?p + 2 + 2) (?p + 2 + len) of
          None \<Rightarrow> Inl (Err InvalidFormat)
        | Some seg \<Rightarrow>
            if m = 0xDA then JpegScan_sos J (?p + 2 + len) st
            else (case JpegScan_segment m seg st of
               Inl e \<Rightarrow> Inl e
             | Inr st' \<Rightarrow> JpegScan_loop J (?p + 2 + len) st')))"
  proof -
    have i: "?p + 1 + 1 = ?p + 2" "?p + 2 + 1 = ?p + 3" by simp_all
    show ?thesis
      by (subst JpegScan_loop.simps)
        (simp only: Let_def sk i g option.case m if_False simp_thms)
  qed
  moreover have "?p + 2 + (2 + length seg) = ?p + 4 + length seg" by simp
  ultimately show ?thesis unfolding be L Let_def seg option.case
    by (simp only: not_add_less1 if_False)
qed


text \<open>The tables of the segments the receiver writes.\<close>

lemma JpegScan_dqt_table:
  assumes "length t = 64" "i < 2"
  shows "JpegScan_dqt (of_nat i # t @ rest) st =
    JpegScan_dqt rest (st\<lparr>jp_qtables := (jp_qtables st)[i := t], jp_qcount := max (jp_qcount st) (i + 1)\<rparr>)"
proof -
  have "i = 0 \<or> i = 1" using assms(2) by auto
  then have b: "drop_bit 4 (of_nat i :: u8) = 0" "unat (of_nat i AND 0x0F :: u8) = i" by auto
  have "cut (of_nat i # t @ rest) 1 65 = t" using assms(1) by (simp add: cut_def)
  then show ?thesis using assms b by (subst JpegScan_dqt.simps) (simp add: Let_def)
qed

lemma JpegScan_dqt_tables:
  assumes "qts \<noteq> []" "length qts \<le> 2" "\<forall>t \<in> set qts. length t = 64"
    and "jp_qtables st = [[], []]" "jp_qcount st = 0"
  shows "JpegScan_dqt (concat (map (\<lambda>(i, t). of_nat i # t) (enumerate 0 qts))) st =
    Inr (st\<lparr>jp_qtables := qts @ replicate (2 - length qts) [], jp_qcount := length qts\<rparr>)"
proof -
  obtain t ts where q: "qts = t # ts" using assms(1) by (cases qts) auto
  show ?thesis
  proof (cases ts)
    case Nil
    then show ?thesis using q assms JpegScan_dqt_table [of t 0 "[]" st]
      by (simp add: JpegScan_dqt.simps [of "[]"] numeral_2_eq_2)
  next
    case (Cons u us)
    then have us: "us = []" using assms(2) q by simp
    show ?thesis using q Cons us assms JpegScan_dqt_table [of t 0 "1 # u" st]
        JpegScan_dqt_table [of u 1 "[]" "st\<lparr>jp_qtables := [t, []], jp_qcount := 1\<rparr>"]
      by (simp add: JpegScan_dqt.simps [of "[]"])
  qed
qed

lemma JpegScan_dht_table:
  assumes "t \<in> set huffman_ALL"
  shows "JpegScan_dht (ht_class_id t # ht_codelens t @ ht_symbols t) = Inr ()"
proof -
  let ?s = "ht_class_id t # ht_codelens t @ ht_symbols t"
  have "huffman_ok t" using assms huffman_tables_ok by (auto simp: huffman_ALL_def)
  then have l: "length (ht_codelens t) = 16"
    "sum_list (map unat (ht_codelens t)) = length (ht_symbols t)" by (simp_all add: huffman_ok_def)
  have c: "cut ?s 1 17 = ht_codelens t" using l by (simp add: cut_def)
  have d: "drop (17 + length (ht_symbols t)) ?s = []" using l by simp
  have g: "get_range ?s 17 (17 + length (ht_symbols t)) = Some (ht_symbols t)" using l by simp
  have s: "?s \<noteq> []" "\<not> length ?s < 17" "?s ! 0 = ht_class_id t" using l by simp_all
  show ?thesis
    by (subst JpegScan_dht.simps)
      (simp only: s c g d l Let_def table_for_class_id [OF assms] option.case if_False simp_thms
        JpegScan_dht.simps [of "[]"] if_True)
qed

lemma div_mod_u16:
  "w mod 8 = 0 \<Longrightarrow> (ucast (ucast (w div 8) :: u8) :: u16) * 8 = w" if "w \<le> 2040" for w :: u16
proof -
  assume m: "w mod 8 = 0"
  have le: "unat w \<le> 2040" using that by (simp add: word_le_nat_alt)
  have d: "unat (w div 8) < 256" using le by (simp add: unat_div)
  have "unat (ucast (w div 8) :: u8) = take_bit 8 (unat (w div 8))"
    by (simp add: unsigned_ucast_eq)
  also have "\<dots> = unat (w div 8)" using d by (simp add: take_bit_nat_eq_self)
  finally have "unat (ucast (ucast (w div 8) :: u8) :: u16) = unat (w div 8)"
    by (simp add: unat_ucast_up)
  then have "ucast (ucast (w div 8) :: u8) = w div 8" by (rule unsigned_word_eqI)
  moreover have "w div 8 * 8 + w mod 8 = w" by (rule div_mult_mod_eq)
  ultimately show ?thesis using m by simp
qed

lemma u8_le_1: "ty \<le> 1 \<Longrightarrow> ty = 0 \<or> ty = (1 :: u8)"
proof -
  assume "ty \<le> 1"
  then have "unat ty \<le> 1" by (simp add: word_le_nat_alt)
  then have "unat ty = unat (0 :: u8) \<or> unat ty = unat (1 :: u8)" by auto
  then show ?thesis by (metis unsigned_word_eqI)
qed

lemma JpegScan_sof_header:
  assumes "w \<noteq> 0" "h \<noteq> 0" "w mod 8 = 0" "h mod 8 = 0" "w \<le> 2040" "h \<le> 2040" "ty \<le> 1"
  shows "JpegScan_sof ([8] @ be16 h @ be16 w @ [3, 1, if ty = 0 then 0x21 else 0x22, 0, 2, 0x11, c, 3, 0x11, c]) st =
    Inr (st\<lparr>jp_dims := Some (w, h, ty)\<rparr>)"
proof -
  have "ty = 0 \<or> ty = 1" using assms(7) by (rule u8_le_1)
  then show ?thesis using assms
    by (auto simp: JpegScan_sof_def be16_def Let_def be_simps get_def not_less)
qed

lemma subslice_mid: "subslice (a @ b @ c) (length a) (length a + length b) = Inr b"
  by simp

text \<open>A marker segment, and what the parser makes of a list of them.\<close>

definition jpeg_segment :: "u8 \<times> bytes \<Rightarrow> bytes" where
  "jpeg_segment ms = [0xFF, fst ms] @ be16 (of_nat (2 + length (snd ms))) @ snd ms"

lemma length_jpeg_segment [simp]: "length (jpeg_segment (m, seg)) = 4 + length seg"
  by (simp add: jpeg_segment_def be16_def)

definition plain_segment :: "u8 \<times> bytes \<Rightarrow> bool" where
  "plain_segment ms \<longleftrightarrow> fst ms \<noteq> 0xFF \<and> fst ms \<noteq> 0x01 \<and> \<not> (0xD0 \<le> fst ms \<and> fst ms \<le> 0xD7) \<and>
     fst ms \<noteq> 0xDA \<and> length (snd ms) < 65000"

fun JpegScan_segments :: "(u8 \<times> bytes) list \<Rightarrow> jpeg_parse \<Rightarrow> jpeg_parse result" where
  "JpegScan_segments [] st = Inr st"
| "JpegScan_segments ((m, seg) # segs) st =
     bind_r (JpegScan_segment m seg st) (JpegScan_segments segs)"

lemma JpegScan_loop_segments:
  assumes "\<forall>ms \<in> set segs. plain_segment ms"
    and "JpegScan_segments segs st = Inr st'"
    and "J = pre @ concat (map jpeg_segment segs) @ rest"
  shows "JpegScan_loop J (length pre) st =
    JpegScan_loop J (length (pre @ concat (map jpeg_segment segs))) st'"
  using assms
proof (induction segs arbitrary: pre st)
  case (Cons ms segs)
  obtain m seg where ms: "ms = (m, seg)" by (cases ms)
  from Cons.prems(2) ms obtain st1 where s1: "JpegScan_segment m seg st = Inr st1"
    and s2: "JpegScan_segments segs st1 = Inr st'" by (auto simp: bind_r_eq_Inr_iff)
  have "JpegScan_loop J (length pre) st = JpegScan_loop J (length pre + 4 + length seg) st1"
  proof -
    have J: "J = pre @ [0xFF, m] @ be16 (of_nat (2 + length seg)) @ seg @
        (concat (map jpeg_segment segs) @ rest)"
      unfolding Cons.prems(3) by (simp add: ms jpeg_segment_def)
    have m: "m \<noteq> 0xFF" "m \<noteq> 0x01" "\<not> (0xD0 \<le> m \<and> m \<le> 0xD7)" "length seg < 65000" "m \<noteq> 0xDA"
      using Cons.prems(1) ms by (simp_all add: plain_segment_def)
    show ?thesis unfolding JpegScan_loop_segment [OF J m(1-4)] s1 using m(5) by simp
  qed
  also have "length pre + 4 + length seg = length (pre @ jpeg_segment ms)" using ms by simp
  also have "JpegScan_loop J (length (pre @ jpeg_segment ms)) st1 =
      JpegScan_loop J (length ((pre @ jpeg_segment ms) @ concat (map jpeg_segment segs))) st'"
    using Cons.prems s2 ms by (intro Cons.IH) simp_all
  finally show ?case by simp
qed simp

lemma eoi_back_end: "eoi_back (xs @ [0xFF, 0xD9]) (length xs + 2) = length xs + 2"
  by (simp add: nth_append)

text \<open>The segments of the regenerated header.\<close>

definition sof_payload :: "u16 \<Rightarrow> u16 \<Rightarrow> u8 \<Rightarrow> nat \<Rightarrow> bytes" where
  "sof_payload w h ty n =
     (let c = (if n > 1 then 1 else 0) in
      [8] @ be16 h @ be16 w @ [3, 1, if ty = 0 then 0x21 else 0x22, 0, 2, 0x11, c, 3, 0x11, c])"

definition header_segments ::
  "u16 \<Rightarrow> u16 \<Rightarrow> u8 \<Rightarrow> u16 option \<Rightarrow> bytes list \<Rightarrow> (u8 \<times> bytes) list" where
  "header_segments w h ty ri qts =
     [(0xDB, concat (map (\<lambda>(i, t). of_nat i # t) (enumerate 0 qts))),
      (0xC0, sof_payload w h ty (length qts))] @
     map (\<lambda>t. (0xC4, ht_class_id t # ht_codelens t @ ht_symbols t)) huffman_ALL @
     (case ri of None \<Rightarrow> [] | Some r \<Rightarrow> [(0xDD, be16 r)])"

definition sos_payload :: bytes where
  "sos_payload = [3, 1, 0x00, 2, 0x11, 3, 0x11, 0, 63, 0]"

lemma length_dqt_payload:
  "\<forall>t \<in> set qts. length t = 64 \<Longrightarrow>
   length (concat (map (\<lambda>(i, t). of_nat i # t) (enumerate k qts))) = 65 * length qts"
  by (induction qts arbitrary: k) auto

lemma concat_dqt_parts:
  "concat (concat (map (\<lambda>(i, t). [[of_nat i], t]) (enumerate k qts))) =
   concat (map (\<lambda>(i, t). of_nat i # t) (enumerate k qts))"
  by (induction qts arbitrary: k) auto

lemma dht_part:
  assumes "t \<in> set huffman_ALL"
  shows "jpeg_segment (0xC4, ht_class_id t # ht_codelens t @ ht_symbols t) =
    0xFF # 0xC4 # be16 (of_nat (2 + 1 + 16 + length (ht_symbols t))) @ ht_class_id t #
      ht_codelens t @ ht_symbols t"
proof -
  have "length (ht_codelens t) = 16" using assms huffman_codelens_length by (auto simp: huffman_ALL_def)
  then have "2 + length (ht_class_id t # ht_codelens t @ ht_symbols t) = 2 + 1 + 16 + length (ht_symbols t)"
    by simp
  then show ?thesis by (simp only: jpeg_segment_def fst_conv snd_conv append_Cons append_Nil)
qed

lemma concat_dht_parts:
  "set ts \<subseteq> set huffman_ALL \<Longrightarrow>
   concat (concat (map (\<lambda>t. [[0xFF, 0xC4], be16 (of_nat (2 + 1 + 16 + length (ht_symbols t))),
     [ht_class_id t], ht_codelens t, ht_symbols t]) ts)) =
   concat (map (\<lambda>t. jpeg_segment (0xC4, ht_class_id t # ht_codelens t @ ht_symbols t)) ts)"
proof (induction ts)
  case (Cons t ts)
  then have "t \<in> set huffman_ALL" by simp
  from dht_part [OF this] Cons show ?case
    by (simp only: list.map concat.simps concat_append append_assoc append_Cons append_Nil append_Nil2)
      simp
qed simp

lemma jpeg_header_segments:
  assumes "\<forall>t \<in> set qts. length t = 64"
  shows "jpeg_header w h ty ri qts =
    [0xFF, 0xD8] @ concat (map jpeg_segment (header_segments w h ty ri qts)) @
    jpeg_segment (0xDA, sos_payload)"
proof -
  let ?dqt = "concat (map (\<lambda>(i, t). of_nat i # t) (enumerate 0 qts)) :: bytes"
  have dqt: "jpeg_segment (0xDB, ?dqt) = [0xFF, 0xDB] @ be16 (of_nat (2 + 65 * length qts)) @ ?dqt"
    using length_dqt_payload [OF assms, of 0] by (simp only: jpeg_segment_def fst_conv snd_conv)
  have sof: "jpeg_segment (0xC0, sof_payload w h ty (length qts)) =
      [0xFF, 0xC0, 0, 17] @ sof_payload w h ty (length qts)"
    by (simp add: jpeg_segment_def sof_payload_def be16_def)
  have dri: "jpeg_segment (0xDD, be16 r) = [0xFF, 0xDD, 0, 4] @ be16 r" for r
    by (simp add: jpeg_segment_def be16_def)
  have sos: "jpeg_segment (0xDA, sos_payload) = [0xFF, 0xDA, 0, 12] @ sos_payload"
    by (simp add: jpeg_segment_def sos_payload_def be16_def)
  show ?thesis
    unfolding jpeg_header_def jpeg_header_parts_def header_segments_def Let_def
    by (cases ri)
      (simp_all only: concat_append map_append list.map concat.simps append_Nil append_Cons append_assoc
        concat_dqt_parts concat_dht_parts [OF subset_refl] map_map comp_def dqt sof dri sos option.case,
       simp_all only: sof_payload_def sos_payload_def Let_def append_Nil append_Cons append_assoc
        append_Nil2)
qed


definition jpeg_dims_ok :: "u16 \<Rightarrow> u16 \<Rightarrow> bool" where
  "jpeg_dims_ok w h \<longleftrightarrow>
     w \<noteq> 0 \<and> h \<noteq> 0 \<and> w mod 8 = 0 \<and> h mod 8 = 0 \<and> w \<le> 2040 \<and> h \<le> 2040"

lemma JpegScan_segment_arms:
  "JpegScan_segment 0xDB seg st = JpegScan_dqt seg st"
  "JpegScan_segment 0xC0 seg st = JpegScan_sof seg st"
  "JpegScan_segment 0xC4 seg st = bind_r (JpegScan_dht seg) (\<lambda>_. Inr st)"
  "JpegScan_segment 0xDD (be16 r) st = Inr (st\<lparr>jp_restart := Some r\<rparr>)"
  by (simp_all add: JpegScan_segment_def be16_def be_simps)

lemma JpegScan_segments_append:
  "JpegScan_segments (xs @ ys) st = bind_r (JpegScan_segments xs st) (JpegScan_segments ys)"
  by (induction xs arbitrary: st) (auto simp: bind_r_def split: sum.splits)

lemma JpegScan_segments_dht:
  "set ts \<subseteq> set huffman_ALL \<Longrightarrow>
   JpegScan_segments (map (\<lambda>t. (0xC4, ht_class_id t # ht_codelens t @ ht_symbols t)) ts) st = Inr st"
  by (induction ts) (simp_all add: JpegScan_segment_arms JpegScan_dht_table)

lemma plain_header_segments:
  assumes "\<forall>t \<in> set qts. length t = 64" "length qts \<le> 2"
  shows "\<forall>ms \<in> set (header_segments w h ty ri qts). plain_segment ms"
  using length_dqt_payload [OF assms(1), of 0] assms(2)
  by (auto simp: header_segments_def plain_segment_def sof_payload_def Let_def huffman_ALL_def
      huffman_codelens_length huffman_symbol_counts split: option.splits)

lemma JpegScan_segments_header:
  assumes "qts \<noteq> []" "length qts \<le> 2" "\<forall>t \<in> set qts. length t = 64" "jpeg_dims_ok w h" "ty \<le> 1"
  shows "JpegScan_segments (header_segments w h ty ri qts)
      \<lparr>jp_qtables = [[], []], jp_qcount = 0, jp_dims = None, jp_restart = None\<rparr> =
    Inr \<lparr>jp_qtables = qts @ replicate (2 - length qts) [], jp_qcount = length qts,
         jp_dims = Some (w, h, ty), jp_restart = ri\<rparr>"
proof -
  have "JpegScan_sof (sof_payload w h ty n) st = Inr (st\<lparr>jp_dims := Some (w, h, ty)\<rparr>)" for n st
    unfolding sof_payload_def Let_def
    using assms(4,5) by (intro JpegScan_sof_header) (simp_all add: jpeg_dims_ok_def)
  then show ?thesis using assms(1-3)
    by (cases ri)
      (simp_all add: header_segments_def JpegScan_segments_append JpegScan_segment_arms
        JpegScan_dqt_tables JpegScan_segments_dht)
qed

lemma JpegScan_parse_header:
  assumes "qts \<noteq> []" "length qts \<le> 2" "\<forall>t \<in> set qts. length t = 64" "jpeg_dims_ok w h" "ty \<le> 1"
  shows "JpegScan_parse (jpeg_header w h ty ri qts @ scan @ [0xFF, 0xD9]) =
    Inr \<lparr>js_width = w, js_height = h, js_type = (if ri = None then ty else ty + 64),
         js_restart_interval = ri, js_qtables = qts @ replicate (2 - length qts) [],
         js_qtable_count = length qts, js_scan = scan\<rparr>"
proof -
  let ?segs = "header_segments w h ty ri qts"
  let ?J = "jpeg_header w h ty ri qts @ scan @ [0xFF, 0xD9]"
  let ?pre = "[0xFF, 0xD8] @ concat (map jpeg_segment ?segs)"
  let ?st = "\<lparr>jp_qtables = qts @ replicate (2 - length qts) [], jp_qcount = length qts,
      jp_dims = Some (w, h, ty), jp_restart = ri\<rparr>"
  have J: "?J = [0xFF, 0xD8] @ concat (map jpeg_segment ?segs) @
      (jpeg_segment (0xDA, sos_payload) @ scan @ [0xFF, 0xD9])"
    by (simp add: jpeg_header_segments [OF assms(3)])
  have J2: "?J = ?pre @ [0xFF, 0xDA] @ be16 (of_nat (2 + length sos_payload)) @ sos_payload @
      (scan @ [0xFF, 0xD9])"
    unfolding J jpeg_segment_def by simp
  have J3: "?J = (?pre @ jpeg_segment (0xDA, sos_payload) @ scan) @ [0xFF, 0xD9]"
    unfolding J by simp
  have "JpegScan_parse ?J = JpegScan_loop ?J (length [0xFF :: u8, 0xD8])
      \<lparr>jp_qtables = [[], []], jp_qcount = 0, jp_dims = None, jp_restart = None\<rparr>"
    unfolding J by (simp add: JpegScan_parse_def jpeg_segment_def be16_def flip: numeral_2_eq_2)
  also have "\<dots> = JpegScan_loop ?J (length ?pre) ?st"
    by (rule JpegScan_loop_segments [OF plain_header_segments [OF assms(3,2)]
        JpegScan_segments_header [OF assms] J])
  also have "\<dots> = JpegScan_sos ?J (length ?pre + 4 + length sos_payload) ?st"
    using JpegScan_loop_segment [OF J2, of ?st] by (simp add: sos_payload_def)
  also have "\<dots> = Inr \<lparr>js_width = w, js_height = h, js_type = (if ri = None then ty else ty + 64),
         js_restart_interval = ri, js_qtables = qts @ replicate (2 - length qts) [],
         js_qtable_count = length qts, js_scan = scan\<rparr>"
  proof -
    let ?body = "?pre @ jpeg_segment (0xDA, sos_payload) @ scan"
    have e: "eoi_back ?J (length ?J) = length ?body + 2"
      using eoi_back_end [of ?body] unfolding J3 by simp
    have "subslice ?J (length ?pre + 4 + length sos_payload) (length ?body + 2 - 2) = Inr scan"
      unfolding J3
      using subslice_mid [of "?pre @ jpeg_segment (0xDA, sos_payload)" scan "[0xFF, 0xD9]"]
      by (simp add: add.assoc)
    moreover have "length ?pre + 4 + length sos_payload \<le> length ?body + 2 - 2"
      by (simp add: sos_payload_def)
    ultimately show ?thesis using assms(1) unfolding JpegScan_sos_def e
      by (simp add: Let_def del: length_append)
  qed
  finally show ?thesis .
qed

section \<open>What the parser accepts\<close>

definition jpeg_tables_ok :: "bytes list \<Rightarrow> nat \<Rightarrow> bool" where
  "jpeg_tables_ok qts n \<longleftrightarrow> length qts = 2 \<and> n \<le> 2 \<and>
     (\<forall>i < 2. length (qts ! i) = 64 \<and> i < n \<or> qts ! i = []) \<and>
     (0 < n \<longrightarrow> qts ! (n - 1) \<noteq> [])"

definition jpeg_parse_ok :: "jpeg_parse \<Rightarrow> bool" where
  "jpeg_parse_ok st \<longleftrightarrow> jpeg_tables_ok (jp_qtables st) (jp_qcount st) \<and>
     (case jp_dims st of None \<Rightarrow> True | Some (w, h, ty) \<Rightarrow> jpeg_dims_ok w h \<and> ty \<le> 1)"

definition jpeg_scan_ok :: "jpeg_scan \<Rightarrow> bool" where
  "jpeg_scan_ok info \<longleftrightarrow> jpeg_tables_ok (js_qtables info) (js_qtable_count info) \<and>
     0 < js_qtable_count info \<and> jpeg_dims_ok (js_width info) (js_height info) \<and>
     (\<exists>ty. ty \<le> 1 \<and> js_type info = (if js_restart_interval info = None then ty else ty + 64))"

lemma less_2_cases': "i < 2 \<longleftrightarrow> i = 0 \<or> i = (1 :: nat)"
  by auto

lemma jpeg_tables_ok_two:
  "jpeg_tables_ok [a, b] n \<longleftrightarrow> n \<le> 2 \<and> (a = [] \<or> length a = 64 \<and> 1 \<le> n) \<and>
     (b = [] \<or> length b = 64 \<and> n = 2) \<and> (n = 1 \<longrightarrow> a \<noteq> []) \<and> (n = 2 \<longrightarrow> b \<noteq> [])"
proof -
  have all: "(\<forall>i < 2. P i) \<longleftrightarrow> P 0 \<and> P 1" for P :: "nat \<Rightarrow> bool"
    by (metis less_2_cases' one_less_numeral_iff semiring_norm(76) zero_less_numeral)
  consider "n = 0" | "n = 1" | "n = 2" | "2 < n" by linarith
  then show ?thesis
    by cases (simp_all add: jpeg_tables_ok_def all, argo+)
qed

lemma JpegScan_dqt_ok:
  "JpegScan_dqt s st = Inr st' \<Longrightarrow> jpeg_tables_ok (jp_qtables st) (jp_qcount st) \<Longrightarrow>
   jpeg_tables_ok (jp_qtables st') (jp_qcount st') \<and> jp_dims st' = jp_dims st"
proof (induction s st rule: JpegScan_dqt.induct)
  case (1 s st)
  show ?case
  proof (cases "s = []")
    case True
    then show ?thesis using "1.prems" by (simp add: JpegScan_dqt.simps)
  next
    case False
    let ?tq = "unat (s ! 0 AND 0x0F)"
    let ?st1 = "st\<lparr>jp_qtables := (jp_qtables st)[?tq := cut s 1 65], jp_qcount := max (jp_qcount st) (?tq + 1)\<rparr>"
    from "1.prems"(1) False have g: "\<not> (drop_bit 4 (s ! 0) \<noteq> 0 \<or> length s < 65 \<or> ?tq > 1)"
      and rest: "JpegScan_dqt (drop 65 s) ?st1 = Inr st'"
      by (auto simp: JpegScan_dqt.simps [of s] Let_def split: if_splits)
    have tq: "?tq = 0 \<or> ?tq = 1" and len: "length (cut s 1 65) = 64" using g by auto
    obtain t0 t1 where q: "jp_qtables st = [t0, t1]"
      using "1.prems"(2) by (auto simp: jpeg_tables_ok_def length_Suc_conv numeral_2_eq_2)
    have ne: "cut s 1 65 \<noteq> []" using len by (metis list.size(3) zero_neq_numeral)
    have "jpeg_tables_ok (jp_qtables ?st1) (jp_qcount ?st1)"
    proof (cases "?tq = 0")
      case True
      then show ?thesis using "1.prems"(2) len ne q by (auto simp: jpeg_tables_ok_two max_def)
    next
      case False
      then have "?tq = 1" using tq by simp
      then show ?thesis using "1.prems"(2) len ne q by (auto simp: jpeg_tables_ok_two max_def)
    qed
    from "1.IH" [OF False refl refl g rest this] show ?thesis by simp
  qed
qed

lemma JpegScan_segment_ok:
  assumes "JpegScan_segment m seg st = Inr st'" "jpeg_parse_ok st"
  shows "jpeg_parse_ok st'"
proof -
  consider "m = 0xDB" | "m \<noteq> 0xDB" "m = 0xC0 \<or> m = 0xC1" | "m \<noteq> 0xDB" "m \<noteq> 0xC0" "m \<noteq> 0xC1" by blast
  then show ?thesis
  proof cases
    case 1
    then show ?thesis using assms JpegScan_dqt_ok [of seg st st']
      by (simp add: JpegScan_segment_arms jpeg_parse_ok_def)
  next
    case 2
    then have "JpegScan_sof seg st = Inr st'" using assms(1) by (simp add: JpegScan_segment_def)
    then show ?thesis using assms(2)
      by (auto simp: JpegScan_sof_def Let_def bind_r_eq_Inr_iff jpeg_parse_ok_def jpeg_dims_ok_def
          not_less split: if_splits del: mod_0_imp_dvd)
  next
    case 3
    then have "jp_qtables st' = jp_qtables st" "jp_qcount st' = jp_qcount st" "jp_dims st' = jp_dims st"
      using assms(1) by (auto simp: JpegScan_segment_def bind_r_eq_Inr_iff split: if_splits)
    then show ?thesis using assms(2) by (simp add: jpeg_parse_ok_def)
  qed
qed

lemma JpegScan_sos_ok:
  "JpegScan_sos jpeg p st = Inr info \<Longrightarrow> jpeg_parse_ok st \<Longrightarrow> jpeg_scan_ok info"
  by (auto simp: JpegScan_sos_def Let_def bind_r_eq_Inr_iff jpeg_parse_ok_def jpeg_scan_ok_def
      split: if_splits intro: exI)

lemma JpegScan_loop_cases:
  obtains (err) e where "JpegScan_loop jpeg i st = Inl (Err e)"
  | (sos) p where "JpegScan_loop jpeg i st = JpegScan_sos jpeg p st" "i \<le> p"
  | (bad) m seg e where "JpegScan_segment m seg st = Inl e" "JpegScan_loop jpeg i st = Inl e"
  | (go) st' j where "JpegScan_loop jpeg i st = JpegScan_loop jpeg j st'"
      "length jpeg - j < length jpeg - i" "i \<le> j"
      "st' = st \<or> (\<exists>m seg. JpegScan_segment m seg st = Inr st' \<and> i + length seg \<le> j)"
proof -
  let ?i = "skip_ff jpeg i" and ?l = "JpegScan_loop jpeg i st"
  note un = JpegScan_loop.simps [of jpeg i st]
  show thesis
  proof (cases "get jpeg ?i")
    case None
    then have "?l = Inl (Err InvalidFormat)" by (simp only: un Let_def option.case)
    then show thesis by (rule err)
  next
    case (Some m)
    note pr = skip_ff_progress [OF Some] and ge = skip_ff_ge [of i jpeg]
    show thesis
    proof (cases "m = 0x01 \<or> (0xD0 \<le> m \<and> m \<le> 0xD7)")
      case True
      then have "?l = JpegScan_loop jpeg (?i + 1) st" using Some by (simp add: un)
      then show thesis using pr [of "?i + 1"] ge by (intro go [of "?i + 1" st]) simp_all
    next
      case plain: False
      show thesis
      proof (cases "get jpeg (?i + 1) = None \<or> get jpeg (?i + 1 + 1) = None")
        case True
        have "?l = Inl (Err InvalidFormat)"
          using True plain by (auto simp: un Some Let_def simp del: get_eq_None_iff split: option.splits)
        then show thesis by (rule err)
      next
        case False
        then obtain a b where ab: "get jpeg (?i + 1) = Some a" "get jpeg (?i + 1 + 1) = Some b" by auto
        let ?n = "unat (from_be16 a b)"
        have l: "?l = (if ?n < 2 then Inl (Err InvalidFormat)
            else (case get_range jpeg (?i + 1 + 2) (?i + 1 + ?n) of
               None \<Rightarrow> Inl (Err InvalidFormat)
             | Some seg \<Rightarrow>
                 if m = 0xDA then JpegScan_sos jpeg (?i + 1 + ?n) st
                 else (case JpegScan_segment m seg st of
                    Inl e \<Rightarrow> Inl e
                  | Inr st' \<Rightarrow> JpegScan_loop jpeg (?i + 1 + ?n) st')))"
          by (simp only: un Let_def Some option.case plain if_False ab)
        show thesis
        proof (cases "?n < 2 \<or> get_range jpeg (?i + 1 + 2) (?i + 1 + ?n) = None")
          case True
          then have "?l = Inl (Err InvalidFormat)" unfolding l by auto
          then show thesis by (rule err)
        next
          case False
          then obtain seg where n: "\<not> ?n < 2" and seg: "get_range jpeg (?i + 1 + 2) (?i + 1 + ?n) = Some seg"
            by auto
          note l' = l [unfolded seg option.case if_not_P [OF n]]
          show thesis
          proof (cases "m = 0xDA")
            case True
            then show thesis using l' ge by (intro sos [of "?i + 1 + ?n"]) simp_all
          next
            case nda: False
            show thesis
            proof (cases "JpegScan_segment m seg st")
              case (Inl e)
              then show thesis using l' nda by (intro bad) simp_all
            next
              case (Inr st')
              have "length seg = ?n - 2" using seg n by (auto simp: get_range_def split: if_splits)
              then have "i + length seg \<le> ?i + 1 + ?n" using ge n by linarith
              then have "\<exists>m seg. JpegScan_segment m seg st = Inr st' \<and> i + length seg \<le> ?i + 1 + ?n"
                using Inr by blast
              then show thesis using l' nda pr [of "?i + 1 + ?n"] ge Inr by (intro go [of "?i + 1 + ?n" st']) simp_all
            qed
          qed
        qed
      qed
    qed
  qed
qed

lemma JpegScan_loop_ok:
  "JpegScan_loop jpeg i st = Inr info \<Longrightarrow> jpeg_parse_ok st \<Longrightarrow> jpeg_scan_ok info"
proof (induction "length jpeg - i" arbitrary: i st rule: less_induct)
  case less
  show ?case
  proof (cases rule: JpegScan_loop_cases [of jpeg i st])
    case (go st' j)
    then show ?thesis using less.prems JpegScan_segment_ok by (intro less.hyps [of j st']) auto
  qed (use less.prems JpegScan_sos_ok in auto)
qed

lemma JpegScan_parse_ok: "JpegScan_parse jpeg = Inr info \<Longrightarrow> jpeg_scan_ok info"
  by (auto simp: JpegScan_parse_def jpeg_parse_ok_def jpeg_tables_ok_def less_2_cases'
      split: if_splits intro!: JpegScan_loop_ok)

lemma eoi_back_le: "eoi_back jpeg e \<le> e"
  by (induction e) auto

text \<open>What is in front of the scan holds a whole quantization table.\<close>

definition jpeg_table_read :: "nat \<Rightarrow> jpeg_parse \<Rightarrow> bool" where
  "jpeg_table_read i st \<longleftrightarrow> (jp_qcount st \<noteq> 0 \<longrightarrow> 65 \<le> i)"

lemma JpegScan_segment_table_read:
  assumes "JpegScan_segment m seg st = Inr st'" "jpeg_table_read i st" "i + length seg \<le> j"
  shows "jpeg_table_read j st'"
proof (cases "m = 0xDB")
  case True
  then have "JpegScan_dqt seg st = Inr st'" using assms(1) by (simp add: JpegScan_segment_def)
  then have "st' = st \<or> 65 \<le> length seg"
    by (subst (asm) JpegScan_dqt.simps) (auto simp: Let_def not_less split: if_splits)
  then show ?thesis using assms(2,3) by (auto simp: jpeg_table_read_def)
next
  case False
  then have "jp_qcount st' = jp_qcount st"
    using assms(1) by (auto simp: JpegScan_segment_def JpegScan_sof_def Let_def bind_r_eq_Inr_iff split: if_splits)
  then show ?thesis using assms(2,3) by (auto simp: jpeg_table_read_def)
qed

lemma JpegScan_loop_length:
  "JpegScan_loop jpeg i st = Inr info \<Longrightarrow> jpeg_table_read i st \<Longrightarrow> 65 + length (js_scan info) + 2 \<le> length jpeg"
proof (induction "length jpeg - i" arbitrary: i st rule: less_induct)
  case less
  show ?case
  proof (cases rule: JpegScan_loop_cases [of jpeg i st])
    case (sos p)
    define e where "e = eoi_back jpeg (length jpeg)"
    have e: "2 \<le> e" "p \<le> e - 2" "subslice jpeg p (e - 2) = Inr (js_scan info)" "jp_qcount st \<noteq> 0"
      using less.prems(1) sos(1)
      by (auto simp: JpegScan_sos_def Let_def bind_r_eq_Inr_iff e_def [symmetric] not_less split: if_splits)
    moreover have "e \<le> length jpeg" using eoi_back_le [of jpeg "length jpeg"] by (simp add: e_def)
    moreover have "p + length (js_scan info) + 2 = e" using length_slice [OF e(3)] e by simp
    ultimately show ?thesis using less.prems(2) sos(2) by (simp add: jpeg_table_read_def)
  next
    case (go st' j)
    have "jpeg_table_read j st'"
      using go(3,4) less.prems(2) JpegScan_segment_table_read by (auto simp: jpeg_table_read_def)
    then show ?thesis using less.hyps [of j st'] go(1,2) less.prems(1) by simp
  qed (use less.prems in simp_all)
qed

lemma JpegScan_parse_length: "JpegScan_parse jpeg = Inr info \<Longrightarrow> 67 + length (js_scan info) \<le> length jpeg"
  using JpegScan_loop_length [of jpeg 2] by (fastforce simp: JpegScan_parse_def jpeg_table_read_def split: if_splits)

text \<open>No input makes the parser panic.\<close>

lemma JpegScan_dqt_no_panic: "no_panic (JpegScan_dqt s st)"
  by (induction s st rule: JpegScan_dqt.induct) (subst JpegScan_dqt.simps, auto simp: Let_def)

lemma JpegScan_dht_no_panic: "no_panic (JpegScan_dht s)"
  by (induction s rule: JpegScan_dht.induct)
    (subst JpegScan_dht.simps, auto simp: Let_def split: option.splits)

lemma JpegScan_segment_no_panic: "no_panic (JpegScan_segment m seg st)"
  using JpegScan_dqt_no_panic JpegScan_dht_no_panic
  by (auto simp: JpegScan_segment_def JpegScan_sof_def Let_def intro!: no_panic_bind_r)

lemma JpegScan_sos_no_panic: "no_panic (JpegScan_sos jpeg p st)"
  using eoi_back_le [of jpeg "length jpeg"]
  by (auto simp: JpegScan_sos_def Let_def not_less intro!: no_panic_bind_r split: prod.splits)

lemma JpegScan_loop_no_panic: "no_panic (JpegScan_loop jpeg i st)"
proof (induction "length jpeg - i" arbitrary: i st rule: less_induct)
  case less
  show ?case
  proof (cases rule: JpegScan_loop_cases [of jpeg i st])
    case (bad m seg e)
    then show ?thesis using JpegScan_segment_no_panic [of m seg st] by (auto simp: no_panic_def)
  qed (use less.hyps JpegScan_sos_no_panic in simp_all)
qed

lemma JpegScan_parse_no_panic: "no_panic (JpegScan_parse jpeg)"
  by (simp add: JpegScan_parse_def JpegScan_loop_no_panic)

section \<open>What the payloader sends\<close>

definition jpeg_head_parts :: "jpeg_scan \<Rightarrow> nat \<Rightarrow> bytes list" where
  "jpeg_head_parts info off =
     (let o32 = (of_nat off :: u32) in
      [[0], [ucast (drop_bit 16 o32)], [ucast (drop_bit 8 o32)], [ucast o32], [js_type info], [255],
       [ucast (js_width info div 8)], [ucast (js_height info div 8)]] @
      (case js_restart_interval info of None \<Rightarrow> [] | Some ri \<Rightarrow> [be16 ri, be16 0xFFFF]) @
      (if off = 0 then
         [[0], [0], be16 (of_nat (64 * js_qtable_count info))] @
         take (js_qtable_count info) (js_qtables info)
       else []))"

definition jpeg_head_bytes :: "jpeg_scan \<Rightarrow> nat \<Rightarrow> bytes" where
  "jpeg_head_bytes info off = concat (jpeg_head_parts info off)"

definition jpeg_tables_full :: "jpeg_scan \<Rightarrow> bool" where
  "jpeg_tables_full info \<longleftrightarrow> js_qtable_count info \<le> length (js_qtables info) \<and>
     js_qtable_count info \<le> 2 \<and>
     (\<forall>t \<in> set (take (js_qtable_count info) (js_qtables info)). length t = 64)"

lemma copy_range_put: "copy_range buf p (p + length t) t = put buf p t"
  by (simp add: copy_range_def put_def)

lemma bind_r_assoc: "bind_r (bind_r m f) g = bind_r m (\<lambda>x. bind_r (f x) g)"
  by (cases m) simp_all

lemma bind_r_return: "bind_r m Inr = m"
  by (cases m) simp_all

lemma put_parts_append:
  "put_parts sc p (xs @ ys) = bind_r (put_parts sc p xs) (\<lambda>(p', sc'). put_parts sc' p' ys)"
  by (induction xs arbitrary: sc p) (simp_all add: bind_r_assoc)

lemma JpegPayloader_tables_put:
  "\<forall>t \<in> set ts. length t = 64 \<Longrightarrow> JpegPayloader_tables ts p sc = put_parts sc p ts"
proof (induction ts arbitrary: p sc)
  case (Cons t ts)
  then have "copy_range sc p (p + 64) t = put sc p t" using copy_range_put [of sc p t] by simp
  moreover have "JpegPayloader_tables ts (p + 64) = (\<lambda>out'. put_parts out' (p + 64) ts)"
    using Cons by auto
  ultimately show ?case using Cons.prems by simp
qed simp

lemma JpegPayloader_head_put:
  assumes "jpeg_tables_full info"
  shows "JpegPayloader_head info off sc = put_parts sc 12 (jpeg_head_parts info off)"
proof -
  have ts: "JpegPayloader_tables (take (js_qtable_count info) (js_qtables info)) p sc =
      put_parts sc p (take (js_qtable_count info) (js_qtables info))" for p sc
    using assms by (intro JpegPayloader_tables_put) (simp add: jpeg_tables_full_def)
  have sub: "subslice (js_qtables info) 0 (js_qtable_count info) =
      Inr (take (js_qtable_count info) (js_qtables info))"
    using assms by (simp add: jpeg_tables_full_def)
  show ?thesis
    by (cases "js_restart_interval info"; cases "off = 0")
      (simp_all add: JpegPayloader_head_def jpeg_head_parts_def rtp_HEADER_LEN_def Let_def sub ts
        bind_r_assoc put_parts_append)
qed

lemma JpegPayloader_head_ok:
  assumes "jpeg_tables_full info" "length pre = 12" "length (jpeg_head_bytes info off) \<le> length rest"
  shows "JpegPayloader_head info off (pre @ rest) =
    Inr (12 + length (jpeg_head_bytes info off),
      pre @ jpeg_head_bytes info off @ drop (length (jpeg_head_bytes info off)) rest)"
  unfolding JpegPayloader_head_put [OF assms(1)]
  using put_parts_spec [of "jpeg_head_parts info off" rest pre] assms
  by (simp add: jpeg_head_bytes_def)

lemma length_jpeg_head_bytes:
  assumes "jpeg_tables_full info"
  shows "length (jpeg_head_bytes info off) =
    8 + (if js_restart_interval info = None then 0 else 4) +
    (if off = 0 then 4 + 64 * js_qtable_count info else 0)"
proof -
  have "length (concat ts) = 64 * length ts" if "\<forall>t \<in> set ts. length t = 64" for ts :: "bytes list"
    using that by (induction ts) auto
  then have "length (concat (take (js_qtable_count info) (js_qtables info))) = 64 * js_qtable_count info"
    using assms by (simp add: jpeg_tables_full_def)
  then show ?thesis
    by (auto simp: jpeg_head_bytes_def jpeg_head_parts_def Let_def split: option.splits)
qed

text \<open>The payloads of a scan: the headers of the packet at each offset, then what fits.\<close>

function jpeg_payloads :: "jpeg_scan \<Rightarrow> nat \<Rightarrow> nat \<Rightarrow> bytes \<Rightarrow> bytes list" where
  "jpeg_payloads info mtu off rest =
     (let n = mtu - (12 + length (jpeg_head_bytes info off)) in
      if rest = [] \<or> n = 0 then []
      else (jpeg_head_bytes info off @ take n rest) # jpeg_payloads info mtu (off + n) (drop n rest))"
  by pat_completeness auto
termination
proof (relation "measure (\<lambda>(info, mtu, off, rest). length rest)", goal_cases)
  case (2 info mtu off rest n)
  then have "0 < n" "0 < length rest" by auto
  then show ?case by simp
qed simp

declare jpeg_payloads.simps [simp del]

lemma jpeg_head_fits:
  assumes "jpeg_tables_full info" "157 \<le> mtu"
  shows "12 + length (jpeg_head_bytes info off) < mtu"
  using length_jpeg_head_bytes [OF assms(1), of off] assms by (auto simp: jpeg_tables_full_def)

lemma JpegPayloader_loop_spec:
  assumes "jpeg_tables_full info" "157 \<le> mtu" "mtu \<le> length scratch"
    and "rest = drop off (js_scan info)" "off \<le> length (js_scan info)"
  shows "sends_as (JpegPayloader_loop emit mtu info ts off n r scratch s)
    (length scratch) n (length (jpeg_payloads info mtu off rest))
    (rtp_send emit ts r (mark_last True (jpeg_payloads info mtu off rest)) s)"
  using assms
proof (induction info mtu off rest arbitrary: scratch n r s rule: jpeg_payloads.induct)
  case (1 info mtu off rest)
  note un = JpegPayloader_loop.simps [of emit mtu info ts off n r scratch s]
  note tf = "1.prems"(1)
  show ?case
  proof (cases "off < length (js_scan info)")
    case False
    then have "rest = []" "JpegPayloader_loop emit mtu info ts off n r scratch s =
        Some (Inr n, r, scratch, s)" using "1.prems" un by simp_all
    then show ?thesis by (auto simp: sends_as_def jpeg_payloads.simps [of info mtu off])
  next
    case True
    let ?hb = "jpeg_head_bytes info off"
    define p where p: "p = 12 + length ?hb"
    define tk where tk: "tk = min (length (js_scan info) - off) (mtu - p)"
    have pm: "p < mtu" using jpeg_head_fits [OF tf "1.prems"(2)] by (simp add: p)
    have ne: "rest \<noteq> []" using True "1.prems" by simp
    let ?c = "take (mtu - p) rest"
    have c: "take tk (drop off (js_scan info)) = ?c" "length ?c = tk"
      using "1.prems" by (simp_all add: tk min_def)
    have bd: "off + tk \<le> length (js_scan info)" "tk \<le> length scratch - p" "0 < tk"
      using "1.prems" True pm unfolding tk by linarith+
    let ?fin = "off + tk = length (js_scan info)"
    let ?ps = "jpeg_payloads info mtu (off + (mtu - p)) (drop (mtu - p) rest)"
    have fin: "?fin \<longleftrightarrow> ?ps = []"
      using "1.prems"(4) True jpeg_head_fits [OF tf "1.prems"(2), of "off + (mtu - p)"]
      by (auto simp: jpeg_payloads.simps [of info mtu "off + (mtu - p)"] tk min_def Let_def)
    let ?sc1 = "take 12 scratch @ ?hb @ drop p scratch"
    have head: "JpegPayloader_head info off scratch = Inr (p, ?sc1)"
      using JpegPayloader_head_ok [OF tf, of "take 12 scratch" off "drop 12 scratch"] "1.prems"(3) pm
      by (simp add: p min_def add.commute)
    let ?h = "rtp_header_bytes r ?fin ts"
    have w: "Rtp_write_header r ?sc1 ?fin ts = (Inr (), rtp_next r, (?h @ ?hb) @ drop p scratch)"
      using Rtp_write_header_ok [of ?sc1 r ?fin ts] "1.prems"(2,3) by simp
    let ?pkt = "(?h @ ?hb) @ ?c" and ?sc3 = "((?h @ ?hb) @ ?c) @ drop tk (drop p scratch)"
    have sub: "subslice (js_scan info) off (off + tk) = Inr ?c" using c bd by simp
    have cp: "copy_range ((?h @ ?hb) @ drop p scratch) p (p + tk) ?c = Inr ?sc3"
      using copy_range_at_end [of "?h @ ?hb" p "p + tk" ?c "drop p scratch"] c bd by (simp add: p)
    have sl: "subslice ?sc3 0 (p + tk) = Inr ?pkt"
      using c by (intro subslice_prefix) (simp add: p)
    have len: "length ?sc3 = length scratch" using c bd pm "1.prems"(3) by (simp add: p)
    have ch: "jpeg_payloads info mtu off rest = (?hb @ ?c) # ?ps"
      using ne pm by (subst jpeg_payloads.simps) (simp add: Let_def p)
    obtain o1 s1 where e: "emit s ?pkt = (o1, s1)" by (cases "emit s ?pkt")
    show ?thesis
    proof (cases o1)
      case (Inl f)
      then have "JpegPayloader_loop emit mtu info ts off n r scratch s =
          Some (Inl f, rtp_next r, ?sc3, s1)"
        by (simp only: un Let_def True if_True head sum.case prod.case flip: tk)
          (simp only: w sub bind_r_simps cp sl e sum.case prod.case)
      moreover have "rtp_send emit ts r (mark_last True ((?hb @ ?c) # ?ps)) s = (Inl f, rtp_next r, s1)"
        using e Inl by (simp add: mark_last_Cons fin)
      ultimately show ?thesis unfolding ch sends_as_def using len by auto
    next
      case (Inr u)
      have lp: "JpegPayloader_loop emit mtu info ts off n r scratch s =
          JpegPayloader_loop emit mtu info ts (off + tk) (n + 1) (rtp_next r) ?sc3 s1"
        using Inr by (simp only: un Let_def True if_True head sum.case prod.case flip: tk)
          (simp only: w sub bind_r_simps cp sl e sum.case prod.case)
      have snd: "rtp_send emit ts r (mark_last True ((?hb @ ?c) # ?ps)) s =
          rtp_send emit ts (rtp_next r) (mark_last True ?ps) s1"
        using e Inr by (simp add: mark_last_Cons fin)
      have IH: "sends_as (JpegPayloader_loop emit mtu info ts (off + tk) (n + 1) (rtp_next r) ?sc3 s1)
          (length ?sc3) (n + 1) (length ?ps)
          (rtp_send emit ts (rtp_next r) (mark_last True ?ps) s1)"
      proof (cases ?fin)
        case True
        then have "JpegPayloader_loop emit mtu info ts (off + tk) (n + 1) (rtp_next r) ?sc3 s1 =
            Some (Inr (n + 1), rtp_next r, ?sc3, s1)" by (subst JpegPayloader_loop.simps) simp
        then show ?thesis using True fin by (auto simp: sends_as_def)
      next
        case False
        then have tk': "tk = mtu - p" using "1.prems" by (auto simp: tk min_def)
        show ?thesis unfolding tk'
          using "1.prems" ne pm len tk' bd
          by (intro "1.IH" [of "mtu - p"]) (auto simp: p add.commute)
      qed
      have "sends_as (JpegPayloader_loop emit mtu info ts off n r scratch s)
          (length scratch) (n + 1) (length ?ps)
          (rtp_send emit ts r (mark_last True ((?hb @ ?c) # ?ps)) s)"
        unfolding lp snd using IH unfolding len .
      then show ?thesis unfolding ch by (rule sends_as_cong) simp
    qed
  qed
qed


section \<open>What the depayloader makes of it\<close>

text \<open>A frame in progress whose first \<open>k\<close> scan bytes are in the buffer.\<close>

definition frame_state :: "jpeg_depayloader \<Rightarrow> u32 \<Rightarrow> jpeg_scan \<Rightarrow> nat \<Rightarrow> bool" where
  "frame_state d ts info k \<longleftrightarrow>
     dp_in_frame d \<and> dp_scan_len d = k \<and> dp_timestamp d = ts \<and> dp_width d = js_width info \<and>
     dp_height d = js_height info \<and> dp_type d \<le> 1 \<and>
     js_type info = (if js_restart_interval info = None then dp_type d else dp_type d + 64) \<and>
     dp_restart_interval d = js_restart_interval info \<and> dp_qcount d = js_qtable_count info \<and>
     dp_qcount d \<le> length (dp_qtables d) \<and>
     take (dp_qcount d) (dp_qtables d) = take (js_qtable_count info) (js_qtables info) \<and>
     HEADER_RESERVE + length (js_scan info) + 2 \<le> length (dp_buf d) \<and>
     k \<le> length (js_scan info) \<and> take k (drop HEADER_RESERVE (dp_buf d)) = take k (js_scan info)"

definition rebuilt_jpeg :: "jpeg_scan \<Rightarrow> bytes" where
  "rebuilt_jpeg info =
     jpeg_header (js_width info) (js_height info) (js_type info AND 0x3F) (js_restart_interval info)
       (take (js_qtable_count info) (js_qtables info)) @ js_scan info @ [0xFF, 0xD9]"

lemma u8_type_bits:
  "ty \<le> (1 :: u8) \<Longrightarrow> ty AND 0x3F = ty \<and> (ty + 64) AND 0x3F = ty \<and> \<not> 64 \<le> ty \<and> 64 \<le> ty + 64"
  using u8_le_1 [of ty] by (auto simp: word_le_nat_alt)

lemma JpegDepayloader_finish_ok:
  assumes fs: "frame_state d ts info (length (js_scan info))" and tf: "jpeg_tables_full info"
    and n0: "0 < js_qtable_count info" and room: "counters_room tg 1 0 0 d"
  shows "\<exists>d'. JpegDepayloader_finish tg d =
      (Inr (Frame (length (rebuilt_jpeg info)) ts (js_width info) (js_height info)), d') \<and>
    JpegDepayloader_jpeg d' = Inr (rebuilt_jpeg info) \<and> dp_frames d' = dp_frames d + 1 \<and>
    dp_dropped d' = dp_dropped d \<and> dp_lost d' = dp_lost d \<and> \<not> dp_in_frame d' \<and>
    length (dp_buf d') = length (dp_buf d) \<and> dp_last_seq d' = dp_last_seq d"
proof -
  let ?n = "js_qtable_count info" and ?ri = "js_restart_interval info" and ?scan = "js_scan info"
  let ?qts = "take ?n (js_qtables info)"
  define hlen where hlen: "hlen = jpeg_header_len ?n (?ri \<noteq> None)"
  define start where start: "start = HEADER_RESERVE - hlen"
  have n2: "?n \<le> 2" using tf by (simp add: jpeg_tables_full_def)
  then have hl: "hlen \<le> 1024" by (simp add: hlen jpeg_header_len_def)
  have lq: "length ?qts = ?n" using tf by (simp add: jpeg_tables_full_def)
  have qok: "?qts \<noteq> []" "length ?qts \<le> 2" "\<forall>t \<in> set ?qts. length t = 64"
  proof -
    show "?qts \<noteq> []" using lq n0 by (metis list.size(3) less_numeral_extra(3))
    show "length ?qts \<le> 2" using lq n2 by simp
    show "\<forall>t \<in> set ?qts. length t = 64" using tf by (simp add: jpeg_tables_full_def)
  qed
  from fs have ty: "dp_type d \<le> 1" and f: "dp_scan_len d = length ?scan" "dp_timestamp d = ts"
      "dp_width d = js_width info" "dp_height d = js_height info" "dp_restart_interval d = ?ri"
      "dp_qcount d = ?n" "take ?n (dp_qtables d) = ?qts" "?n \<le> length (dp_qtables d)"
    and jt: "js_type info = (if ?ri = None then dp_type d else dp_type d + 64)"
    and bl: "1024 + length ?scan + 2 \<le> length (dp_buf d)"
    and bs: "take (length ?scan) (drop 1024 (dp_buf d)) = ?scan"
    by (auto simp: frame_state_def HEADER_RESERVE_def)
  have ty': "js_type info AND 0x3F = dp_type d" using jt u8_type_bits [OF ty] by (auto split: if_splits)
  let ?hdr = "jpeg_header (js_width info) (js_height info) (dp_type d) ?ri ?qts"
  have lh: "length ?hdr = hlen" using length_jpeg_header [OF qok(3) lq] by (simp add: hlen)
  define A where A: "A = take start (dp_buf d)"
  define B where B: "B = take hlen (drop start (dp_buf d))"
  define T where T: "T = drop (1024 + length ?scan) (dp_buf d)"
  have "2 \<le> length T" using bl by (simp add: T)
  then obtain x y Z where T2: "T = x # y # Z" by (metis Suc_le_length_iff numeral_2_eq_2)
  have HR: "HEADER_RESERVE = 1024" by (simp add: HEADER_RESERVE_def)
  have s1024: "start + hlen = 1024" using hl by (simp add: start HEADER_RESERVE_def)
  have lAB: "length A = start" "length B = hlen" using bl s1024 by (simp_all add: A B)
  have buf: "dp_buf d = A @ B @ ?scan @ [x, y] @ Z"
  proof -
    have "dp_buf d = take start (dp_buf d) @ take hlen (drop start (dp_buf d)) @
        take (length ?scan) (drop 1024 (dp_buf d)) @ drop (1024 + length ?scan) (dp_buf d)"
      by (metis append_take_drop_id add.commute drop_drop s1024)
    then show ?thesis using T T2 bs by (simp add: A B)
  qed
  have sub: "subslice (dp_buf d) start HEADER_RESERVE = Inr B"
    using subslice_mid [of A B "?scan @ [x, y] @ Z"] lAB s1024 by (simp add: buf HEADER_RESERVE_def)
  have subq: "subslice (dp_qtables d) 0 ?n = Inr ?qts" using f by simp
  have wr: "write_jpeg_headers B (js_width info) (js_height info) (dp_type d) ?ri ?qts = Inr (hlen, ?hdr)"
    using write_jpeg_headers_ok [OF qok(1,2) ty qok(3), of ?ri B] lq lAB by (simp add: hlen)
  let ?buf1 = "A @ ?hdr @ ?scan @ [x, y] @ Z"
  have b1: "take start (dp_buf d) @ ?hdr @ drop HEADER_RESERVE (dp_buf d) = ?buf1"
    using lAB s1024 by (simp add: buf HEADER_RESERVE_def)
  have eoi: "1024 + length ?scan = length (A @ ?hdr @ ?scan)" using lAB lh s1024 by simp
  have p1: "put ?buf1 (1024 + length ?scan) [0xFF] = Inr (A @ ?hdr @ ?scan @ [0xFF, y] @ Z)"
    unfolding eoi by simp
  have p2: "put (A @ ?hdr @ ?scan @ [0xFF, y] @ Z) (1024 + length ?scan + 1) [0xD9] =
      Inr (A @ ?hdr @ ?scan @ [0xFF, 0xD9] @ Z)"
    unfolding eoi by simp
  let ?d' = "d\<lparr>dp_buf := A @ ?hdr @ ?scan @ [0xFF, 0xD9] @ Z, dp_in_frame := False,
      dp_frames := dp_frames d + 1, dp_jpeg := Some (start, 1024 + length ?scan + 2)\<rparr>"
  have rb: "rebuilt_jpeg info = ?hdr @ ?scan @ [0xFF, 0xD9]" by (simp add: rebuilt_jpeg_def ty')
  have fr: "u32_add tg (dp_frames d) 1 = Inr (dp_frames d + 1)" using room by (simp add: counters_room_def)
  have len: "1024 + length ?scan + 2 - start = length (rebuilt_jpeg info)"
    using s1024 lh by (simp add: rb)
  have "JpegDepayloader_finish tg d =
      (Inr (Frame (length (rebuilt_jpeg info)) ts (js_width info) (js_height info)), ?d')"
    unfolding JpegDepayloader_finish_def f Let_def hlen [symmetric] start [symmetric] sub subq
      bind_r_simps wr sum.case prod.case b1
    by (simp only: HR p1 p2 fr bind_r_simps sum.case len)
  moreover have "JpegDepayloader_jpeg ?d' = Inr (rebuilt_jpeg info)"
    using subslice_mid [of A "?hdr @ ?scan @ [0xFF, 0xD9]" Z] lAB s1024 lh
    by (simp add: JpegDepayloader_jpeg_def rb add.assoc)
  moreover have "length (dp_buf ?d') = length (dp_buf d)" using lAB lh by (simp add: buf)
  ultimately show ?thesis by (intro exI [of _ ?d']) simp
qed

text \<open>Fields of a frame in progress that \<open>JpegDepayloader_data\<close> leaves alone.\<close>

lemma take_extend:
  assumes "take k (drop j buf) = take k xs" "k \<le> length xs" "j + k \<le> length buf" "length c \<le> length xs - k"
    and "c = take (length c) (drop k xs)"
  shows "take (k + length c) (drop j (take (j + k) buf @ c @ rest)) = take (k + length c) xs"
proof -
  have "drop j (take (j + k) buf @ c @ rest) = take k xs @ c @ rest"
    using assms(1,3) by (simp add: drop_take)
  moreover have "take (k + length c) (take k xs @ c @ rest) = take k xs @ c" using assms(2) by simp
  moreover have "take k xs @ c = take (k + length c) xs"
    using assms(5) by (simp add: take_add)
  ultimately show ?thesis by simp
qed

lemma JpegDepayloader_data_ok:
  assumes fs: "frame_state d ts info k" and p: "p \<le> length payload" "drop p payload = c"
    and c: "c = take (length c) (drop k (js_scan info))" "k + length c \<le> length (js_scan info)"
  obtains (more) d' where "\<not> m" "JpegDepayloader_data tg d m payload p = (Inr Fragment, d')"
      "frame_state d' ts info (k + length c)" "length (dp_buf d') = length (dp_buf d)"
      "dp_frames d' = dp_frames d" "dp_dropped d' = dp_dropped d" "dp_lost d' = dp_lost d"
      "dp_last_seq d' = dp_last_seq d"
  | (finish) d1 where "m" "JpegDepayloader_data tg d m payload p = JpegDepayloader_finish tg d1"
      "frame_state d1 ts info (k + length c)" "length (dp_buf d1) = length (dp_buf d)"
      "dp_frames d1 = dp_frames d" "dp_dropped d1 = dp_dropped d" "dp_lost d1 = dp_lost d"
      "dp_last_seq d1 = dp_last_seq d"
proof -
  have f: "dp_scan_len d = k" "1024 + length (js_scan info) + 2 \<le> length (dp_buf d)"
    "take k (drop 1024 (dp_buf d)) = take k (js_scan info)" "k \<le> length (js_scan info)"
    using fs by (auto simp: frame_state_def HEADER_RESERVE_def)
  have sub: "subslice payload p (length payload) = Inr c" using p by (auto simp: subslice_def)
  let ?buf = "take (1024 + k) (dp_buf d) @ c @ drop (1024 + k + length c) (dp_buf d)"
  let ?d1 = "d\<lparr>dp_buf := ?buf, dp_scan_len := k + length c\<rparr>"
  have cp: "copy_range (dp_buf d) (1024 + k) (1024 + k + length c) c = Inr ?buf"
    using f c by simp
  have e: "JpegDepayloader_data tg d m payload p =
      (if \<not> m then (Inr Fragment, ?d1) else JpegDepayloader_finish tg ?d1)"
    unfolding JpegDepayloader_data_def sub sum.case Let_def f(1) HEADER_RESERVE_def cp
    using f c by simp
  have fs1: "frame_state ?d1 ts info (k + length c)"
  proof -
    have "length c \<le> length (js_scan info) - k" "1024 + k \<le> length (dp_buf d)" using c f by simp_all
    from take_extend [OF f(3,4) this(2,1) c(1)]
    have "take (k + length c) (drop 1024 ?buf) = take (k + length c) (js_scan info)" .
    moreover have "length ?buf = length (dp_buf d)" using f c by simp
    ultimately show ?thesis using fs c(2) unfolding frame_state_def HEADER_RESERVE_def
      by (auto simp del: take_append drop_append length_append)
  qed
  have len: "length (dp_buf ?d1) = length (dp_buf d)" using f c by simp
  show thesis
  proof (cases m)
    case True
    then show thesis using e fs1 len by (intro finish [of ?d1]) simp_all
  next
    case False
    then show thesis using e fs1 len by (intro more [of ?d1]) simp_all
  qed
qed

text \<open>The headers of the payload, read back.\<close>

lemma offset_bytes:
  assumes "off < 2 ^ 24"
  shows "unat (ucast (drop_bit 16 (of_nat off :: u32)) :: u8) * 2 ^ 16 +
    unat (ucast (drop_bit 8 (of_nat off :: u32)) :: u8) * 2 ^ 8 +
    unat (ucast (of_nat off :: u32) :: u8) = off"
proof -
  have o: "unat (of_nat off :: u32) = off" using assms by (simp add: unat_of_nat)
  have b: "unat (ucast (drop_bit n (of_nat off :: u32)) :: u8) = (off div 2 ^ n) mod 2 ^ 8" for n
  proof -
    have "unat (drop_bit n (of_nat off :: u32)) = off div 2 ^ n"
      unfolding unsigned_drop_bit_eq o
      using assms by (simp add: take_bit_nat_eq_self drop_bit_eq_div)
    then show ?thesis by (simp add: unsigned_ucast_eq take_bit_eq_mod)
  qed
  have "off div 2 ^ 16 < 2 ^ 8" using assms by (simp add: less_mult_imp_div_less)
  then have "unat (ucast (drop_bit 16 (of_nat off :: u32)) :: u8) = off div 2 ^ 16" by (simp only: b) simp
  moreover have "unat (ucast (drop_bit 8 (of_nat off :: u32)) :: u8) = (off div 2 ^ 8) mod 2 ^ 8"
    by (rule b)
  moreover have "unat (ucast (of_nat off :: u32) :: u8) = off mod 2 ^ 8"
    using b [of 0] by simp
  moreover have "off div 2 ^ 16 * 2 ^ 16 + (off div 2 ^ 8) mod 2 ^ 8 * 2 ^ 8 + off mod 2 ^ 8 = off"
  proof -
    have "off div 2 ^ 16 = off div 2 ^ 8 div 2 ^ 8" by (simp flip: div_mult2_eq)
    then have "off div 2 ^ 16 * 2 ^ 8 + off div 2 ^ 8 mod 2 ^ 8 = off div 2 ^ 8"
      by (simp only: div_mult_mod_eq)
    then have "(off div 2 ^ 16 * 2 ^ 8 + off div 2 ^ 8 mod 2 ^ 8) * 2 ^ 8 + off mod 2 ^ 8 = off"
      by (simp only: div_mult_mod_eq)
    then show ?thesis by (simp add: add_mult_distrib mult.assoc)
  qed
  ultimately show ?thesis by simp
qed

lemma chunks_of_concat:
  "0 < n \<Longrightarrow> \<forall>t \<in> set ts. length t = n \<Longrightarrow> chunks_of n (concat ts) = ts"
  by (induction ts) (auto simp: chunks_of_step)

definition jpeg_head_fixed :: "jpeg_scan \<Rightarrow> nat \<Rightarrow> bytes" where
  "jpeg_head_fixed info off =
     (let o32 = (of_nat off :: u32) in
      [0, ucast (drop_bit 16 o32), ucast (drop_bit 8 o32), ucast o32, js_type info, 255,
       ucast (js_width info div 8), ucast (js_height info div 8)])"

lemma jpeg_head_split:
  "jpeg_head_bytes info off = jpeg_head_fixed info off @
     (case js_restart_interval info of None \<Rightarrow> [] | Some ri \<Rightarrow> be16 ri @ be16 0xFFFF) @
     (if off = 0 then [0, 0] @ be16 (of_nat (64 * js_qtable_count info)) @
        concat (take (js_qtable_count info) (js_qtables info)) else [])"
  by (simp add: jpeg_head_bytes_def jpeg_head_parts_def jpeg_head_fixed_def Let_def split: option.splits)

text \<open>A packet of ours, up to the point where frame starts and continuations part.\<close>

lemma JpegDepayloader_push_head:
  assumes so: "jpeg_scan_ok info" and pt: "rt_payload_type r = PT_JPEG" and off: "off < 2 ^ 24"
    and g: "JpegDepayloader_gap tg d0 (rt_seq r) = Inr (gap, lost)"
  shows "JpegDepayloader_push tg d0 (rtp_header_bytes r m ts @ jpeg_head_bytes info off @ c) =
      (let payload = jpeg_head_bytes info off @ c;
           d = d0\<lparr>dp_jpeg := None, dp_lost := lost, dp_last_seq := Some (rt_seq r)\<rparr> in
       if off = 0 then
         (case JpegDepayloader_start tg d ts (js_width info) (js_height info) (js_type info) 255
             (js_restart_interval info) payload (if js_restart_interval info = None then 8 else 12) of
            (Inl e, d1) \<Rightarrow> (Inl e, d1)
          | (Inr p1, d1) \<Rightarrow> JpegDepayloader_data tg d1 m payload p1)
       else if \<not> dp_in_frame d then (Inr Fragment, d)
       else if gap \<noteq> 0 \<or> off \<noteq> dp_scan_len d \<or> ts \<noteq> dp_timestamp d
       then JpegDepayloader_abandon tg d (Inr Dropped)
       else JpegDepayloader_data tg d m payload (if js_restart_interval info = None then 8 else 12))"
proof -
  let ?payload = "jpeg_head_bytes info off @ c"
  let ?ri = "js_restart_interval info"
  let ?p = "if ?ri = None then 8 else 12 :: nat"
  have pt': "rt_payload_type r AND 0x80 = 0" by (simp add: pt PT_JPEG_def)
  note parse = rtp_Header_parse_bytes [OF pt', of m ts ?payload]
  from so obtain ty where ty: "ty \<le> 1" "js_type info = (if ?ri = None then ty else ty + 64)"
    and dims: "jpeg_dims_ok (js_width info) (js_height info)"
    by (auto simp: jpeg_scan_ok_def)
  note tb = u8_type_bits [OF ty(1)]
  have nth: "?payload ! 1 = ucast (drop_bit 16 (of_nat off :: u32))"
    "?payload ! 2 = ucast (drop_bit 8 (of_nat off :: u32))" "?payload ! 3 = ucast (of_nat off :: u32)"
    "?payload ! 4 = js_type info" "?payload ! 5 = 255"
    "?payload ! 6 = ucast (js_width info div 8)" "?payload ! 7 = ucast (js_height info div 8)"
    by (simp_all add: jpeg_head_split jpeg_head_fixed_def Let_def)
  have wh: "(ucast (?payload ! 6) :: u16) * 8 = js_width info"
    "(ucast (?payload ! 7) :: u16) * 8 = js_height info"
    using dims unfolding nth by (auto simp: jpeg_dims_ok_def intro!: div_mod_u16 del: mod_0_imp_dvd)
  have o: "unat (?payload ! 1) * 2 ^ 16 + unat (?payload ! 2) * 2 ^ 8 + unat (?payload ! 3) = off"
    unfolding nth using off by (rule offset_bytes)
  have len: "\<not> length ?payload < 8"
    by (simp add: jpeg_head_split jpeg_head_fixed_def Let_def)
  have bad: "\<not> (js_width info = 0 \<or> js_height info = 0 \<or> js_type info AND 0x3F > 1)"
    using dims tb ty by (auto simp: jpeg_dims_ok_def not_less)
  have rs: "(if js_type info \<ge> 64 then
        (case get_range ?payload 8 (8 + 4) of
           None \<Rightarrow> Inl (Err InvalidFormat)
         | Some r \<Rightarrow> Inr (Some (from_be16 (r ! 0) (r ! 1)), 8 + 4))
      else Inr (None, 8)) = (Inr (?ri, ?p) :: (u16 option \<times> nat) result)"
  proof (cases ?ri)
    case None
    then show ?thesis using ty tb by simp
  next
    case (Some x)
    have "64 \<le> js_type info" using ty tb Some by simp
    moreover have "get_range ?payload 8 (8 + 4) = Some (be16 x @ be16 0xFFFF)"
      using Some by (simp add: jpeg_head_split jpeg_head_fixed_def Let_def get_range_def be16_def)
    moreover have "from_be16 ((be16 x @ be16 0xFFFF) ! 0) ((be16 x @ be16 0xFFFF) ! 1) = x"
      by (simp add: be16_def be_simps)
    ultimately show ?thesis using Some by simp
  qed
  have npt: "(rt_payload_type r \<noteq> PT_JPEG) = False" using pt by simp
  show ?thesis
    unfolding JpegDepayloader_push_def JpegDepayloader_payload_def parse sum.case prod.case Let_def rtp_header.select_convs g
      nth(4,5) wh o rs
    by (simp only: npt len bad if_False)
qed


lemma JpegDepayloader_start_ok:
  assumes so: "jpeg_scan_ok info" and tf: "jpeg_tables_full info"
    and big: "HEADER_RESERVE + length (js_scan info) + 2 \<le> length (dp_buf d)" and room: "counters_room tg 0 1 0 d"
  shows "\<exists>d'. JpegDepayloader_start tg d ts (js_width info) (js_height info) (js_type info) 255
      (js_restart_interval info) (jpeg_head_bytes info 0 @ c)
      (if js_restart_interval info = None then 8 else 12) =
      (Inr (length (jpeg_head_bytes info 0)), d') \<and> frame_state d' ts info 0 \<and>
    dp_buf d' = dp_buf d \<and> dp_last_seq d' = dp_last_seq d \<and> dp_frames d' = dp_frames d \<and>
    dp_lost d' = dp_lost d \<and>
    dp_dropped d' = dp_dropped d + (if dp_in_frame d \<and> 0 < dp_scan_len d then 1 else 0)"
proof -
  let ?n = "js_qtable_count info" and ?ri = "js_restart_interval info"
  let ?qts = "take ?n (js_qtables info)"
  let ?p = "if ?ri = None then 8 else 12 :: nat"
  let ?payload = "jpeg_head_bytes info 0 @ c"
  let ?pre = "jpeg_head_fixed info 0 @ (case ?ri of None \<Rightarrow> [] | Some ri \<Rightarrow> be16 ri @ be16 0xFFFF)"
  let ?qh = "[0, 0] @ be16 (of_nat (64 * ?n))"
  have n: "?n = 1 \<or> ?n = 2" "?n \<le> length (js_qtables info)"
    using so tf by (auto simp: jpeg_scan_ok_def jpeg_tables_full_def)
  have lpre: "length ?pre = ?p" by (simp add: jpeg_head_fixed_def Let_def split: option.splits)
  have pl: "?payload = ?pre @ ?qh @ concat ?qts @ c" by (simp add: jpeg_head_split)
  have lq: "length (concat ?qts) = 64 * ?n" "chunks_of 64 (concat ?qts) = ?qts"
  proof -
    have a: "\<forall>t \<in> set ?qts. length t = 64" using tf by (simp add: jpeg_tables_full_def)
    then show "chunks_of 64 (concat ?qts) = ?qts" by (intro chunks_of_concat) simp_all
    have "length (concat ts) = 64 * length ts" if "\<forall>t \<in> set ts. length t = 64" for ts :: "bytes list"
      using that by (induction ts) auto
    from this [OF a] n show "length (concat ?qts) = 64 * ?n" by (simp add: min_def)
  qed
  have g1: "get_range ?payload ?p (?p + 4) = Some ?qh"
    unfolding pl lpre [symmetric] by (simp add: get_range_def)
  have g2: "get_range ?payload (?p + 4) (?p + 4 + 64 * ?n) = Some (concat ?qts)"
    unfolding pl lpre [symmetric] using lq(1) by (simp add: get_range_def)
  have ln: "unat (from_be16 (?qh ! 2) (?qh ! 3)) = 64 * ?n"
  proof -
    have "from_be16 (?qh ! 2) (?qh ! 3) = of_nat (64 * ?n)" by (simp add: be16_def be_simps)
    then show ?thesis using n(1) unat_of_nat_u16 [of "64 * ?n"] by auto
  qed
  have q0: "?qh ! 1 = 0" by simp
  let ?d = "d\<lparr>dp_dropped := (if dp_in_frame d \<and> dp_scan_len d > 0 then dp_dropped d + 1 else dp_dropped d),
      dp_in_frame := True, dp_scan_len := 0, dp_timestamp := ts, dp_width := js_width info,
      dp_height := js_height info, dp_type := js_type info AND 0x3F, dp_restart_interval := ?ri\<rparr>"
  let ?d' = "?d\<lparr>dp_qcount := ?n, dp_qtables := ?qts @ drop ?n (dp_qtables d)\<rparr>"
  have g1': "get_range ?payload ?p (?p + 4) = Some ?qh" by (rule g1)
  have st: "JpegDepayloader_start tg d ts (js_width info) (js_height info) (js_type info) 255 ?ri ?payload ?p =
      (Inr (?p + 4 + 64 * ?n), ?d')"
  proof -
    have a: "(255 :: u8) \<ge> 128" by (simp add: word_le_nat_alt)
    have b: "(64 * ?n = 0) = False" "(64 * ?n = 64 \<or> 64 * ?n = 128) = True" using n(1) by auto
    have c: "64 * ?n div 64 = ?n" by simp
    have e: "dp_qtables ?d = dp_qtables d" by simp
    have dr: "(if dp_in_frame d \<and> dp_scan_len d > 0 then u32_add tg (dp_dropped d) 1 else Inr (dp_dropped d)) =
        Inr (if dp_in_frame d \<and> dp_scan_len d > 0 then dp_dropped d + 1 else dp_dropped d)"
      using room by (simp add: counters_room_def)
    show ?thesis
      unfolding JpegDepayloader_start_def Let_def g1 option.case q0 ln dr sum.case
      by (simp only: a b if_True if_False g2 option.case simp_thms lq(2) c e)
  qed
  have "?p + 4 + 64 * ?n = length (jpeg_head_bytes info 0)"
    using length_jpeg_head_bytes [OF tf, of 0] by simp
  moreover obtain ty where ty: "ty \<le> 1" "js_type info = (if ?ri = None then ty else ty + 64)"
    using so by (auto simp: jpeg_scan_ok_def)
  then have "js_type info AND 0x3F = ty" using u8_type_bits [of ty] by auto
  then have "frame_state ?d' ts info 0"
    using big ty n(2) by (simp add: frame_state_def)
  ultimately show ?thesis using st by (intro exI [of _ ?d']) simp
qed

abbreviation JpegDepayloader_feed ::
  "target \<Rightarrow> jpeg_depayloader \<Rightarrow> bytes list \<Rightarrow> depayload result list \<times> jpeg_depayloader" where
  "JpegDepayloader_feed t \<equiv> feed (JpegDepayloader_push t)"

lemma JpegDepayloader_gap_next:
  "dp_last_seq d = Some (seq - 1) \<Longrightarrow> JpegDepayloader_gap tg d seq = Inr (0, dp_lost d)"
  by (simp add: JpegDepayloader_gap_def)

lemma jpeg_payloads_last:
  assumes "jpeg_tables_full info" "157 \<le> mtu" "off + length rest = length scan"
    "n = mtu - (12 + length (jpeg_head_bytes info off))"
  shows "jpeg_payloads info mtu (off + n) (drop n rest) = [] \<longleftrightarrow> length rest \<le> n"
  using jpeg_head_fits [OF assms(1,2), of "off + n"]
  by (auto simp: jpeg_payloads.simps [of info mtu "off + n"] Let_def)

text \<open>The rest of a frame after its first packet.\<close>

lemma JpegDepayloader_feed_rest:
  assumes so: "jpeg_scan_ok info" and tf: "jpeg_tables_full info" and mtu: "157 \<le> mtu"
    and small: "length (js_scan info) < 2 ^ 24"
    and "rt_payload_type r = PT_JPEG" "0 < off" "off < length (js_scan info)" "rest = drop off (js_scan info)"
    and "frame_state d ts info off" "dp_last_seq d = Some (rt_seq r - 1)" "counters_room tg 1 0 0 d"
  shows "\<exists>d'. JpegDepayloader_feed tg d (rtp_packets ts r (mark_last True (jpeg_payloads info mtu off rest))) =
      (replicate (length (jpeg_payloads info mtu off rest) - 1) (Inr Fragment) @
         [Inr (Frame (length (rebuilt_jpeg info)) ts (js_width info) (js_height info))], d') \<and>
    JpegDepayloader_jpeg d' = Inr (rebuilt_jpeg info) \<and> dp_frames d' = dp_frames d + 1 \<and>
    dp_dropped d' = dp_dropped d \<and> dp_lost d' = dp_lost d \<and> \<not> dp_in_frame d' \<and> length (dp_buf d') = length (dp_buf d) \<and>
    dp_last_seq d' = Some (rt_seq r + of_nat (length (jpeg_payloads info mtu off rest)) - 1)"
  using assms
proof (induction info mtu off rest arbitrary: r d rule: jpeg_payloads.induct)
  case (1 info mtu off rest)
  let ?hb = "jpeg_head_bytes info off" and ?scan = "js_scan info"
  define n where n: "n = mtu - (12 + length ?hb)"
  have npos: "0 < n" using jpeg_head_fits [OF "1.prems"(2,3), of off] by (simp add: n)
  let ?c = "take n rest" and ?ps = "jpeg_payloads info mtu (off + n) (drop n rest)"
  have ne: "rest \<noteq> []" using "1.prems"(7,8) by simp
  have step: "jpeg_payloads info mtu off rest = (?hb @ ?c) # ?ps"
    using ne npos by (subst jpeg_payloads.simps) (simp add: Let_def n)
  have last: "?ps = [] \<longleftrightarrow> length rest \<le> n"
    using jpeg_payloads_last [OF "1.prems"(2,3) _ n, of rest ?scan] "1.prems"(7,8) by simp
  let ?m = "?ps = []"
  let ?d0 = "d\<lparr>dp_jpeg := None, dp_lost := dp_lost d, dp_last_seq := Some (rt_seq r)\<rparr>"
  let ?p = "if js_restart_interval info = None then 8 else 12 :: nat"
  have fs: "frame_state ?d0 ts info off" using "1.prems"(9) by (auto simp: frame_state_def)
  have st: "dp_in_frame ?d0" "dp_scan_len ?d0 = off" "dp_timestamp ?d0 = ts"
    using fs by (simp_all add: frame_state_def)
  have "off < 2 ^ 24" "off \<noteq> 0" using "1.prems"(4,6,7) by simp_all
  then have push: "JpegDepayloader_push tg d (rtp_header_bytes r ?m ts @ ?hb @ ?c) =
      JpegDepayloader_data tg ?d0 ?m (?hb @ ?c) ?p"
    unfolding JpegDepayloader_push_head [OF "1.prems"(1,5) \<open>off < 2 ^ 24\<close> JpegDepayloader_gap_next [OF "1.prems"(10)]]
      Let_def
    by (simp only: st if_False simp_thms)
  have lh: "length ?hb = ?p" using length_jpeg_head_bytes [OF "1.prems"(2), of off] \<open>off \<noteq> 0\<close> by simp
  have pc: "?p \<le> length (?hb @ ?c)" "drop ?p (?hb @ ?c) = ?c" using lh by simp_all
  have c: "?c = take (length ?c) (drop off ?scan)" "off + length ?c \<le> length ?scan"
    using "1.prems"(7,8) by (auto simp: min_def)
  show ?case
  proof (rule JpegDepayloader_data_ok [OF fs pc c, where m = ?m and tg = tg], goal_cases more finish)
    case (more d')
    then have nl: "\<not> length rest \<le> n" using last by simp
    then have lc: "length ?c = n" by simp
    have r': "rt_payload_type (rtp_next r) = PT_JPEG" "rt_seq (rtp_next r) - 1 = rt_seq r"
      using "1.prems"(5) by (simp_all add: rtp_next_def)
    have "\<exists>d''. JpegDepayloader_feed tg d' (rtp_packets ts (rtp_next r) (mark_last True ?ps)) =
        (replicate (length ?ps - 1) (Inr Fragment) @
           [Inr (Frame (length (rebuilt_jpeg info)) ts (js_width info) (js_height info))], d'') \<and>
      JpegDepayloader_jpeg d'' = Inr (rebuilt_jpeg info) \<and> dp_frames d'' = dp_frames d' + 1 \<and>
      dp_dropped d'' = dp_dropped d' \<and> dp_lost d'' = dp_lost d' \<and>
      \<not> dp_in_frame d'' \<and> length (dp_buf d'') = length (dp_buf d') \<and>
      dp_last_seq d'' = Some (rt_seq (rtp_next r) + of_nat (length ?ps) - 1)"
      using "1.prems" ne npos nl more lc r'
      by (intro "1.IH" [OF n]) (auto simp: add.commute counters_room_def unat_u32_bound [simplified])
    then obtain d'' where "JpegDepayloader_feed tg d' (rtp_packets ts (rtp_next r) (mark_last True ?ps)) =
        (replicate (length ?ps - 1) (Inr Fragment) @
           [Inr (Frame (length (rebuilt_jpeg info)) ts (js_width info) (js_height info))], d'')"
      and j: "JpegDepayloader_jpeg d'' = Inr (rebuilt_jpeg info)" "dp_frames d'' = dp_frames d + 1"
        "dp_dropped d'' = dp_dropped d" "dp_lost d'' = dp_lost d"
        "\<not> dp_in_frame d''" "length (dp_buf d'') = length (dp_buf d)"
        "dp_last_seq d'' = Some (rt_seq (rtp_next r) + of_nat (length ?ps) - 1)"
      using more by auto
    then have "JpegDepayloader_feed tg d (rtp_packets ts r (mark_last True (jpeg_payloads info mtu off rest))) =
        (Inr Fragment # replicate (length ?ps - 1) (Inr Fragment) @
           [Inr (Frame (length (rebuilt_jpeg info)) ts (js_width info) (js_height info))], d'')"
      using push more by (simp add: step mark_last_Cons)
    moreover have "length ?ps \<noteq> 0" using more by simp
    then have "Inr Fragment # replicate (length ?ps - 1) (Inr Fragment) =
        replicate (length (jpeg_payloads info mtu off rest) - 1) (Inr Fragment :: depayload result)"
      unfolding step by (cases "length ?ps") simp_all
    moreover have "rt_seq (rtp_next r) + of_nat (length ?ps) - 1 = rt_seq r + of_nat (length (jpeg_payloads info mtu off rest)) - 1"
      by (simp add: step rtp_next_def)
    ultimately show ?thesis using j by (intro exI [of _ d'']) simp
  next
    case (finish d1)
    then have "length rest \<le> n" using last by simp
    then have "off + length ?c = length ?scan" using "1.prems"(7,8) by simp
    with finish have fs1: "frame_state d1 ts info (length ?scan)" by simp
    have n0: "0 < js_qtable_count info" using "1.prems"(1) by (simp add: jpeg_scan_ok_def)
    have "counters_room tg 1 0 0 d1" using finish "1.prems"(11) by (simp add: counters_room_def unat_u32_bound [simplified])
    from JpegDepayloader_finish_ok [OF fs1 "1.prems"(2) n0 this] obtain d' where
      "JpegDepayloader_finish tg d1 =
        (Inr (Frame (length (rebuilt_jpeg info)) ts (js_width info) (js_height info)), d')"
      "JpegDepayloader_jpeg d' = Inr (rebuilt_jpeg info)" "dp_frames d' = dp_frames d1 + 1"
      "dp_dropped d' = dp_dropped d1" "dp_lost d' = dp_lost d1"
      "\<not> dp_in_frame d'" "length (dp_buf d') = length (dp_buf d1)" "dp_last_seq d' = dp_last_seq d1" by blast
    then show ?thesis using push finish by (simp add: step mark_last_Cons)
  qed
qed


lemma JpegDepayloader_feed_frame:
  assumes so: "jpeg_scan_ok info" and tf: "jpeg_tables_full info" and mtu: "157 \<le> mtu"
    and small: "length (js_scan info) < 2 ^ 24" and ne: "js_scan info \<noteq> []"
    and pt: "rt_payload_type r = PT_JPEG"
    and big: "HEADER_RESERVE + length (js_scan info) + 2 \<le> length (dp_buf d)"
    and g: "JpegDepayloader_gap tg d (rt_seq r) = Inr (gap, lost)" and room: "counters_room tg 1 1 0 d"
  shows "\<exists>d'. JpegDepayloader_feed tg d (rtp_packets ts r (mark_last True (jpeg_payloads info mtu 0 (js_scan info)))) =
      (replicate (length (jpeg_payloads info mtu 0 (js_scan info)) - 1) (Inr Fragment) @
         [Inr (Frame (length (rebuilt_jpeg info)) ts (js_width info) (js_height info))], d') \<and>
    JpegDepayloader_jpeg d' = Inr (rebuilt_jpeg info) \<and> dp_frames d' = dp_frames d + 1 \<and>
    dp_dropped d' = dp_dropped d + (if dp_in_frame d \<and> 0 < dp_scan_len d then 1 else 0) \<and>
    dp_lost d' = lost \<and> \<not> dp_in_frame d' \<and> length (dp_buf d') = length (dp_buf d) \<and>
    dp_last_seq d' = Some (rt_seq r + of_nat (length (jpeg_payloads info mtu 0 (js_scan info))) - 1)"
proof -
  let ?hb = "jpeg_head_bytes info 0" and ?scan = "js_scan info"
  define n where n: "n = mtu - (12 + length ?hb)"
  have npos: "0 < n" using jpeg_head_fits [OF tf mtu, of 0] by (simp add: n)
  let ?c = "take n ?scan" and ?ps = "jpeg_payloads info mtu n (drop n ?scan)"
  let ?m = "?ps = []"
  have step: "jpeg_payloads info mtu 0 ?scan = (?hb @ ?c) # ?ps"
    using ne npos by (subst jpeg_payloads.simps) (simp add: Let_def n)
  have last: "?m \<longleftrightarrow> length ?scan \<le> n"
    using jpeg_payloads_last [OF tf mtu _ n, of ?scan ?scan] by simp
  let ?d0 = "d\<lparr>dp_jpeg := None, dp_lost := lost, dp_last_seq := Some (rt_seq r)\<rparr>"
  have "HEADER_RESERVE + length ?scan + 2 \<le> length (dp_buf ?d0)" "counters_room tg 0 1 0 ?d0"
    using big room by (simp_all add: counters_room_def unat_u32_bound [simplified])
  from JpegDepayloader_start_ok [OF so tf this, of ts ?c] obtain d1 where
    start: "JpegDepayloader_start tg ?d0 ts (js_width info) (js_height info) (js_type info) 255
      (js_restart_interval info) (?hb @ ?c) (if js_restart_interval info = None then 8 else 12) =
      (Inr (length ?hb), d1)" and fs: "frame_state d1 ts info 0"
    and d1: "dp_buf d1 = dp_buf d" "dp_last_seq d1 = Some (rt_seq r)" "dp_frames d1 = dp_frames d"
      "dp_dropped d1 = dp_dropped d + (if dp_in_frame d \<and> 0 < dp_scan_len d then 1 else 0)" "dp_lost d1 = lost"
    by auto
  have push: "JpegDepayloader_push tg d (rtp_header_bytes r ?m ts @ ?hb @ ?c) =
      JpegDepayloader_data tg d1 ?m (?hb @ ?c) (length ?hb)"
    using JpegDepayloader_push_head [OF so pt _ g, of 0 ?m ts ?c]
    unfolding Let_def start by simp
  have pc: "length ?hb \<le> length (?hb @ ?c)" "drop (length ?hb) (?hb @ ?c) = ?c" by simp_all
  have c: "?c = take (length ?c) (drop 0 ?scan)" "0 + length ?c \<le> length ?scan"
    by (auto simp: min_def)
  show ?thesis
  proof (rule JpegDepayloader_data_ok [OF fs pc c, where m = ?m and tg = tg], goal_cases more finish)
    case (more d2)
    then have nl: "\<not> length ?scan \<le> n" using last by simp
    then have lc: "length ?c = n" by simp
    have r': "rt_payload_type (rtp_next r) = PT_JPEG" "rt_seq (rtp_next r) - 1 = rt_seq r"
      using pt by (simp_all add: rtp_next_def)
    have "frame_state d2 ts info n" "dp_last_seq d2 = Some (rt_seq (rtp_next r) - 1)" "n < length ?scan"
      using more lc r' d1 nl by simp_all
    moreover have "counters_room tg 1 0 0 d2" using more d1 room by (simp add: counters_room_def unat_u32_bound [simplified])
    ultimately have "\<exists>d3. JpegDepayloader_feed tg d2 (rtp_packets ts (rtp_next r) (mark_last True ?ps)) =
        (replicate (length ?ps - 1) (Inr Fragment) @
           [Inr (Frame (length (rebuilt_jpeg info)) ts (js_width info) (js_height info))], d3) \<and>
      JpegDepayloader_jpeg d3 = Inr (rebuilt_jpeg info) \<and> dp_frames d3 = dp_frames d2 + 1 \<and>
      dp_dropped d3 = dp_dropped d2 \<and> dp_lost d3 = dp_lost d2 \<and> \<not> dp_in_frame d3 \<and> length (dp_buf d3) = length (dp_buf d2) \<and>
      dp_last_seq d3 = Some (rt_seq (rtp_next r) + of_nat (length ?ps) - 1)"
      by (intro JpegDepayloader_feed_rest [OF so tf mtu small r'(1) npos _ refl])
    then
    obtain d3 where "JpegDepayloader_feed tg d2 (rtp_packets ts (rtp_next r) (mark_last True ?ps)) =
        (replicate (length ?ps - 1) (Inr Fragment) @
           [Inr (Frame (length (rebuilt_jpeg info)) ts (js_width info) (js_height info))], d3)"
      and j: "JpegDepayloader_jpeg d3 = Inr (rebuilt_jpeg info)" "dp_frames d3 = dp_frames d + 1"
        "dp_dropped d3 = dp_dropped d + (if dp_in_frame d \<and> 0 < dp_scan_len d then 1 else 0)"
        "dp_lost d3 = lost" "\<not> dp_in_frame d3" "length (dp_buf d3) = length (dp_buf d)"
        "dp_last_seq d3 = Some (rt_seq (rtp_next r) + of_nat (length ?ps) - 1)"
      using more d1 by auto
    then have "JpegDepayloader_feed tg d (rtp_packets ts r (mark_last True (jpeg_payloads info mtu 0 ?scan))) =
        (Inr Fragment # replicate (length ?ps - 1) (Inr Fragment) @
           [Inr (Frame (length (rebuilt_jpeg info)) ts (js_width info) (js_height info))], d3)"
      using push more by (simp add: step mark_last_Cons)
    moreover have "length ?ps \<noteq> 0" using more by simp
    then have "Inr Fragment # replicate (length ?ps - 1) (Inr Fragment) =
        replicate (length (jpeg_payloads info mtu 0 ?scan) - 1) (Inr Fragment :: depayload result)"
      unfolding step by (cases "length ?ps") simp_all
    moreover have "rt_seq (rtp_next r) + of_nat (length ?ps) - 1 = rt_seq r + of_nat (length (jpeg_payloads info mtu 0 ?scan)) - 1"
      by (simp add: step rtp_next_def)
    ultimately show ?thesis using j g by (intro exI [of _ d3]) simp
  next
    case (finish d2)
    then have "length ?scan \<le> n" using last by simp
    then have "0 + length ?c = length ?scan" by simp
    with finish have fs1: "frame_state d2 ts info (length ?scan)" by simp
    have n0: "0 < js_qtable_count info" using so by (simp add: jpeg_scan_ok_def)
    have "counters_room tg 1 0 0 d2" using finish d1 room by (simp add: counters_room_def unat_u32_bound [simplified])
    from JpegDepayloader_finish_ok [OF fs1 tf n0 this] obtain d' where
      "JpegDepayloader_finish tg d2 =
        (Inr (Frame (length (rebuilt_jpeg info)) ts (js_width info) (js_height info)), d')"
      "JpegDepayloader_jpeg d' = Inr (rebuilt_jpeg info)" "dp_frames d' = dp_frames d2 + 1"
      "dp_dropped d' = dp_dropped d2" "dp_lost d' = dp_lost d2"
      "\<not> dp_in_frame d'" "length (dp_buf d') = length (dp_buf d2)" "dp_last_seq d' = dp_last_seq d2" by blast
    then show ?thesis using push finish d1 g by (simp add: step mark_last_Cons)
  qed
qed

text \<open>The rebuilt file parses to the same scan.\<close>

lemma jpeg_tables_from_parse:
  assumes "jpeg_scan_ok info" "js_qtables info ! 0 \<noteq> []"
  shows "jpeg_tables_full info"
    "take (js_qtable_count info) (js_qtables info) @ replicate (2 - js_qtable_count info) [] = js_qtables info"
proof -
  obtain a b where q: "js_qtables info = [a, b]"
    using assms(1) by (auto simp: jpeg_scan_ok_def jpeg_tables_ok_def length_Suc_conv numeral_2_eq_2)
  have ok: "jpeg_tables_ok [a, b] (js_qtable_count info)" "0 < js_qtable_count info" "a \<noteq> []"
    using assms q by (simp_all add: jpeg_scan_ok_def)
  then have "js_qtable_count info = 1 \<or> js_qtable_count info = 2"
    by (auto simp: jpeg_tables_ok_two)
  then show "jpeg_tables_full info"
    "take (js_qtable_count info) (js_qtables info) @ replicate (2 - js_qtable_count info) [] = js_qtables info"
    using ok by (auto simp: jpeg_tables_ok_two jpeg_tables_full_def q numeral_2_eq_2)
qed

lemma JpegScan_parse_rebuilt:
  assumes so: "jpeg_scan_ok info" and t0: "js_qtables info ! 0 \<noteq> []"
  shows "JpegScan_parse (rebuilt_jpeg info) = Inr info"
proof -
  let ?n = "js_qtable_count info" and ?ri = "js_restart_interval info"
  let ?qts = "take ?n (js_qtables info)"
  note tf = jpeg_tables_from_parse [OF so t0]
  have n: "0 < ?n" "?n \<le> 2" "length ?qts = ?n" "\<forall>t \<in> set ?qts. length t = 64"
    using so tf(1) by (simp_all add: jpeg_scan_ok_def jpeg_tables_full_def)
  then have q: "?qts \<noteq> []" "length ?qts \<le> 2" by auto
  from so obtain ty where ty: "ty \<le> 1" "js_type info = (if ?ri = None then ty else ty + 64)"
    by (auto simp: jpeg_scan_ok_def)
  then have m: "js_type info AND 0x3F = ty" using u8_type_bits [of ty] by auto
  have "jpeg_dims_ok (js_width info) (js_height info)" using so by (simp add: jpeg_scan_ok_def)
  from JpegScan_parse_header [OF q n(4) this ty(1), of ?ri "js_scan info"]
  show ?thesis unfolding rebuilt_jpeg_def m tf(2) n(3) ty(2) [symmetric] by simp
qed

section \<open>No packet makes the depayloader panic\<close>

definition tables64 :: "bytes list \<Rightarrow> bool" where
  "tables64 ts \<longleftrightarrow> length ts = 2 \<and> (\<forall>t \<in> set ts. length t = 64)"

definition depayloader_ok :: "jpeg_depayloader \<Rightarrow> bool" where
  "depayloader_ok d \<longleftrightarrow>
     HEADER_RESERVE + dp_scan_len d + 2 \<le> length (dp_buf d) \<and> tables64 (dp_qtables d) \<and>
     dp_qcount d \<le> 2 \<and>
     (\<forall>a b. dp_jpeg d = Some (a, b) \<longrightarrow> a \<le> b \<and> b \<le> length (dp_buf d))"

lemma depayloader_ok_new: "JpegDepayloader_new buf = Inr d \<Longrightarrow> depayloader_ok d"
  by (auto simp: JpegDepayloader_new_def depayloader_ok_def tables64_def split: if_splits)

lemma default_quant_tables_64: "tables64 (default_quant_tables q)"
proof -
  have "length ZIGZAG = 64" by (simp add: ZIGZAG_def)
  moreover have "\<exists>f g. default_quant_tables q = [map f ZIGZAG, map g ZIGZAG]"
    unfolding default_quant_tables_def Let_def by blast
  ultimately show ?thesis by (auto simp: tables64_def)
qed

lemma length_put: "put buf i bs = Inr buf' \<Longrightarrow> length buf' = length buf"
  by (auto simp: put_def split: if_splits)

lemma write_jpeg_headers_cases:
  assumes "\<forall>t \<in> set qts. length t = 64"
    and "length qts \<le> 2 \<Longrightarrow> length out = jpeg_header_len (length qts) (ri \<noteq> None)"
  obtains (refused) e where "write_jpeg_headers out w h ty ri qts = Inl (Err e)"
  | (written) n out' where "write_jpeg_headers out w h ty ri qts = Inr (n, out')" "length out' = length out"
proof (cases "qts = [] \<or> length qts > 2 \<or> ty > 1")
  case True
  then show thesis using refused by (simp add: write_jpeg_headers_def)
next
  case False
  then have "qts \<noteq> []" "length qts \<le> 2" "ty \<le> 1" by auto
  moreover have "length (jpeg_header w h ty ri qts) = jpeg_header_len (length qts) (ri \<noteq> None)"
    using length_jpeg_header assms(1) by blast
  ultimately show thesis using write_jpeg_headers_ok [OF _ _ _ assms(1), of ty ri out w h] assms written by simp
qed

lemma jpeg_header_len_reserve: "n \<le> 2 \<Longrightarrow> jpeg_header_len n b \<le> HEADER_RESERVE"
  by (simp add: jpeg_header_len_def HEADER_RESERVE_def)

text \<open>
  What a call leaves behind: a sound state over the same buffer, and, when the counters had the room
  \<open>R\<close>, no panic and so much room less.
\<close>

definition keeps :: "target \<Rightarrow> bool \<Rightarrow> nat \<Rightarrow> nat \<Rightarrow> nat \<Rightarrow> nat \<Rightarrow> depayload result \<times> jpeg_depayloader \<Rightarrow> bool" where
  "keeps t R n a b c x \<longleftrightarrow> depayloader_ok (snd x) \<and> length (dp_buf (snd x)) = n \<and>
     (R \<longrightarrow> no_panic (fst x) \<and> counters_room t a b c (snd x))"

lemma keeps_simps [simp]:
  "keeps t R n a b c (x, d) \<longleftrightarrow> depayloader_ok d \<and> length (dp_buf d) = n \<and> (R \<longrightarrow> no_panic x \<and> counters_room t a b c d)"
  by (simp add: keeps_def)

lemma keeps_mono: "keeps t R n a b c x \<Longrightarrow> (R' \<Longrightarrow> R) \<Longrightarrow> keeps t R' n a b c x"
  by (auto simp: keeps_def)

lemma counters_room_mono:
  "counters_room t a b c d \<Longrightarrow> a' \<le> a \<Longrightarrow> b' \<le> b \<Longrightarrow> c' \<le> c \<Longrightarrow> counters_room t a' b' c' d"
  by (auto simp: counters_room_def)

lemma u32_add_room:
  assumes "overflow_checks t \<longrightarrow> unat a + (k + unat b) < 2 ^ 32"
  shows "u32_add t a b = Inr (a + b)" "overflow_checks t \<longrightarrow> unat (a + b) + k < 2 ^ 32"
  using assms u32_add_no_overflow [of a b] by (auto simp: u32_add_def)

lemma JpegDepayloader_abandon_keeps:
  assumes "depayloader_ok d" "no_panic y"
  shows "keeps tg (counters_room tg a (b + 1) c d) (length (dp_buf d)) a b c (JpegDepayloader_abandon tg d y)"
proof (cases rule: u32_add_cases [of tg "dp_dropped d" 1])
  case panic
  then have "\<not> counters_room tg a (b + 1) c d" by (auto simp: counters_room_def)
  then show ?thesis using panic assms by (simp add: JpegDepayloader_abandon_def depayloader_ok_def)
next
  case added
  have "counters_room tg a b c (d\<lparr>dp_in_frame := False, dp_dropped := dp_dropped d + 1\<rparr>)"
    if "counters_room tg a (b + 1) c d"
    using that u32_add_room(2) [of tg "dp_dropped d" b 1] by (simp add: counters_room_def)
  then show ?thesis using added assms by (simp add: JpegDepayloader_abandon_def depayloader_ok_def)
qed

lemma JpegDepayloader_finish_keeps:
  assumes ok: "depayloader_ok d"
  shows "keeps tg (counters_room tg (a + 1) b c d) (length (dp_buf d)) a b c (JpegDepayloader_finish tg d)"
proof -
  define hlen where hlen: "hlen = jpeg_header_len (dp_qcount d) (dp_restart_interval d \<noteq> None)"
  let ?start = "HEADER_RESERVE - hlen" and ?eoi = "HEADER_RESERVE + dp_scan_len d"
  let ?out = "take hlen (drop ?start (dp_buf d))" and ?qt = "take (dp_qcount d) (dp_qtables d)"
  have b: "HEADER_RESERVE + dp_scan_len d + 2 \<le> length (dp_buf d)" "dp_qcount d \<le> length (dp_qtables d)"
    and q: "\<forall>t \<in> set ?qt. length t = 64" "length ?qt = dp_qcount d"
    using ok by (auto simp: depayloader_ok_def tables64_def dest: in_set_takeD)
  have hr: "hlen \<le> HEADER_RESERVE" using ok jpeg_header_len_reserve by (simp add: hlen depayloader_ok_def)
  have s1: "subslice (dp_buf d) ?start HEADER_RESERVE = Inr ?out"
    using b hr by simp
  have s2: "subslice (dp_qtables d) 0 (dp_qcount d) = Inr ?qt" using b by simp
  have lo: "length ?out = hlen" using b hr by simp
  have eq: "length ?out = jpeg_header_len (length ?qt) (dp_restart_interval d \<noteq> None)" using lo q hlen by simp
  show ?thesis
  proof (rule write_jpeg_headers_cases [OF q(1) eq, of "dp_width d" "dp_height d" "dp_type d"], goal_cases refused written)
    case (refused e)
    have "JpegDepayloader_finish tg d = (Inl (Err e), d)"
      unfolding JpegDepayloader_finish_def Let_def hlen [symmetric] s1 s2 bind_r_simps refused sum.case ..
    then show ?thesis using ok counters_room_mono [of tg "a + 1" b c d a b c] by simp
  next
    case (written n out')
    let ?buf = "take ?start (dp_buf d) @ out' @ drop HEADER_RESERVE (dp_buf d)"
    have lb: "length ?buf = length (dp_buf d)" using b hr lo written by simp
    have "put ?buf ?eoi [0xFF] \<noteq> Inl Panic" "?eoi + 2 \<le> length ?buf" using lb b by (simp_all add: put_def)
    then obtain b1 where b1: "put ?buf ?eoi [0xFF] = Inr b1" by (simp add: put_def)
    then have l1: "length b1 = length (dp_buf d)" using length_put lb by metis
    then obtain b2 where b2: "put b1 (?eoi + 1) [0xD9] = Inr b2" using b by (simp add: put_def)
    then have l2: "length b2 = length (dp_buf d)" using length_put l1 by metis
    have fin: "JpegDepayloader_finish tg d =
        (case u32_add tg (dp_frames d) 1 of
           Inl e \<Rightarrow> (Inl e, d\<lparr>dp_buf := b2, dp_in_frame := False\<rparr>)
         | Inr frames \<Rightarrow> (Inr (Frame (?eoi + 2 - ?start) (dp_timestamp d) (dp_width d) (dp_height d)),
             d\<lparr>dp_buf := b2, dp_in_frame := False, dp_frames := frames, dp_jpeg := Some (?start, ?eoi + 2)\<rparr>))"
      unfolding JpegDepayloader_finish_def Let_def hlen [symmetric] s1 s2 bind_r_simps written sum.case prod.case b1 b2 ..
    show ?thesis
    proof (cases rule: u32_add_cases [of tg "dp_frames d" 1])
      case panic
      then have "\<not> counters_room tg (a + 1) b c d" by (auto simp: counters_room_def)
      then show ?thesis using panic ok l2 by (auto simp: fin depayloader_ok_def)
    next
      case added
      have "counters_room tg a b c (d\<lparr>dp_buf := b2, dp_in_frame := False, dp_frames := dp_frames d + 1,
          dp_jpeg := Some (?start, ?eoi + 2)\<rparr>)" if "counters_room tg (a + 1) b c d"
        using that u32_add_room(2) [of tg "dp_frames d" a 1] by (simp add: counters_room_def)
      then show ?thesis using added ok l2 b by (simp add: fin depayloader_ok_def)
    qed
  qed
qed

lemma JpegDepayloader_data_keeps:
  assumes ok: "depayloader_ok d" and p: "p \<le> length payload"
  shows "keeps tg (counters_room tg (a + 1) (b + 1) c d) (length (dp_buf d)) a b c (JpegDepayloader_data tg d m payload p)"
proof -
  define bs where "bs = drop p payload"
  let ?start = "HEADER_RESERVE + dp_scan_len d"
  have s: "subslice payload p (length payload) = Inr bs" using p by (simp add: bs_def)
  show ?thesis
  proof (cases "?start + length bs + 2 > length (dp_buf d)")
    case True
    then have "JpegDepayloader_data tg d m payload p =
        JpegDepayloader_abandon tg d (Inl (Err (BufferTooSmall (?start + length bs + 2))))"
      unfolding JpegDepayloader_data_def s sum.case Let_def by (simp only: if_True)
    then show ?thesis
      using keeps_mono [OF JpegDepayloader_abandon_keeps [OF ok]] counters_room_mono [of tg "a + 1" "b + 1" c d a "b + 1" c]
      by simp
  next
    case False
    let ?buf = "take ?start (dp_buf d) @ bs @ drop (?start + length bs) (dp_buf d)"
    let ?d1 = "d\<lparr>dp_buf := ?buf, dp_scan_len := dp_scan_len d + length bs\<rparr>"
    have c: "copy_range (dp_buf d) ?start (?start + length bs) bs = Inr ?buf"
      using False by (intro copy_range_ok) simp_all
    have ok1: "depayloader_ok ?d1" "length ?buf = length (dp_buf d)" using ok False
      by (auto simp: depayloader_ok_def split: option.splits)
    have room: "counters_room tg a' b' c' ?d1 = counters_room tg a' b' c' d" for a' b' c' by (simp add: counters_room_def)
    have "JpegDepayloader_data tg d m payload p = (if \<not> m then (Inr Fragment, ?d1) else JpegDepayloader_finish tg ?d1)"
      unfolding JpegDepayloader_data_def s sum.case Let_def c using False by (simp only: if_False)
    then show ?thesis
      using keeps_mono [OF JpegDepayloader_finish_keeps [OF ok1(1)], of _ tg a b c] ok1 room
        counters_room_mono [of tg "a + 1" "b + 1" c d]
      by (cases m) simp_all
  qed
qed

lemma JpegDepayloader_start_cases:
  assumes "JpegDepayloader_start tg d0 ts w h ty q ri payload p = (x, d')" and "p \<le> length payload"
    and n: "(if dp_in_frame d0 \<and> dp_scan_len d0 > 0 then u32_add tg (dp_dropped d0) 1 else Inr (dp_dropped d0)) = Inr n"
  shows "(\<exists>e. x = Inl (Err e)) \<or> (\<exists>k. x = Inr k \<and> k \<le> length payload)"
    and "dp_buf d' = dp_buf d0" "dp_jpeg d' = dp_jpeg d0" "dp_scan_len d' = 0"
      "dp_frames d' = dp_frames d0" "dp_dropped d' = n" "dp_lost d' = dp_lost d0"
    and "dp_qcount d' = dp_qcount d0 \<and> dp_qtables d' = dp_qtables d0 \<or>
      (\<exists>tabs. (length tabs = 64 \<or> length tabs = 128) \<and> dp_qcount d' = length tabs div 64 \<and>
         dp_qtables d' = chunks_of 64 tabs @ drop (length tabs div 64) (dp_qtables d0)) \<or>
      dp_qcount d' = 2 \<and> dp_qtables d' = default_quant_tables q" (is ?tables)
proof -
  define d where "d = d0\<lparr>dp_dropped := n,
                 dp_in_frame := True, dp_scan_len := 0, dp_timestamp := ts, dp_width := w,
                 dp_height := h, dp_type := ty AND 0x3F, dp_restart_interval := ri\<rparr>"
  have d: "dp_buf d = dp_buf d0" "dp_jpeg d = dp_jpeg d0" "dp_scan_len d = 0" "dp_qcount d = dp_qcount d0"
    "dp_qtables d = dp_qtables d0" "dp_frames d = dp_frames d0" "dp_dropped d = n" "dp_lost d = dp_lost d0"
    by (simp_all add: d_def)
  note un = assms(1) [unfolded JpegDepayloader_start_def n sum.case Let_def d_def [symmetric]]
  show "(\<exists>e. x = Inl (Err e)) \<or> (\<exists>k. x = Inr k \<and> k \<le> length payload)"
    using un assms(2) by (auto simp: get_range_def split: if_splits option.splits)
  show "dp_buf d' = dp_buf d0" "dp_jpeg d' = dp_jpeg d0" "dp_scan_len d' = 0"
    "dp_frames d' = dp_frames d0" "dp_dropped d' = n" "dp_lost d' = dp_lost d0"
    using un d by (auto split: if_splits option.splits)
  consider "d' = d" | k tabs where "k = 64 \<or> k = 128" "get_range payload (p + 4) (p + 4 + k) = Some tabs"
      "d' = d\<lparr>dp_qcount := k div 64, dp_qtables := chunks_of 64 tabs @ drop (k div 64) (dp_qtables d)\<rparr>"
    | "d' = d\<lparr>dp_qtables := default_quant_tables q, dp_qcount := 2\<rparr>"
  proof (cases "128 \<le> q")
    case False
    then have "d' = d \<or> d' = d\<lparr>dp_qtables := default_quant_tables q, dp_qcount := 2\<rparr>"
      using un by (simp split: if_splits)
    then show thesis using that(1,3) by blast
  next
    case True
    show thesis
    proof (cases "get_range payload p (p + 4)")
      case None
      then show thesis using un True that by simp
    next
      case (Some qh)
      define len where "len = unat (from_be16 (qh ! 2) (qh ! 3))"
      note un1 = un [unfolded Some option.case, folded len_def]
      show thesis
      proof (cases "len = 64 \<or> len = 128")
        case False
        then have "d' = d" using un1 True by (simp split: if_splits)
        then show thesis by (rule that)
      next
        case len: True
        then have "len \<noteq> 0" by auto
        then show thesis
          using un1 True len that(1) that(2) [OF len]
          by (cases "get_range payload (p + 4) (p + 4 + len)") (simp_all split: if_splits)
      qed
    qed
  qed
  then show ?tables
  proof cases
    case (2 k tabs)
    then have "length tabs = k" by (auto simp: get_range_def split: if_splits)
    then show ?thesis using 2 d by (intro disjI2 disjI1 exI [of _ tabs]) simp
  qed (simp_all add: d)
qed

lemma JpegDepayloader_start_safe:
  assumes ok: "depayloader_ok d0"
    and st: "JpegDepayloader_start tg d0 ts w h ty q ri payload p = (x, d')" "p \<le> length payload"
      "(if dp_in_frame d0 \<and> dp_scan_len d0 > 0 then u32_add tg (dp_dropped d0) 1 else Inr (dp_dropped d0)) = Inr n"
  shows "depayloader_ok d'"
proof -
  note c = JpegDepayloader_start_cases [OF st]
  have t: "tables64 (chunks_of 64 tabs @ drop (length tabs div 64) (dp_qtables d0))"
    if tabs: "length tabs = 64 \<or> length tabs = 128" for tabs :: bytes
  proof -
    obtain a b where "dp_qtables d0 = [a, b]" "length a = 64" "length b = 64"
      using ok by (auto simp: depayloader_ok_def tables64_def length_Suc_conv numeral_2_eq_2)
    moreover have "chunks_of 64 tabs = (if length tabs = 64 then [tabs] else [take 64 tabs, drop 64 tabs])"
      using tabs by (auto simp: chunks_of.simps [of 64])
    ultimately show ?thesis using tabs by (auto simp: tables64_def)
  qed
  have "tables64 (dp_qtables d') \<and> dp_qcount d' \<le> 2"
    using c(8)
  proof (elim disjE exE conjE)
    fix tabs :: bytes
    assume "length tabs = 64" "dp_qcount d' = length tabs div 64"
      "dp_qtables d' = chunks_of 64 tabs @ drop (length tabs div 64) (dp_qtables d0)"
    then show ?thesis using t [of tabs] by simp
  next
    fix tabs :: bytes
    assume "length tabs = 128" "dp_qcount d' = length tabs div 64"
      "dp_qtables d' = chunks_of 64 tabs @ drop (length tabs div 64) (dp_qtables d0)"
    then show ?thesis using t [of tabs] by simp
  qed (use ok default_quant_tables_64 in \<open>simp_all add: depayloader_ok_def\<close>)
  then show ?thesis using ok c(2-4) by (auto simp: depayloader_ok_def)
qed

lemma JpegDepayloader_start_keeps:
  assumes ok: "depayloader_ok d"
    and st: "JpegDepayloader_start tg d ts w h ty q ri payload p = (x, d')" "p \<le> length payload"
  shows "depayloader_ok d'" "length (dp_buf d') = length (dp_buf d)" "x = Inr k \<Longrightarrow> k \<le> length payload"
    "counters_room tg a (b + 1) c d \<Longrightarrow> x \<noteq> Inl Panic \<and> counters_room tg a b c d'"
proof -
  let ?n = "if dp_in_frame d \<and> dp_scan_len d > 0 then u32_add tg (dp_dropped d) 1 else Inr (dp_dropped d)"
  have "depayloader_ok d' \<and> length (dp_buf d') = length (dp_buf d) \<and> (x = Inr k \<longrightarrow> k \<le> length payload) \<and>
    (counters_room tg a (b + 1) c d \<longrightarrow> x \<noteq> Inl Panic \<and> counters_room tg a b c d')"
  proof (cases ?n)
    case (Inl e)
    then have "x = Inl e" "d' = d" using st(1) by (simp_all add: JpegDepayloader_start_def)
    moreover have "\<not> counters_room tg a (b + 1) c d"
      using Inl by (auto simp: u32_add_def counters_room_def split: if_splits)
    ultimately show ?thesis using ok by simp
  next
    case (Inr n)
    note c = JpegDepayloader_start_cases [OF st Inr]
    have "counters_room tg a b c d'" if "counters_room tg a (b + 1) c d"
      using that Inr c(5-7) u32_add_room(2) [of tg "dp_dropped d" b 1]
      by (auto simp: counters_room_def u32_add_def split: if_splits)
    then show ?thesis using JpegDepayloader_start_safe [OF ok st Inr] c(1,2) by auto
  qed
  then show "depayloader_ok d'" "length (dp_buf d') = length (dp_buf d)" "x = Inr k \<Longrightarrow> k \<le> length payload"
    "counters_room tg a (b + 1) c d \<Longrightarrow> x \<noteq> Inl Panic \<and> counters_room tg a b c d'" by simp_all
qed

lemma JpegDepayloader_payload_keeps:
  assumes ok: "depayloader_ok d"
  shows "keeps tg (counters_room tg (a + 1) (b + 2) c d) (length (dp_buf d)) a b c (JpegDepayloader_payload tg d h payload gap)"
    (is "?keeps (JpegDepayloader_payload tg d h payload gap)")
proof -
  have stay: "?keeps (y, d)" if "no_panic y" for y
    using that ok counters_room_mono [of tg "a + 1" "b + 2" c d a b c] by simp
  have data: "?keeps (JpegDepayloader_data tg d (rh_marker h) payload p)" if "p \<le> length payload" for p
    using keeps_mono [OF JpegDepayloader_data_keeps [OF ok that], of _ tg a b c] counters_room_mono [of tg "a + 1" "b + 2" c d]
    by simp
  have start: "?keeps (case JpegDepayloader_start tg d ts w ht ty q ri payload p of
      (Inl e, d1) \<Rightarrow> (Inl e, d1) | (Inr p1, d1) \<Rightarrow> JpegDepayloader_data tg d1 (rh_marker h) payload p1)"
    if p: "p \<le> length payload" for ts w ht ty q ri p
  proof -
    obtain x d1 where st: "JpegDepayloader_start tg d ts w ht ty q ri payload p = (x, d1)" by fastforce
    note k = JpegDepayloader_start_keeps [OF ok st p]
    have room: "counters_room tg (a + 1) (b + 2) c d \<Longrightarrow> x \<noteq> Inl Panic \<and> counters_room tg (a + 1) (b + 1) c d1"
      using k(4) [of "a + 1" "b + 1" c] by simp
    show ?thesis
    proof (cases x)
      case (Inl e)
      then show ?thesis using k(1,2) room counters_room_mono [of tg "a + 1" "b + 1" c d1 a b c]
        by (auto simp: st no_panic_def)
    next
      case (Inr p1)
      from keeps_mono [OF JpegDepayloader_data_keeps [OF k(1) k(3) [OF Inr]], of _ tg a b c] room k(2)
      show ?thesis by (simp add: st Inr)
    qed
  qed
  show ?thesis
  proof (cases "length payload < 8")
    case True
    then show ?thesis using stay by (simp only: JpegDepayloader_payload_def if_True no_panic_simps)
  next
    case f: False
    define off where "off = unat (payload ! 1) * 2 ^ 16 + unat (payload ! 2) * 2 ^ 8 + unat (payload ! 3)"
    define w :: u16 where "w = ucast (payload ! 6) * 8"
    define ht :: u16 where "ht = ucast (payload ! 7) * 8"
    define head :: "(u16 option \<times> nat) result" where "head = (if payload ! 4 \<ge> 64 then
                         (case get_range payload 8 (8 + 4) of
                            None \<Rightarrow> Inl (Err InvalidFormat)
                          | Some r \<Rightarrow> Inr (Some (from_be16 (r ! 0) (r ! 1)), 8 + 4))
                       else Inr (None, 8))"
    note un = JpegDepayloader_payload_def if_not_P [OF f] Let_def
      off_def [symmetric] w_def [symmetric] ht_def [symmetric] head_def [symmetric]
    show ?thesis
    proof (cases "w = 0 \<or> ht = 0 \<or> payload ! 4 AND 0x3F > 1")
      case True
      then show ?thesis unfolding un using stay by (simp only: if_True no_panic_simps)
    next
      case good: False
      show ?thesis
      proof (cases head)
        case (Inl e)
        then have "no_panic (Inl e :: depayload result)" by (auto simp: head_def split: if_splits option.splits)
        then show ?thesis unfolding un if_not_P [OF good] Inl sum.case by (rule stay)
      next
        case (Inr rp)
        obtain restart p where rp: "rp = (restart, p)" by (cases rp)
        have p: "p \<le> length payload" using Inr rp f
          by (auto simp: head_def get_range_def split: if_splits)
        have ab: "?keeps (JpegDepayloader_abandon tg d (Inr Dropped))"
          using keeps_mono [OF JpegDepayloader_abandon_keeps [OF ok], of _ _ tg a b c] counters_room_mono [of tg "a + 1" "b + 2" c d a "b + 1" c]
          by simp
        show ?thesis
          unfolding un if_not_P [OF good] Inr rp sum.case prod.case using start [OF p] data [OF p] ab stay [of "Inr Fragment"] by simp
      qed
    qed
  qed
qed

text \<open>What a packet may add to the loss counter: nothing, when it is the first.\<close>

definition gap_room :: "jpeg_depayloader \<Rightarrow> nat" where
  "gap_room d = (if dp_last_seq d = None then 0 else 32767)"

lemma JpegDepayloader_gap_room:
  assumes "counters_room tg a b (c + gap_room d) d"
  shows "\<exists>gap lost. JpegDepayloader_gap tg d seq = Inr (gap, lost) \<and> counters_room tg a b c (d\<lparr>dp_lost := lost\<rparr>)"
proof (cases "dp_last_seq d")
  case None
  then show ?thesis using assms by (simp add: JpegDepayloader_gap_def gap_room_def)
next
  case (Some prev)
  let ?gap = "seq - prev - 1"
  show ?thesis
  proof (cases "?gap \<noteq> 0 \<and> ?gap < 0x8000")
    case True
    then have "unat ?gap \<le> 32767" by (simp add: word_less_nat_alt)
    then have "unat (ucast ?gap :: u32) \<le> 32767" by (simp add: unat_ucast_up)
    with assms Some have "overflow_checks tg \<longrightarrow> unat (dp_lost d) + (c + unat (ucast ?gap :: u32)) < 2 ^ 32"
      by (auto simp: counters_room_def gap_room_def)
    from u32_add_room [OF this] assms show ?thesis using True Some
      by (simp add: JpegDepayloader_gap_def Let_def counters_room_def)
  next
    case False
    then have "\<exists>gap. JpegDepayloader_gap tg d seq = Inr (gap, dp_lost d)"
      using Some by (auto simp: JpegDepayloader_gap_def Let_def)
    then show ?thesis using assms Some by (auto simp: counters_room_def gap_room_def)
  qed
qed

lemma JpegDepayloader_push_keeps:
  assumes ok: "depayloader_ok d"
  shows "keeps tg (counters_room tg (a + 1) (b + 2) (c + gap_room d) d) (length (dp_buf d)) a b c (JpegDepayloader_push tg d packet)"
    (is "keeps tg ?R ?n a b c _")
proof -
  have stay: "keeps tg ?R ?n a b c (y, d)" if "no_panic y" for y
    using that ok counters_room_mono [of tg "a + 1" "b + 2" "c + gap_room d" d a b c] by simp
  show ?thesis
  proof (cases "rtp_Header_parse packet")
    case (Inl e)
    then show ?thesis using rtp_Header_parse_no_panic [of packet] stay [of "Inl e"]
      by (simp add: JpegDepayloader_push_def no_panic_def)
  next
    case (Inr hp)
    obtain h payload where hp: "hp = (h, payload)" by (cases hp)
    show ?thesis
    proof (cases "rh_payload_type h = PT_JPEG")
      case False
      then show ?thesis using stay [of "Inl (Err InvalidFormat)"] by (simp add: JpegDepayloader_push_def Inr hp)
    next
      case True
      note un = JpegDepayloader_push_def Inr hp sum.case prod.case if_not_P [OF not_not [THEN iffD2, OF True]]
      show ?thesis
      proof (cases "JpegDepayloader_gap tg d (rh_seq h)")
        case (Inl e)
        then have "\<not> ?R" using JpegDepayloader_gap_room [of tg "a + 1" "b + 2" c d "rh_seq h"] by auto
        then show ?thesis unfolding un Inl using ok by (simp add: depayloader_ok_def)
      next
        case (Inr gl)
        obtain gap lost where gl: "gl = (gap, lost)" by (cases gl)
        let ?d = "d\<lparr>dp_jpeg := None, dp_lost := lost, dp_last_seq := Some (rh_seq h)\<rparr>"
        have "?R \<Longrightarrow> counters_room tg (a + 1) (b + 2) c ?d"
          using JpegDepayloader_gap_room [of tg "a + 1" "b + 2" c d "rh_seq h"] Inr gl by (auto simp: counters_room_def)
        moreover have "keeps tg (counters_room tg (a + 1) (b + 2) c ?d) ?n a b c (JpegDepayloader_payload tg ?d h payload gap)"
          using JpegDepayloader_payload_keeps [where d = ?d] ok by (simp add: depayloader_ok_def)
        ultimately show ?thesis unfolding un Inr gl by (blast intro: keeps_mono)
      qed
    qed
  qed
qed

lemma counters_room_unchecked: "\<not> overflow_checks tg \<Longrightarrow> counters_room tg a b c d"
  by (simp add: counters_room_def)

lemma JpegDepayloader_push_safe:
  assumes "depayloader_ok d"
  shows "depayloader_ok (snd (JpegDepayloader_push tg d packet))"
    "length (dp_buf (snd (JpegDepayloader_push tg d packet))) = length (dp_buf d)"
    "\<not> overflow_checks tg \<Longrightarrow> no_panic (fst (JpegDepayloader_push tg d packet))"
  using JpegDepayloader_push_keeps [OF assms, of tg 0 0 0 packet] counters_room_unchecked
  by (auto simp: keeps_def)

text \<open>A stream of packets: the first adds nothing to the loss counter, and each of the others at most
  \<open>0x7FFF\<close>.\<close>

lemma JpegDepayloader_feed_keeps:
  assumes "depayloader_ok d"
  shows "depayloader_ok (snd (JpegDepayloader_feed tg d ps))"
    "length (dp_buf (snd (JpegDepayloader_feed tg d ps))) = length (dp_buf d)"
    "counters_room tg (length ps) (2 * length ps) (32767 * length ps) d \<Longrightarrow>
     \<forall>x \<in> set (fst (JpegDepayloader_feed tg d ps)). no_panic x"
proof -
  have "depayloader_ok (snd (JpegDepayloader_feed tg d ps)) \<and>
    length (dp_buf (snd (JpegDepayloader_feed tg d ps))) = length (dp_buf d) \<and>
    (counters_room tg (length ps) (2 * length ps) (32767 * length ps) d \<longrightarrow>
     (\<forall>x \<in> set (fst (JpegDepayloader_feed tg d ps)). no_panic x))"
    using assms
  proof (induction ps arbitrary: d)
    case (Cons p ps)
    let ?n = "length ps"
    obtain x d1 where p: "JpegDepayloader_push tg d p = (x, d1)" by fastforce
    obtain xs d2 where f: "JpegDepayloader_feed tg d1 ps = (xs, d2)" by fastforce
    have "counters_room tg (?n + 1) (2 * ?n + 2) (32767 * ?n + gap_room d) d"
      if "counters_room tg (Suc ?n) (2 * Suc ?n) (32767 * Suc ?n) d"
      using counters_room_mono [OF that] by (simp add: gap_room_def)
    with JpegDepayloader_push_keeps [OF Cons.prems, of tg ?n "2 * ?n" "32767 * ?n" p] Cons.IH [of d1] p f
    show ?case by auto
  qed simp
  then show "depayloader_ok (snd (JpegDepayloader_feed tg d ps))"
    "length (dp_buf (snd (JpegDepayloader_feed tg d ps))) = length (dp_buf d)"
    "counters_room tg (length ps) (2 * length ps) (32767 * length ps) d \<Longrightarrow>
     \<forall>x \<in> set (fst (JpegDepayloader_feed tg d ps)). no_panic x" by blast+
qed

lemma JpegDepayloader_feed_fresh:
  assumes "JpegDepayloader_new buf = Inr d" "overflow_checks tg \<longrightarrow> length ps \<le> 131077"
  shows "\<forall>x \<in> set (fst (JpegDepayloader_feed tg d ps)). no_panic x"
proof (cases ps)
  case (Cons p qs)
  have d: "depayloader_ok d" "gap_room d = 0" "dp_frames d = 0" "dp_dropped d = 0" "dp_lost d = 0"
    using assms(1) depayloader_ok_new by (auto simp: JpegDepayloader_new_def gap_room_def split: if_splits)
  let ?n = "length qs"
  have "counters_room tg (?n + 1) (2 * ?n + 2) (32767 * ?n + gap_room d) d"
    using assms(2) d Cons by (auto simp: counters_room_def)
  with JpegDepayloader_push_keeps [OF d(1), of tg ?n "2 * ?n" "32767 * ?n" p]
  obtain x d1 where p: "JpegDepayloader_push tg d p = (x, d1)" "no_panic x" "depayloader_ok d1"
    "counters_room tg ?n (2 * ?n) (32767 * ?n) d1" by (cases "JpegDepayloader_push tg d p") auto
  from JpegDepayloader_feed_keeps(3) [OF p(3,4)] p show ?thesis
    by (cases "JpegDepayloader_feed tg d1 qs") (simp add: Cons)
qed simp

section \<open>Properties\<close>

lemma jpeg_payloads_size:
  "jpeg_tables_full info \<Longrightarrow> 157 \<le> mtu \<Longrightarrow> pl \<in> set (jpeg_payloads info mtu off rest) \<Longrightarrow>
   length pl \<le> mtu - 12"
proof (induction info mtu off rest rule: jpeg_payloads.induct)
  case (1 info mtu off rest)
  let ?hb = "jpeg_head_bytes info off"
  define n where "n = mtu - (12 + length ?hb)"
  have fits: "12 + length ?hb < mtu" using "1.prems" by (intro jpeg_head_fits) simp_all
  show ?case
  proof (cases "rest = []")
    case True
    then show ?thesis using "1.prems" by (simp add: jpeg_payloads.simps Let_def)
  next
    case False
    have n: "\<not> (rest = [] \<or> n = 0)" using False fits by (simp add: n_def)
    then have "jpeg_payloads info mtu off rest = (?hb @ take n rest) # jpeg_payloads info mtu (off + n) (drop n rest)"
      by (subst jpeg_payloads.simps) (simp add: Let_def n_def)
    with "1.prems"(3) consider "pl = ?hb @ take n rest" | "pl \<in> set (jpeg_payloads info mtu (off + n) (drop n rest))"
      by auto
    then show ?thesis
    proof cases
      case 1
      then show ?thesis using fits by (simp add: n_def)
    next
      case 2
      show ?thesis by (rule "1.IH" [OF n_def n "1.prems"(1,2) 2])
    qed
  qed
qed

lemma JpegPayloader_packetize_any:
  assumes "157 \<le> jpp_mtu p" "jpp_mtu p \<le> length scratch"
    and parse: "JpegScan_parse jpeg = Inr info" and t0: "js_qtables info ! 0 \<noteq> []"
    and packets: "packets = rtp_packets (Rtp_timestamp (jpp_rtp p) t) (jpp_rtp p)
      (mark_last True (jpeg_payloads info (jpp_mtu p) 0 (js_scan info)))"
  shows "\<exists>scratch' p'. length scratch' = length scratch \<and> jpp_mtu p' = jpp_mtu p \<and>
     (fst (write_seq emit packets s) = Inr () \<longrightarrow> jpp_rtp p' = (rtp_next ^^ length packets) (jpp_rtp p)) \<and>
     JpegPayloader_packetize emit p jpeg t scratch s =
       (case write_seq emit packets s of
          (Inl e, s') \<Rightarrow> Some (Inl e, p', scratch', s')
        | (Inr _, s') \<Rightarrow> Some (Inr (length packets), p', scratch', s'))"
proof -
  let ?r = "jpp_rtp p" and ?ts = "Rtp_timestamp (jpp_rtp p) t"
  let ?pls = "mark_last True (jpeg_payloads info (jpp_mtu p) 0 (js_scan info))"
  have tf: "jpeg_tables_full info" using jpeg_tables_from_parse [OF JpegScan_parse_ok [OF parse] t0] by simp
  obtain x r' s' where snd: "rtp_send emit ?ts ?r ?pls s = (x, r', s')" by (metis prod_cases3)
  then have ws: "write_seq emit packets s = (x, s')"
    using rtp_send_write_seq [of emit ?ts ?r ?pls s] packets by simp
  have after: "x = Inr () \<Longrightarrow> r' = (rtp_next ^^ length packets) ?r"
    using rtp_send_ok_rtp [of emit ?ts ?r ?pls s "()" r' s'] snd packets by simp
  from JpegPayloader_loop_spec [OF tf assms(1,2), of "js_scan info" 0 emit ?ts 0 ?r s]
  have "sends_as (JpegPayloader_loop emit (jpp_mtu p) info ?ts 0 0 ?r scratch s) (length scratch) 0
      (length packets) (x, r', s')"
    by (simp add: snd packets)
  then obtain scratch' where sc: "length scratch' = length scratch"
    "JpegPayloader_loop emit (jpp_mtu p) info ?ts 0 0 ?r scratch s =
      (case x of Inl e \<Rightarrow> Some (Inl e, r', scratch', s') | Inr _ \<Rightarrow> Some (Inr (0 + length packets), r', scratch', s'))"
    unfolding sends_as_def prod.case by blast
  then show ?thesis using assms(2)
    by (intro exI [of _ scratch'] exI [of _ "p\<lparr>jpp_rtp := r'\<rparr>"])
      (auto simp: JpegPayloader_packetize_def parse ws after split: sum.splits)
qed

lemma JpegPayloader_packetize_spec:
  assumes new: "JpegPayloader_new ssrc seq mtu = Inr p" and "mtu \<le> length scratch"
    and parse: "JpegScan_parse jpeg = Inr info" and t0: "js_qtables info ! 0 \<noteq> []"
    and packets: "packets = rtp_packets (Rtp_timestamp (jpp_rtp p) t) (jpp_rtp p)
      (mark_last True (jpeg_payloads info mtu 0 (js_scan info)))"
  shows "\<exists>scratch' p'. JpegPayloader_packetize emit p jpeg t scratch s =
       (case write_seq emit packets s of
          (Inl e, s') \<Rightarrow> Some (Inl e, p', scratch', s')
        | (Inr _, s') \<Rightarrow> Some (Inr (length packets), p', scratch', s'))"
    and "\<forall>d \<in> set packets. length d \<le> mtu" and "157 \<le> mtu" and "rt_payload_type (jpp_rtp p) = PT_JPEG"
proof -
  let ?pls = "mark_last True (jpeg_payloads info mtu 0 (js_scan info))"
  have m: "157 \<le> mtu" "jpp_mtu p = mtu" "jpp_rtp p = Rtp_new ssrc PT_JPEG VIDEO_CLOCK_HZ seq"
    using new by (auto simp: JpegPayloader_new_def rtp_HEADER_LEN_def split: if_splits)
  have tf: "jpeg_tables_full info" using jpeg_tables_from_parse [OF JpegScan_parse_ok [OF parse] t0] by simp
  show "\<exists>scratch' p'. JpegPayloader_packetize emit p jpeg t scratch s =
       (case write_seq emit packets s of
          (Inl e, s') \<Rightarrow> Some (Inl e, p', scratch', s')
        | (Inr _, s') \<Rightarrow> Some (Inr (length packets), p', scratch', s'))"
    using JpegPayloader_packetize_any [of p scratch jpeg info packets t emit s] m assms by blast
  show "\<forall>d \<in> set packets. length d \<le> mtu"
  proof
    fix d assume d: "d \<in> set packets"
    have "\<forall>pl \<in> snd ` set ?pls. length pl \<le> mtu - 12"
      unfolding set_map [symmetric] map_snd_mark_last using jpeg_payloads_size [OF tf m(1)] by blast
    from rtp_packets_size [OF d [unfolded packets] this] m(1) show "length d \<le> mtu" by simp
  qed
  show "157 \<le> mtu" by (rule m(1))
  show "rt_payload_type (jpp_rtp p) = PT_JPEG" by (simp add: m(3) Rtp_new_def PT_JPEG_def)
qed

text \<open>C6: JPEG over RTP, end to end. For any JPEG the parser accepts with a first quantization
  table and at most \<open>2 ^ 24\<close> bytes of scan data, \<open>packetize\<close> returns whatever the closure does:
  it offers the packets below in order, none above the MTU, and stops at the first refusal. Fed
  to a depayloader in any state (whose counters, where a build checks them, are not about to
  overflow), they give fragments and then one frame, whatever was unfinished before; the JPEG it exposes is parsed back to exactly the scan of the original:
  dimensions, subsampling, restart interval, quantization tables and entropy-coded data.\<close>

theorem JpegPayloader_roundtrip:
  assumes "JpegPayloader_new ssrc seq mtu = Inr p" and "mtu \<le> length scratch"
    and "JpegScan_parse jpeg = Inr info" and "js_qtables info ! 0 \<noteq> []"
    and "js_scan info \<noteq> []" and "length (js_scan info) < 2 ^ 24"
    and "HEADER_RESERVE + length (js_scan info) + 2 \<le> length (dp_buf d)"
    and "counters_room tg 1 1 32767 d"
  shows "\<exists>packets out d'. packets = rtp_packets (Rtp_timestamp (jpp_rtp p) t) (jpp_rtp p)
      (mark_last True (jpeg_payloads info mtu 0 (js_scan info))) \<and>
    (\<exists>scratch' p'. JpegPayloader_packetize emit p jpeg t scratch s =
       (case write_seq emit packets s of
          (Inl e, s') \<Rightarrow> Some (Inl e, p', scratch', s')
        | (Inr _, s') \<Rightarrow> Some (Inr (length packets), p', scratch', s'))) \<and>
    (\<forall>pkt \<in> set packets. length pkt \<le> mtu) \<and>
    JpegDepayloader_feed tg d packets =
      (replicate (length packets - 1) (Inr Fragment) @
         [Inr (Frame (length out) (Rtp_timestamp (jpp_rtp p) t) (js_width info) (js_height info))], d') \<and>
    JpegDepayloader_jpeg d' = Inr out \<and> dp_frames d' = dp_frames d + 1 \<and>
    JpegScan_parse out = Inr info"
proof -
  note spec = JpegPayloader_packetize_spec [OF assms(1-4) refl]
  have so: "jpeg_scan_ok info" by (rule JpegScan_parse_ok [OF assms(3)])
  then have tf: "jpeg_tables_full info" using assms(4) jpeg_tables_from_parse by blast
  have "counters_room tg 1 1 (0 + gap_room d) d"
    using counters_room_mono [OF assms(8), of 1 1 "gap_room d"] by (simp add: gap_room_def)
  from JpegDepayloader_gap_room [OF this] obtain gap lost where
    g: "JpegDepayloader_gap tg d (rt_seq (jpp_rtp p)) = Inr (gap, lost)" by blast
  have room: "counters_room tg 1 1 0 d" using counters_room_mono [OF assms(8), of 1 1 0] by simp
  from JpegDepayloader_feed_frame [OF so tf spec(3) assms(6,5) spec(4) assms(7) g room, of "Rtp_timestamp (jpp_rtp p) t"]
    JpegScan_parse_rebuilt [OF so assms(4)]
  show ?thesis using spec(1) [where t = t and emit = emit and s = s] spec(2) [where t = t] by force
qed

text \<open>Packets that are nothing but a header, each \<open>0x8000\<close> after the one before: each adds the most a
  gap can to the loss counter.\<close>

definition gap_packet :: "nat \<Rightarrow> bytes" where
  "gap_packet k = rtp_header_bytes (Rtp_new 1 PT_JPEG VIDEO_CLOCK_HZ (of_nat (32768 * k))) False 0"

lemma gap_packet_parse:
  "\<exists>h. rtp_Header_parse (gap_packet k) = Inr (h, []) \<and> rh_payload_type h = PT_JPEG \<and> rh_seq h = of_nat (32768 * k)"
proof -
  have "rt_payload_type (Rtp_new 1 PT_JPEG VIDEO_CLOCK_HZ (of_nat (32768 * k))) AND 0x80 = 0"
    by (simp add: Rtp_new_def PT_JPEG_def)
  from rtp_Header_parse_bytes [OF this, of False 0 "[]"] show ?thesis
    by (simp add: gap_packet_def Rtp_new_def PT_JPEG_def)
qed

lemma JpegDepayloader_push_gap_packet:
  assumes "JpegDepayloader_gap tg d (of_nat (32768 * k)) = Inr (gap, lost)"
  shows "JpegDepayloader_push tg d (gap_packet k) =
    (Inl (Err InvalidFormat), d\<lparr>dp_jpeg := None, dp_lost := lost, dp_last_seq := Some (of_nat (32768 * k))\<rparr>)"
  using gap_packet_parse [of k] assms by (auto simp: JpegDepayloader_push_def JpegDepayloader_payload_def)

lemma JpegDepayloader_gap_packets_panic:
  assumes "overflow_checks tg"
  shows "dp_last_seq d = Some (of_nat (32768 * k)) \<Longrightarrow> 2 ^ 32 \<le> unat (dp_lost d) + 32767 * n \<Longrightarrow>
    Inl Panic \<in> set (fst (JpegDepayloader_feed tg d (map gap_packet [Suc k..<Suc k + n])))"
proof (induction n arbitrary: d k)
  case 0
  then show ?case using unat_u32_bound [of "dp_lost d"] by simp
next
  case (Suc n)
  have gap: "of_nat (32768 * Suc k) - of_nat (32768 * k) - 1 = (32767 :: u16)" by simp
  have un: "JpegDepayloader_gap tg d (of_nat (32768 * Suc k)) = bind_r (u32_add tg (dp_lost d) 32767) (\<lambda>lost. Inr (32767, lost))"
    unfolding JpegDepayloader_gap_def Suc.prems(1) option.case Let_def gap by simp
  have ps: "map gap_packet [Suc k..<Suc k + Suc n] = gap_packet (Suc k) # map gap_packet [Suc (Suc k)..<Suc (Suc k) + n]"
    by (subst upt_conv_Cons) simp_all
  show ?case
  proof (cases rule: u32_add_cases [of tg "dp_lost d" 32767])
    case panic
    then have "JpegDepayloader_push tg d (gap_packet (Suc k)) = (Inl Panic, d\<lparr>dp_jpeg := None\<rparr>)"
      using gap_packet_parse [of "Suc k"] by (auto simp: JpegDepayloader_push_def un [simplified])
    then show ?thesis unfolding ps set_feed_Cons by (simp only: fst_conv insertI1)
  next
    case added
    let ?d = "d\<lparr>dp_jpeg := None, dp_lost := dp_lost d + 32767, dp_last_seq := Some (of_nat (32768 * Suc k))\<rparr>"
    have push: "JpegDepayloader_push tg d (gap_packet (Suc k)) = (Inl (Err InvalidFormat), ?d)"
      by (rule JpegDepayloader_push_gap_packet) (simp only: un added(1) bind_r_simps)
    have "unat (dp_lost d + 32767) = unat (dp_lost d) + 32767"
      using added(2) assms u32_add_no_overflow [of "dp_lost d" 32767] by simp
    then have "Inl Panic \<in> set (fst (JpegDepayloader_feed tg ?d (map gap_packet [Suc (Suc k)..<Suc (Suc k) + n])))"
      using Suc.prems(2) by (intro Suc.IH) simp_all
    then show ?thesis unfolding ps set_feed_Cons push fst_conv snd_conv by (rule insertI2)
  qed
qed

lemma JpegDepayloader_lost_overflow_panics:
  assumes "JpegDepayloader_new buf = Inr d" "overflow_checks tg" and n: "2 ^ 32 \<le> 32767 * n"
  shows "Inl Panic \<in> set (fst (JpegDepayloader_feed tg d (map gap_packet [0..<Suc n])))"
proof -
  have d: "dp_last_seq d = None" "dp_lost d = 0" using assms(1) by (auto simp: JpegDepayloader_new_def split: if_splits)
  let ?d = "d\<lparr>dp_jpeg := None, dp_lost := 0, dp_last_seq := Some (of_nat (32768 * 0))\<rparr>"
  have push: "JpegDepayloader_push tg d (gap_packet 0) = (Inl (Err InvalidFormat), ?d)"
    by (rule JpegDepayloader_push_gap_packet [where k = 0]) (simp add: JpegDepayloader_gap_def d)
  have "Inl Panic \<in> set (fst (JpegDepayloader_feed tg ?d (map gap_packet [Suc 0..<Suc 0 + n])))"
    by (rule JpegDepayloader_gap_packets_panic [OF assms(2)]) (use n in simp_all)
  moreover have "map gap_packet [0..<Suc n] = gap_packet 0 # map gap_packet [Suc 0..<Suc 0 + n]"
    by (subst upt_conv_Cons) simp_all
  ultimately show ?thesis unfolding set_feed_Cons push fst_conv snd_conv by (simp only: set_feed_Cons push fst_conv snd_conv insertI2)
qed

text \<open>C12: When a depayloader panics. Where the build does not check overflow, no stream of datagrams, of
  any content and in any order, makes a fresh depayloader panic; where it does, no stream of at most
  131077 datagrams does, and a stream of one more can, of packets that are nothing but a header: the loss
  counter, a \<open>u32\<close>, overflows. In every case no packet makes it write outside the buffer it was given,
  and the JPEG it exposes is a range of that buffer.\<close>

theorem JpegDepayloader_no_panic:
  assumes "JpegDepayloader_new buf = Inr d" and "JpegDepayloader_feed tg d packets = (rs, d')"
  shows "((overflow_checks tg \<longrightarrow> length packets \<le> 131077) \<longrightarrow> (\<forall>r \<in> set rs. no_panic r)) \<and>
    (overflow_checks tg \<longrightarrow> (\<exists>long. length long = 131078 \<and> (\<forall>pkt \<in> set long. length pkt = 12) \<and>
       Inl Panic \<in> set (fst (JpegDepayloader_feed tg d long)))) \<and>
    no_panic (JpegDepayloader_jpeg d') \<and>
    length (dp_buf d') = length buf \<and> HEADER_RESERVE + dp_scan_len d' + 2 \<le> length buf"
proof (intro conjI impI)
  have b: "dp_buf d = buf" using assms(1) by (auto simp: JpegDepayloader_new_def split: if_splits)
  note k = JpegDepayloader_feed_keeps(1,2) [OF depayloader_ok_new [OF assms(1)], of tg packets, unfolded assms(2) snd_conv]
  then show "no_panic (JpegDepayloader_jpeg d')" "length (dp_buf d') = length buf"
    "HEADER_RESERVE + dp_scan_len d' + 2 \<le> length buf"
    using b by (auto simp: JpegDepayloader_jpeg_def depayloader_ok_def split: option.splits)
  show "\<forall>r \<in> set rs. no_panic r" if "overflow_checks tg \<longrightarrow> length packets \<le> 131077"
    using JpegDepayloader_feed_fresh [OF assms(1) that] assms(2) by simp
  show "\<exists>long. length long = 131078 \<and> (\<forall>pkt \<in> set long. length pkt = 12) \<and>
      Inl Panic \<in> set (fst (JpegDepayloader_feed tg d long))" if "overflow_checks tg"
  proof (intro exI conjI)
    have "length (map gap_packet [0..<Suc n]) = Suc n" for n by simp
    from this [of 131077] show "length (map gap_packet [0..<Suc 131077]) = 131078" by (rule trans) simp
    show "\<forall>pkt \<in> set (map gap_packet [0..<Suc 131077]). length pkt = 12"
      unfolding set_map by (intro ballI) (auto simp only: gap_packet_def length_rtp_header_bytes)
    show "Inl Panic \<in> set (fst (JpegDepayloader_feed tg d (map gap_packet [0..<Suc 131077])))"
      by (rule JpegDepayloader_lost_overflow_panics [OF assms(1) that]) simp
  qed
qed

lemma eoi_back_spec:
  "e \<le> length jpeg \<Longrightarrow> 2 \<le> eoi_back jpeg e \<Longrightarrow>
   jpeg ! (eoi_back jpeg e - 2) = 0xFF \<and> jpeg ! (eoi_back jpeg e - 1) = 0xD9 \<and>
   (\<forall>k. eoi_back jpeg e < k \<and> k \<le> e \<longrightarrow> \<not> (jpeg ! (k - 2) = 0xFF \<and> jpeg ! (k - 1) = 0xD9))"
proof (induction e)
  case (Suc e)
  show ?case
  proof (cases "2 \<le> Suc e \<and> \<not> (jpeg ! (Suc e - 2) = 0xFF \<and> jpeg ! (Suc e - 1) = 0xD9)")
    case True
    then have b: "eoi_back jpeg (Suc e) = eoi_back jpeg e" by simp
    show ?thesis unfolding b using Suc True b by (metis Suc_leD le_SucE)
  next
    case False
    have b: "eoi_back jpeg (Suc e) = Suc e"
      unfolding eoi_back.simps by (rule if_not_P [OF False])
    have "2 \<le> Suc e" using Suc.prems(2) unfolding b .
    then show ?thesis unfolding b using False by auto
  qed
qed simp

lemma JpegScan_sos_scan:
  assumes "JpegScan_sos jpeg p st = Inr info"
  shows "\<exists>i e. i + length (js_scan info) + 2 = e \<and> e \<le> length jpeg \<and> js_scan info = cut jpeg i (e - 2) \<and>
    jpeg ! (e - 2) = 0xFF \<and> jpeg ! (e - 1) = 0xD9 \<and>
    (\<forall>k. e < k \<and> k \<le> length jpeg \<longrightarrow> \<not> (jpeg ! (k - 2) = 0xFF \<and> jpeg ! (k - 1) = 0xD9))"
proof -
  define e where "e = eoi_back jpeg (length jpeg)"
  have e: "2 \<le> e" "p \<le> e - 2" "subslice jpeg p (e - 2) = Inr (js_scan info)"
    using assms
    by (auto simp: JpegScan_sos_def Let_def bind_r_eq_Inr_iff e_def [symmetric] not_less split: if_splits)
  moreover have le: "e \<le> length jpeg" using eoi_back_le [of jpeg "length jpeg"] by (simp add: e_def)
  moreover have "js_scan info = cut jpeg p (e - 2)" using e le by (auto simp: cut_def)
  moreover have "p + length (js_scan info) + 2 = e" using length_slice [OF e(3)] e by simp
  ultimately show ?thesis using eoi_back_spec [of "length jpeg" jpeg, folded e_def] by blast
qed

lemma JpegScan_loop_scan:
  "JpegScan_loop jpeg i st = Inr info \<Longrightarrow> \<exists>p st'. JpegScan_sos jpeg p st' = Inr info"
proof (induction "length jpeg - i" arbitrary: i st rule: less_induct)
  case less
  show ?case
  proof (cases rule: JpegScan_loop_cases [of jpeg i st])
    case (go st' j)
    then show ?thesis using less by metis
  qed (use less.prems in auto)
qed

lemma JpegScan_parse_scan:
  "JpegScan_parse jpeg = Inr info \<Longrightarrow> \<exists>p st'. JpegScan_sos jpeg p st' = Inr info"
  using JpegScan_loop_scan by (auto simp: JpegScan_parse_def split: if_splits)

text \<open>C30: What \<open>JpegScan::parse\<close> accepts is well formed, for any input, and no input makes it
  panic: the dimensions are multiples of 8 between 8 and 2040, the type is 0 or 1 with bit 6 set
  exactly when there is a restart interval, there are one or two tables of 64 bytes (an absent
  one is empty), and the scan is the data in front of the last \<open>FF D9\<close> of the input.\<close>

theorem JpegScan_parse_well_formed:
  "no_panic (JpegScan_parse jpeg) \<and>
   (\<forall>info. JpegScan_parse jpeg = Inr info \<longrightarrow>
      jpeg_dims_ok (js_width info) (js_height info) \<and>
      js_type info \<in> (if js_restart_interval info = None then {0, 1} else {64, 65}) \<and>
      js_qtable_count info \<in> {1, 2} \<and> length (js_qtables info) = 2 \<and>
      (\<forall>t \<in> set (js_qtables info). t = [] \<or> length t = 64) \<and>
      js_qtables info ! (js_qtable_count info - 1) \<noteq> [] \<and>
      (\<exists>i e. i + length (js_scan info) + 2 = e \<and> e \<le> length jpeg \<and> js_scan info = cut jpeg i (e - 2) \<and>
        jpeg ! (e - 2) = 0xFF \<and> jpeg ! (e - 1) = 0xD9 \<and>
        (\<forall>k. e < k \<and> k \<le> length jpeg \<longrightarrow> \<not> (jpeg ! (k - 2) = 0xFF \<and> jpeg ! (k - 1) = 0xD9))))"
proof (intro conjI allI impI)
  show "no_panic (JpegScan_parse jpeg)" by (rule JpegScan_parse_no_panic)
  fix info assume parse: "JpegScan_parse jpeg = Inr info"
  from JpegScan_parse_scan [OF this] JpegScan_sos_scan
  show "\<exists>i e. i + length (js_scan info) + 2 = e \<and> e \<le> length jpeg \<and> js_scan info = cut jpeg i (e - 2) \<and>
        jpeg ! (e - 2) = 0xFF \<and> jpeg ! (e - 1) = 0xD9 \<and>
        (\<forall>k. e < k \<and> k \<le> length jpeg \<longrightarrow> \<not> (jpeg ! (k - 2) = 0xFF \<and> jpeg ! (k - 1) = 0xD9))" by blast
  note ok = JpegScan_parse_ok [OF parse, unfolded jpeg_scan_ok_def]
  obtain a b where q: "js_qtables info = [a, b]"
    using ok by (auto simp: jpeg_tables_ok_def length_Suc_conv numeral_2_eq_2)
  show "jpeg_dims_ok (js_width info) (js_height info)" using ok by simp
  show "js_type info \<in> (if js_restart_interval info = None then {0, 1} else {64, 65})"
    using ok u8_le_1 by fastforce
  have ok2: "jpeg_tables_ok [a, b] (js_qtable_count info)" "0 < js_qtable_count info" using ok q by simp_all
  then have n: "js_qtable_count info = 1 \<or> js_qtable_count info = 2" by (auto simp: jpeg_tables_ok_two)
  then show "js_qtable_count info \<in> {1, 2}" by simp
  show "length (js_qtables info) = 2" by (simp add: q)
  show "\<forall>t \<in> set (js_qtables info). t = [] \<or> length t = 64"
    "js_qtables info ! (js_qtable_count info - 1) \<noteq> []"
    using ok2(1) n by (auto simp: jpeg_tables_ok_two q)
qed

lemma JpegPayloader_packetize_missing_table:
  assumes m: "157 \<le> jpp_mtu p" "jpp_mtu p \<le> length scratch"
    and parse: "JpegScan_parse jpeg = Inr info" and "js_qtables info ! 0 = []"
  shows "JpegPayloader_packetize emit p jpeg t scratch s =
    Some (if js_scan info = [] then Inr 0 else Inl Panic, p, scratch, s)"
proof (cases "js_scan info = []")
  case True
  then have "JpegPayloader_loop emit (jpp_mtu p) info ts 0 0 r scratch s = Some (Inr 0, r, scratch, s)" for ts r
    by (subst JpegPayloader_loop.simps) simp
  then show ?thesis using m True by (simp add: JpegPayloader_packetize_def parse)
next
  case False
  note ok = JpegScan_parse_ok [OF parse, unfolded jpeg_scan_ok_def]
  obtain a b where q: "js_qtables info = [a, b]"
    using ok by (auto simp: jpeg_tables_ok_def length_Suc_conv numeral_2_eq_2)
  have a: "a = []" using assms(4) q by simp
  have ok2: "jpeg_tables_ok [[], b] (js_qtable_count info)" "0 < js_qtable_count info" using ok q a by simp_all
  then have n: "js_qtable_count info = 2" by (auto simp: jpeg_tables_ok_two)
  have tb: "JpegPayloader_tables (take 2 [[], b]) k sc = Inl Panic" for k and sc :: bytes
    by (simp add: copy_range_def)
  have sub: "subslice [[], b] 0 2 = Inr (take 2 [[], b])" by simp
  have "157 \<le> length scratch" using m by simp
  then have "JpegPayloader_head info 0 scratch = Inl Panic"
    unfolding JpegPayloader_head_def q a n Let_def sub bind_r_simps tb rtp_HEADER_LEN_def
    by (cases "js_restart_interval info") simp_all
  then have "JpegPayloader_loop emit (jpp_mtu p) info ts 0 0 r scratch s = Some (Inl Panic, r, scratch, s)" for ts r
    using False by (subst JpegPayloader_loop.simps) simp
  then show ?thesis using m False by (simp add: JpegPayloader_packetize_def parse)
qed

text \<open>C39: A JPEG whose only quantization table has the id 1 passes the parser with two tables, the
  first of them empty, and \<open>packetize\<close> panics on it, whatever the closure and the buffers.\<close>

theorem JpegPayloader_missing_table_panics:
  assumes "JpegPayloader_new ssrc seq mtu = Inr p" and "mtu \<le> length scratch"
    and "JpegScan_parse jpeg = Inr info" and "js_qtables info ! 0 = []" and "js_scan info \<noteq> []"
  shows "JpegPayloader_packetize emit p jpeg t scratch s = Some (Inl Panic, p, scratch, s)"
proof -
  have "157 \<le> jpp_mtu p" "jpp_mtu p = mtu"
    using assms(1) by (auto simp: JpegPayloader_new_def rtp_HEADER_LEN_def split: if_splits)
  then show ?thesis using JpegPayloader_packetize_missing_table [of p scratch jpeg info] assms(2-5) by simp
qed

definition one_table_jpeg :: bytes where
  "one_table_jpeg = [0xFF, 0xD8, 0xFF, 0xDB, 0, 67, 1] @ replicate 64 1 @
    [0xFF, 0xC0, 0, 17, 8, 0, 8, 0, 8, 3, 1, 0x21, 1, 2, 0x11, 1, 3, 0x11, 1,
     0xFF, 0xDA, 0, 12, 3, 1, 0x00, 2, 0x11, 3, 0x11, 0, 63, 0, 7, 0xFF, 0xD9]"

lemma one_table_jpeg_parse:
  "JpegScan_parse one_table_jpeg = Inr \<lparr>js_width = 8, js_height = 8, js_type = 0,
    js_restart_interval = None, js_qtables = [[], replicate 64 1], js_qtable_count = 2, js_scan = [7]\<rparr>"
  by code_simp

theorem JpegScan_parse_well_formed_witness:
  "\<exists>info. JpegScan_parse one_table_jpeg = Inr info \<and> js_qtable_count info = 2 \<and>
     length (js_qtables info) = 2 \<and> js_qtables info ! 1 \<noteq> []"
  using JpegScan_parse_well_formed [of one_table_jpeg] by (simp add: one_table_jpeg_parse)

theorem JpegPayloader_missing_table_panics_witness:
  "\<exists>p. JpegPayloader_new 1 0 1400 = Inr p \<and>
    JpegPayloader_packetize Vec_emit p one_table_jpeg 0 (replicate 1400 0) [] =
      Some (Inl Panic, p, replicate 1400 0, [])"
proof -
  obtain p where p: "JpegPayloader_new 1 0 1400 = Inr p"
    by (simp add: JpegPayloader_new_def rtp_HEADER_LEN_def)
  from JpegPayloader_missing_table_panics [OF p, where scratch = "replicate 1400 0" and jpeg = one_table_jpeg
      and emit = Vec_emit and t = 0 and s = "[]"] p
  show ?thesis by (simp add: one_table_jpeg_parse)
qed

definition small_scan :: jpeg_scan where
  "small_scan = \<lparr>js_width = 8, js_height = 16, js_type = 65, js_restart_interval = Some 4,
     js_qtables = [replicate 64 1, []], js_qtable_count = 1, js_scan = [1, 2, 3]\<rparr>"

lemma small_scan_ok: "jpeg_scan_ok small_scan" "js_qtables small_scan ! 0 \<noteq> []"
  by (auto simp: small_scan_def jpeg_scan_ok_def jpeg_tables_ok_two jpeg_dims_ok_def intro: exI [of _ 1])

theorem JpegPayloader_roundtrip_witness:
  "\<exists>p packets d d' out. JpegPayloader_new 1 0 157 = Inr p \<and>
    JpegPayloader_packetize Vec_emit p (rebuilt_jpeg small_scan) 0 (replicate 157 0) [] \<noteq> None \<and>
    (\<forall>pkt \<in> set packets. length pkt \<le> 157) \<and>
    snd (JpegDepayloader_feed (host_target True) d packets) = d' \<and> JpegDepayloader_jpeg d' = Inr out \<and>
    JpegScan_parse out = Inr small_scan"
proof -
  obtain p where p: "JpegPayloader_new 1 0 157 = Inr p"
    by (simp add: JpegPayloader_new_def rtp_HEADER_LEN_def)
  obtain d :: jpeg_depayloader where "JpegDepayloader_new (replicate 2000 0) = Inr d"
    by (simp add: JpegDepayloader_new_def HEADER_RESERVE_def)
  then have d: "length (dp_buf d) = 2000" "counters_room (host_target True) 1 1 32767 d"
    by (auto simp: JpegDepayloader_new_def counters_room_def split: if_splits)
  have "length (js_scan small_scan) = 3" "js_scan small_scan \<noteq> []" by (simp_all add: small_scan_def)
  with JpegPayloader_roundtrip [OF p, where scratch = "replicate 157 0" and jpeg = "rebuilt_jpeg small_scan"
      and emit = Vec_emit and t = 0 and s = "[]" and d = d and tg = "host_target True"] p d
    JpegScan_parse_rebuilt [OF small_scan_ok] small_scan_ok(2)
  obtain packets out d' where
    "\<exists>scratch' p'. JpegPayloader_packetize Vec_emit p (rebuilt_jpeg small_scan) 0 (replicate 157 0) [] =
       (case write_seq Vec_emit packets [] of
          (Inl e, s') \<Rightarrow> Some (Inl e, p', scratch', s')
        | (Inr _, s') \<Rightarrow> Some (Inr (length packets), p', scratch', s'))"
    "\<forall>pkt \<in> set packets. length pkt \<le> 157" "snd (JpegDepayloader_feed (host_target True) d packets) = d'"
    "JpegDepayloader_jpeg d' = Inr out" "JpegScan_parse out = Inr small_scan"
    by (auto simp: HEADER_RESERVE_def)
  with p show ?thesis by (auto 4 6)
qed

theorem JpegDepayloader_no_panic_witness:
  "\<exists>d rs d'. JpegDepayloader_new (replicate 1026 0) = Inr d \<and>
    JpegDepayloader_feed (host_target True) d [[], replicate 20 26] = (rs, d') \<and> (\<forall>r \<in> set rs. no_panic r) \<and> no_panic (JpegDepayloader_jpeg d')"
proof -
  obtain d where d: "JpegDepayloader_new (replicate 1026 0) = Inr d"
    by (simp add: JpegDepayloader_new_def HEADER_RESERVE_def)
  obtain rs d' where f: "JpegDepayloader_feed (host_target True) d [[], replicate 20 26] = (rs, d')" by fastforce
  from JpegDepayloader_no_panic [OF d f] d f show ?thesis by auto
qed

lemma JpegDepayloader_push_accounting:
  assumes "rtp_Header_parse packet = Inr (h, payload)" and "rh_payload_type h = PT_JPEG"
    and "JpegDepayloader_push tg d packet = (x, d')" and g: "JpegDepayloader_gap tg d (rh_seq h) = Inr (gap, lost)"
  shows "dp_last_seq d' = Some (rh_seq h) \<and> dp_lost d' = lost"
proof -
  define same where "same = (\<lambda>(d :: jpeg_depayloader) (d' :: jpeg_depayloader). dp_last_seq d' = dp_last_seq d \<and> dp_lost d' = dp_lost d)"
  have fin: "same d (snd (JpegDepayloader_finish tg d))" for d :: jpeg_depayloader
    by (simp add: same_def JpegDepayloader_finish_def Let_def split: sum.split prod.split)
  have ab: "same d (snd (JpegDepayloader_abandon tg d y))" for d :: jpeg_depayloader and y
    by (simp add: same_def JpegDepayloader_abandon_def split: sum.split)
  have data: "same d (snd (JpegDepayloader_data tg d m pl p))" for d :: jpeg_depayloader and m pl p
    using fin ab by (simp add: same_def JpegDepayloader_data_def Let_def split: sum.split)
  have start: "same d (snd (JpegDepayloader_start tg d ts w ht ty q ri pl p))" for d :: jpeg_depayloader and ts w ht ty q ri pl p
    by (simp add: same_def JpegDepayloader_start_def Let_def split: option.split sum.split)
  let ?d = "d\<lparr>dp_jpeg := None, dp_lost := lost, dp_last_seq := Some (rh_seq h)\<rparr>"
  have "same d1 (snd (JpegDepayloader_payload tg d1 h payload gap))" for d1 :: jpeg_depayloader
    using data ab start [of d1] unfolding JpegDepayloader_payload_def Let_def same_def
    by (simp split: sum.split prod.split add: prod_eq_iff)
  from this [of ?d] show ?thesis using assms by (auto simp: JpegDepayloader_push_def same_def)
qed

text \<open>A packet that arrives late is "not a loss" when it arrives, but it moves the last sequence
  number back: the next packet in order then counts the \<open>k\<close> packets since the late one as lost,
  although each of them had been received.\<close>

lemma JpegDepayloader_reorder_counted_as_loss:
  assumes "dp_last_seq d = Some seq" and "k < 0x8000"
    and "rtp_Header_parse late = Inr (h1, pl1)" and "rh_payload_type h1 = PT_JPEG" and "rh_seq h1 = seq - of_nat k"
    and "rtp_Header_parse following = Inr (h2, pl2)" and "rh_payload_type h2 = PT_JPEG" and "rh_seq h2 = seq + 1"
    and "JpegDepayloader_feed tg d [late, following] = (rs, d2)"
    and "overflow_checks tg \<longrightarrow> unat (dp_lost d) + k < 2 ^ 32"
  shows "dp_lost d2 = dp_lost d + of_nat k"
proof -
  obtain x d1 where p1: "JpegDepayloader_push tg d late = (x, d1)" by fastforce
  obtain y d2' where p2: "JpegDepayloader_push tg d1 following = (y, d2')" by fastforce
  have d2: "d2' = d2" using assms(9) p1 p2 by simp
  have g1: "seq - of_nat k - seq - 1 \<ge> (0x8000 :: u16)"
  proof -
    have "(of_nat (65536 - (k + 1)) :: u16) = of_nat 65536 - of_nat (k + 1)"
      using assms(2) by (intro of_nat_diff) simp
    then have "seq - of_nat k - seq - 1 = (of_nat (65536 - (k + 1)) :: u16)" by simp
    moreover have "unat (of_nat (65536 - (k + 1)) :: u16) = 65536 - (k + 1)"
      by (rule unat_of_nat_u16) simp
    moreover have "(0x8000 :: nat) \<le> 65536 - (k + 1)" using assms(2) by simp
    ultimately have "(0x8000 :: nat) \<le> unat (seq - of_nat k - seq - 1)" by (simp only:)
    then show ?thesis unfolding word_le_nat_alt by simp
  qed
  have a1: "dp_last_seq d1 = Some (seq - of_nat k)" "dp_lost d1 = dp_lost d"
  proof -
    have "JpegDepayloader_gap tg d (rh_seq h1) = Inr (0, dp_lost d)"
      using g1 unfolding JpegDepayloader_gap_def assms(1,5) option.case Let_def by (auto simp: not_less)
    from JpegDepayloader_push_accounting [OF assms(3,4) p1 this] assms(5)
    show "dp_last_seq d1 = Some (seq - of_nat k)" "dp_lost d1 = dp_lost d" by simp_all
  qed
  have g2: "seq + 1 - (seq - of_nat k) - 1 = (of_nat k :: u16)" by simp
  have k: "unat (of_nat k :: u16) = k" "(of_nat k :: u16) < 0x8000" "(of_nat k :: u16) = 0 \<longleftrightarrow> k = 0"
    using assms(2) unat_of_nat_u16 [of k] by (auto simp: word_less_nat_alt unat_eq_zero [symmetric])
  have u2: "unat (of_nat k :: u32) = k" using assms(2) by (simp add: unat_of_nat)
  moreover have "unat (ucast (of_nat k :: u16) :: u32) = k" by (subst unat_ucast_up) (simp_all add: k(1))
  ultimately have u: "(ucast (of_nat k :: u16) :: u32) = of_nat k" "unat (of_nat k :: u32) = k"
    by (simp_all add: word_unat_eq_iff)
  have "JpegDepayloader_gap tg d1 (rh_seq h2) = Inr (of_nat k, dp_lost d + of_nat k)"
    using assms(8,10) a1 k u by (auto simp: JpegDepayloader_gap_def Let_def g2 not_le)
  from JpegDepayloader_push_accounting [OF assms(6,7) p2 this] d2 show ?thesis by simp
qed

lemma JpegDepayloader_reorder_counted_as_loss_witness:
  "\<exists>d rs d2. dp_lost d = 0 \<and> dp_last_seq d = Some 7 \<and>
    JpegDepayloader_feed (host_target True) d [rtp_header_bytes (Rtp_new 1 26 90000 4) False 0, rtp_header_bytes (Rtp_new 1 26 90000 8) False 0]
      = (rs, d2) \<and> dp_lost d2 = 3"
proof -
  obtain d0 where d0: "JpegDepayloader_new (replicate 2000 0) = Inr d0" "dp_lost d0 = 0"
    by (simp add: JpegDepayloader_new_def HEADER_RESERVE_def)
  define d where "d = d0\<lparr>dp_last_seq := Some 7\<rparr>"
  have d: "dp_lost d = 0" "dp_last_seq d = Some 7" by (simp_all add: d_def d0)
  let ?late = "rtp_header_bytes (Rtp_new 1 26 90000 4) False 0 @ []"
    and ?next = "rtp_header_bytes (Rtp_new 1 26 90000 8) False 0 @ []"
  obtain rs d2 where f: "JpegDepayloader_feed (host_target True) d [?late, ?next] = (rs, d2)" by fastforce
  note parse = rtp_Header_parse_bytes [OF Rtp_new_payload_type, where payload = "[]"]
  have "dp_lost d2 = dp_lost d + of_nat 3"
    by (rule JpegDepayloader_reorder_counted_as_loss [OF d(2) _ parse _ _ parse _ _ f])
      (simp_all add: Rtp_new_def PT_JPEG_def d)
  then show ?thesis using d f by auto
qed

end
