(* ===== verification/Mpegts.thy ===== *)
theory Mpegts
  imports Sinks Media Annexb
begin

text \<open>
  The MPEG-2 transport stream multiplexer of \<open>mpegts.rs\<close> and the demultiplexer its tests and
  hosts read it with. The sink is any writer, so \<open>Mux<S>\<close> is a record over the state of the
  sink. A transport packet is assembled in a 188-byte array, whose constant positions are list
  updates (they are in range); the ranges computed at run time keep their panics.
\<close>

section \<open>Constants, checksum and time\<close>

definition PACKET_LEN :: nat where
  "PACKET_LEN = 188"

definition PID_PAT :: u16 where
  "PID_PAT = 0x0000"

definition PID_PMT :: u16 where
  "PID_PMT = 0x1000"

definition PID_VIDEO :: u16 where
  "PID_VIDEO = 0x0100"

definition STREAM_TYPE_H264 :: u8 where
  "STREAM_TYPE_H264 = 0x1B"

definition STREAM_ID_VIDEO :: u8 where
  "STREAM_ID_VIDEO = 0xE0"

definition PSI_INTERVAL_PACKETS :: nat where
  "PSI_INTERVAL_PACKETS = 64"

definition PCR_DELAY_TICKS :: u64 where
  "PCR_DELAY_TICKS = 27000"

definition SYNC :: u8 where
  "SYNC = 0x47"

datatype pid = Pat | Pmt | Video

primrec pid_number :: "pid \<Rightarrow> u16" where
  "pid_number Pat = PID_PAT"
| "pid_number Pmt = PID_PMT"
| "pid_number Video = PID_VIDEO"

primrec pid_index :: "pid \<Rightarrow> nat" where
  "pid_index Pat = 0"
| "pid_index Pmt = 1"
| "pid_index Video = 2"

text \<open>One turn of the inner loop, the whole inner loop, and the fold over the bytes.\<close>

definition crc_bit :: "u32 \<Rightarrow> u32" where
  "crc_bit crc =
     (if crc AND 0x80000000 \<noteq> 0 then push_bit 1 crc XOR 0x04C11DB7 else push_bit 1 crc)"

definition crc_byte :: "u32 \<Rightarrow> u8 \<Rightarrow> u32" where
  "crc_byte crc b = (crc_bit ^^ 8) (crc XOR push_bit 24 (ucast b))"

definition crc32_mpeg2 :: "bytes \<Rightarrow> u32" where
  "crc32_mpeg2 bs = foldl crc_byte 0xFFFFFFFF bs"

definition pts_90k :: "target \<Rightarrow> micros \<Rightarrow> u64 result" where
  "pts_90k tgt micros = bind_r (u64_mul tgt micros 9) (\<lambda>x. Inr (x div 100 AND 0x1FFFFFFFF))"

section \<open>Sections and headers\<close>

definition pat_section :: bytes where
  "pat_section = [0x00, 0xB0, 0x0D, 0x00, 0x01, 0xC1, 0x00, 0x00, 0x00, 0x01,
     0xE0 OR (ucast (drop_bit 8 PID_PMT) AND 0x1F), ucast PID_PMT]"

definition pmt_section :: bytes where
  "pmt_section = [0x02, 0xB0, 0x12, 0x00, 0x01, 0xC1, 0x00, 0x00,
     0xE0 OR (ucast (drop_bit 8 PID_VIDEO) AND 0x1F), ucast PID_VIDEO, 0xF0, 0x00,
     STREAM_TYPE_H264, 0xE0 OR (ucast (drop_bit 8 PID_VIDEO) AND 0x1F), ucast PID_VIDEO, 0xF0, 0x00]"

definition write_pat :: "bytes \<Rightarrow> (nat \<times> bytes) result" where
  "write_pat out =
     bind_r (copy_range out 0 12 pat_section) (\<lambda>out.
     bind_r (copy_range out 12 16 (be32 (crc32_mpeg2 pat_section))) (\<lambda>out. Inr (16, out)))"

definition write_pmt :: "bytes \<Rightarrow> (nat \<times> bytes) result" where
  "write_pmt out =
     bind_r (copy_range out 0 17 pmt_section) (\<lambda>out.
     bind_r (copy_range out 17 21 (be32 (crc32_mpeg2 pmt_section))) (\<lambda>out. Inr (21, out)))"

definition pes_header :: "u64 \<Rightarrow> bytes" where
  "pes_header pts =
     [0x00, 0x00, 0x01, STREAM_ID_VIDEO, 0x00, 0x00, 0x84, 0x80, 0x05,
      0x20 OR ucast (drop_bit 29 pts AND 0x0E) OR 0x01,
      ucast (drop_bit 22 pts AND 0xFF),
      ucast (drop_bit 14 pts AND 0xFE) OR 0x01,
      ucast (drop_bit 7 pts AND 0xFF),
      ucast (push_bit 1 pts AND 0xFE) OR 0x01]"

text \<open>\<open>write_pcr\<close> on a slice of six bytes.\<close>

definition write_pcr :: "u64 \<Rightarrow> bytes" where
  "write_pcr base0 =
     (let base = base0 AND 0x1FFFFFFFF in
      [ucast (drop_bit 25 base), ucast (drop_bit 17 base), ucast (drop_bit 9 base),
       ucast (drop_bit 1 base), push_bit 7 (ucast (base AND 1)) OR 0x7E, 0x00])"

section \<open>Reading across slices\<close>

record chunks =
  ck_parts :: "bytes list"
  ck_idx :: nat
  ck_off :: nat

definition Chunks_new :: "bytes list \<Rightarrow> chunks" where
  "Chunks_new parts = \<lparr>ck_parts = parts, ck_idx = 0, ck_off = 0\<rparr>"

text \<open>The subtraction panics (or wraps) below zero.\<close>

definition Chunks_remaining :: "chunks \<Rightarrow> nat result" where
  "Chunks_remaining c =
     bind_r (subslice (ck_parts c) (ck_idx c) (length (ck_parts c))) (\<lambda>ps.
       let n = sum_list (map length ps) in
       if ck_off c \<le> n then Inr (n - ck_off c) else Inl Panic)"

lemma copy_range_length: "copy_range buf i j bs = Inr buf' \<Longrightarrow> length buf' = length buf"
  by (auto simp: copy_range_def split: if_splits)

function Chunks_read_loop :: "chunks \<Rightarrow> bytes \<Rightarrow> nat \<Rightarrow> (chunks \<times> bytes) result" where
  "Chunks_read_loop c out written =
     (if written < length out \<and> ck_idx c < length (ck_parts c) then
        (let part = ck_parts c ! ck_idx c in
         if ck_off c > length part then Inl Panic
         else
           (let avail = length part - ck_off c in
            if avail = 0 then Chunks_read_loop (c\<lparr>ck_idx := ck_idx c + 1, ck_off := 0\<rparr>) out written
            else
              (let tk = min avail (length out - written) in
               case subslice part (ck_off c) (ck_off c + tk) of
                 Inl e \<Rightarrow> Inl e
               | Inr bs \<Rightarrow>
                   (case copy_range out written (written + tk) bs of
                      Inl e \<Rightarrow> Inl e
                    | Inr out' \<Rightarrow>
                        Chunks_read_loop (c\<lparr>ck_off := ck_off c + tk\<rparr>) out' (written + tk)))))
      else Inr (c, out))"
  by pat_completeness auto

termination
proof (relation "measure (\<lambda>(c, out, written). (length (ck_parts c) - ck_idx c) + (length out - written))", goal_cases)
  case (3 c out written part avail tk bs out')
  then have "length out' = length out" "0 < tk" "written < length out" using copy_range_length by auto
  then show ?case by simp
qed auto

declare Chunks_read_loop.simps [simp del]

definition Chunks_read :: "chunks \<Rightarrow> bytes \<Rightarrow> (chunks \<times> bytes) result" where
  "Chunks_read c out = Chunks_read_loop c out 0"

section \<open>The multiplexer\<close>

record 's mux =
  mx_sink :: 's
  mx_cc :: bytes
  mx_packets :: nat
  mx_since_psi :: nat
  mx_psi_written :: nat
  mx_started :: bool

definition Mux_new :: "'s \<Rightarrow> 's mux" where
  "Mux_new sink = \<lparr>mx_sink = sink, mx_cc = [0, 0, 0], mx_packets = 0, mx_since_psi = 0,
     mx_psi_written = 0, mx_started = False\<rparr>"

definition Mux_write_header ::
  "'s mux \<Rightarrow> bytes \<Rightarrow> pid \<Rightarrow> bool \<Rightarrow> bool \<Rightarrow> bytes \<times> 's mux" where
  "Mux_write_header m buf p pusi adaptation =
     (let cc = mx_cc m ! pid_index p; pidn = pid_number p in
      (buf[0 := SYNC,
           1 := (ucast (drop_bit 8 pidn) AND 0x1F) OR (if pusi then 0x40 else 0),
           2 := ucast pidn,
           3 := (if adaptation then 0x30 else 0x10) OR (cc AND 0x0F)],
       m\<lparr>mx_cc := (mx_cc m)[pid_index p := (cc + 1) AND 0x0F]\<rparr>))"

definition Mux_emit :: "'s writer \<Rightarrow> bytes \<Rightarrow> ('s mux, unit) op" where
  "Mux_emit wr buf m =
     (case wr (mx_sink m) buf of
        (Inl e, s) \<Rightarrow> (Inl e, m\<lparr>mx_sink := s\<rparr>)
      | (Inr _, s) \<Rightarrow>
          (Inr (), m\<lparr>mx_sink := s, mx_packets := mx_packets m + 1, mx_since_psi := mx_since_psi m + 1\<rparr>))"

text \<open>One table packet: header, pointer field, section, and \<open>0xFF\<close> to the end.\<close>

definition Mux_table ::
  "'s writer \<Rightarrow> pid \<Rightarrow> (bytes \<Rightarrow> (nat \<times> bytes) result) \<Rightarrow> ('s mux, unit) op" where
  "Mux_table wr p section m =
     (let (buf, m1) = Mux_write_header m (replicate PACKET_LEN 0xFF) p True False;
          buf = buf[4 := 0] in
      case section (drop 5 buf) of
        Inl e \<Rightarrow> (Inl e, m1)
      | Inr (n, body) \<Rightarrow>
          Mux_emit wr (take 5 buf @ take n body @ replicate (length (drop n body)) 0xFF) m1)"

definition Mux_write_psi :: "'s writer \<Rightarrow> ('s mux, unit) op" where
  "Mux_write_psi wr m =
     (case Mux_table wr Pat write_pat m of
        (Inl e, m1) \<Rightarrow> (Inl e, m1)
      | (Inr _, m1) \<Rightarrow>
          (case Mux_table wr Pmt write_pmt m1 of
             (Inl e, m2) \<Rightarrow> (Inl e, m2)
           | (Inr _, m2) \<Rightarrow>
               (Inr (), m2\<lparr>mx_since_psi := 0, mx_psi_written := mx_psi_written m2 + 1\<rparr>)))"

text \<open>
  The adaptation field of a video packet: its length byte, flags, PCR and stuffing, written
  from position 4; the result is the position after it.
\<close>

definition Mux_adaptation :: "bool \<Rightarrow> bool \<Rightarrow> u64 \<Rightarrow> nat option \<Rightarrow> bytes \<Rightarrow> (nat \<times> bytes) result" where
  "Mux_adaptation first key pcr field buf =
     (case field of
        None \<Rightarrow> Inr (4, buf)
      | Some l \<Rightarrow>
          bind_r (put buf 4 [of_nat l]) (\<lambda>buf.
          if l \<ge> 1 then
            (let flags = (if first then 0x10 OR (if key then 0x40 else 0) else 0);
                 used = (if first then 7 else 1) in
             bind_r (put buf 5 [flags]) (\<lambda>buf.
             bind_r (if first then bind_r (copy_range buf 6 12 (write_pcr pcr)) (\<lambda>buf. Inr (12, buf))
                     else Inr (6, buf)) (\<lambda>(p, buf).
             if l < used then Inl Panic
             else bind_r (copy_range buf p (p + (l - used)) (replicate (l - used) 0xFF)) (\<lambda>buf.
             Inr (p + (l - used), buf)))))
          else Inr (5, buf)))"

definition Mux_field :: "bool \<Rightarrow> nat \<Rightarrow> nat option" where
  "Mux_field first remaining =
     (if first then Some (max (183 - min remaining 176) 7)
      else if remaining \<ge> 184 then None
      else Some (183 - remaining))"

text \<open>\<open>while reader.remaining() > 0\<close>\<close>

partial_function (option) Mux_video ::
  "'s writer \<Rightarrow> bool \<Rightarrow> u64 \<Rightarrow> chunks \<Rightarrow> bool \<Rightarrow> bytes \<Rightarrow> 's mux \<Rightarrow> (unit result \<times> 's mux) option" where
  "Mux_video wr key pcr c first buf m =
     (case Chunks_remaining c of
        Inl e \<Rightarrow> Some (Inl e, m)
      | Inr remaining \<Rightarrow>
          if remaining > 0 then
            (let field = Mux_field first remaining;
                 (buf, m1) = Mux_write_header m buf Video first (field \<noteq> None) in
             case Mux_adaptation first key pcr field buf of
               Inl e \<Rightarrow> Some (Inl e, m1)
             | Inr (p, buf) \<Rightarrow>
                 if p > PACKET_LEN then Some (Inl Panic, m1)
                 else
                   (case Chunks_read c (drop p buf) of
                      Inl e \<Rightarrow> Some (Inl e, m1)
                    | Inr (c', body) \<Rightarrow>
                        (let buf = take p buf @ body in
                         case Mux_emit wr buf m1 of
                           (Inl e, m2) \<Rightarrow> Some (Inl e, m2)
                         | (Inr _, m2) \<Rightarrow> Mux_video wr key pcr c' False buf m2)))
          else Some (Inr (), m))"

definition Mux_push ::
  "'s writer \<Rightarrow> target \<Rightarrow> 's mux \<Rightarrow> media_packet \<Rightarrow> (unit result \<times> 's mux) option" where
  "Mux_push wr tgt m pkt =
     (if mp_codec pkt \<noteq> H264 \<or> mp_data pkt = [] then Some (Inl (Err Unsupported), m)
      else
        let key = mp_key pkt \<or> contains_idr (mp_data pkt) in
        case (if \<not> mx_started m \<or> key \<or> mx_since_psi m \<ge> PSI_INTERVAL_PACKETS
              then (case Mux_write_psi wr m of
                      (Inl e, m1) \<Rightarrow> (Inl e, m1)
                    | (Inr _, m1) \<Rightarrow> (Inr (), m1\<lparr>mx_started := True\<rparr>))
              else (Inr (), m)) of
          (Inl e, m1) \<Rightarrow> Some (Inl e, m1)
        | (Inr _, m1) \<Rightarrow>
            (case pts_90k tgt (mp_timestamp pkt) of
               Inl e \<Rightarrow> Some (Inl e, m1)
             | Inr pts \<Rightarrow>
                 let pcr = (if PCR_DELAY_TICKS \<le> pts then pts - PCR_DELAY_TICKS else 0);
                     aud = (if starts_with_aud (mp_data pkt) then [] else AUD_NAL) in
                 Mux_video wr key pcr (Chunks_new [pes_header pts, aud, mp_data pkt]) True
                   (replicate PACKET_LEN 0) m1))"

section \<open>The demultiplexer\<close>

text \<open>Its errors are static strings, so it has a result type of its own.\<close>

datatype demux_fault = DemuxErr string | DemuxPanic

type_synonym 'a demux_result = "demux_fault + 'a"

definition or_panic :: "'a result \<Rightarrow> ('a \<Rightarrow> 'b demux_result) \<Rightarrow> 'b demux_result" where
  "or_panic m f = (case m of Inl _ \<Rightarrow> Inl DemuxPanic | Inr x \<Rightarrow> f x)"

lemma or_panic_simps [simp]: "or_panic (Inr x) f = f x" "or_panic (Inl e) f = Inl DemuxPanic"
  by (simp_all add: or_panic_def)

record report =
  rp_access_units :: "bytes list"
  rp_pts :: "u64 list"
  rp_stream_type :: "u8 option"
  rp_pcr :: "u64 list"
  rp_cc_errors :: "nat list"
  rp_packets :: nat

text \<open>The locals of \<open>parse\<close>.\<close>

record demux_state =
  dx_report :: report
  dx_expect_cc :: "u8 option list"
  dx_current :: "(bytes \<times> u64) option"

definition demux_init :: demux_state where
  "demux_init = \<lparr>dx_report = \<lparr>rp_access_units = [], rp_pts = [], rp_stream_type = None, rp_pcr = [],
       rp_cc_errors = [0, 0, 0], rp_packets = 0\<rparr>,
     dx_expect_cc = [None, None, None], dx_current = None\<rparr>"

definition demux_pcr :: "bytes \<Rightarrow> u64" where
  "demux_pcr b = push_bit 25 (ucast (b ! 0)) OR push_bit 17 (ucast (b ! 1)) OR
     push_bit 9 (ucast (b ! 2)) OR push_bit 1 (ucast (b ! 3)) OR ucast (drop_bit 7 (b ! 4))"

definition demux_pts :: "bytes \<Rightarrow> u64" where
  "demux_pts b = push_bit 29 (ucast (b ! 0 AND 0x0E)) OR push_bit 22 (ucast (b ! 1)) OR
     push_bit 14 (ucast (b ! 2 AND 0xFE)) OR push_bit 7 (ucast (b ! 3)) OR ucast (drop_bit 1 (b ! 4))"

definition demux_flush :: "demux_state \<Rightarrow> demux_state" where
  "demux_flush d =
     (case dx_current d of
        None \<Rightarrow> d
      | Some (au, pts) \<Rightarrow>
          d\<lparr>dx_current := None,
            dx_report := (dx_report d)\<lparr>rp_access_units := rp_access_units (dx_report d) @ [au],
              rp_pts := rp_pts (dx_report d) @ [pts]\<rparr>\<rparr>)"

text \<open>A PMT section: the stream type of the first elementary stream.\<close>

definition demux_pmt :: "demux_state \<Rightarrow> bytes \<Rightarrow> demux_state demux_result" where
  "demux_pmt d payload =
     or_panic (idx payload 0) (\<lambda>ptr.
     or_panic (subslice payload (1 + unat ptr) (length payload)) (\<lambda>sec.
     or_panic (idx sec 10) (\<lambda>s10. or_panic (idx sec 11) (\<lambda>s11.
     let pil = unat (s10 AND 0x0F) * 2 ^ 8 + unat s11 in
     or_panic (subslice sec (12 + pil) (length sec)) (\<lambda>es.
     or_panic (idx es 1) (\<lambda>e1. or_panic (idx es 2) (\<lambda>e2.
     if from_be16 (e1 AND 0x1F) e2 = PID_VIDEO then
       or_panic (idx es 0) (\<lambda>e0.
         Inr (d\<lparr>dx_report := (dx_report d)\<lparr>rp_stream_type := Some e0\<rparr>\<rparr>))
     else Inr d)))))))"

text \<open>The payload of a packet of the video stream.\<close>

definition demux_video :: "demux_state \<Rightarrow> bool \<Rightarrow> bytes \<Rightarrow> demux_state demux_result" where
  "demux_video d pusi payload =
     (if pusi then
        (let d = demux_flush d in
         if length payload < 9 \<or> take 4 payload \<noteq> [0, 0, 1, 0xE0] then Inl (DemuxErr ''bad PES start'')
         else
           let hdl = unat (payload ! 8) in
           or_panic (if payload ! 7 AND 0x80 \<noteq> 0 then
                       bind_r (subslice payload 9 14) (\<lambda>b. Inr (demux_pts b))
                     else Inr 0) (\<lambda>pts.
           or_panic (subslice payload (9 + hdl) (length payload)) (\<lambda>au.
             Inr (d\<lparr>dx_current := Some (au, pts)\<rparr>))))
      else
        (case dx_current d of
           None \<Rightarrow> Inr d
         | Some (au, pts) \<Rightarrow> Inr (d\<lparr>dx_current := Some (au @ payload, pts)\<rparr>)))"

definition demux_cc :: "demux_state \<Rightarrow> nat \<Rightarrow> u8 \<Rightarrow> demux_state" where
  "demux_cc d i cc =
     (let r = dx_report d;
          r' = (case dx_expect_cc d ! i of
                  None \<Rightarrow> r
                | Some e \<Rightarrow>
                    if e \<noteq> cc then r\<lparr>rp_cc_errors := (rp_cc_errors r)[i := rp_cc_errors r ! i + 1]\<rparr>
                    else r) in
      d\<lparr>dx_report := r', dx_expect_cc := (dx_expect_cc d)[i := Some ((cc + 1) AND 0x0F)]\<rparr>)"

text \<open>The body of \<open>for pkt in ts.chunks_exact(PACKET_LEN)\<close>, on a packet of 188 bytes.\<close>

definition demux_packet :: "demux_state \<Rightarrow> bytes \<Rightarrow> demux_state demux_result" where
  "demux_packet d0 pkt =
     (let d = d0\<lparr>dx_report := (dx_report d0)\<lparr>rp_packets := rp_packets (dx_report d0) + 1\<rparr>\<rparr> in
      if pkt ! 0 \<noteq> SYNC then Inl (DemuxErr ''bad sync byte'')
      else
        let pusi = (pkt ! 1 AND 0x40 \<noteq> 0);
            pid = from_be16 (pkt ! 1 AND 0x1F) (pkt ! 2);
            afc = drop_bit 4 (pkt ! 3) AND 0x3;
            cc = pkt ! 3 AND 0x0F in
        case (if pid = PID_PAT then Some 0 else if pid = PID_PMT then Some 1
              else if pid = PID_VIDEO then Some 2 else None) of
          None \<Rightarrow> Inl (DemuxErr ''unexpected pid'')
        | Some i \<Rightarrow>
            let d = demux_cc d i cc;
                l = unat (pkt ! 4);
                d = (if afc AND 0x2 \<noteq> 0 \<and> l \<ge> 7 \<and> pkt ! 5 AND 0x10 \<noteq> 0
                     then d\<lparr>dx_report := (dx_report d)\<lparr>rp_pcr := rp_pcr (dx_report d) @ [demux_pcr (cut pkt 6 12)]\<rparr>\<rparr>
                     else d);
                p = (if afc AND 0x2 \<noteq> 0 then 4 + (1 + l) else 4) in
            if afc AND 0x1 = 0 then Inr d
            else or_panic (subslice pkt p (length pkt)) (\<lambda>payload.
              if pid = PID_PMT \<and> pusi then demux_pmt d payload
              else if pid = PID_VIDEO then demux_video d pusi payload
              else Inr d))"

fun demux_packets :: "demux_state \<Rightarrow> bytes list \<Rightarrow> demux_state demux_result" where
  "demux_packets d [] = Inr d"
| "demux_packets d (pkt # pkts) =
     (case demux_packet d pkt of Inl e \<Rightarrow> Inl e | Inr d' \<Rightarrow> demux_packets d' pkts)"

definition demux_parse :: "bytes \<Rightarrow> report demux_result" where
  "demux_parse ts =
     (if length ts mod PACKET_LEN \<noteq> 0 then Inl (DemuxErr ''length is not a multiple of 188'')
      else
        (case demux_packets demux_init (chunks_of PACKET_LEN ts) of
           Inl e \<Rightarrow> Inl e
         | Inr d \<Rightarrow> Inr (dx_report (demux_flush d))))"

section \<open>The checksum\<close>

lemma crc_bit_shift: "\<not> bit crc 31 \<Longrightarrow> crc_bit crc = push_bit 1 crc"
  by (simp add: crc_bit_def and_exp_eq_0_iff_not_bit [of _ 31, simplified])

lemma crc_bits_shift:
  "(\<And>i. 32 - n \<le> i \<Longrightarrow> i < 32 \<Longrightarrow> \<not> bit crc i) \<Longrightarrow> n \<le> 32 \<Longrightarrow> (crc_bit ^^ n) crc = push_bit n crc"
proof (induction n)
  case (Suc n)
  have "(crc_bit ^^ n) crc = push_bit n crc" using Suc by simp
  moreover have "\<not> bit (push_bit n crc) 31"
    using Suc.prems(1) [of "31 - n"] Suc.prems(2) by (simp add: bit_push_bit_iff)
  ultimately show ?case by (simp add: crc_bit_shift push_bit_push_bit add.commute)
qed simp

text \<open>A byte equal to the top byte of the register shifts it out.\<close>

lemma crc_byte_top: "crc_byte crc (ucast (drop_bit 24 crc)) = push_bit 8 crc"
proof -
  let ?x = "crc XOR push_bit 24 (ucast (ucast (drop_bit 24 crc) :: u8)) :: u32"
  have x: "bit ?x i \<longleftrightarrow> bit crc i \<and> i < 24" if "i < 32" for i
    using that by (auto simp: bit_simps)
  have "(crc_bit ^^ 8) ?x = push_bit 8 ?x" by (rule crc_bits_shift) (simp_all add: x)
  also have "\<dots> = push_bit 8 crc"
    by (rule bit_word_eqI) (auto simp: bit_push_bit_iff x)
  finally show ?thesis by (simp add: crc_byte_def)
qed

lemma crc32_mpeg2_append_crc: "crc32_mpeg2 (bs @ be32 (crc32_mpeg2 bs)) = 0"
proof -
  define c where "c = crc32_mpeg2 bs"
  have s: "(ucast (drop_bit 16 c) :: u8) = ucast (drop_bit 24 (push_bit 8 c))"
    "(ucast (drop_bit 8 c) :: u8) = ucast (drop_bit 24 (push_bit 16 c))"
    "(ucast c :: u8) = ucast (drop_bit 24 (push_bit 24 c))"
    by (rule bit_word_eqI, auto simp: bit_simps)+
  have "foldl crc_byte c (be32 c) = push_bit 32 c"
    by (simp only: be32_def foldl.simps crc_byte_top s(1)) (simp only: s crc_byte_top push_bit_push_bit, simp add: crc_byte_top)
  also have "\<dots> = 0" by (rule bit_word_eqI) (simp add: bit_simps)
  finally show ?thesis by (simp add: crc32_mpeg2_def c_def)
qed

section \<open>Reading across slices\<close>

definition chunks_hold :: "chunks \<Rightarrow> bytes \<Rightarrow> bool" where
  "chunks_hold c rest \<longleftrightarrow>
     ck_idx c \<le> length (ck_parts c) \<and>
     (if ck_idx c < length (ck_parts c) then ck_off c \<le> length (ck_parts c ! ck_idx c) else ck_off c = 0) \<and>
     rest = drop (ck_off c) (concat (drop (ck_idx c) (ck_parts c)))"

lemma Chunks_new_hold: "chunks_hold (Chunks_new parts) (concat parts)"
  by (simp add: chunks_hold_def Chunks_new_def)

lemma chunks_hold_current:
  "chunks_hold c rest \<Longrightarrow> ck_idx c < length (ck_parts c) \<Longrightarrow>
   rest = drop (ck_off c) (ck_parts c ! ck_idx c) @ concat (drop (ck_idx c + 1) (ck_parts c))"
  by (simp add: chunks_hold_def Cons_nth_drop_Suc [symmetric])

lemma Chunks_remaining_hold:
  assumes "chunks_hold c rest"
  shows "Chunks_remaining c = Inr (length rest)"
proof -
  have len: "sum_list (map length ps) = length (concat ps)" for ps :: "bytes list"
    by (simp add: length_concat)
  have "ck_off c \<le> length (concat (drop (ck_idx c) (ck_parts c)))"
    using assms by (cases "ck_idx c < length (ck_parts c)")
      (auto simp: chunks_hold_def Cons_nth_drop_Suc [symmetric])
  then show ?thesis using assms by (simp add: Chunks_remaining_def chunks_hold_def len)
qed

lemma Chunks_read_loop_hold:
  "chunks_hold c rest \<Longrightarrow> written \<le> length out \<Longrightarrow> length out - written \<le> length rest \<Longrightarrow>
   \<exists>c'. Chunks_read_loop c out written = Inr (c', take written out @ take (length out - written) rest) \<and>
     chunks_hold c' (drop (length out - written) rest)"
proof (induction c out written arbitrary: rest rule: Chunks_read_loop.induct)
  case (1 c out written)
  note un = Chunks_read_loop.simps [of c out written]
  show ?case
  proof (cases "written < length out")
    case False
    then show ?thesis using "1.prems" un by simp
  next
    case w: True
    have i: "ck_idx c < length (ck_parts c)"
    proof (rule ccontr)
      assume "\<not> ck_idx c < length (ck_parts c)"
      then have "rest = []" using "1.prems"(1) by (simp add: chunks_hold_def)
      then show False using "1.prems"(3) w by simp
    qed
    define part where "part = ck_parts c ! ck_idx c"
    have po: "ck_off c \<le> length part" using "1.prems"(1) i by (simp add: chunks_hold_def part_def)
    have rest: "rest = drop (ck_off c) part @ concat (drop (ck_idx c + 1) (ck_parts c))"
      using chunks_hold_current [OF "1.prems"(1) i] by (simp add: part_def)
    have wi: "written < length out \<and> ck_idx c < length (ck_parts c)" using w i by simp
    have no: "\<not> length part < ck_off c" using po by simp
    show ?thesis
    proof (cases "length part - ck_off c = 0")
      case True
      let ?c = "c\<lparr>ck_idx := ck_idx c + 1, ck_off := 0\<rparr>"
      have "Chunks_read_loop c out written = Chunks_read_loop ?c out written"
        using un wi no True by (simp add: Let_def part_def)
      moreover have "chunks_hold ?c rest" using i rest True by (simp add: chunks_hold_def)
      ultimately show ?thesis using "1.IH"(1) [OF wi part_def no refl True] "1.prems" by simp
    next
      case False
      define tk where "tk = min (length part - ck_off c) (length out - written)"
      let ?c = "c\<lparr>ck_off := ck_off c + tk\<rparr>"
      have tk: "0 < tk" "ck_off c + tk \<le> length part" "written + tk \<le> length out"
        using False w by (auto simp: tk_def)
      let ?bs = "take tk (drop (ck_off c) part)"
      have bs: "subslice part (ck_off c) (ck_off c + tk) = Inr ?bs" "length ?bs = tk" using tk by simp_all
      have rt: "take tk rest = ?bs" "drop tk rest = drop (ck_off c + tk) part @ concat (drop (ck_idx c + 1) (ck_parts c))"
        using rest tk by (simp_all add: add.commute)
      let ?out = "take written out @ ?bs @ drop (written + tk) out"
      have cp: "copy_range out written (written + tk) ?bs = Inr ?out"
        using tk bs by (intro copy_range_ok) simp_all
      have lo: "length ?out = length out" using tk bs by simp
      have step: "Chunks_read_loop c out written = Chunks_read_loop ?c ?out (written + tk)"
        by (subst un) (simp only: wi Let_def part_def [symmetric] no False tk_def [symmetric] bs cp sum.case if_True if_False simp_thms)
      have "chunks_hold ?c (drop tk rest)"
        using i tk rt(2) by (simp add: chunks_hold_def part_def [symmetric] Cons_nth_drop_Suc [symmetric])
      moreover have lw: "length out - written = tk + (length out - (written + tk))" using tk by simp
      have "take (length out - written) rest = ?bs @ take (length out - (written + tk)) (drop tk rest)"
        unfolding lw take_add rt(1) ..
      moreover have "drop (length out - written) rest = drop (length out - (written + tk)) (drop tk rest)"
        unfolding lw by (simp add: add.commute)
      moreover have "take (written + tk) ?out = take written out @ ?bs" using tk bs by simp
      moreover have "length ?out - (written + tk) \<le> length (drop tk rest)" using "1.prems"(3) lo by simp
      ultimately show ?thesis
        using "1.IH"(2) [OF wi part_def no refl False tk_def bs(1) cp, of "drop tk rest"] tk(3) bs(2)
        unfolding step lo by simp
    qed
  qed
qed

lemma Chunks_read_hold:
  assumes "chunks_hold c rest" "length out \<le> length rest"
  obtains c' where "Chunks_read c out = Inr (c', take (length out) rest)" "chunks_hold c' (drop (length out) rest)"
  using Chunks_read_loop_hold [OF assms(1), of 0 out] assms(2) that by (auto simp: Chunks_read_def)

section \<open>The packets of an access unit\<close>

definition cc_next :: "u8 \<Rightarrow> u8" where
  "cc_next cc = (cc + 1) AND 0x0F"

definition ts_header :: "u8 \<Rightarrow> pid \<Rightarrow> bool \<Rightarrow> bool \<Rightarrow> bytes" where
  "ts_header cc p pusi adaptation =
     [SYNC, (ucast (drop_bit 8 (pid_number p)) AND 0x1F) OR (if pusi then 0x40 else 0),
      ucast (pid_number p), (if adaptation then 0x30 else 0x10) OR (cc AND 0x0F)]"

lemma length_ts_header [simp]: "length (ts_header cc p pusi ad) = 4"
  by (simp add: ts_header_def)

lemma Mux_write_header_eq:
  assumes "4 \<le> length buf"
  shows "Mux_write_header m buf p pusi ad =
    (ts_header (mx_cc m ! pid_index p) p pusi ad @ drop 4 buf,
     m\<lparr>mx_cc := (mx_cc m)[pid_index p := cc_next (mx_cc m ! pid_index p)]\<rparr>)"
proof -
  obtain a b c d rest where "buf = a # b # c # d # rest"
    using assms by (auto simp: numeral_eq_Suc Suc_le_length_iff)
  then show ?thesis by (simp add: Mux_write_header_def Let_def ts_header_def cc_next_def)
qed

definition first_packet :: "u8 \<Rightarrow> bool \<Rightarrow> u64 \<Rightarrow> bytes \<Rightarrow> bytes" where
  "first_packet cc key pcr es =
     (let l = 183 - min (length es) 176 in
      ts_header cc Video True True @ [of_nat l, 0x10 OR (if key then 0x40 else 0)] @ write_pcr pcr @
      replicate (l - 7) 0xFF @ take 176 es)"

definition next_packet :: "u8 \<Rightarrow> bytes \<Rightarrow> bytes" where
  "next_packet cc c =
     (if length c = 184 then ts_header cc Video False False @ c
      else
        let l = 183 - length c in
        ts_header cc Video False True @ [of_nat l] @ (if l = 0 then [] else 0 # replicate (l - 1) 0xFF) @ c)"

fun tail_packets :: "u8 \<Rightarrow> bytes list \<Rightarrow> bytes list" where
  "tail_packets cc [] = []"
| "tail_packets cc (c # cs) = next_packet cc c # tail_packets (cc_next cc) cs"

definition video_packets :: "u8 \<Rightarrow> bool \<Rightarrow> u64 \<Rightarrow> bytes \<Rightarrow> bytes list" where
  "video_packets cc key pcr es =
     first_packet cc key pcr es # tail_packets (cc_next cc) (chunks_of 184 (drop 176 es))"

lemma length_write_pcr [simp]: "length (write_pcr pcr) = 6"
  by (simp add: write_pcr_def Let_def)

lemma length_tail_packets [simp]: "length (tail_packets cc cs) = length cs"
  by (induction cs arbitrary: cc) simp_all

lemma Mux_adaptation_first:
  assumes "length hd4 = 4" "length rest = 184" "7 \<le> l" "l \<le> 183"
  shows "Mux_adaptation True key pcr (Some l) (hd4 @ rest) =
    Inr (5 + l, hd4 @ [of_nat l, 0x10 OR (if key then 0x40 else 0)] @ write_pcr pcr @
      replicate (l - 7) 0xFF @ drop (l + 1) rest)"
proof -
  let ?fl = "0x10 OR (if key then 0x40 else 0) :: u8"
  have 1: "put (hd4 @ rest) 4 [of_nat l] = Inr ((hd4 @ [of_nat l]) @ drop 1 rest)"
    using put_at_end [of hd4 4 "[of_nat l]" rest] assms by simp
  have 2: "put ((hd4 @ [of_nat l]) @ drop 1 rest) 5 [?fl] = Inr ((hd4 @ [of_nat l, ?fl]) @ drop 2 rest)"
    using put_at_end [of "hd4 @ [of_nat l]" 5 "[?fl]" "drop 1 rest"] assms by (simp add: numeral_2_eq_2)
  have 3: "copy_range ((hd4 @ [of_nat l, ?fl]) @ drop 2 rest) 6 12 (write_pcr pcr) =
      Inr ((hd4 @ [of_nat l, ?fl] @ write_pcr pcr) @ drop 8 rest)"
    using copy_range_at_end [of "hd4 @ [of_nat l, ?fl]" 6 12 "write_pcr pcr" "drop 2 rest"] assms by simp
  have 4: "copy_range ((hd4 @ [of_nat l, ?fl] @ write_pcr pcr) @ drop 8 rest) 12 (12 + (l - 7)) (replicate (l - 7) 0xFF) =
      Inr ((hd4 @ [of_nat l, ?fl] @ write_pcr pcr @ replicate (l - 7) 0xFF) @ drop (l + 1) rest)"
    using copy_range_at_end [of "hd4 @ [of_nat l, ?fl] @ write_pcr pcr" 12 "12 + (l - 7)" "replicate (l - 7) 0xFF" "drop 8 rest"]
      assms by simp
  have "1 \<le> l" "\<not> l < 7" "12 + (l - 7) = 5 + l" using assms by simp_all
  then show ?thesis
    unfolding Mux_adaptation_def option.case 1 bind_r_simps Let_def if_True 2 3 prod.case
    using 4 by (simp only: if_True if_False bind_r_simps) simp
qed

lemma Mux_adaptation_next:
  assumes "length hd4 = 4" "length rest = 184" "l \<le> 183"
  shows "Mux_adaptation False key pcr (Some l) (hd4 @ rest) =
    Inr (5 + l, hd4 @ [of_nat l] @ (if l = 0 then [] else 0 # replicate (l - 1) 0xFF) @ drop (l + 1) rest)"
proof -
  have 1: "put (hd4 @ rest) 4 [of_nat l] = Inr ((hd4 @ [of_nat l]) @ drop 1 rest)"
    using put_at_end [of hd4 4 "[of_nat l]" rest] assms by simp
  show ?thesis
  proof (cases "l = 0")
    case True
    then show ?thesis using 1 by (simp add: Mux_adaptation_def)
  next
    case False
    have 2: "put ((hd4 @ [of_nat l]) @ drop 1 rest) 5 [0] = Inr ((hd4 @ [of_nat l, 0]) @ drop 2 rest)"
      using put_at_end [of "hd4 @ [of_nat l]" 5 "[0]" "drop 1 rest"] assms by (simp add: numeral_2_eq_2)
    have 4: "copy_range ((hd4 @ [of_nat l, 0]) @ drop 2 rest) 6 (6 + (l - 1)) (replicate (l - 1) 0xFF) =
        Inr ((hd4 @ [of_nat l, 0] @ replicate (l - 1) 0xFF) @ drop (l + 1) rest)"
      using copy_range_at_end [of "hd4 @ [of_nat l, 0]" 6 "6 + (l - 1)" "replicate (l - 1) 0xFF" "drop 2 rest"]
        assms False by simp
    have "1 \<le> l" "\<not> l < 1" "6 + (l - 1) = 5 + l" using False by simp_all
    then show ?thesis
      unfolding Mux_adaptation_def option.case 1 bind_r_simps Let_def if_True if_False 2 prod.case
      using 4 False by (simp only: if_True if_False bind_r_simps) simp
  qed
qed

section \<open>What the multiplexer sends\<close>

text \<open>
  An operation of the mux seen from its sink: the packets are offered in order, the first
  refusal ends it with its error, and with all of them accepted the mux is \<open>fin\<close> around the
  sink they leave.
\<close>

definition mux_sends :: "'s writer \<Rightarrow> bytes list \<Rightarrow> 's \<Rightarrow> 's mux \<Rightarrow> unit result \<times> 's mux \<Rightarrow> bool" where
  "mux_sends wr pkts s fin y \<longleftrightarrow>
     (case write_seq wr pkts s of
        (Inl e, s') \<Rightarrow> (\<exists>m'. y = (Inl e, m') \<and> mx_sink m' = s')
      | (Inr _, s') \<Rightarrow> y = (Inr (), fin\<lparr>mx_sink := s'\<rparr>))"

lemma mux_sends_Nil: "mux_sends wr [] (mx_sink m) m (Inr (), m)"
  by (simp add: mux_sends_def)

lemma mux_sends_emit:
  "mux_sends wr [b] (mx_sink m) (m\<lparr>mx_packets := mx_packets m + 1, mx_since_psi := mx_since_psi m + 1\<rparr>)
     (Mux_emit wr b m)"
  by (cases "wr (mx_sink m) b")
    (auto simp: mux_sends_def Mux_emit_def split: sum.splits)

lemma mux_sends_step:
  assumes "mux_sends wr ps s fin1 y1"
    and "\<And>s1. y1 = (Inr (), fin1\<lparr>mx_sink := s1\<rparr>) \<Longrightarrow> mux_sends wr qs s1 fin2 y2"
    and "\<And>e m'. y1 = (Inl e, m') \<Longrightarrow> y2 = (Inl e, m')"
  shows "mux_sends wr (ps @ qs) s fin2 y2"
  using assms by (fastforce simp: mux_sends_def write_seq_append split: prod.splits sum.splits)

lemma pid_facts [simp]:
  "pid_index Video = 2" "pid_index Pat = 0" "pid_index Pmt = 1"
  by simp_all

definition mux_after :: "nat \<Rightarrow> 's mux \<Rightarrow> 's mux" where
  "mux_after n m = m\<lparr>mx_cc := (mx_cc m)[2 := (cc_next ^^ n) (mx_cc m ! 2)],
     mx_packets := mx_packets m + n, mx_since_psi := mx_since_psi m + n\<rparr>"

lemma next_packet_parts:
  assumes "length c \<le> 184" "c \<noteq> []"
  shows "\<exists>pre. next_packet cc c = pre @ c \<and> length pre + length c = 188"
  using assms by (cases "length c = 184") (auto simp: next_packet_def Let_def)

lemma length_next_packet [simp]:
  "length c \<le> 184 \<Longrightarrow> c \<noteq> [] \<Longrightarrow> length (next_packet cc c) = 188"
  using next_packet_parts [of c cc] by fastforce

lemma length_first_packet [simp]: "length (first_packet cc key pcr es) = 188"
  by (simp add: first_packet_def Let_def)

lemma Mux_video_tail:
  assumes "chunks_hold c rest" "length buf = 188" "2 < length (mx_cc m)"
  shows "\<exists>y. Mux_video wr key pcr c False buf m = Some y \<and>
    mux_sends wr (tail_packets (mx_cc m ! 2) (chunks_of 184 rest)) (mx_sink m)
      (mux_after (length (chunks_of 184 rest)) m) y"
  using assms
proof (induction "184 :: nat" rest arbitrary: c buf m rule: chunks_of.induct)
  case (1 rest)
  note un = Mux_video.simps [of wr key pcr c False buf m]
  have rem: "Chunks_remaining c = Inr (length rest)" by (rule Chunks_remaining_hold [OF "1.prems"(1)])
  show ?case
  proof (cases "rest = []")
    case True
    then show ?thesis using un rem by (simp add: mux_sends_def mux_after_def)
  next
    case False
    let ?cc = "mx_cc m ! 2" and ?ch = "take 184 rest"
    let ?m1 = "m\<lparr>mx_cc := (mx_cc m)[2 := cc_next ?cc]\<rparr>"
    define big where "big = (184 \<le> length rest)"
    let ?f = "Mux_field False (length rest)"
    have hdr: "Mux_write_header m buf Video False (?f \<noteq> None) =
        (ts_header ?cc Video False (?f \<noteq> None) @ drop 4 buf, ?m1)"
      using "1.prems"(2) by (subst Mux_write_header_eq) simp_all
    have len: "0 < length rest" using False by simp
    obtain p pre stale where ad: "Mux_adaptation False key pcr ?f (ts_header ?cc Video False (?f \<noteq> None) @ drop 4 buf) =
        Inr (p, pre @ stale)" "length pre = p" "length stale = length ?ch" "p + length ?ch = 188"
        "pre @ ?ch = next_packet ?cc ?ch"
    proof (cases big)
      case True
      then have "?f = None" "length ?ch = 184" by (simp_all add: Mux_field_def big_def)
      then show thesis
        using that [of 4 "ts_header ?cc Video False False" "drop 4 buf"] "1.prems"(2)
        by (simp add: Mux_adaptation_def next_packet_def)
    next
      case False
      let ?l = "183 - length rest"
      have f: "?f = Some ?l" "length ?ch = length rest" using False by (simp_all add: Mux_field_def big_def)
      have "length (drop 4 buf) = 184" using "1.prems"(2) by simp
      note an = Mux_adaptation_next [OF length_ts_header this, where l = ?l and key = key and pcr = pcr, of ?cc Video False True]
      define pre where "pre = ts_header ?cc Video False True @ [of_nat ?l] @ (if ?l = 0 then [] else 0 # replicate (?l - 1) 0xFF)"
      have "Mux_adaptation False key pcr ?f (ts_header ?cc Video False (?f \<noteq> None) @ drop 4 buf) =
          Inr (5 + ?l, pre @ drop (?l + 1) (drop 4 buf))" using an by (simp add: f pre_def)
      moreover have "length pre = 5 + ?l" by (cases "?l = 0") (simp_all add: pre_def)
      moreover have "pre @ ?ch = next_packet ?cc ?ch"
        unfolding next_packet_def Let_def f(2) pre_def using False by (simp add: big_def)
      ultimately show thesis using that f False "1.prems"(2) by (simp add: big_def)
    qed
    have pp: "\<not> p > PACKET_LEN" using ad(4) by (simp add: PACKET_LEN_def)
    have dr: "drop p (pre @ stale) = stale" "take p (pre @ stale) = pre" using ad(2) by simp_all
    have "length stale \<le> length rest" using ad(3) by simp
    from Chunks_read_hold [OF "1.prems"(1) this] obtain c' where
      rd: "Chunks_read c stale = Inr (c', take (length stale) rest)" "chunks_hold c' (drop (length stale) rest)" by blast
    have tk: "take (length stale) rest = ?ch" "drop (length stale) rest = drop 184 rest" using ad(3) by (simp_all add: min_def)
    let ?b = "next_packet ?cc ?ch"
    obtain x m2 where em: "Mux_emit wr ?b ?m1 = (x, m2)" by fastforce
    have step: "Mux_video wr key pcr c False buf m =
        (case x of Inl e \<Rightarrow> Some (Inl e, m2) | Inr _ \<Rightarrow> Mux_video wr key pcr c' False ?b m2)"
      unfolding un rem sum.case Let_def hdr prod.case ad(1)
      using len pp rd(1) dr em ad(5) tk by (simp only: if_True if_False sum.case prod.case)
    let ?fin1 = "?m1\<lparr>mx_packets := mx_packets m + 1, mx_since_psi := mx_since_psi m + 1\<rparr>"
    have e1: "mux_sends wr [?b] (mx_sink m) ?fin1 (x, m2)"
      using mux_sends_emit [of wr ?b ?m1] em by simp
    have ch: "chunks_of 184 rest = ?ch # chunks_of 184 (drop 184 rest)" using False by (simp add: chunks_of_step)
    show ?thesis
    proof (cases x)
      case (Inl e)
      then show ?thesis using step e1 mux_sends_step [OF e1, of "tail_packets (cc_next ?cc) (chunks_of 184 (drop 184 rest))" _ "(x, m2)"]
        by (simp add: ch)
    next
      case (Inr u)
      then obtain s1 where m2: "m2 = ?fin1\<lparr>mx_sink := s1\<rparr>"
        using e1 by (auto simp: mux_sends_def split: prod.splits sum.splits)
      have cc: "2 < length (mx_cc m2)" "mx_cc m2 ! 2 = cc_next ?cc" "mx_sink m2 = s1" using "1.prems"(3) m2 by simp_all
      have lb: "length ?b = 188" using False by (intro length_next_packet) simp_all
      have "chunks_hold c' (drop 184 rest)" using rd(2) tk(2) by simp
      from "1.hyps" [OF _ this lb cc(1)] False obtain y where
        y: "Mux_video wr key pcr c' False ?b m2 = Some y"
          "mux_sends wr (tail_packets (cc_next ?cc) (chunks_of 184 (drop 184 rest))) s1
            (mux_after (length (chunks_of 184 (drop 184 rest))) m2) y" unfolding cc by auto
      have fin: "mux_after (length (chunks_of 184 (drop 184 rest))) m2\<lparr>mx_sink := s2\<rparr> =
          mux_after (length (chunks_of 184 rest)) m\<lparr>mx_sink := s2\<rparr>" for s2
        using "1.prems"(3) by (simp add: mux_after_def m2 ch funpow_swap1)
      have "mux_sends wr ([?b] @ tail_packets (cc_next ?cc) (chunks_of 184 (drop 184 rest))) (mx_sink m)
          (mux_after (length (chunks_of 184 rest)) m) y"
      proof (rule mux_sends_step [OF e1])
        fix s2 assume "(x, m2) = (Inr (), ?fin1\<lparr>mx_sink := s2\<rparr>)"
        then have "s2 = s1" using m2 by (metis cc(3) mux.select_convs(1) mux.surjective mux.update_convs(1) prod.inject)
        then show "mux_sends wr (tail_packets (cc_next ?cc) (chunks_of 184 (drop 184 rest))) s2
            (mux_after (length (chunks_of 184 rest)) m) y"
          using y(2) fin by (auto simp: mux_sends_def split: prod.splits sum.splits)
      qed (use Inr in simp)
      then show ?thesis using step Inr y(1) by (simp add: ch)
    qed
  qed
qed

lemma Mux_video_first:
  assumes "chunks_hold c es" "es \<noteq> []" "length buf = 188" "2 < length (mx_cc m)"
  shows "\<exists>y. Mux_video wr key pcr c True buf m = Some y \<and>
    mux_sends wr (video_packets (mx_cc m ! 2) key pcr es) (mx_sink m)
      (mux_after (1 + length (chunks_of 184 (drop 176 es))) m) y"
proof -
  let ?cc = "mx_cc m ! 2" and ?ch = "take 176 es" and ?rest = "chunks_of 184 (drop 176 es)"
  let ?m1 = "m\<lparr>mx_cc := (mx_cc m)[2 := cc_next ?cc]\<rparr>"
  let ?l = "183 - min (length es) 176"
  let ?fin1 = "?m1\<lparr>mx_packets := mx_packets m + 1, mx_since_psi := mx_since_psi m + 1\<rparr>"
  define pre where "pre = ts_header ?cc Video True True @ [of_nat ?l, 0x10 OR (if key then 0x40 else 0)] @ write_pcr pcr @
      replicate (?l - 7) 0xFF"
  define p where "p = 5 + ?l"
  note un = Mux_video.simps [of wr key pcr c True buf m]
  have rem: "Chunks_remaining c = Inr (length es)" by (rule Chunks_remaining_hold [OF assms(1)])
  have f: "Mux_field True (length es) = Some ?l" by (simp add: Mux_field_def)
  have hdr: "Mux_write_header m buf Video True (Some ?l \<noteq> None) = (ts_header ?cc Video True True @ drop 4 buf, ?m1)"
    using assms(3) by (subst Mux_write_header_eq) simp_all
  have "length (drop 4 buf) = 184" using assms(3) by simp
  note an = Mux_adaptation_first [OF length_ts_header this, where l = ?l and key = key and pcr = pcr, of ?cc Video True True]
  have ad: "Mux_adaptation True key pcr (Some ?l) (ts_header ?cc Video True True @ drop 4 buf) =
      Inr (p, pre @ drop (?l + 1) (drop 4 buf))"
    using an by (simp add: pre_def p_def)
  have le: "0 < length es" using assms(2) by simp
  have "7 \<le> ?l" by simp
  then have lp1: "length pre = p" by (simp add: pre_def p_def)
  have lp2: "p + length ?ch = 188" by (simp add: p_def)
  have "1 \<le> min (length es) 176" using le by linarith
  then have lp3: "p \<le> 187" unfolding p_def by linarith
  have lp4: "pre @ ?ch = first_packet ?cc key pcr es" by (simp add: first_packet_def pre_def Let_def)
  note lp = lp1 lp2 lp3 lp4
  have dr: "drop p (pre @ drop (?l + 1) (drop 4 buf)) = drop (?l + 5) buf" "take p (pre @ drop (?l + 1) (drop 4 buf)) = pre"
  proof -
    have "?l + 1 + 4 = ?l + 5" by linarith
    then have "drop (?l + 1) (drop 4 buf) = drop (?l + 5) buf" by (simp only: drop_drop)
    moreover have "drop p (pre @ zs) = zs" "take p (pre @ zs) = pre" for zs using lp1 by simp_all
    ultimately show "drop p (pre @ drop (?l + 1) (drop 4 buf)) = drop (?l + 5) buf"
      "take p (pre @ drop (?l + 1) (drop 4 buf)) = pre" by (simp_all only:)
  qed
  have ls: "length (drop (?l + 5) buf) = length ?ch" using assms(3) lp(2) unfolding p_def by simp
  then have "length (drop (?l + 5) buf) \<le> length es" by simp
  note hold = Chunks_read_hold [OF assms(1) this]
  have tk: "take (length ?ch) es = ?ch" "drop (length ?ch) es = drop 176 es" by (simp_all add: min_def)
  obtain c' where
    rd: "Chunks_read c (drop (?l + 5) buf) = Inr (c', ?ch)" "chunks_hold c' (drop 176 es)"
    using hold unfolding ls tk by blast
  let ?b = "first_packet ?cc key pcr es"
  obtain x m2 where em: "Mux_emit wr ?b ?m1 = (x, m2)" by fastforce
  have pl: "\<not> p > PACKET_LEN" "0 < length es" using lp(3) assms(2) by (simp_all add: PACKET_LEN_def)
  have step: "Mux_video wr key pcr c True buf m =
      (case x of Inl e \<Rightarrow> Some (Inl e, m2) | Inr _ \<Rightarrow> Mux_video wr key pcr c' False ?b m2)"
    unfolding un rem sum.case Let_def f hdr prod.case ad
    using pl rd(1) dr em lp(4) by (simp only: if_True if_False sum.case prod.case)
  have e1: "mux_sends wr [?b] (mx_sink m) ?fin1 (x, m2)"
    using mux_sends_emit [of wr ?b ?m1] em by simp
  show ?thesis
  proof (cases x)
    case (Inl e)
    then show ?thesis
      using step mux_sends_step [OF e1, of "tail_packets (cc_next ?cc) ?rest" _ "(x, m2)"]
      by (simp add: video_packets_def)
  next
    case (Inr u)
    then obtain s1 where m2: "m2 = ?fin1\<lparr>mx_sink := s1\<rparr>"
      using e1 by (auto simp: mux_sends_def split: prod.splits sum.splits)
    have cc: "2 < length (mx_cc m2)" "mx_cc m2 ! 2 = cc_next ?cc" "mx_sink m2 = s1" using assms(4) m2 by simp_all
    from Mux_video_tail [OF rd(2) length_first_packet cc(1), of wr key pcr ?cc key pcr es] obtain y where
      y: "Mux_video wr key pcr c' False ?b m2 = Some y"
        "mux_sends wr (tail_packets (cc_next ?cc) ?rest) s1 (mux_after (length ?rest) m2) y" unfolding cc by auto
    have fin: "mux_after (length ?rest) m2\<lparr>mx_sink := s2\<rparr> = mux_after (1 + length ?rest) m\<lparr>mx_sink := s2\<rparr>" for s2
      using assms(4) by (simp add: mux_after_def m2 funpow_swap1)
    have "mux_sends wr ([?b] @ tail_packets (cc_next ?cc) ?rest) (mx_sink m) (mux_after (1 + length ?rest) m) y"
    proof (rule mux_sends_step [OF e1])
      fix s2 assume "(x, m2) = (Inr (), ?fin1\<lparr>mx_sink := s2\<rparr>)"
      then have "s2 = s1" using m2 by (metis cc(3) mux.select_convs(1) mux.surjective mux.update_convs(1) prod.inject)
      then show "mux_sends wr (tail_packets (cc_next ?cc) ?rest) s2 (mux_after (1 + length ?rest) m) y"
        using y(2) fin by (auto simp: mux_sends_def split: prod.splits sum.splits)
    qed (use Inr in simp)
    then show ?thesis using step Inr y(1) by (simp add: video_packets_def)
  qed
qed

text \<open>The table packets.\<close>

definition table_packet :: "pid \<Rightarrow> u8 \<Rightarrow> bytes \<Rightarrow> bytes" where
  "table_packet p cc section =
     ts_header cc p True False @ [0] @ section @ be32 (crc32_mpeg2 section) @
     replicate (179 - length section) 0xFF"

definition psi_packets :: "bytes \<Rightarrow> bytes list" where
  "psi_packets cc = [table_packet Pat (cc ! 0) pat_section, table_packet Pmt (cc ! 1) pmt_section]"

lemma length_sections [simp]: "length pat_section = 12" "length pmt_section = 17"
  by (simp_all add: pat_section_def pmt_section_def)

lemma write_pat_eq: "length out = 183 \<Longrightarrow>
    write_pat out = Inr (16, (pat_section @ be32 (crc32_mpeg2 pat_section)) @ drop 16 out)"
  using copy_range_at_end [of "[]" 0 12 pat_section out]
    copy_range_at_end [of pat_section 12 16 "be32 (crc32_mpeg2 pat_section)" "drop 12 out"]
  by (simp add: write_pat_def)

lemma write_pmt_eq: "length out = 183 \<Longrightarrow>
    write_pmt out = Inr (21, (pmt_section @ be32 (crc32_mpeg2 pmt_section)) @ drop 21 out)"
  using copy_range_at_end [of "[]" 0 17 pmt_section out]
    copy_range_at_end [of pmt_section 17 21 "be32 (crc32_mpeg2 pmt_section)" "drop 17 out"]
  by (simp add: write_pmt_def)

lemma Mux_table_sends:
  assumes "\<And>out. length out = 183 \<Longrightarrow> write out = Inr (n, (sec @ be32 (crc32_mpeg2 sec)) @ drop n out)"
    and "n = length sec + 4" "n \<le> 183"
  shows "mux_sends wr [table_packet p (mx_cc m ! pid_index p) sec] (mx_sink m)
    (m\<lparr>mx_cc := (mx_cc m)[pid_index p := cc_next (mx_cc m ! pid_index p)],
       mx_packets := mx_packets m + 1, mx_since_psi := mx_since_psi m + 1\<rparr>)
    (Mux_table wr p write m)"
proof -
  let ?cc = "mx_cc m ! pid_index p"
  let ?m1 = "m\<lparr>mx_cc := (mx_cc m)[pid_index p := cc_next ?cc]\<rparr>"
  have h: "Mux_write_header m (replicate PACKET_LEN 0xFF) p True False =
      (ts_header ?cc p True False @ replicate 184 0xFF, ?m1)"
    by (subst Mux_write_header_eq) (simp_all add: PACKET_LEN_def)
  have r: "replicate 184 (0xFF :: u8) = 0xFF # replicate 183 0xFF" by (simp add: numeral_eq_Suc)
  have b: "(ts_header ?cc p True False @ replicate 184 0xFF)[4 := 0] = (ts_header ?cc p True False @ [0]) @ replicate 183 0xFF"
    unfolding r by (simp add: list_update_append)
  have w: "write (replicate 183 0xFF) = Inr (n, (sec @ be32 (crc32_mpeg2 sec)) @ replicate (183 - n) 0xFF)"
    using assms(1) by simp
  have l5: "length (ts_header ?cc p True False @ [0]) = 5" by simp
  have d: "drop 5 ((ts_header ?cc p True False @ [0]) @ replicate 183 0xFF) = replicate 183 0xFF"
    "take 5 ((ts_header ?cc p True False @ [0]) @ replicate 183 0xFF) = ts_header ?cc p True False @ [0]"
    using l5 by (simp_all del: append_assoc)
  have n: "take n ((sec @ be32 (crc32_mpeg2 sec)) @ replicate (183 - n) 0xFF) = sec @ be32 (crc32_mpeg2 sec)"
    "length (drop n ((sec @ be32 (crc32_mpeg2 sec)) @ replicate (183 - n) 0xFF)) = 179 - length sec"
    using assms(2,3) by simp_all
  have "Mux_table wr p write m = Mux_emit wr (table_packet p ?cc sec) ?m1"
    unfolding Mux_table_def Let_def h prod.case b d w sum.case n
    by (simp only: table_packet_def append_assoc)
  then show ?thesis using mux_sends_emit [of wr "table_packet p ?cc sec" ?m1] by simp
qed

definition psi_after :: "'s mux \<Rightarrow> 's mux" where
  "psi_after m = m\<lparr>mx_cc := (mx_cc m)[0 := cc_next (mx_cc m ! 0), 1 := cc_next (mx_cc m ! 1)],
     mx_packets := mx_packets m + 2, mx_since_psi := 0, mx_psi_written := mx_psi_written m + 1\<rparr>"

lemma Mux_write_psi_sends:
  "mux_sends wr (psi_packets (mx_cc m)) (mx_sink m) (psi_after m) (Mux_write_psi wr m)"
proof -
  let ?p1 = "table_packet Pat (mx_cc m ! 0) pat_section" and ?p2 = "table_packet Pmt (mx_cc m ! 1) pmt_section"
  have n16: "(16 :: nat) = length pat_section + 4" "(16 :: nat) \<le> 183"
    and n21: "(21 :: nat) = length pmt_section + 4" "(21 :: nat) \<le> 183" by simp_all
  have t1: "mux_sends wr [?p1] (mx_sink m)
      (m\<lparr>mx_cc := (mx_cc m)[0 := cc_next (mx_cc m ! 0)], mx_packets := mx_packets m + 1,
         mx_since_psi := mx_since_psi m + 1\<rparr>) (Mux_table wr Pat write_pat m)"
    using Mux_table_sends [OF write_pat_eq n16, of wr Pat m] by (simp only: pid_facts)
  have t2: "mux_sends wr [table_packet Pmt (mx_cc m' ! 1) pmt_section] (mx_sink m')
      (m'\<lparr>mx_cc := (mx_cc m')[1 := cc_next (mx_cc m' ! 1)], mx_packets := mx_packets m' + 1,
         mx_since_psi := mx_since_psi m' + 1\<rparr>) (Mux_table wr Pmt write_pmt m')" for m' :: "'a mux"
    using Mux_table_sends [OF write_pmt_eq n21, of wr Pmt m'] by (simp only: pid_facts)
  obtain x1 m1 where e1: "Mux_table wr Pat write_pat m = (x1, m1)" by fastforce
  obtain x2 m2 where e2: "Mux_table wr Pmt write_pmt m1 = (x2, m2)" by fastforce
  have "psi_packets (mx_cc m) = [?p1] @ [?p2]" by (simp add: psi_packets_def)
  moreover have "mux_sends wr ([?p1] @ [?p2]) (mx_sink m) (psi_after m) (Mux_write_psi wr m)"
  proof (rule mux_sends_step [OF t1])
    fix s1 assume a: "Mux_table wr Pat write_pat m = (Inr (), m\<lparr>mx_cc := (mx_cc m)[0 := cc_next (mx_cc m ! 0)], mx_packets := mx_packets m + 1,
         mx_since_psi := mx_since_psi m + 1, mx_sink := s1\<rparr>)"
    then have m1: "x1 = Inr ()" "m1 = m\<lparr>mx_cc := (mx_cc m)[0 := cc_next (mx_cc m ! 0)], mx_packets := mx_packets m + 1,
         mx_since_psi := mx_since_psi m + 1, mx_sink := s1\<rparr>" using e1 by simp_all
    have cc: "mx_cc m1 ! 1 = mx_cc m ! 1" "mx_sink m1 = s1" by (simp_all add: m1)
    show "mux_sends wr [?p2] s1 (psi_after m) (Mux_write_psi wr m)"
    proof -
      have "Mux_write_psi wr m = (case x2 of Inl e \<Rightarrow> (Inl e, m2)
          | Inr _ \<Rightarrow> (Inr (), m2\<lparr>mx_since_psi := 0, mx_psi_written := mx_psi_written m2 + 1\<rparr>))"
        unfolding Mux_write_psi_def e1 m1(1) prod.case sum.case e2 ..
      then show ?thesis using t2 [of m1] unfolding cc e2
        by (auto simp: mux_sends_def psi_after_def m1(2) split: prod.splits sum.splits)
    qed
  next
    fix e m' assume "Mux_table wr Pat write_pat m = (Inl e, m')"
    then show "Mux_write_psi wr m = (Inl e, m')" by (simp add: Mux_write_psi_def)
  qed
  ultimately show ?thesis by simp
qed

text \<open>What one access unit sends, and the mux after it.\<close>

definition au_stream :: "u64 \<Rightarrow> bytes \<Rightarrow> bytes" where
  "au_stream pts au = pes_header pts @ (if starts_with_aud au then [] else AUD_NAL) @ au"

definition pcr_of :: "u64 \<Rightarrow> u64" where
  "pcr_of pts = (if PCR_DELAY_TICKS \<le> pts then pts - PCR_DELAY_TICKS else 0)"

definition needs_psi :: "'s mux \<Rightarrow> media_packet \<Rightarrow> bool" where
  "needs_psi m pkt \<longleftrightarrow> \<not> mx_started m \<or> mp_key pkt \<or> contains_idr (mp_data pkt) \<or>
     mx_since_psi m \<ge> PSI_INTERVAL_PACKETS"

definition push_packets :: "'s mux \<Rightarrow> media_packet \<Rightarrow> u64 \<Rightarrow> bytes list" where
  "push_packets m pkt pts =
     (if needs_psi m pkt then psi_packets (mx_cc m) else []) @
     video_packets (mx_cc m ! 2) (mp_key pkt \<or> contains_idr (mp_data pkt)) (pcr_of pts)
       (au_stream pts (mp_data pkt))"

definition push_after :: "'s mux \<Rightarrow> media_packet \<Rightarrow> u64 \<Rightarrow> 's mux" where
  "push_after m pkt pts =
     mux_after (1 + length (chunks_of 184 (drop 176 (au_stream pts (mp_data pkt)))))
       (if needs_psi m pkt then (psi_after m)\<lparr>mx_started := True\<rparr> else m)"

lemma length_pes_header [simp]: "length (pes_header pts) = 14"
  by (simp add: pes_header_def)

lemma mux_sends_sink: "mux_sends wr pkts s (fin\<lparr>mx_sink := s'\<rparr>) y = mux_sends wr pkts s fin y"
  by (simp add: mux_sends_def split: prod.split sum.split)

lemma Mux_push_sends:
  assumes "mp_codec pkt = H264" "mp_data pkt \<noteq> []" "pts_90k tgt (mp_timestamp pkt) = Inr pts" "length (mx_cc m) = 3"
  shows "\<exists>y. Mux_push wr tgt m pkt = Some y \<and>
    mux_sends wr (push_packets m pkt pts) (mx_sink m) (push_after m pkt pts) y"
proof -
  define key where "key = (mp_key pkt \<or> contains_idr (mp_data pkt))"
  let ?es = "au_stream pts (mp_data pkt)"
  let ?c = "Chunks_new [pes_header pts, if starts_with_aud (mp_data pkt) then [] else AUD_NAL, mp_data pkt]"
  have hold: "chunks_hold ?c ?es"
    using Chunks_new_hold [of "[pes_header pts, if starts_with_aud (mp_data pkt) then [] else AUD_NAL, mp_data pkt]"]
    by (simp add: au_stream_def)
  have ne: "?es \<noteq> []" by (simp add: au_stream_def pes_header_def)
  have video: "\<exists>y. Mux_video wr key (pcr_of pts) ?c True (replicate PACKET_LEN 0) m1 = Some y \<and>
      mux_sends wr (video_packets (mx_cc m1 ! 2) key (pcr_of pts) ?es) (mx_sink m1)
        (mux_after (1 + length (chunks_of 184 (drop 176 ?es))) m1) y"
    if "length (mx_cc m1) = 3" for m1
    using that by (intro Mux_video_first [OF hold ne]) (simp_all add: PACKET_LEN_def)
  have guard: "\<not> (mp_codec pkt \<noteq> H264 \<or> mp_data pkt = [])" using assms by simp
  have cond: "(\<not> mx_started m \<or> key \<or> mx_since_psi m \<ge> PSI_INTERVAL_PACKETS) = needs_psi m pkt"
    by (auto simp: key_def needs_psi_def)
  note un = Mux_push_def [of wr tgt m pkt] if_not_P [OF guard]
  show ?thesis
  proof (cases "needs_psi m pkt")
    case False
    then show ?thesis using video [OF assms(4)]
      unfolding un Let_def key_def [symmetric] cond assms(3)
      by (simp add: push_packets_def push_after_def key_def [symmetric] pcr_of_def)
  next
    case True
    let ?f1 = "(psi_after m)\<lparr>mx_started := True\<rparr>"
    obtain x m1 where e: "Mux_write_psi wr m = (x, m1)" by fastforce
    note ps = Mux_write_psi_sends [of wr m, unfolded e]
    show ?thesis
    proof (cases x)
      case (Inl f)
      have "Mux_push wr tgt m pkt = Some (Inl f, m1)"
        unfolding un Let_def key_def [symmetric] cond assms(3) e Inl using True by simp
      moreover have "mux_sends wr (push_packets m pkt pts) (mx_sink m) (push_after m pkt pts) (Inl f, m1)"
        unfolding push_packets_def if_P [OF True]
        by (rule mux_sends_step [OF ps]) (auto simp: Inl)
      ultimately show ?thesis by blast
    next
      case (Inr u)
      let ?m1 = "m1\<lparr>mx_started := True\<rparr>"
      obtain s1 where m1: "m1 = psi_after m\<lparr>mx_sink := s1\<rparr>"
        using ps Inr by (auto simp: mux_sends_def split: prod.splits sum.splits)
      have l3: "length (mx_cc ?m1) = 3" "mx_cc ?m1 ! 2 = mx_cc m ! 2" "mx_sink ?m1 = s1"
        using assms(4) by (simp_all add: m1 psi_after_def)
      from video [OF l3(1)] obtain y where
        y: "Mux_video wr key (pcr_of pts) ?c True (replicate PACKET_LEN 0) ?m1 = Some y"
          "mux_sends wr (video_packets (mx_cc m ! 2) key (pcr_of pts) ?es) s1
             (mux_after (1 + length (chunks_of 184 (drop 176 ?es))) ?m1) y" unfolding l3 by blast
      have "mux_after k ?m1 = (mux_after k ?f1)\<lparr>mx_sink := s1\<rparr>" for k
        by (simp add: m1 mux_after_def)
      then have y2: "mux_sends wr (video_packets (mx_cc m ! 2) key (pcr_of pts) ?es) s1 (push_after m pkt pts) y"
        using y(2) True by (simp add: push_after_def mux_sends_sink)
      have "Mux_push wr tgt m pkt = Some y"
        unfolding un Let_def key_def [symmetric] cond assms(3) e Inr using True y(1) by (simp add: pcr_of_def)
      moreover have "mux_sends wr (push_packets m pkt pts) (mx_sink m) (push_after m pkt pts) y"
        unfolding push_packets_def if_P [OF True] key_def [symmetric]
      proof (rule mux_sends_step [OF ps])
        fix s2 assume "(x, m1) = (Inr (), psi_after m\<lparr>mx_sink := s2\<rparr>)"
        then have "mx_sink m1 = s2" by simp
        then have "s2 = s1" by (simp add: m1)
        then show "mux_sends wr (video_packets (mx_cc m ! 2) key (pcr_of pts) ?es) s2 (push_after m pkt pts) y"
          using y2 by simp
      qed (use Inr in simp)
      ultimately show ?thesis by blast
    qed
  qed
qed

end
