(* ===== verification/MpegtsRoundtrip.thy ===== *)
theory MpegtsRoundtrip
  imports Mpegts
begin

text \<open>
  The transport stream end to end: the demultiplexer of \<open>mpegts.rs\<close> reads back what the
  multiplexer wrote, for any sequence of access units.
\<close>

section \<open>The demultiplexer reads it back\<close>

definition demux_synced :: "demux_state \<Rightarrow> bytes \<Rightarrow> bool" where
  "demux_synced d cc \<longleftrightarrow> length cc = 3 \<and> length (dx_expect_cc d) = 3 \<and>
     (\<forall>i < 3. cc ! i AND 0x0F = cc ! i \<and> (dx_expect_cc d ! i = None \<or> dx_expect_cc d ! i = Some (cc ! i)))"

definition demux_count :: "demux_state \<Rightarrow> nat \<Rightarrow> u8 \<Rightarrow> demux_state" where
  "demux_count d i cc = d\<lparr>dx_report := (dx_report d)\<lparr>rp_packets := rp_packets (dx_report d) + 1\<rparr>,
     dx_expect_cc := (dx_expect_cc d)[i := Some (cc_next cc)]\<rparr>"

lemma cc_next_masked [simp]: "cc_next cc AND 0x0F = cc_next cc"
  by (simp add: cc_next_def and.assoc)

lemma demux_synced_count:
  "demux_synced d cc \<Longrightarrow> i < 3 \<Longrightarrow> demux_synced (demux_count d i (cc ! i)) (cc[i := cc_next (cc ! i)])"
  by (auto simp: demux_synced_def demux_count_def nth_list_update)

lemma ts_header_fields:
  assumes "cc AND 0x0F = cc"
  shows "(ts_header cc p pusi ad @ rest) ! 0 = SYNC"
    "((ts_header cc p pusi ad @ rest) ! 1 AND 0x40 \<noteq> 0) = pusi"
    "from_be16 ((ts_header cc p pusi ad @ rest) ! 1 AND 0x1F) ((ts_header cc p pusi ad @ rest) ! 2) = pid_number p"
    "drop_bit 4 ((ts_header cc p pusi ad @ rest) ! 3) AND 0x3 = (if ad then 3 else 1)"
    "(ts_header cc p pusi ad @ rest) ! 3 AND 0x0F = cc"
proof -
  show "(ts_header cc p pusi ad @ rest) ! 0 = SYNC" by (simp add: ts_header_def)
  show "((ts_header cc p pusi ad @ rest) ! 1 AND 0x40 \<noteq> 0) = pusi"
    by (cases p; cases pusi) (simp_all add: ts_header_def PID_PAT_def PID_PMT_def PID_VIDEO_def)
  show "from_be16 ((ts_header cc p pusi ad @ rest) ! 1 AND 0x1F) ((ts_header cc p pusi ad @ rest) ! 2) = pid_number p"
    by (cases p; cases pusi) (simp_all add: ts_header_def PID_PAT_def PID_PMT_def PID_VIDEO_def from_be16_def)
  have n3: "(ts_header cc p pusi ad @ rest) ! 3 = (if ad then 0x30 else 0x10) OR cc"
    using assms by (simp add: ts_header_def numeral_3_eq_3)
  have "drop_bit 4 cc = 0"
  proof -
    have "drop_bit 4 (cc AND 0x0F) = 0" by (rule bit_word_eqI) (auto simp: bit_simps bit_numeral_word_iff)
    then show ?thesis using assms by simp
  qed
  then show "drop_bit 4 ((ts_header cc p pusi ad @ rest) ! 3) AND 0x3 = (if ad then 3 else 1)"
    unfolding n3 by (cases ad) (simp_all add: drop_bit_or)
  show "(ts_header cc p pusi ad @ rest) ! 3 AND 0x0F = cc"
    unfolding n3 using assms by (cases ad) (simp_all add: bit.conj_disj_distrib2)
qed

definition demux_dispatch :: "demux_state \<Rightarrow> pid \<Rightarrow> bool \<Rightarrow> bytes \<Rightarrow> demux_state demux_result" where
  "demux_dispatch d p pusi payload =
     (if p = Pmt \<and> pusi then demux_pmt d payload
      else if p = Video then demux_video d pusi payload else Inr d)"

lemma pid_number_eq:
  "(pid_number p = PID_PAT) = (p = Pat)" "(pid_number p = PID_PMT) = (p = Pmt)"
  "(pid_number p = PID_VIDEO) = (p = Video)"
  by (cases p; simp add: PID_PAT_def PID_PMT_def PID_VIDEO_def)+

lemma pid_index_lookup:
  "(if p = Pat then Some 0 else if p = Pmt then Some 1 else if p = Video then Some 2 else None) = Some (pid_index p)"
  by (cases p) simp_all

lemma demux_cc_synced:
  assumes "demux_synced d cc" "i < 3"
  shows "demux_cc (d\<lparr>dx_report := (dx_report d)\<lparr>rp_packets := rp_packets (dx_report d) + 1\<rparr>\<rparr>) i (cc ! i) =
    demux_count d i (cc ! i)"
  using assms by (auto simp: demux_synced_def demux_cc_def demux_count_def cc_next_def Let_def)

lemma demux_packet_plain:
  assumes "demux_synced d cc" "c = cc ! pid_index p"
  shows "demux_packet d (ts_header c p pusi False @ payload) =
    demux_dispatch (demux_count d (pid_index p) c) p pusi payload"
proof -
  have i: "pid_index p < 3" by (cases p) simp_all
  have m: "c AND 0x0F = c" using assms i by (simp add: demux_synced_def)
  note f = ts_header_fields [OF m, of p pusi False payload]
  have s: "subslice (ts_header c p pusi False @ payload) 4 (length (ts_header c p pusi False @ payload)) = Inr payload"
    by simp
  have a: "(if False then 3 else 1) = (1 :: u8)" "((1 :: u8) AND 0x2 \<noteq> 0) = False" "((1 :: u8) AND 0x1 = 0) = False" by simp_all
  show ?thesis
    unfolding demux_packet_def Let_def f a pid_number_eq pid_index_lookup option.case
    using demux_cc_synced [OF assms(1) i] s
    by (simp only: assms(2) [symmetric] if_False if_True simp_thms or_panic_simps demux_dispatch_def)
qed

lemma demux_packet_adapted:
  assumes "demux_synced d cc" "c = cc ! pid_index p" and l: "length af = l" "l < 256"
  shows "demux_packet d (ts_header c p pusi True @ [of_nat l] @ af @ payload) =
    (let d1 = demux_count d (pid_index p) c;
         d2 = (if l \<ge> 7 \<and> (af @ payload) ! 0 AND 0x10 \<noteq> 0
               then d1\<lparr>dx_report := (dx_report d1)\<lparr>rp_pcr := rp_pcr (dx_report d1) @ [demux_pcr (take 6 (drop 1 (af @ payload)))]\<rparr>\<rparr>
               else d1) in
     demux_dispatch d2 p pusi payload)"
proof -
  let ?pkt = "ts_header c p pusi True @ [of_nat l] @ af @ payload"
  have i: "pid_index p < 3" by (cases p) simp_all
  have m: "c AND 0x0F = c" using assms i by (simp add: demux_synced_def)
  note f = ts_header_fields [OF m, of p pusi True "[of_nat l] @ af @ payload"]
  have s: "subslice ?pkt (4 + (1 + l)) (length ?pkt) = Inr payload" using l by simp
  have n: "unat (?pkt ! 4) = l" using l by (simp add: nth_append unat_of_nat)
  have n5: "?pkt ! 5 = (af @ payload) ! 0" by (simp add: nth_append ts_header_def)
  have ct: "cut ?pkt 6 12 = take 6 (drop 1 (af @ payload))" by (simp add: cut_def ts_header_def numeral_eq_Suc)
  have a: "(if True then 3 else 1) = (3 :: u8)" "((3 :: u8) AND 0x2 \<noteq> 0) = True" "((3 :: u8) AND 0x1 = 0) = False" by simp_all
  show ?thesis
    unfolding demux_packet_def Let_def f a pid_number_eq pid_index_lookup option.case n n5 ct
    using demux_cc_synced [OF assms(1) i] s
    by (simp only: assms(2) [symmetric] if_False if_True simp_thms or_panic_simps demux_dispatch_def)
qed

text \<open>The time stamps.\<close>

lemma mask33: "(0x1FFFFFFFF :: u64) = mask 33"
  by (simp add: mask_eq_exp_minus_1)

lemma bit_33: "pts AND 0x1FFFFFFFF = pts \<Longrightarrow> bit (pts :: u64) i \<Longrightarrow> i < 33"
  by (metis mask33 bit_and_iff bit_mask_iff)

lemma bit_ucast_drop: "bit (ucast (drop_bit n w) :: u8) j \<longleftrightarrow> j < 8 \<and> bit (w :: u64) (n + j)"
  by (auto simp: bit_simps)

lemma demux_pcr_bits:
  "i < 64 \<Longrightarrow> bit (demux_pcr b) i \<longleftrightarrow> 25 \<le> i \<and> bit (b ! 0) (i - 25) \<or> 17 \<le> i \<and> bit (b ! 1) (i - 17) \<or>
     9 \<le> i \<and> bit (b ! 2) (i - 9) \<or> 1 \<le> i \<and> bit (b ! 3) (i - 1) \<or> bit (b ! 4) (7 + i)"
  unfolding demux_pcr_def
  by (simp only: bit_or_iff bit_push_bit_iff bit_unsigned_iff bit_drop_bit_eq comp_apply)
    (auto dest: bit_imp_le_length simp: not_less)

lemma write_pcr_bits:
  assumes "pcr AND 0x1FFFFFFFF = pcr"
  shows "bit (write_pcr pcr ! 0) j \<longleftrightarrow> j < 8 \<and> bit pcr (25 + j)"
    "bit (write_pcr pcr ! 1) j \<longleftrightarrow> j < 8 \<and> bit pcr (17 + j)"
    "bit (write_pcr pcr ! 2) j \<longleftrightarrow> j < 8 \<and> bit pcr (9 + j)"
    "bit (write_pcr pcr ! 3) j \<longleftrightarrow> j < 8 \<and> bit pcr (1 + j)"
    "bit (write_pcr pcr ! 4) (7 + j) \<longleftrightarrow> j = 0 \<and> bit pcr 0"
proof -
  note w = write_pcr_def Let_def assms
  show "bit (write_pcr pcr ! 0) j \<longleftrightarrow> j < 8 \<and> bit pcr (25 + j)" by (simp add: w bit_ucast_drop)
  show "bit (write_pcr pcr ! 1) j \<longleftrightarrow> j < 8 \<and> bit pcr (17 + j)" by (simp add: w bit_ucast_drop)
  show "bit (write_pcr pcr ! 2) j \<longleftrightarrow> j < 8 \<and> bit pcr (9 + j)" by (simp add: w bit_ucast_drop)
  show "bit (write_pcr pcr ! 3) j \<longleftrightarrow> j < 8 \<and> bit pcr (1 + j)" using bit_ucast_drop [of 1 pcr j] by (simp add: w)
  have n: "\<not> bit (0x7E :: u8) (7 + j)" if "j < 1" using that by simp
  show "bit (write_pcr pcr ! 4) (7 + j) \<longleftrightarrow> j = 0 \<and> bit pcr 0"
    using n by (cases "j = 0") (auto simp: w bit_simps bit_1_iff dest: bit_imp_le_length)
qed

lemma demux_pcr_write_pcr:
  assumes "pcr AND 0x1FFFFFFFF = pcr"
  shows "demux_pcr (write_pcr pcr) = pcr"
proof (rule bit_word_eqI)
  fix i assume i: "i < LENGTH(64)"
  consider "i < 1" | "1 \<le> i" "i < 9" | "9 \<le> i" "i < 17" | "17 \<le> i" "i < 25" | "25 \<le> i" "i < 33" | "33 \<le> i"
    by linarith
  moreover have "i < 64" using i by simp
  ultimately show "bit (demux_pcr (write_pcr pcr)) i = bit pcr i"
    unfolding demux_pcr_bits [OF \<open>i < 64\<close>] write_pcr_bits [OF assms]
    using bit_33 [OF assms, of i] by cases auto
qed

lemma demux_pts_bits:
  "i < 64 \<Longrightarrow> bit (demux_pts b) i \<longleftrightarrow> 29 \<le> i \<and> bit (b ! 0 AND 0x0E) (i - 29) \<or> 22 \<le> i \<and> bit (b ! 1) (i - 22) \<or>
     14 \<le> i \<and> bit (b ! 2 AND 0xFE) (i - 14) \<or> 7 \<le> i \<and> bit (b ! 3) (i - 7) \<or> bit (b ! 4) (1 + i)"
  unfolding demux_pts_def
  by (simp only: bit_or_iff bit_push_bit_iff bit_unsigned_iff bit_drop_bit_eq comp_apply)
    (auto dest: bit_imp_le_length simp: not_less)

lemma pts_mask_bits:
  fixes w :: u64
  shows "bit (w AND 0x0E) j \<longleftrightarrow> bit w j \<and> 1 \<le> j \<and> j \<le> 3" "bit (w AND 0xFF) j \<longleftrightarrow> bit w j \<and> j < 8"
    "bit (w AND 0xFE) j \<longleftrightarrow> bit w j \<and> 1 \<le> j \<and> j < 8"
proof -
  have m: "(0x0E :: u64) = push_bit 1 (mask 3)" "(0xFF :: u64) = mask 8" "(0xFE :: u64) = push_bit 1 (mask 7)"
    by (simp_all add: mask_eq_exp_minus_1)
  show "bit (w AND 0x0E) j \<longleftrightarrow> bit w j \<and> 1 \<le> j \<and> j \<le> 3" "bit (w AND 0xFF) j \<longleftrightarrow> bit w j \<and> j < 8"
    "bit (w AND 0xFE) j \<longleftrightarrow> bit w j \<and> 1 \<le> j \<and> j < 8"
    unfolding m bit_and_iff bit_push_bit_iff bit_mask_iff by (auto dest: bit_imp_le_length)
qed

lemma pes_header_bits:
  fixes pts :: u64
  defines "b \<equiv> take 5 (drop 9 (pes_header pts))"
  shows "bit (b ! 0 AND 0x0E) j \<longleftrightarrow> 1 \<le> j \<and> j \<le> 3 \<and> bit pts (29 + j)"
    "bit (b ! 1) j \<longleftrightarrow> j < 8 \<and> bit pts (22 + j)"
    "bit (b ! 2 AND 0xFE) j \<longleftrightarrow> 1 \<le> j \<and> j < 8 \<and> bit pts (14 + j)"
    "bit (b ! 3) j \<longleftrightarrow> j < 8 \<and> bit pts (7 + j)"
    "bit (b ! 4) (1 + j) \<longleftrightarrow> j < 7 \<and> bit pts j"
proof -
  have b: "b = [0x20 OR ucast (drop_bit 29 pts AND 0x0E) OR 0x01, ucast (drop_bit 22 pts AND 0xFF),
      ucast (drop_bit 14 pts AND 0xFE) OR 0x01, ucast (drop_bit 7 pts AND 0xFF),
      ucast (push_bit 1 pts AND 0xFE) OR 0x01]" by (simp add: b_def pes_header_def)
  have e: "(0x20 OR x OR 0x01 :: u8) AND 0x0E = x AND 0x0E" for x :: u8
    by (simp add: bit.conj_disj_distrib2 or.assoc)
  have f: "(x OR 0x01 :: u8) AND 0xFE = x AND 0xFE" for x :: u8 by (simp add: bit.conj_disj_distrib2)
  have m8: "bit (x AND 0x0E :: u8) j \<longleftrightarrow> bit x j \<and> 1 \<le> j \<and> j \<le> 3" "bit (x AND 0xFE :: u8) j \<longleftrightarrow> bit x j \<and> 1 \<le> j" for x :: u8 and j
  proof -
    have m: "(0x0E :: u8) = push_bit 1 (mask 3)" "(0xFE :: u8) = push_bit 1 (mask 7)"
      by (simp_all add: mask_eq_exp_minus_1)
    show "bit (x AND 0x0E :: u8) j \<longleftrightarrow> bit x j \<and> 1 \<le> j \<and> j \<le> 3" "bit (x AND 0xFE :: u8) j \<longleftrightarrow> bit x j \<and> 1 \<le> j"
      unfolding m bit_and_iff bit_push_bit_iff bit_mask_iff by (auto dest: bit_imp_le_length)
  qed
  have u: "bit (ucast (w :: u64) :: u8) j \<longleftrightarrow> j < 8 \<and> bit w j" for w j by (auto simp: bit_simps)
  show "bit (b ! 0 AND 0x0E) j \<longleftrightarrow> 1 \<le> j \<and> j \<le> 3 \<and> bit pts (29 + j)"
    unfolding b nth_Cons_0 e m8 u pts_mask_bits bit_drop_bit_eq comp_apply by (auto simp: add.commute)
  show "bit (b ! 1) j \<longleftrightarrow> j < 8 \<and> bit pts (22 + j)"
    by (simp add: b u pts_mask_bits bit_drop_bit_eq) (auto simp: add.commute)
  have b2: "b ! 2 = ucast (drop_bit 14 pts AND 0xFE) OR 0x01" by (simp add: b)
  show "bit (b ! 2 AND 0xFE) j \<longleftrightarrow> 1 \<le> j \<and> j < 8 \<and> bit pts (14 + j)"
    unfolding b2 f m8 u pts_mask_bits bit_drop_bit_eq comp_apply by (auto simp: add.commute)
  have b3: "b ! 3 = ucast (drop_bit 7 pts AND 0xFF)" "b ! 4 = ucast (push_bit 1 pts AND 0xFE) OR 0x01" by (simp_all add: b)
  show "bit (b ! 3) j \<longleftrightarrow> j < 8 \<and> bit pts (7 + j)"
    unfolding b3 u pts_mask_bits bit_drop_bit_eq comp_apply by (auto simp: add.commute)
  show "bit (b ! 4) (1 + j) \<longleftrightarrow> j < 7 \<and> bit pts j"
    unfolding b3 bit_or_iff u pts_mask_bits bit_push_bit_iff bit_1_iff by (auto dest: bit_imp_le_length)
qed

lemma demux_pts_pes_header:
  assumes "pts AND 0x1FFFFFFFF = pts"
  shows "demux_pts (take 5 (drop 9 (pes_header pts))) = pts"
proof (rule bit_word_eqI)
  fix i assume i: "i < LENGTH(64)"
  consider "i < 7" | "7 \<le> i" "i < 15" | "15 \<le> i" "i < 22" | "22 \<le> i" "i < 30" | "30 \<le> i" "i < 33" | "33 \<le> i"
    by linarith
  moreover have "i < 64" using i by simp
  ultimately show "bit (demux_pts (take 5 (drop 9 (pes_header pts)))) i = bit pts i"
    unfolding demux_pts_bits [OF \<open>i < 64\<close>] pes_header_bits
    using bit_33 [OF assms, of i] by cases auto
qed

section \<open>Packet by packet\<close>

lemma demux_synced_nth: "demux_synced d cc \<Longrightarrow> length cc = 3"
  by (simp add: demux_synced_def)

lemma demux_pat_packet:
  assumes "demux_synced d cc"
  shows "demux_packet d (table_packet Pat (cc ! 0) pat_section) = Inr (demux_count d 0 (cc ! 0))"
  using demux_packet_plain [OF assms, of "cc ! 0" Pat True] by (simp add: table_packet_def demux_dispatch_def)

lemma demux_pmt_section: "demux_pmt d ([0] @ pmt_section @ rest) =
    Inr (d\<lparr>dx_report := (dx_report d)\<lparr>rp_stream_type := Some STREAM_TYPE_H264\<rparr>\<rparr>)"
proof -
  have s: "pmt_section = [0x02, 0xB0, 0x12, 0x00, 0x01, 0xC1, 0x00, 0x00, 0xE1, 0x00, 0xF0, 0x00, STREAM_TYPE_H264, 0xE1, 0x00, 0xF0, 0x00]"
    by (simp add: pmt_section_def PID_VIDEO_def)
  have f: "from_be16 1 0 = PID_VIDEO" by (simp add: from_be16_def PID_VIDEO_def)
  show ?thesis by (simp add: demux_pmt_def s idx_def subslice_def Let_def f numeral_eq_Suc)
qed

lemma demux_pmt_packet:
  assumes "demux_synced d cc"
  shows "demux_packet d (table_packet Pmt (cc ! 1) pmt_section) =
    (let d1 = demux_count d 1 (cc ! 1) in Inr (d1\<lparr>dx_report := (dx_report d1)\<lparr>rp_stream_type := Some STREAM_TYPE_H264\<rparr>\<rparr>))"
  using demux_packet_plain [OF assms, of "cc ! 1" Pmt True] demux_pmt_section
  by (simp add: table_packet_def demux_dispatch_def Let_def)

lemma demux_video_first:
  assumes "pts AND 0x1FFFFFFFF = pts"
  shows "demux_video d True (pes_header pts @ body) =
    Inr ((demux_flush d)\<lparr>dx_current := Some (body, pts)\<rparr>)"
proof -
  let ?p = "pes_header pts @ body"
  have l: "\<not> (length ?p < 9 \<or> take 4 ?p \<noteq> [0, 0, 1, 0xE0])"
    by (simp add: pes_header_def STREAM_ID_VIDEO_def)
  have b: "?p ! 7 AND 0x80 \<noteq> 0" "unat (?p ! 8) = 5" by (simp_all add: pes_header_def)
  have s: "subslice ?p 9 14 = Inr (take 5 (drop 9 (pes_header pts)))" "subslice ?p (9 + 5) (length ?p) = Inr body"
    by (simp_all add: pes_header_def)
  show ?thesis
    unfolding demux_video_def if_True Let_def if_not_P [OF l] b(2) if_P [OF b(1)] s bind_r_simps
      or_panic_simps demux_pts_pes_header [OF assms] ..
qed

lemma demux_first_packet:
  assumes sy: "demux_synced d cc" and es: "es = pes_header pts @ body" and p: "pts AND 0x1FFFFFFFF = pts" "pcr AND 0x1FFFFFFFF = pcr"
  shows "demux_packet d (first_packet (cc ! 2) key pcr es) =
    (let d1 = demux_count d 2 (cc ! 2);
         d2 = d1\<lparr>dx_report := (dx_report d1)\<lparr>rp_pcr := rp_pcr (dx_report d1) @ [pcr]\<rparr>\<rparr> in
     Inr ((demux_flush d2)\<lparr>dx_current := Some (take 162 body, pts)\<rparr>))"
proof -
  define l where "l = 183 - min (length es) 176"
  have l: "7 \<le> l" "l < 256" by (auto simp: l_def)
  let ?fl = "0x10 OR (if key then 0x40 else 0) :: u8"
  let ?af = "?fl # write_pcr pcr @ replicate (l - 7) 0xFF"
  have pk: "first_packet (cc ! 2) key pcr es = ts_header (cc ! 2) Video True True @ [of_nat l] @ ?af @ take 176 es"
    by (simp add: first_packet_def Let_def l_def)
  have la: "length ?af = l" using l by simp
  have fl: "(?af @ take 176 es) ! 0 AND 0x10 \<noteq> 0" by (cases key) simp_all
  have pc: "demux_pcr (take 6 (drop 1 (?af @ take 176 es))) = pcr"
    using demux_pcr_write_pcr [OF p(2)] by simp
  have cc: "cc ! 2 = cc ! pid_index Video" by simp
  have tk: "take 176 es = pes_header pts @ take 162 body" by (simp add: es)
  show ?thesis
    unfolding pk demux_packet_adapted [OF sy cc la l(2)] Let_def pc
    using l(1) fl by (simp add: demux_dispatch_def tk demux_video_first [OF p(1)])
qed

lemma demux_next_packet:
  assumes sy: "demux_synced d cc" and cur: "dx_current d = Some (au, pts)" and c: "length c \<le> 184"
  shows "demux_packet d (next_packet (cc ! 2) c) =
    Inr ((demux_count d 2 (cc ! 2))\<lparr>dx_current := Some (au @ c, pts)\<rparr>)"
proof -
  have cc: "cc ! 2 = cc ! pid_index Video" by simp
  have cur1: "dx_current (demux_count d i x) = Some (au, pts)" for i x using cur by (simp add: demux_count_def)
  show ?thesis
  proof (cases "length c = 184")
    case True
    then show ?thesis
      using demux_packet_plain [OF sy cc, of False c] by (simp add: next_packet_def demux_dispatch_def demux_video_def cur1)
  next
    case False
    define l where "l = 183 - length c"
    let ?af = "if l = 0 then [] else (0 :: u8) # replicate (l - 1) 0xFF"
    have la: "length ?af = l" "l < 256" by (auto simp: l_def)
    have n: "\<not> (7 \<le> l \<and> (?af @ c) ! 0 AND 0x10 \<noteq> 0)" by auto
    have pk: "next_packet (cc ! 2) c = ts_header (cc ! 2) Video False True @ [of_nat l] @ ?af @ c"
      using False by (simp add: next_packet_def Let_def l_def)
    show ?thesis
      unfolding pk demux_packet_adapted [OF sy cc la] Let_def if_not_P [OF n]
      by (simp add: demux_dispatch_def demux_video_def cur1)
  qed
qed

lemma demux_packets_append:
  "demux_packets d (xs @ ys) = (case demux_packets d xs of Inl e \<Rightarrow> Inl e | Inr d' \<Rightarrow> demux_packets d' ys)"
  by (induction d xs rule: demux_packets.induct) (auto split: sum.split)

lemma demux_tail_packets:
  "demux_synced d cc \<Longrightarrow> dx_current d = Some (au, pts) \<Longrightarrow> \<forall>c \<in> set cs. length c \<le> 184 \<Longrightarrow>
   \<exists>d'. demux_packets d (tail_packets (cc ! 2) cs) = Inr d' \<and>
     demux_synced d' (cc[2 := (cc_next ^^ length cs) (cc ! 2)]) \<and> dx_current d' = Some (au @ concat cs, pts) \<and>
     dx_report d' = (dx_report d)\<lparr>rp_packets := rp_packets (dx_report d) + length cs\<rparr>"
proof (induction cs arbitrary: d cc au)
  case (Cons c cs)
  let ?d1 = "(demux_count d 2 (cc ! 2))\<lparr>dx_current := Some (au @ c, pts)\<rparr>"
  let ?cc = "cc[2 := cc_next (cc ! 2)]"
  have l: "length cc = 3" using Cons.prems(1) by (rule demux_synced_nth)
  have "demux_synced (demux_count d 2 (cc ! 2)) ?cc" using Cons.prems(1) by (intro demux_synced_count) simp_all
  then have sy: "demux_synced ?d1 ?cc" by (simp add: demux_synced_def)
  have cc2: "?cc ! 2 = cc_next (cc ! 2)" using l by simp
  have "dx_current ?d1 = Some (au @ c, pts)" "\<forall>c \<in> set cs. length c \<le> 184" using Cons.prems(3) by simp_all
  from Cons.IH [OF sy this] obtain d' where "demux_packets ?d1 (tail_packets (cc_next (cc ! 2)) cs) = Inr d'"
    "demux_synced d' (?cc[2 := (cc_next ^^ length cs) (cc_next (cc ! 2))])"
    "dx_current d' = Some ((au @ c) @ concat cs, pts)"
    "dx_report d' = (dx_report ?d1)\<lparr>rp_packets := rp_packets (dx_report ?d1) + length cs\<rparr>"
    unfolding cc2 by blast
  then show ?case
    using demux_next_packet [OF Cons.prems(1,2), of c] Cons.prems(3) by (simp add: demux_count_def funpow_swap1)
qed simp

section \<open>Access unit by access unit\<close>

definition demux_done :: "demux_state \<Rightarrow> report" where
  "demux_done d = dx_report (demux_flush d)"

lemma chunks_rest: "take n xs @ concat (chunks_of 184 (drop n xs)) = xs"
  by (simp add: concat_chunks_of)

lemma demux_video_packets:
  assumes sy: "demux_synced d cc" and es: "es = pes_header pts @ body" and p: "pts AND 0x1FFFFFFFF = pts" "pcr AND 0x1FFFFFFFF = pcr"
  shows "\<exists>d'. demux_packets d (video_packets (cc ! 2) key pcr es) = Inr d' \<and>
    demux_synced d' (cc[2 := (cc_next ^^ (1 + length (chunks_of 184 (drop 176 es)))) (cc ! 2)]) \<and>
    demux_done d' = (demux_done d)\<lparr>rp_access_units := rp_access_units (demux_done d) @ [body],
      rp_pts := rp_pts (demux_done d) @ [pts], rp_pcr := rp_pcr (demux_done d) @ [pcr],
      rp_packets := rp_packets (demux_done d) + length (video_packets (cc ! 2) key pcr es)\<rparr>"
proof -
  let ?cs = "chunks_of 184 (drop 176 es)" and ?cc = "cc[2 := cc_next (cc ! 2)]"
  define d1 where "d1 = (let d1 = demux_count d 2 (cc ! 2);
         d2 = d1\<lparr>dx_report := (dx_report d1)\<lparr>rp_pcr := rp_pcr (dx_report d1) @ [pcr]\<rparr>\<rparr> in
     (demux_flush d2)\<lparr>dx_current := Some (take 162 body, pts)\<rparr>)"
  have first: "demux_packet d (first_packet (cc ! 2) key pcr es) = Inr d1"
    using demux_first_packet [OF sy es p] by (simp add: d1_def Let_def)
  have l: "length cc = 3" using sy by (rule demux_synced_nth)
  have "demux_synced (demux_count d 2 (cc ! 2)) ?cc" using sy by (intro demux_synced_count) simp_all
  then have sy1: "demux_synced d1 ?cc"
    by (auto simp: d1_def Let_def demux_synced_def demux_flush_def split: option.split prod.split)
  have cur: "dx_current d1 = Some (take 162 body, pts)" by (simp add: d1_def Let_def)
  have "\<forall>c \<in> set ?cs. length c \<le> 184" using chunks_of_sizes by blast
  from demux_tail_packets [OF sy1 cur this] l obtain d' where
    t: "demux_packets d1 (tail_packets (cc_next (cc ! 2)) ?cs) = Inr d'"
      "demux_synced d' (cc[2 := (cc_next ^^ length ?cs) (cc_next (cc ! 2))])"
      "dx_current d' = Some (take 162 body @ concat ?cs, pts)"
      "dx_report d' = (dx_report d1)\<lparr>rp_packets := rp_packets (dx_report d1) + length ?cs\<rparr>"
    by auto
  have b: "take 162 body @ concat ?cs = body"
    using chunks_rest [of 162 body] by (simp add: es)
  have "demux_done d' = (demux_done d)\<lparr>rp_access_units := rp_access_units (demux_done d) @ [body],
      rp_pts := rp_pts (demux_done d) @ [pts], rp_pcr := rp_pcr (demux_done d) @ [pcr],
      rp_packets := rp_packets (demux_done d) + length (video_packets (cc ! 2) key pcr es)\<rparr>"
    using t(3,4) b
    by (simp add: demux_done_def demux_flush_def d1_def Let_def demux_count_def video_packets_def
        split: option.split prod.split)
  then show ?thesis using first t(1,2) by (auto simp: video_packets_def funpow_swap1)
qed

text \<open>The report of a stream with one more access unit.\<close>

definition report_add :: "report \<Rightarrow> bool \<Rightarrow> bytes \<Rightarrow> u64 \<Rightarrow> nat \<Rightarrow> report" where
  "report_add r psi au pts n = r\<lparr>rp_access_units := rp_access_units r @ [au], rp_pts := rp_pts r @ [pts],
     rp_stream_type := (if psi then Some STREAM_TYPE_H264 else rp_stream_type r),
     rp_pcr := rp_pcr r @ [pcr_of pts], rp_packets := rp_packets r + n\<rparr>"

definition with_aud :: "bytes \<Rightarrow> bytes" where
  "with_aud au = (if starts_with_aud au then [] else AUD_NAL) @ au"

lemma masked_le: "pts AND 0x1FFFFFFFF = pts \<Longrightarrow> x \<le> pts \<Longrightarrow> x AND 0x1FFFFFFFF = (x :: u64)"
proof -
  assume m: "pts AND 0x1FFFFFFFF = pts" and le: "x \<le> pts"
  have "pts \<le> 0x1FFFFFFFF" by (metis m word_and_le1)
  then have "unat pts \<le> 0x1FFFFFFFF" by (simp add: word_le_nat_alt)
  moreover have "unat x \<le> unat pts" using le by (simp add: word_le_nat_alt)
  ultimately have "x < 2 ^ 33" by (simp add: word_less_nat_alt)
  then show "x AND 0x1FFFFFFFF = x" unfolding mask33 by (rule less_mask_eq)
qed

lemma pts_90k_masked: "pts_90k tgt t = Inr pts \<Longrightarrow> pts AND 0x1FFFFFFFF = pts"
  by (auto simp: pts_90k_def bind_r_eq_Inr_iff and.assoc)

lemma pcr_of_masked: "pts AND 0x1FFFFFFFF = pts \<Longrightarrow> pcr_of pts AND 0x1FFFFFFFF = pcr_of pts"
proof (cases "PCR_DELAY_TICKS \<le> pts")
  case True
  assume "pts AND 0x1FFFFFFFF = pts"
  moreover have "pts - PCR_DELAY_TICKS \<le> pts" using True by (simp add: word_sub_le)
  ultimately show ?thesis using True masked_le by (simp add: pcr_of_def)
qed (simp add: pcr_of_def)

lemma demux_psi_packets:
  assumes "demux_synced d cc"
  shows "\<exists>d'. demux_packets d (psi_packets cc) = Inr d' \<and>
    demux_synced d' (cc[0 := cc_next (cc ! 0), 1 := cc_next (cc ! 1)]) \<and>
    demux_done d' = (demux_done d)\<lparr>rp_stream_type := Some STREAM_TYPE_H264, rp_packets := rp_packets (demux_done d) + 2\<rparr>"
proof -
  let ?d1 = "demux_count d 0 (cc ! 0)" and ?cc1 = "cc[0 := cc_next (cc ! 0)]"
  have l: "length cc = 3" using assms by (rule demux_synced_nth)
  have s1: "demux_synced ?d1 ?cc1" using assms by (intro demux_synced_count) simp_all
  let ?d2 = "demux_count ?d1 1 (cc ! 1)"
  let ?d3 = "?d2\<lparr>dx_report := (dx_report ?d2)\<lparr>rp_stream_type := Some STREAM_TYPE_H264\<rparr>\<rparr>"
  have c1: "?cc1 ! 1 = cc ! 1" by simp
  have "demux_synced ?d2 (?cc1[1 := cc_next (?cc1 ! 1)])"
    using demux_synced_count [OF s1, of 1] by simp
  then have s3: "demux_synced ?d3 (cc[0 := cc_next (cc ! 0), 1 := cc_next (cc ! 1)])"
    unfolding c1 by (simp add: demux_synced_def)
  have "demux_packets d (psi_packets cc) = Inr ?d3"
    unfolding psi_packets_def demux_packets.simps demux_pat_packet [OF assms] sum.case
    using demux_pmt_packet [OF s1] by (simp add: c1 Let_def)
  moreover have "demux_done ?d3 = (demux_done d)\<lparr>rp_stream_type := Some STREAM_TYPE_H264, rp_packets := rp_packets (demux_done d) + 2\<rparr>"
    by (simp add: demux_done_def demux_flush_def demux_count_def split: option.split prod.split)
  ultimately show ?thesis using s3 by blast
qed

lemma demux_push_packets:
  assumes sy: "demux_synced d (mx_cc m)" and pts: "pts_90k tgt (mp_timestamp pkt) = Inr pts"
  shows "\<exists>d'. demux_packets d (push_packets m pkt pts) = Inr d' \<and>
    demux_synced d' (mx_cc (push_after m pkt pts)) \<and>
    demux_done d' = report_add (demux_done d) (needs_psi m pkt) (with_aud (mp_data pkt)) pts
      (length (push_packets m pkt pts))"
proof -
  let ?es = "au_stream pts (mp_data pkt)" and ?key = "mp_key pkt \<or> contains_idr (mp_data pkt)"
  have es: "?es = pes_header pts @ with_aud (mp_data pkt)" by (simp add: au_stream_def with_aud_def)
  have l: "length (mx_cc m) = 3" using sy by (rule demux_synced_nth)
  note p = pts_90k_masked [OF pts] pcr_of_masked [OF pts_90k_masked [OF pts]]
  show ?thesis
  proof (cases "needs_psi m pkt")
    case False
    then show ?thesis using demux_video_packets [OF sy es p, of ?key]
      by (auto simp: push_packets_def push_after_def mux_after_def report_add_def)
  next
    case True
    let ?cc = "(mx_cc m)[0 := cc_next (mx_cc m ! 0), 1 := cc_next (mx_cc m ! 1)]"
    from demux_psi_packets [OF sy] obtain d1 where
      d1: "demux_packets d (psi_packets (mx_cc m)) = Inr d1" "demux_synced d1 ?cc"
        "demux_done d1 = (demux_done d)\<lparr>rp_stream_type := Some STREAM_TYPE_H264, rp_packets := rp_packets (demux_done d) + 2\<rparr>"
      by blast
    have c2: "?cc ! 2 = mx_cc m ! 2" by simp
    have lp: "length (psi_packets (mx_cc m)) = 2" by (simp add: psi_packets_def)
    from demux_video_packets [OF d1(2) es p, of ?key] True d1 lp show ?thesis
      unfolding c2
      by (auto simp: push_packets_def push_after_def mux_after_def psi_after_def report_add_def demux_packets_append)
  qed
qed

text \<open>A run: the packets are pushed one after another, the first error ends it.\<close>

fun Mux_run :: "'s writer \<Rightarrow> target \<Rightarrow> 's mux \<Rightarrow> media_packet list \<Rightarrow> (unit result \<times> 's mux) option" where
  "Mux_run wr tgt m [] = Some (Inr (), m)"
| "Mux_run wr tgt m (pkt # pkts) =
     (case Mux_push wr tgt m pkt of
        None \<Rightarrow> None
      | Some (Inl e, m') \<Rightarrow> Some (Inl e, m')
      | Some (Inr _, m') \<Rightarrow> Mux_run wr tgt m' pkts)"

definition muxable :: "target \<Rightarrow> media_packet \<Rightarrow> bool" where
  "muxable tgt pkt \<longleftrightarrow> mp_codec pkt = H264 \<and> mp_data pkt \<noteq> [] \<and> no_panic (pts_90k tgt (mp_timestamp pkt))"

lemma muxable_pts: "muxable tgt pkt \<Longrightarrow> \<exists>pts. pts_90k tgt (mp_timestamp pkt) = Inr pts"
  by (auto simp: muxable_def pts_90k_def u64_mul_def split: if_splits)

lemma length_tail_packets_188:
  "\<forall>c \<in> set cs. c \<noteq> [] \<and> length c \<le> 184 \<Longrightarrow> p \<in> set (tail_packets cc cs) \<Longrightarrow> length p = 188"
  by (induction cs arbitrary: cc) auto

lemma length_push_packets: "p \<in> set (push_packets m pkt pts) \<Longrightarrow> length p = 188"
proof -
  have "\<forall>c \<in> set (chunks_of 184 xs). c \<noteq> [] \<and> length c \<le> 184" for xs :: bytes
    using chunks_of_sizes by blast
  then have "length q = 188" if "q \<in> set (tail_packets cc (chunks_of 184 xs))" for q cc xs
    using length_tail_packets_188 that by blast
  then show "p \<in> set (push_packets m pkt pts) \<Longrightarrow> length p = 188"
    by (auto simp: push_packets_def psi_packets_def table_packet_def video_packets_def split: if_splits)
qed

lemma push_after_started: "mx_started (push_after m pkt pts)"
  by (auto simp: push_after_def mux_after_def needs_psi_def)

lemma push_after_sink: "mx_sink (push_after m pkt pts\<lparr>mx_sink := s\<rparr>) = s"
  by simp

lemma mux_sends_Vec: "mux_sends Vec_write ps s fin y \<longleftrightarrow> y = (Inr (), fin\<lparr>mx_sink := s @ concat ps\<rparr>)"
  by (simp add: mux_sends_def)

lemma push_after_packets: "mx_packets (push_after m pkt pts) = mx_packets m + length (push_packets m pkt pts)"
  by (simp add: push_after_def mux_after_def psi_after_def push_packets_def psi_packets_def video_packets_def)

definition report_adds :: "report \<Rightarrow> bytes list \<Rightarrow> u64 list \<Rightarrow> nat \<Rightarrow> report" where
  "report_adds r aus ptss n = r\<lparr>rp_access_units := rp_access_units r @ aus, rp_pts := rp_pts r @ ptss,
     rp_stream_type := (if aus = [] then rp_stream_type r else Some STREAM_TYPE_H264),
     rp_pcr := rp_pcr r @ map pcr_of ptss, rp_packets := rp_packets r + n\<rparr>"

lemma Mux_run_Vec:
  assumes "\<forall>pkt \<in> set pkts. muxable tgt pkt" and "demux_synced d (mx_cc m)"
    and "mx_started m \<Longrightarrow> rp_stream_type (demux_done d) = Some STREAM_TYPE_H264"
  shows "\<exists>m' ps d' ptss. Mux_run Vec_write tgt m pkts = Some (Inr (), m') \<and>
    mx_sink m' = mx_sink m @ concat ps \<and> (\<forall>p \<in> set ps. length p = 188) \<and>
    mx_packets m' = mx_packets m + length ps \<and>
    map (\<lambda>p. pts_90k tgt (mp_timestamp p)) pkts = map Inr ptss \<and>
    demux_packets d ps = Inr d' \<and>
    demux_done d' = report_adds (demux_done d) (map (with_aud \<circ> mp_data) pkts) ptss (length ps)"
  using assms
proof (induction pkts arbitrary: d m)
  case Nil
  then show ?case by (intro exI [of _ m] exI [of _ "[]"] exI [of _ d]) (simp add: report_adds_def)
next
  case (Cons pkt pkts)
  have mx: "muxable tgt pkt" using Cons.prems(1) by simp
  then obtain pts where pts: "pts_90k tgt (mp_timestamp pkt) = Inr pts" using muxable_pts by blast
  let ?ps = "push_packets m pkt pts"
  define m1 where "m1 = push_after m pkt pts\<lparr>mx_sink := mx_sink m @ concat ?ps\<rparr>"
  have l: "length (mx_cc m) = 3" using Cons.prems(2) by (rule demux_synced_nth)
  have push: "Mux_push Vec_write tgt m pkt = Some (Inr (), m1)"
    using Mux_push_sends [OF _ _ pts l, of Vec_write] mx by (auto simp: muxable_def mux_sends_Vec m1_def)
  from demux_push_packets [OF Cons.prems(2) pts] obtain d1 where
    d1: "demux_packets d ?ps = Inr d1" "demux_synced d1 (mx_cc m1)"
      "demux_done d1 = report_add (demux_done d) (needs_psi m pkt) (with_aud (mp_data pkt)) pts (length ?ps)"
    by (auto simp: m1_def)
  have st: "rp_stream_type (demux_done d1) = Some STREAM_TYPE_H264"
    using d1(3) Cons.prems(3) by (auto simp: report_add_def needs_psi_def)
  have "\<forall>pkt \<in> set pkts. muxable tgt pkt" using Cons.prems(1) by simp
  from Cons.IH [OF this d1(2) st] obtain m' ps d' ptss where
    "Mux_run Vec_write tgt m1 pkts = Some (Inr (), m')" "mx_sink m' = mx_sink m1 @ concat ps"
    "\<forall>p \<in> set ps. length p = 188" "mx_packets m' = mx_packets m1 + length ps"
    "map (\<lambda>p. pts_90k tgt (mp_timestamp p)) pkts = map Inr ptss" "demux_packets d1 ps = Inr d'"
    "demux_done d' = report_adds (demux_done d1) (map (with_aud \<circ> mp_data) pkts) ptss (length ps)"
    by blast
  then show ?case
    using push d1(1,3) st pts length_push_packets [of _ m pkt pts] push_after_packets [of m pkt pts]
    by (intro exI [of _ m'] exI [of _ "?ps @ ps"] exI [of _ d'] exI [of _ "pts # ptss"])
      (auto simp: m1_def demux_packets_append report_adds_def report_add_def)
qed

lemma chunks_of_concat_all:
  "0 < n \<Longrightarrow> \<forall>t \<in> set ts. length t = n \<Longrightarrow> chunks_of n (concat ts) = ts"
  by (induction ts) (auto simp: chunks_of_step)

section \<open>Properties\<close>

text \<open>C3: The transport stream round trip. Any sequence of non-empty H.264 access units, with time
  stamps whose conversion to 90 kHz does not overflow, is muxed into a buffer without an error;
  the stream is whole packets of 188 bytes, as many as the mux counts; and the demultiplexer
  reads from it every access unit byte for byte (with a delimiter in front of those that had
  none), every time stamp, one clock reference per access unit 300 ms behind it, the H.264
  stream type, and no continuity error on any PID.\<close>

theorem Mux_demux_roundtrip:
  assumes "\<forall>pkt \<in> set pkts. mp_codec pkt = H264 \<and> mp_data pkt \<noteq> [] \<and> no_panic (pts_90k tgt (mp_timestamp pkt))"
  shows "\<exists>m r. Mux_run Vec_write tgt (Mux_new []) pkts = Some (Inr (), m) \<and>
    length (mx_sink m) = 188 * mx_packets m \<and>
    demux_parse (mx_sink m) = Inr r \<and>
    rp_access_units r = map (\<lambda>p. (if starts_with_aud (mp_data p) then [] else AUD_NAL) @ mp_data p) pkts \<and>
    map Inr (rp_pts r) = map (\<lambda>p. pts_90k tgt (mp_timestamp p)) pkts \<and>
    rp_pcr r = map (\<lambda>pts. if 27000 \<le> pts then pts - 27000 else 0) (rp_pts r) \<and>
    rp_stream_type r = (if pkts = [] then None else Some 0x1B) \<and>
    rp_cc_errors r = [0, 0, 0] \<and> rp_packets r = mx_packets m"
proof -
  have "\<forall>pkt \<in> set pkts. muxable tgt pkt" using assms by (simp add: muxable_def)
  moreover have "demux_synced demux_init (mx_cc (Mux_new []))"
    by (auto simp: demux_synced_def demux_init_def Mux_new_def less_Suc_eq numeral_3_eq_3)
  moreover have "\<not> mx_started (Mux_new [])" by (simp add: Mux_new_def)
  ultimately obtain m ps d ptss where
    run: "Mux_run Vec_write tgt (Mux_new []) pkts = Some (Inr (), m)" "mx_sink m = concat ps"
      "\<forall>p \<in> set ps. length p = 188" "mx_packets m = length ps"
    and pts: "map (\<lambda>p. pts_90k tgt (mp_timestamp p)) pkts = map Inr ptss"
    and d: "demux_packets demux_init ps = Inr d"
      "demux_done d = report_adds (demux_done demux_init) (map (with_aud \<circ> mp_data) pkts) ptss (length ps)"
    using Mux_run_Vec [of pkts tgt demux_init "Mux_new []"] by (auto simp: Mux_new_def)
  have len: "length (concat ps) = 188 * length ps" using run(3) by (induction ps) auto
  have ch: "chunks_of PACKET_LEN (concat ps) = ps"
    using run(3) by (intro chunks_of_concat_all) (simp_all add: PACKET_LEN_def)
  have init: "demux_done demux_init = dx_report demux_init" by (simp add: demux_done_def demux_flush_def demux_init_def)
  have "demux_parse (mx_sink m) = Inr (demux_done d)"
    unfolding demux_parse_def run(2) ch d(1) by (simp add: len PACKET_LEN_def demux_done_def)
  then show ?thesis
    using run len pts d(2) unfolding init
    by (auto simp: report_adds_def demux_init_def with_aud_def pcr_of_def[abs_def] PCR_DELAY_TICKS_def STREAM_TYPE_H264_def)
qed

theorem Mux_demux_roundtrip_witness:
  "\<exists>m r. Mux_run Vec_write (host_target True) (Mux_new [])
       [\<lparr>mp_codec = H264, mp_key = True, mp_timestamp = 1000000, mp_data = [0, 0, 0, 1, 0x65, 7]\<rparr>,
        \<lparr>mp_codec = H264, mp_key = False, mp_timestamp = 1040000, mp_data = 0 # 0 # 1 # 0x41 # replicate 300 9\<rparr>]
       = Some (Inr (), m) \<and>
    demux_parse (mx_sink m) = Inr r \<and> rp_pts r = [90000, 93600] \<and> rp_pcr r = [63000, 66600]"
proof -
  let ?pkts = "[\<lparr>mp_codec = H264, mp_key = True, mp_timestamp = 1000000, mp_data = [0, 0, 0, 1, 0x65, 7]\<rparr>,
        \<lparr>mp_codec = H264, mp_key = False, mp_timestamp = 1040000, mp_data = 0 # 0 # 1 # 0x41 # replicate 300 9\<rparr>]"
  have p: "pts_90k (host_target True) 1000000 = Inr 90000" "pts_90k (host_target True) 1040000 = Inr 93600"
    by (simp_all add: pts_90k_def u64_mul_def)
  from Mux_demux_roundtrip [of ?pkts "host_target True"] obtain m r where
    mr: "Mux_run Vec_write (host_target True) (Mux_new []) ?pkts = Some (Inr (), m)" "demux_parse (mx_sink m) = Inr r"
    "map Inr (rp_pts r) = map (\<lambda>p. pts_90k (host_target True) (mp_timestamp p)) ?pkts"
    "rp_pcr r = map (\<lambda>pts. if 27000 \<le> pts then pts - 27000 else 0) (rp_pts r)"
    by (auto simp: p)
  then have "rp_pts r = [90000, 93600]" by (cases "rp_pts r"; cases "tl (rp_pts r)") (auto simp: p)
  with mr show ?thesis by auto
qed

lemma nth_ts_header_append [simp]: "(ts_header cc p pusi ad @ rest) ! 0 = SYNC"
  by (simp add: ts_header_def)

lemma tail_packets_sync: "p \<in> set (tail_packets cc cs) \<Longrightarrow> p ! 0 = SYNC"
  by (induction cs arbitrary: cc) (auto simp: next_packet_def Let_def simp del: append_assoc append.simps)

lemma push_packets_sync: "p \<in> set (push_packets m pkt pts) \<Longrightarrow> p ! 0 = SYNC"
  by (auto simp: push_packets_def psi_packets_def table_packet_def video_packets_def first_packet_def Let_def
      simp del: append.simps dest: tail_packets_sync split: if_splits)

text \<open>For any sink and any mux, a push returns; what it does not mux it refuses without
  touching the mux; what it muxes it offers to the sink as the packets below, each of 188 bytes
  starting with the sync byte, and the first refusal of the sink ends the push with the sink's
  error; when all are accepted the counters have advanced by exactly the packets sent.\<close>

lemma Mux_push_offers:
  assumes "length (mx_cc m) = 3" and "no_panic (pts_90k tgt (mp_timestamp pkt))"
  shows "if mp_codec pkt \<noteq> H264 \<or> mp_data pkt = [] then Mux_push wr tgt m pkt = Some (Inl (Err Unsupported), m)
    else \<exists>ps m' pts. pts_90k tgt (mp_timestamp pkt) = Inr pts \<and> ps = push_packets m pkt pts \<and>
      (\<forall>p \<in> set ps. length p = 188 \<and> p ! 0 = 0x47) \<and>
      (case write_seq wr ps (mx_sink m) of
         (Inl e, s) \<Rightarrow> Mux_push wr tgt m pkt = Some (Inl e, m') \<and> mx_sink m' = s
       | (Inr _, s) \<Rightarrow> Mux_push wr tgt m pkt = Some (Inr (), m') \<and> mx_sink m' = s \<and>
           mx_packets m' = mx_packets m + length ps \<and> mx_started m')"
proof (cases "mp_codec pkt \<noteq> H264 \<or> mp_data pkt = []")
  case True
  then show ?thesis by (auto simp: Mux_push_def)
next
  case False
  then obtain pts where pts: "pts_90k tgt (mp_timestamp pkt) = Inr pts"
    using muxable_pts assms(2) by (auto simp: muxable_def)
  from Mux_push_sends [OF _ _ pts assms(1), of wr] False obtain y where
    y: "Mux_push wr tgt m pkt = Some y" "mux_sends wr (push_packets m pkt pts) (mx_sink m) (push_after m pkt pts) y"
    by auto
  have "\<exists>m'. case write_seq wr (push_packets m pkt pts) (mx_sink m) of
         (Inl e, s) \<Rightarrow> Mux_push wr tgt m pkt = Some (Inl e, m') \<and> mx_sink m' = s
       | (Inr _, s) \<Rightarrow> Mux_push wr tgt m pkt = Some (Inr (), m') \<and> mx_sink m' = s \<and>
           mx_packets m' = mx_packets m + length (push_packets m pkt pts) \<and> mx_started m'"
    using y push_after_packets [of m pkt pts] push_after_started [of m pkt pts]
    by (cases "write_seq wr (push_packets m pkt pts) (mx_sink m)") (auto simp: mux_sends_def split: sum.splits)
  then show ?thesis using False pts length_push_packets push_packets_sync [unfolded SYNC_def] by auto
qed

lemma Mux_push_offers_witness:
  "Mux_push SliceSink_write (host_target True) (Mux_new (SliceSink_new [])) \<lparr>mp_codec = Jpeg, mp_key = True, mp_timestamp = 0, mp_data = [1]\<rparr>
     = Some (Inl (Err Unsupported), Mux_new (SliceSink_new []))"
  using Mux_push_offers [of "Mux_new (SliceSink_new [])" "host_target True"
      "\<lparr>mp_codec = Jpeg, mp_key = True, mp_timestamp = 0, mp_data = [1]\<rparr>" SliceSink_write]
  by (simp add: Mux_new_def pts_90k_def u64_mul_def)

text \<open>The checksum of any data followed by its own checksum, most significant byte first, is 0;
  so is that of the section in every table packet, over the length the section itself states:
  the test a receiver makes.\<close>

lemma psi_sections_checksum:
  "crc32_mpeg2 (bs @ be32 (crc32_mpeg2 bs)) = 0 \<and>
   (\<forall>p \<in> set (psi_packets cc).
      let n = 3 + unat (from_be16 (p ! 6 AND 0x0F) (p ! 7)) in crc32_mpeg2 (cut p 5 (5 + n)) = 0)"
proof -
  have pat: "table_packet Pat c pat_section ! 6 = 0xB0" "table_packet Pat c pat_section ! 7 = 0x0D" for c
    by (simp_all add: table_packet_def pat_section_def ts_header_def)
  have pmt: "table_packet Pmt c pmt_section ! 6 = 0xB0" "table_packet Pmt c pmt_section ! 7 = 0x12" for c
    by (simp_all add: table_packet_def pmt_section_def ts_header_def)
  have n: "unat (from_be16 (0xB0 AND 0x0F) 0x0D) = 13" "unat (from_be16 (0xB0 AND 0x0F) 0x12) = 18"
    by (simp_all add: from_be16_def)
  have cut: "cut (table_packet p c sec) 5 (5 + (length sec + 4)) = sec @ be32 (crc32_mpeg2 sec)" for p c sec
    by (simp add: cut_def table_packet_def)
  show ?thesis
    using crc32_mpeg2_append_crc cut [of Pat "cc ! 0" pat_section] cut [of Pmt "cc ! 1" pmt_section]
    by (simp add: psi_packets_def Let_def pat pmt n [simplified])
qed

lemma psi_sections_checksum_witness:
  "let p = table_packet Pat 3 pat_section; n = 3 + unat (from_be16 (p ! 6 AND 0x0F) (p ! 7))
   in crc32_mpeg2 (cut p 5 (5 + n)) = 0"
  using psi_sections_checksum [of "[]" "[3, 5]"] by (simp add: psi_packets_def Let_def)

text \<open>The tables are not repeated inside an access unit: one large access unit puts more than
  \<open>PSI_INTERVAL_PACKETS\<close> packets behind the last tables.\<close>

lemma Mux_psi_interval_exceeded:
  assumes "length (mx_cc m) = 3" and "pts_90k tgt (mp_timestamp pkt) = Inr pts"
    and "mp_codec pkt = H264" and "11952 \<le> length (mp_data pkt)"
  shows "\<exists>m'. Mux_push Vec_write tgt m pkt = Some (Inr (), m') \<and> PSI_INTERVAL_PACKETS < mx_since_psi m'"
proof -
  have ne: "mp_data pkt \<noteq> []" using assms(4) by auto
  let ?es = "au_stream pts (mp_data pkt)"
  have "11952 \<le> length ?es" using assms(4) by (simp add: au_stream_def)
  then have "64 \<le> length (chunks_of 184 (drop 176 ?es))" by (subst length_chunks_of) simp_all
  then show ?thesis
    using Mux_push_sends [OF assms(3) ne assms(2,1), of Vec_write]
    by (auto simp: mux_sends_Vec push_after_def mux_after_def psi_after_def PSI_INTERVAL_PACKETS_def)
qed

lemma Mux_psi_interval_exceeded_witness:
  "\<exists>m'. Mux_push Vec_write (host_target True) (Mux_new [])
      \<lparr>mp_codec = H264, mp_key = False, mp_timestamp = 0, mp_data = replicate 12000 1\<rparr> = Some (Inr (), m') \<and>
    PSI_INTERVAL_PACKETS < mx_since_psi m'"
  by (rule Mux_psi_interval_exceeded [where pts = 0]) (simp_all add: Mux_new_def pts_90k_def u64_mul_def)

text \<open>The demultiplexer is not safe on streams of other origin: an adaptation field longer than
  its packet makes it panic.\<close>

lemma demux_parse_panics:
  "demux_parse (ts_header 0 Video True True @ [200] @ replicate 183 0) = Inl DemuxPanic"
  by code_simp

end
