(* ===== verification/Bytes.thy ===== *)
theory Bytes
  imports Prelude
begin

text \<open>
  What the program uses of \<open>[u8]\<close> and \<open>str\<close>: searching, splitting, trimming, and decimal
  numbers. A \<open>str\<close> is its UTF-8 bytes; \<open>utf8_valid\<close> says which bytes are one. The text
  operations are the standard library's, on bytes: a white space character is one of the byte
  sequences of \<open>white_space\<close>, and the separators the program splits at are ASCII.
\<close>

section \<open>Literals and searching\<close>

text \<open>A byte string literal \<open>b"..."\<close>.\<close>

definition ascii :: "string \<Rightarrow> bytes" where
  "ascii s = map of_char s"

definition CRLF :: bytes where
  "CRLF = [13, 10]"

text \<open>\<open>iter().position(p)\<close> and \<open>windows(n)\<close>.\<close>

fun position :: "('a \<Rightarrow> bool) \<Rightarrow> 'a list \<Rightarrow> nat option" where
  "position p [] = None"
| "position p (x # xs) = (if p x then Some 0 else map_option Suc (position p xs))"

definition windows :: "nat \<Rightarrow> 'a list \<Rightarrow> 'a list list" where
  "windows n xs = map (\<lambda>i. take n (drop i xs)) [0..<length xs + 1 - n]"

text \<open>The first place where the needle occurs.\<close>

definition find_sub :: "bytes \<Rightarrow> bytes \<Rightarrow> nat option" where
  "find_sub hay needle =
     (if needle = [] \<or> length hay < length needle then None
      else position (\<lambda>w. w = needle) (windows (length needle) hay))"

definition strip_prefix :: "'a list \<Rightarrow> 'a list \<Rightarrow> 'a list option" where
  "strip_prefix pre xs = (if take (length pre) xs = pre then Some (drop (length pre) xs) else None)"

definition strip_suffix :: "'a list \<Rightarrow> 'a list \<Rightarrow> 'a list option" where
  "strip_suffix suf xs =
     (if length suf \<le> length xs \<and> drop (length xs - length suf) xs = suf
      then Some (take (length xs - length suf) xs) else None)"

text \<open>\<open>split(sep)\<close> for a one-byte separator: always at least one piece.\<close>

fun split_on :: "'a \<Rightarrow> 'a list \<Rightarrow> 'a list list" where
  "split_on sep [] = [[]]"
| "split_on sep (x # xs) =
     (if x = sep then [] # split_on sep xs
      else (case split_on sep xs of [] \<Rightarrow> [[x]] | p # ps \<Rightarrow> (x # p) # ps))"

definition split_once :: "'a \<Rightarrow> 'a list \<Rightarrow> ('a list \<times> 'a list) option" where
  "split_once sep xs = map_option (\<lambda>i. (take i xs, drop (i + 1) xs)) (position (\<lambda>x. x = sep) xs)"

fun to_ascii_lowercase :: "u8 \<Rightarrow> u8" where
  "to_ascii_lowercase c = (if 65 \<le> c \<and> c \<le> 90 then c + 32 else c)"

definition eq_ignore_ascii_case :: "bytes \<Rightarrow> bytes \<Rightarrow> bool" where
  "eq_ignore_ascii_case a b \<longleftrightarrow> map to_ascii_lowercase a = map to_ascii_lowercase b"

section \<open>Facts on searching\<close>

lemma position_eq_None_iff: "position p xs = None \<longleftrightarrow> (\<forall>x \<in> set xs. \<not> p x)"
  by (induction xs) auto

lemma position_eq_Some_iff:
  "position p xs = Some i \<longleftrightarrow> i < length xs \<and> p (xs ! i) \<and> (\<forall>j < i. \<not> p (xs ! j))"
proof (induction xs arbitrary: i)
  case (Cons x xs)
  show ?case
  proof (cases i)
    case 0
    then show ?thesis by auto
  next
    case (Suc k)
    have "(\<forall>j < Suc k. \<not> p ((x # xs) ! j)) \<longleftrightarrow> \<not> p x \<and> (\<forall>j < k. \<not> p (xs ! j))"
      by (auto simp: less_Suc_eq_0_disj)
    then show ?thesis using Suc Cons.IH [of k] by auto
  qed
qed simp

lemma position_append:
  "position p (xs @ ys) = (case position p xs of Some i \<Rightarrow> Some i
     | None \<Rightarrow> map_option (\<lambda>i. length xs + i) (position p ys))"
proof (induction xs)
  case Nil
  then show ?case by (cases "position p ys") simp_all
next
  case (Cons x xs)
  then show ?case by (cases "position p ys") (auto split: option.split)
qed

lemma position_append_sep: "\<forall>x \<in> set xs. \<not> p x \<Longrightarrow> p y \<Longrightarrow> position p (xs @ y # ys) = Some (length xs)"
  by (induction xs) auto

lemma split_once_eq_Some_iff:
  "split_once sep xs = Some (a, b) \<longleftrightarrow> xs = a @ sep # b \<and> sep \<notin> set a"
proof
  assume "split_once sep xs = Some (a, b)"
  then obtain i where i: "position (\<lambda>x. x = sep) xs = Some i" "a = take i xs" "b = drop (i + 1) xs"
    by (auto simp: split_once_def)
  then have "i < length xs" "xs ! i = sep" "\<forall>j < i. xs ! j \<noteq> sep"
    by (auto simp: position_eq_Some_iff)
  then show "xs = a @ sep # b \<and> sep \<notin> set a"
    using i id_take_nth_drop [of i xs] by (auto simp: in_set_conv_nth)
next
  assume a: "xs = a @ sep # b \<and> sep \<notin> set a"
  then have "position (\<lambda>x. x = sep) xs = Some (length a)"
    by (elim conjE, hypsubst, intro position_append_sep) auto
  then show "split_once sep xs = Some (a, b)" using a by (simp add: split_once_def)
qed

lemma split_once_eq_None_iff: "split_once sep xs = None \<longleftrightarrow> sep \<notin> set xs"
  by (auto simp: split_once_def position_eq_None_iff)

lemma find_sub_eq_Some_iff:
  assumes "needle \<noteq> []"
  shows "find_sub hay needle = Some k \<longleftrightarrow>
    k + length needle \<le> length hay \<and> take (length needle) (drop k hay) = needle \<and>
    (\<forall>j < k. take (length needle) (drop j hay) \<noteq> needle)"
proof (cases "length hay < length needle")
  case True
  then show ?thesis by (simp add: find_sub_def)
next
  case False
  have l: "length (windows (length needle) hay) = length hay + 1 - length needle" by (simp add: windows_def)
  have n: "windows (length needle) hay ! j = take (length needle) (drop j hay)"
    if "j < length hay + 1 - length needle" for j using that by (simp add: windows_def del: upt_Suc)
  have "find_sub hay needle = Some k \<longleftrightarrow> k < length hay + 1 - length needle \<and>
      windows (length needle) hay ! k = needle \<and> (\<forall>j < k. windows (length needle) hay ! j \<noteq> needle)"
    using False assms by (simp add: find_sub_def position_eq_Some_iff l)
  then show ?thesis using False n by (auto simp: less_Suc_eq_le Suc_diff_le)
qed

lemma find_sub_eq_None_iff:
  assumes "needle \<noteq> []"
  shows "find_sub hay needle = None \<longleftrightarrow> (\<forall>k. k + length needle \<le> length hay \<longrightarrow> take (length needle) (drop k hay) \<noteq> needle)"
proof (cases "length hay < length needle")
  case False
  then have "find_sub hay needle = None \<longleftrightarrow> (\<forall>i < length hay + 1 - length needle. take (length needle) (drop i hay) \<noteq> needle)"
    using assms by (auto simp: find_sub_def position_eq_None_iff windows_def)
  then show ?thesis using False by (auto simp: less_Suc_eq_le)
qed (simp add: find_sub_def)

text \<open>In a prefix of a text the first occurrence is the one of the text, if it is complete.\<close>

lemma find_sub_prefix:
  assumes "find_sub text needle = Some k" "needle \<noteq> []"
  shows "find_sub (take n text) needle = (if k + length needle \<le> n then Some k else None)"
proof -
  have f: "k + length needle \<le> length text" "take (length needle) (drop k text) = needle"
    "\<forall>j < k. take (length needle) (drop j text) \<noteq> needle"
    using assms by (simp_all add: find_sub_eq_Some_iff)
  have sub: "take (length needle) (drop j (take n text)) = take (length needle) (drop j text)"
    if "j + length needle \<le> n" for j using that by (simp add: drop_take min_def)
  show ?thesis
  proof (cases "k + length needle \<le> n")
    case True
    then show ?thesis using f sub assms(2) by (auto simp: find_sub_eq_Some_iff)
  next
    case False
    have "take (length needle) (drop j (take n text)) \<noteq> needle" if "j + length needle \<le> length (take n text)" for j
    proof -
      have "j + length needle \<le> n" "j < k" using that False by auto
      then show ?thesis using f(3) sub by simp
    qed
    then show ?thesis using False assms(2) by (simp add: find_sub_eq_None_iff)
  qed
qed

section \<open>Decimal numbers\<close>

text \<open>\<open>fmt_u64\<close> of \<open>lib.rs\<close>: the digits from the end of a 20-byte buffer; index and
  subtraction panic below 0, the text is ASCII.\<close>

function fmt_u64_loop :: "u64 \<Rightarrow> bytes \<Rightarrow> nat \<Rightarrow> (nat \<times> bytes) result" where
  "fmt_u64_loop v buf i =
     (if i = 0 then Inl Panic
      else
        (case put buf (i - 1) [48 + ucast (v mod 10)] of
           Inl e \<Rightarrow> Inl e
         | Inr buf' \<Rightarrow>
             if v div 10 = 0 then Inr (i - 1, buf') else fmt_u64_loop (v div 10) buf' (i - 1)))"
  by pat_completeness auto
termination
  by (relation "measure (\<lambda>(v, buf, i). i)") auto

declare fmt_u64_loop.simps [simp del]

definition fmt_u64 :: "u64 \<Rightarrow> bytes \<Rightarrow> bytes result" where
  "fmt_u64 v buf =
     bind_r (fmt_u64_loop v buf (length buf)) (\<lambda>(i, buf'). subslice buf' i (length buf'))"

text \<open>The reference: decimal digits of a number.\<close>

function decimal :: "nat \<Rightarrow> bytes" where
  "decimal n = (if n < 10 then [48 + of_nat n] else decimal (n div 10) @ [48 + of_nat (n mod 10)])"
  by pat_completeness auto
termination
  by (relation "measure id") auto

declare decimal.simps [simp del]

lemma decimal_nonempty [simp]: "decimal n \<noteq> []"
  by (subst decimal.simps) simp

lemma length_decimal: "n < 10 ^ k \<Longrightarrow> 0 < k \<Longrightarrow> length (decimal n) \<le> k"
proof (induction n arbitrary: k rule: decimal.induct)
  case (1 n)
  show ?case
  proof (cases "n < 10")
    case True
    then show ?thesis using 1 by (simp add: decimal.simps [of n])
  next
    case False
    then obtain j where k: "k = Suc j" "0 < j" using "1.prems" by (cases k; cases "k - 1") auto
    have "n div 10 < 10 ^ j" using "1.prems" k by (simp add: less_mult_imp_div_less)
    then show ?thesis using False "1.IH" [of j] k by (simp add: decimal.simps [of n])
  qed
qed

lemma decimal_digits: "c \<in> set (decimal n) \<Longrightarrow> \<exists>d < 10. c = 48 + of_nat d"
proof (induction n rule: decimal.induct)
  case (1 n)
  show ?case
  proof (cases "n < 10")
    case True
    then show ?thesis using 1 by (auto simp: decimal.simps [of n])
  next
    case False
    then show ?thesis using 1 by (auto simp: decimal.simps [of n] intro: exI [of _ "n mod 10"])
  qed
qed

lemma fmt_u64_loop_decimal:
  "length (decimal (unat v)) \<le> i \<Longrightarrow> i \<le> length buf \<Longrightarrow>
   fmt_u64_loop v buf i = Inr (i - length (decimal (unat v)),
     take (i - length (decimal (unat v))) buf @ decimal (unat v) @ drop i buf)"
proof (induction v buf i rule: fmt_u64_loop.induct)
  case (1 v buf i)
  have i0: "i \<noteq> 0" using "1.prems"(1) by (metis decimal_nonempty le_zero_eq length_0_conv)
  have m: "ucast (v mod 10) = (of_nat (unat v mod 10) :: u8)"
  proof -
    have "unat (ucast (v mod 10) :: u8) = take_bit 8 (unat v mod 10)"
      by (simp add: unsigned_ucast_eq unat_mod)
    moreover have "unat (of_nat (unat v mod 10) :: u8) = take_bit 8 (unat v mod 10)"
      by (simp add: unsigned_of_nat)
    ultimately have "unat (ucast (v mod 10) :: u8) = unat (of_nat (unat v mod 10) :: u8)" by simp
    then show ?thesis by (rule unsigned_word_eqI)
  qed
  have d: "unat (v div 10) = unat v div 10" "(v div 10 = 0) = (unat v < 10)"
    by (simp_all add: unat_div unat_eq_zero [symmetric] div_eq_0_iff)
  let ?buf = "take (i - 1) buf @ [48 + of_nat (unat v mod 10)] @ drop i buf"
  have p: "put buf (i - 1) [48 + ucast (v mod 10)] = Inr ?buf"
    using i0 "1.prems"(2) by (subst put_ok) (simp_all add: m)
  show ?case
  proof (cases "unat v < 10")
    case True
    then show ?thesis using i0 p
      by (subst fmt_u64_loop.simps) (simp add: d decimal.simps [of "unat v"] Let_def)
  next
    case False
    then have dec: "decimal (unat v) = decimal (unat v div 10) @ [48 + of_nat (unat v mod 10)]"
      by (simp add: decimal.simps [of "unat v"])
    have l: "length (decimal (unat v div 10)) \<le> i - 1" "i - 1 \<le> length ?buf"
      using "1.prems" i0 by (simp_all add: dec)
    have "fmt_u64_loop v buf i = fmt_u64_loop (v div 10) ?buf (i - 1)"
      using i0 p False d by (subst fmt_u64_loop.simps) simp
    also have "\<dots> = Inr (i - 1 - length (decimal (unat v div 10)),
        take (i - 1 - length (decimal (unat v div 10))) ?buf @ decimal (unat v div 10) @ drop (i - 1) ?buf)"
      using "1.IH" [OF i0 p] False l by (simp add: d)
    finally show ?thesis using l "1.prems"(2) by (simp add: dec)
  qed
qed

lemma fmt_u64_decimal:
  "length buf = 20 \<Longrightarrow> fmt_u64 v buf = Inr (decimal (unat v))"
proof -
  assume b: "length buf = 20"
  have "unat v < 2 ^ 64" by (rule order.strict_trans2 [OF unsigned_less]) simp
  then have "length (decimal (unat v)) \<le> 20" by (intro length_decimal) simp_all
  then show ?thesis using b by (simp add: fmt_u64_def fmt_u64_loop_decimal)
qed

text \<open>Reading a number: digits only, no overflow past \<open>bound\<close> values (\<open>checked_mul\<close>,
  \<open>checked_add\<close>).\<close>

definition is_ascii_digit :: "u8 \<Rightarrow> bool" where
  "is_ascii_digit c \<longleftrightarrow> 48 \<le> c \<and> c \<le> 57"

fun parse_digits :: "nat \<Rightarrow> nat \<Rightarrow> bytes \<Rightarrow> nat option" where
  "parse_digits bound n [] = Some n"
| "parse_digits bound n (c # cs) =
     (if \<not> is_ascii_digit c then None
      else if n * 10 \<ge> bound then None
      else if n * 10 + unat (c - 48) \<ge> bound then None
      else parse_digits bound (n * 10 + unat (c - 48)) cs)"

lemma digit_facts: "d < 10 \<Longrightarrow> is_ascii_digit (48 + of_nat d) \<and> unat (48 + of_nat d - 48 :: u8) = d"
proof -
  assume "d < 10"
  then have "d \<in> {0, 1, 2, 3, 4, 5, 6, 7, 8, 9}" by auto
  then show ?thesis by (auto simp: is_ascii_digit_def)
qed

lemma parse_digits_append:
  "parse_digits bound n (xs @ ys) = (case parse_digits bound n xs of None \<Rightarrow> None | Some m \<Rightarrow> parse_digits bound m ys)"
  by (induction bound n xs rule: parse_digits.induct) auto

lemma parse_digits_decimal:
  "0 < bound \<Longrightarrow> parse_digits bound 0 (decimal n) = (if n < bound then Some n else None)"
proof (induction n rule: decimal.induct)
  case (1 n)
  show ?case
  proof (cases "n < 10")
    case True
    then show ?thesis using digit_facts [OF True] "1.prems" by (simp add: decimal.simps [of n])
  next
    case False
    have m: "n mod 10 < 10" by simp
    have e: "n div 10 * 10 + n mod 10 = n" by simp
    note f = digit_facts [OF m]
    show ?thesis
    proof (cases "n div 10 < bound")
      case True
      then have "parse_digits bound 0 (decimal n) = parse_digits bound (n div 10) [48 + of_nat (n mod 10)]"
        using 1 False by (simp add: decimal.simps [of n] parse_digits_append)
      also have "\<dots> = (if n div 10 * 10 \<ge> bound then None else if n div 10 * 10 + n mod 10 \<ge> bound then None
          else Some (n div 10 * 10 + n mod 10))" using f by simp
      also have "\<dots> = (if n < bound then Some n else None)" unfolding e by auto
      finally show ?thesis .
    next
      case nb: False
      then have "\<not> n < bound" by (meson div_le_dividend le_less_trans)
      then show ?thesis using 1 False nb by (simp add: decimal.simps [of n] parse_digits_append)
    qed
  qed
qed

end
