(* ===== verification/Strings.thy ===== *)
theory Strings
  imports Bytes
begin

text \<open>
  The text operations of the standard library that the request parser uses, on the UTF-8 bytes
  of a \<open>str\<close>: white space, trimming, lines, words and numbers.
\<close>

section \<open>White space\<close>

text \<open>The encodings of the characters with the Unicode property \<open>White_Space\<close>.\<close>

definition white_space :: "bytes list" where
  "white_space =
     [[9], [10], [11], [12], [13], [32], [0xC2, 0x85], [0xC2, 0xA0], [0xE1, 0x9A, 0x80],
      [0xE2, 0x80, 0x80], [0xE2, 0x80, 0x81], [0xE2, 0x80, 0x82], [0xE2, 0x80, 0x83],
      [0xE2, 0x80, 0x84], [0xE2, 0x80, 0x85], [0xE2, 0x80, 0x86], [0xE2, 0x80, 0x87],
      [0xE2, 0x80, 0x88], [0xE2, 0x80, 0x89], [0xE2, 0x80, 0x8A], [0xE2, 0x80, 0xA8],
      [0xE2, 0x80, 0xA9], [0xE2, 0x80, 0xAF], [0xE2, 0x81, 0x9F], [0xE3, 0x80, 0x80]]"

definition is_ascii_whitespace :: "u8 \<Rightarrow> bool" where
  "is_ascii_whitespace c \<longleftrightarrow> c = 9 \<or> c = 10 \<or> c = 12 \<or> c = 13 \<or> c = 32"

definition starts_with :: "bytes \<Rightarrow> bytes \<Rightarrow> bool" where
  "starts_with xs w \<longleftrightarrow> take (length w) xs = w"

definition ends_with :: "bytes \<Rightarrow> bytes \<Rightarrow> bool" where
  "ends_with xs w \<longleftrightarrow> length w \<le> length xs \<and> drop (length xs - length w) xs = w"

definition space_at :: "bytes \<Rightarrow> bytes option" where
  "space_at xs = find (starts_with xs) white_space"

lemma white_space_nonempty: "w \<in> set white_space \<Longrightarrow> w \<noteq> []"
  by (auto simp: white_space_def)

lemma space_at_Some: "space_at xs = Some w \<Longrightarrow> w \<in> set white_space \<and> starts_with xs w \<and> w \<noteq> []"
  using white_space_nonempty by (auto simp: space_at_def find_Some_iff)

lemma space_at_shorter: "space_at xs = Some w \<Longrightarrow> length (drop (length w) xs) < length xs"
  by (drule space_at_Some) (cases xs, auto simp: starts_with_def)

section \<open>Trimming\<close>

function trim_start :: "bytes \<Rightarrow> bytes" where
  "trim_start xs = (case space_at xs of None \<Rightarrow> xs | Some w \<Rightarrow> trim_start (drop (length w) xs))"
  by pat_completeness auto
termination
  by (relation "measure length") (use space_at_shorter in auto)

declare trim_start.simps [simp del]

function trim_end :: "bytes \<Rightarrow> bytes" where
  "trim_end xs =
     (case find (ends_with xs) white_space of
        None \<Rightarrow> xs
      | Some w \<Rightarrow> trim_end (take (length xs - length w) xs))"
  by pat_completeness auto
termination
proof (relation "measure length", goal_cases)
  case (2 xs w)
  then have "w \<noteq> []" "length w \<le> length xs"
    using white_space_nonempty by (auto simp: find_Some_iff ends_with_def)
  then have "0 < length w" "0 < length xs" by (simp, cases w, auto)
  then show ?case by simp
qed simp

declare trim_end.simps [simp del]

definition trim :: "bytes \<Rightarrow> bytes" where
  "trim xs = trim_end (trim_start xs)"

section \<open>Lines and words\<close>

text \<open>\<open>lines()\<close>: a line that ends with \<open>\n\<close> loses it and a \<open>\r\<close> before it; the last piece is
  a line only when it is not empty, and keeps a \<open>\r\<close>.\<close>

definition strip_cr :: "bytes \<Rightarrow> bytes" where
  "strip_cr l = (case strip_suffix [13] l of None \<Rightarrow> l | Some l' \<Rightarrow> l')"

definition lines :: "bytes \<Rightarrow> bytes list" where
  "lines t =
     (let ps = split_on 10 t in
      map strip_cr (butlast ps) @ (if last ps = [] then [] else [last ps]))"

text \<open>\<open>split_whitespace()\<close> and \<open>split_ascii_whitespace()\<close>: the maximal runs without white
  space; \<open>acc\<close> is the run being read, reversed.\<close>

function words_from :: "bytes \<Rightarrow> bytes \<Rightarrow> bytes list" where
  "words_from acc xs =
     (case space_at xs of
        Some w \<Rightarrow> (if acc = [] then [] else [rev acc]) @ words_from [] (drop (length w) xs)
      | None \<Rightarrow>
          (case xs of
             [] \<Rightarrow> (if acc = [] then [] else [rev acc])
           | x # rest \<Rightarrow> words_from (x # acc) rest))"
  by pat_completeness auto
termination
  by (relation "measure (\<lambda>(acc, xs). length xs)") (use space_at_shorter in auto)

declare words_from.simps [simp del]

definition split_whitespace :: "bytes \<Rightarrow> bytes list" where
  "split_whitespace xs = words_from [] xs"

fun ascii_words_from :: "bytes \<Rightarrow> bytes \<Rightarrow> bytes list" where
  "ascii_words_from acc [] = (if acc = [] then [] else [rev acc])"
| "ascii_words_from acc (x # xs) =
     (if is_ascii_whitespace x then (if acc = [] then [] else [rev acc]) @ ascii_words_from [] xs
      else ascii_words_from (x # acc) xs)"

definition split_ascii_whitespace :: "bytes \<Rightarrow> bytes list" where
  "split_ascii_whitespace xs = ascii_words_from [] xs"

text \<open>\<open>value.parse::<u64>()\<close>: an optional \<open>+\<close>, then at least one digit.\<close>

definition parse_u64 :: "bytes \<Rightarrow> nat option" where
  "parse_u64 v =
     (let ds = (case v of [] \<Rightarrow> [] | c # cs \<Rightarrow> if c = 43 then cs else v) in
      if ds = [] then None else parse_digits (2 ^ 64) 0 ds)"

section \<open>UTF-8\<close>

definition utf8_cont :: "u8 \<Rightarrow> bool" where
  "utf8_cont c \<longleftrightarrow> 0x80 \<le> c \<and> c \<le> 0xBF"

text \<open>\<open>from_utf8\<close> accepts: no overlong form, no surrogate, nothing past U+10FFFF.\<close>

fun utf8_valid :: "bytes \<Rightarrow> bool" where
  "utf8_valid [] = True"
| "utf8_valid (a # xs) =
     (if a < 0x80 then utf8_valid xs
      else
        (case xs of
           [] \<Rightarrow> False
         | b # ys \<Rightarrow>
             if 0xC2 \<le> a \<and> a \<le> 0xDF then utf8_cont b \<and> utf8_valid ys
             else
               (case ys of
                  [] \<Rightarrow> False
                | c # zs \<Rightarrow>
                    if 0xE0 \<le> a \<and> a \<le> 0xEF then
                      utf8_cont b \<and> (a = 0xE0 \<longrightarrow> 0xA0 \<le> b) \<and> (a = 0xED \<longrightarrow> b \<le> 0x9F) \<and>
                      utf8_cont c \<and> utf8_valid zs
                    else
                      (case zs of
                         [] \<Rightarrow> False
                       | d # ws \<Rightarrow>
                           0xF0 \<le> a \<and> a \<le> 0xF4 \<and> utf8_cont b \<and> (a = 0xF0 \<longrightarrow> 0x90 \<le> b) \<and>
                           (a = 0xF4 \<longrightarrow> b \<le> 0x8F) \<and> utf8_cont c \<and> utf8_cont d \<and> utf8_valid ws))))"

section \<open>Facts\<close>

lemma space_at_Nil [simp]: "space_at [] = None"
  using space_at_Some [of "[]"] by (cases "space_at []") (auto simp: starts_with_def)

lemma space_at_ascii:
  assumes "x < 0x80"
  shows "space_at (x # xs) = (if is_ascii_whitespace x \<or> x = 11 then Some [x] else None)"
proof -
  have n: "x \<noteq> 0xC2" "x \<noteq> 0xE1" "x \<noteq> 0xE2" "x \<noteq> 0xE3" using assms by auto
  show ?thesis
    using n by (auto simp: space_at_def white_space_def starts_with_def is_ascii_whitespace_def)
qed

lemma words_from_ascii:
  "\<forall>x \<in> set xs. x < 0x80 \<and> x \<noteq> 11 \<Longrightarrow> words_from acc xs = ascii_words_from acc xs"
proof (induction xs arbitrary: acc)
  case Nil
  then show ?case by (subst words_from.simps) simp
next
  case (Cons x xs)
  then show ?case by (subst words_from.simps) (simp add: space_at_ascii)
qed

lemma split_on_nonempty [simp]: "split_on sep xs \<noteq> []"
  by (induction xs) (auto split: list.split)

lemma split_on_append_sep:
  "split_on sep (xs @ sep # ys) = split_on sep xs @ split_on sep ys"
proof (induction xs)
  case (Cons x xs)
  then show ?case by (cases "split_on sep xs") (auto split: list.split)
qed simp

lemma split_on_no_sep: "sep \<notin> set xs \<Longrightarrow> split_on sep xs = [xs]"
  by (induction xs) auto

lemma strip_cr_line:
  fixes l :: bytes
  shows "13 \<notin> set l \<Longrightarrow> strip_cr l = l" "strip_cr (l @ [13]) = l"
proof -
  show "strip_cr (l @ [13]) = l" by (simp add: strip_cr_def strip_suffix_def)
  assume "13 \<notin> set l"
  then have "\<not> (length [13 :: u8] \<le> length l \<and> drop (length l - length [13 :: u8]) l = [13])"
    by (metis in_set_dropD list.set_intros(1))
  then show "strip_cr l = l" by (simp only: strip_cr_def strip_suffix_def if_False option.case)
qed

lemma decimal_range: "c \<in> set (decimal n) \<Longrightarrow> 48 \<le> c \<and> c \<le> 57"
proof -
  assume c: "c \<in> set (decimal n)"
  obtain k where k: "k < 10" "c = 48 + of_nat k" using decimal_digits [OF c] by auto
  then have "k \<in> {0, 1, 2, 3, 4, 5, 6, 7, 8, 9}" by auto
  then show ?thesis using k(2) by auto
qed

section \<open>Where lines and blank lines end\<close>

lemma find_sub_extend:
  assumes "find_sub xs needle = Some k" "needle \<noteq> []"
  shows "find_sub (xs @ ys) needle = Some k"
proof -
  have f: "k + length needle \<le> length xs" "take (length needle) (drop k xs) = needle"
    "\<forall>j < k. take (length needle) (drop j xs) \<noteq> needle"
    using assms by (simp_all add: find_sub_eq_Some_iff)
  have "take (length needle) (drop j (xs @ ys)) = take (length needle) (drop j xs)" if "j \<le> k" for j
    using that f(1) by simp
  then show ?thesis using f assms(2) by (auto simp: find_sub_eq_Some_iff)
qed

lemma occurs_iff:
  assumes "needle \<noteq> []"
  shows "take (length needle) (drop j t) = needle \<longleftrightarrow>
    j + length needle \<le> length t \<and> (\<forall>i < length needle. t ! (j + i) = needle ! i)"
proof (cases "j + length needle \<le> length t")
  case True
  then show ?thesis by (auto simp: list_eq_iff_nth_eq)
next
  case False
  then have "length (take (length needle) (drop j t)) \<noteq> length needle" using assms by (cases needle) auto
  then show ?thesis using False by metis
qed

lemma CRLF_at: "take 2 (drop j t) = CRLF \<longleftrightarrow> j + 2 \<le> length t \<and> t ! j = 13 \<and> t ! (j + 1) = 10"
  using occurs_iff [of CRLF j t] by (simp add: CRLF_def All_less_Suc2 numeral_2_eq_2)

lemma blank_at: "take 4 (drop j t) = CRLF @ CRLF \<longleftrightarrow>
    j + 4 \<le> length t \<and> t ! j = 13 \<and> t ! (j + 1) = 10 \<and> t ! (j + 2) = 13 \<and> t ! (j + 3) = 10"
  using occurs_iff [of "CRLF @ CRLF" j t] by (simp add: CRLF_def All_less_Suc2 numeral_eq_Suc)

lemma CRLF_facts: "CRLF \<noteq> []" "length CRLF = 2" "CRLF ! 0 = 13" "CRLF ! 1 = 10"
  "CRLF @ CRLF \<noteq> []" "length (CRLF @ CRLF) = 4"
  by (simp_all add: CRLF_def)

lemma find_sub_CRLF_iff: "find_sub t CRLF = Some k \<longleftrightarrow>
    k + 2 \<le> length t \<and> take 2 (drop k t) = CRLF \<and> (\<forall>j < k. take 2 (drop j t) \<noteq> CRLF)"
  using find_sub_eq_Some_iff [of CRLF t k] by (simp only: CRLF_facts simp_thms)

lemma find_sub_blank_iff: "find_sub t (CRLF @ CRLF) = Some k \<longleftrightarrow>
    k + 4 \<le> length t \<and> take 4 (drop k t) = CRLF @ CRLF \<and> (\<forall>j < k. take 4 (drop j t) \<noteq> CRLF @ CRLF)"
  using find_sub_eq_Some_iff [of "CRLF @ CRLF" t k] by (simp only: CRLF_facts simp_thms)

lemma nth_no_cr: "13 \<notin> set l \<Longrightarrow> j < length l \<Longrightarrow> (l @ y) ! j \<noteq> (13 :: u8)"
  by (metis nth_append nth_mem)

lemma find_sub_CRLF: "13 \<notin> set l \<Longrightarrow> find_sub (l @ CRLF @ y) CRLF = Some (length l)"
  unfolding find_sub_CRLF_iff CRLF_at using nth_no_cr [of l _ "CRLF @ y"]
  by (auto simp: CRLF_def nth_append)

lemma find_sub_blank: "13 \<notin> set l \<Longrightarrow> find_sub (l @ CRLF @ CRLF @ y) (CRLF @ CRLF) = Some (length l)"
  unfolding find_sub_blank_iff blank_at using nth_no_cr [of l _ "CRLF @ CRLF @ y"]
  by (auto simp: CRLF_def nth_append)

lemma find_sub_blank_line:
  assumes l: "13 \<notin> set l" and x: "x \<noteq> []" "hd x \<noteq> 13" and k: "find_sub x (CRLF @ CRLF) = Some k"
  shows "find_sub (l @ CRLF @ x) (CRLF @ CRLF) = Some (length l + 2 + k)"
proof -
  let ?t = "l @ CRLF @ x"
  have f: "k + 4 \<le> length x" "take 4 (drop k x) = CRLF @ CRLF" "\<And>j. j < k \<Longrightarrow> take 4 (drop j x) \<noteq> CRLF @ CRLF"
    using k unfolding find_sub_blank_iff by simp_all
  have sh: "drop (length l + 2 + i) ?t = drop i x" for i by (simp add: CRLF_def)
  have n: "?t ! (length l + 1) = 10" "?t ! (length l + 2) = hd x"
    using x by (simp_all add: CRLF_def nth_append hd_conv_nth)
  have "take 4 (drop j ?t) \<noteq> CRLF @ CRLF" if j: "j < length l + 2 + k" for j
  proof (cases "j < length l + 2")
    case True
    then have "j < length l \<or> j = length l \<or> j = length l + 1" by auto
    then show ?thesis
      unfolding blank_at using nth_no_cr [OF l, of j "CRLF @ x"] n x by auto
  next
    case False
    then have "j = length l + 2 + (j - (length l + 2))" "j - (length l + 2) < k" using j by simp_all
    then show ?thesis using f(3) sh by metis
  qed
  moreover have "length l + 2 + k + 4 \<le> length ?t" using f(1) by (simp add: CRLF_def)
  ultimately show ?thesis
    unfolding find_sub_blank_iff using f(2) sh [of k] by simp
qed

end
