(* ===== verification/MjpegHttp.thy ===== *)
theory MjpegHttp
  imports Sinks Media Strings
begin

text \<open>
  The stream a browser opens and the token that admits to it: \<open>mjpeg_http.rs\<close>. The multipart
  writer is a record over the state of its sink; the gate's comparison and its two lookups are
  shown equal to plain equality and to splitting the text.
\<close>

section \<open>The multipart writer\<close>

definition DEFAULT_BOUNDARY :: bytes where
  "DEFAULT_BOUNDARY = ascii ''janus-frame''"

record 's multipart =
  mt_sink :: 's
  mt_boundary :: bytes
  mt_frames :: nat

definition Multipart_with_boundary :: "'s \<Rightarrow> bytes \<Rightarrow> 's multipart" where
  "Multipart_with_boundary sink boundary = \<lparr>mt_sink = sink, mt_boundary = boundary, mt_frames = 0\<rparr>"

definition Multipart_new :: "'s \<Rightarrow> 's multipart" where
  "Multipart_new sink = Multipart_with_boundary sink DEFAULT_BOUNDARY"

definition Multipart_write_response_head :: "'s writer \<Rightarrow> ('s multipart, unit) op" where
  "Multipart_write_response_head wr m =
     (let (r, s) = write_seq wr
        [ascii ''HTTP/1.1 200 OK'' @ CRLF,
         ascii ''Content-Type: multipart/x-mixed-replace; boundary='',
         mt_boundary m,
         CRLF @ ascii ''Cache-Control: no-cache, no-store'' @ CRLF,
         ascii ''Pragma: no-cache'' @ CRLF,
         ascii ''Connection: close'' @ CRLF,
         ascii ''Access-Control-Allow-Origin: *'' @ CRLF @ CRLF] (mt_sink m) in
      (r, m\<lparr>mt_sink := s\<rparr>))"

definition Multipart_content_type :: "'s multipart \<Rightarrow> bytes" where
  "Multipart_content_type m =
     (if mt_boundary m = DEFAULT_BOUNDARY
      then ascii ''multipart/x-mixed-replace; boundary=janus-frame''
      else ascii ''multipart/x-mixed-replace'')"

text \<open>The content of the 20-byte number buffer does not matter (\<open>fmt_u64_decimal\<close>).\<close>

definition Multipart_push :: "'s writer \<Rightarrow> media_packet \<Rightarrow> ('s multipart, unit) op" where
  "Multipart_push wr pkt m =
     (if mp_codec pkt \<noteq> Jpeg \<or> mp_data pkt = [] then (Inl (Err Unsupported), m)
      else
        (let num = replicate 20 0 in
         case bind_r (fmt_u64 (of_nat (length (mp_data pkt))) num) (\<lambda>len.
              bind_r (fmt_u64 (mp_timestamp pkt) num) (\<lambda>ts. Inr (len, ts))) of
           Inl e \<Rightarrow> (Inl e, m)
         | Inr (len, ts) \<Rightarrow>
             (case write_seq wr
                [ascii ''--'', mt_boundary m,
                 CRLF @ ascii ''Content-Type: image/jpeg'' @ CRLF @ ascii ''Content-Length: '',
                 len, CRLF @ ascii ''X-Timestamp: '', ts, CRLF @ CRLF, mp_data pkt, CRLF] (mt_sink m) of
                (Inl e, s) \<Rightarrow> (Inl e, m\<lparr>mt_sink := s\<rparr>)
              | (Inr _, s) \<Rightarrow> (Inr (), m\<lparr>mt_sink := s, mt_frames := mt_frames m + 1\<rparr>))))"

section \<open>The gate\<close>

definition TOKEN_PARAM :: bytes where
  "TOKEN_PARAM = ascii ''t''"

record gate =
  gt_token :: bytes

text \<open>\<open>query_param\<close>: the loop over the pieces between \<open>&\<close>, from \<open>at\<close>.\<close>

function query_loop :: "bytes \<Rightarrow> bytes \<Rightarrow> nat \<Rightarrow> bytes option" where
  "query_loop target name at =
     (let fin = (case position (\<lambda>c. c = 38) (drop at target) of None \<Rightarrow> length target | Some i \<Rightarrow> at + i) in
      case (case position (\<lambda>c. c = 61) (cut target at fin) of
              None \<Rightarrow> None
            | Some eq \<Rightarrow> if cut target at (at + eq) = name then Some (cut target (at + eq + 1) fin) else None) of
        Some v \<Rightarrow> Some v
      | None \<Rightarrow> if fin = length target then None else query_loop target name (fin + 1))"
  by pat_completeness auto
termination
proof (relation "measure (\<lambda>(target, name, at). length target - at)", goal_cases)
  case (2 target name at fin)
  then show ?case by (cases "position (\<lambda>c. c = 38) (drop at target)") (auto simp: position_eq_Some_iff)
qed simp

declare query_loop.simps [simp del]

definition query_param :: "bytes \<Rightarrow> bytes \<Rightarrow> bytes option" where
  "query_param target name =
     (case position (\<lambda>c. c = 63) target of
        None \<Rightarrow> None
      | Some i \<Rightarrow> query_loop target name (i + 1))"

text \<open>\<open>iter.filter_map(split_once('=')).find(|(k, _)| k == name).map(|(_, v)| v)\<close>\<close>

definition lookup_pair :: "bytes list \<Rightarrow> bytes \<Rightarrow> bytes option" where
  "lookup_pair ps name = map_option snd (find (\<lambda>(k, _). k = name) (List.map_filter (split_once 61) ps))"

definition cookie_value :: "bytes \<Rightarrow> bytes \<Rightarrow> bytes option" where
  "cookie_value header name = lookup_pair (map trim (split_on 59 header)) name"

definition eq_constant_time :: "bytes \<Rightarrow> bytes \<Rightarrow> bool" where
  "eq_constant_time a b =
     (if length a \<noteq> length b then False
      else fold (\<lambda>(x, y) diff. diff OR (x XOR y)) (zip a b) 0 = 0)"

definition Gate_admits :: "gate \<Rightarrow> bytes \<Rightarrow> bytes option \<Rightarrow> bool" where
  "Gate_admits g target cookie =
     (case (case query_param target TOKEN_PARAM of
              Some v \<Rightarrow> Some v
            | None \<Rightarrow> Option.bind cookie (\<lambda>c. cookie_value c TOKEN_PARAM)) of
        None \<Rightarrow> False
      | Some p \<Rightarrow> eq_constant_time p (gt_token g))"

section \<open>What the writer writes\<close>

definition part_bytes :: "bytes \<Rightarrow> bytes \<Rightarrow> u64 \<Rightarrow> bytes" where
  "part_bytes boundary body ts =
     ascii ''--'' @ boundary @ CRLF @
     ascii ''Content-Type: image/jpeg'' @ CRLF @
     ascii ''Content-Length: '' @ decimal (length body) @ CRLF @
     ascii ''X-Timestamp: '' @ decimal (unat ts) @ CRLF @ CRLF @ body @ CRLF"

definition response_head :: "bytes \<Rightarrow> bytes" where
  "response_head boundary =
     ascii ''HTTP/1.1 200 OK'' @ CRLF @
     ascii ''Content-Type: multipart/x-mixed-replace; boundary='' @ boundary @ CRLF @
     ascii ''Cache-Control: no-cache, no-store'' @ CRLF @
     ascii ''Pragma: no-cache'' @ CRLF @
     ascii ''Connection: close'' @ CRLF @
     ascii ''Access-Control-Allow-Origin: *'' @ CRLF @ CRLF"

lemma Multipart_push_writes:
  assumes "mp_codec pkt = Jpeg" "mp_data pkt \<noteq> []" "length (mp_data pkt) < 2 ^ 64"
  shows "\<exists>pieces. concat pieces = part_bytes (mt_boundary m) (mp_data pkt) (mp_timestamp pkt) \<and>
    Multipart_push wr pkt m =
      (case write_seq wr pieces (mt_sink m) of
         (Inl e, s) \<Rightarrow> (Inl e, m\<lparr>mt_sink := s\<rparr>)
       | (Inr _, s) \<Rightarrow> (Inr (), m\<lparr>mt_sink := s, mt_frames := mt_frames m + 1\<rparr>))"
proof -
  have u: "unat (of_nat (length (mp_data pkt)) :: u64) = length (mp_data pkt)"
    using assms(3) by (simp add: unat_of_nat)
  have f: "fmt_u64 v (replicate 20 0) = Inr (decimal (unat v))" for v by (rule fmt_u64_decimal) simp
  show ?thesis
    using assms(1,2)
    by (intro exI [of _ "[ascii ''--'', mt_boundary m,
          CRLF @ ascii ''Content-Type: image/jpeg'' @ CRLF @ ascii ''Content-Length: '',
          decimal (length (mp_data pkt)), CRLF @ ascii ''X-Timestamp: '', decimal (unat (mp_timestamp pkt)),
          CRLF @ CRLF, mp_data pkt, CRLF]"])
       (simp add: Multipart_push_def Let_def f u part_bytes_def del: write_seq.simps)
qed

lemma Multipart_head_Vec:
  "Multipart_write_response_head Vec_write m = (Inr (), m\<lparr>mt_sink := mt_sink m @ response_head (mt_boundary m)\<rparr>)"
  by (simp add: Multipart_write_response_head_def response_head_def del: write_seq.simps)

section \<open>The lookups are the split ones\<close>

lemma eq_constant_time_iff: "eq_constant_time a b \<longleftrightarrow> a = b"
proof -
  have z: "d OR (x XOR y) = 0 \<longleftrightarrow> d = 0 \<and> x = y" for d x y :: u8
    by (metis or_eq_0_iff xor_self_eq xor.assoc xor.right_neutral xor.left_neutral)
  have "fold (\<lambda>(x, y) diff. diff OR (x XOR y)) (zip a b) d = 0 \<longleftrightarrow> d = 0 \<and> a = b"
    if "length a = length b" for d
    using that by (induction a b arbitrary: d rule: list_induct2) (simp_all add: z conj_assoc)
  then show ?thesis by (auto simp: eq_constant_time_def)
qed

text \<open>The reference: what \<open>query_param\<close> was before it worked on byte positions.\<close>

definition query_param_split :: "bytes \<Rightarrow> bytes \<Rightarrow> bytes option" where
  "query_param_split target name =
     (case split_once 63 target of
        None \<Rightarrow> None
      | Some (_, query) \<Rightarrow> lookup_pair (split_on 38 query) name)"

lemma lookup_pair_simps:
  "lookup_pair [] name = None"
  "lookup_pair (p # ps) name =
     (case split_once 61 p of
        None \<Rightarrow> lookup_pair ps name
      | Some (k, v) \<Rightarrow> if k = name then Some v else lookup_pair ps name)"
  by (auto simp: lookup_pair_def map_filter_simps split: option.split)

lemma query_loop_split: "query_loop (pre @ rest) name (length pre) = lookup_pair (split_on 38 rest) name"
proof (induction "length rest" arbitrary: pre rest rule: less_induct)
  case less
  note un = query_loop.simps [of "pre @ rest" name "length pre"]
  have piece: "(case position (\<lambda>c. c = 61) p of None \<Rightarrow> None
      | Some eq \<Rightarrow> if cut (pre @ p @ q) (length pre) (length pre + eq) = name
          then Some (cut (pre @ p @ q) (length pre + eq + 1) (length pre + length p)) else None) =
      (case split_once 61 p of None \<Rightarrow> None | Some (k, v) \<Rightarrow> if k = name then Some v else None)" for p q
  proof (cases "position (\<lambda>c. c = 61) p")
    case (Some e)
    then have "e < length p" by (simp add: position_eq_Some_iff)
    then show ?thesis using Some by (simp add: split_once_def cut_def)
  qed (simp add: split_once_def)
  show ?case
  proof (cases "split_once 38 rest")
    case None
    then have no: "38 \<notin> set rest" by (simp add: split_once_eq_None_iff)
    have pos: "position (\<lambda>c. c = 38) rest = None" using no by (auto simp: position_eq_None_iff)
    have dr: "drop (length pre) (pre @ rest) = rest" "length (pre @ rest) = length pre + length rest" by simp_all
    have ct: "cut (pre @ rest) (length pre) (length pre + length rest) = rest" by (simp add: cut_def)
    note pc = piece [of rest "[]", unfolded append_Nil2]
    show ?thesis
      unfolding un Let_def dr pos option.case ct pc if_P [OF refl] split_on_no_sep [OF no] lookup_pair_simps
      by (auto split: option.split)
  next
    case (Some ac)
    then obtain a c where r: "rest = a @ 38 # c" "38 \<notin> set a"
      by (cases ac) (auto simp: split_once_eq_Some_iff)
    have pos: "position (\<lambda>c. c = 38) rest = Some (length a)"
      unfolding r(1) using r(2) by (intro position_append_sep) auto
    have ct: "cut (pre @ rest) (length pre) (length pre + length a) = a" by (simp add: cut_def r)
    have ih: "query_loop (pre @ rest) name (length pre + length a + 1) = lookup_pair (split_on 38 c) name"
      using less [of c "pre @ a @ [38]"] r by simp
    have sp: "split_on 38 rest = a # split_on 38 c"
      using split_on_append_sep [of 38 a c] split_on_no_sep [OF r(2)] r(1) by simp
    have pc: "(case position (\<lambda>c. c = 61) a of None \<Rightarrow> None
      | Some eq \<Rightarrow> if cut (pre @ rest) (length pre) (length pre + eq) = name
          then Some (cut (pre @ rest) (length pre + eq + 1) (length pre + length a)) else None) =
      (case split_once 61 a of None \<Rightarrow> None | Some (k, v) \<Rightarrow> if k = name then Some v else None)"
      unfolding r(1) by (rule piece)
    have nl: "length pre + length a \<noteq> length (pre @ rest)" by (simp add: r)
    have dr: "drop (length pre) (pre @ rest) = rest" by simp
    show ?thesis
      unfolding un Let_def dr pos option.case ct pc if_not_P [OF nl] ih sp lookup_pair_simps
      by (auto split: option.split)
  qed
qed

lemma query_param_eq_split: "query_param target name = query_param_split target name"
proof (cases "position (\<lambda>c. c = 63) target")
  case None
  then show ?thesis by (simp add: query_param_def query_param_split_def split_once_def)
next
  case (Some i)
  then have "i < length target" by (simp add: position_eq_Some_iff)
  then have "target = take (i + 1) target @ drop (i + 1) target" "length (take (i + 1) target) = i + 1" by simp_all
  then have "query_loop target name (i + 1) = lookup_pair (split_on 38 (drop (i + 1) target)) name"
    using query_loop_split [of "take (i + 1) target" "drop (i + 1) target" name] by simp
  then show ?thesis using Some by (simp add: query_param_def query_param_split_def split_once_def)
qed

text \<open>The gate admits a request exactly when the token it presents is the gate's: the one of
  the query, found as the first \<open>t=\<close> between the \<open>&\<close>s after the first \<open>?\<close>, or, only when the
  query names none, the one of the cookie. The comparison without an early exit decides equality.\<close>

lemma Gate_admits_iff:
  "Gate_admits g target cookie \<longleftrightarrow>
     (case query_param_split target TOKEN_PARAM of
        Some presented \<Rightarrow> presented = gt_token g
      | None \<Rightarrow> Option.bind cookie (\<lambda>c. cookie_value c TOKEN_PARAM) = Some (gt_token g))"
  by (auto simp: Gate_admits_def query_param_eq_split eq_constant_time_iff split: option.split)

text \<open>The scan over byte positions of \<open>query_param\<close> ends and finds what splitting the target at
  the first \<open>?\<close>, then at each \<open>&\<close>, then each piece at its first \<open>=\<close> finds.\<close>

lemma query_param_is_split: "query_param target name = query_param_split target name"
  by (rule query_param_eq_split)

end
