(* ===== verification/MjpegReader.thy ===== *)
theory MjpegReader
  imports MjpegHttp
begin

text \<open>
  The streaming multipart parser of \<open>mjpeg_reader.rs\<close>: bytes are pushed into a caller buffer,
  complete parts are reported as ranges of it and released. Numbers from the stream are
  \<open>usize\<close> values of the target. The proofs show that on what the multipart writer wrote, cut
  off anywhere, the parser waits, and that it reports a part as soon as it is complete.
\<close>

section \<open>State and buffer operations\<close>

definition MAX_BOUNDARY_LEN :: nat where
  "MAX_BOUNDARY_LEN = 70"

record part_info =
  pi_start :: nat
  pi_end :: nat
  pi_timestamp :: "u64 option"
  pi_consumed :: nat

definition PartInfo_len :: "part_info \<Rightarrow> nat" where
  "PartInfo_len p = pi_end p - pi_start p"

definition PartInfo_is_empty :: "part_info \<Rightarrow> bool" where
  "PartInfo_is_empty p \<longleftrightarrow> pi_start p = pi_end p"

datatype reader_state = Start | Head | Parts | Done

record reader =
  rd_buf :: bytes
  rd_len :: nat
  rd_state :: reader_state
  rd_boundary :: bytes
  rd_boundary_len :: nat
  rd_parts :: nat

definition Reader_new :: "bytes \<Rightarrow> reader" where
  "Reader_new buf = \<lparr>rd_buf = buf, rd_len = 0, rd_state = Start,
     rd_boundary = replicate MAX_BOUNDARY_LEN 0, rd_boundary_len = 0, rd_parts = 0\<rparr>"

definition Reader_push :: "bytes \<Rightarrow> (reader, unit) op" where
  "Reader_push bs r =
     (let fin = rd_len r + length bs in
      if fin > length (rd_buf r) then (Inl (Err (BufferTooSmall fin)), r)
      else
        (case copy_range (rd_buf r) (rd_len r) fin bs of
           Inl e \<Rightarrow> (Inl e, r)
         | Inr buf \<Rightarrow> (Inr (), r\<lparr>rd_buf := buf, rd_len := fin\<rparr>)))"

definition Reader_is_done :: "reader \<Rightarrow> bool" where
  "Reader_is_done r \<longleftrightarrow> rd_state r = Done"

definition Reader_boundary :: "reader \<Rightarrow> bytes result" where
  "Reader_boundary r = subslice (rd_boundary r) 0 (rd_boundary_len r)"

definition Reader_part :: "reader \<Rightarrow> part_info \<Rightarrow> bytes result" where
  "Reader_part r p = subslice (rd_buf r) (pi_start p) (pi_end p)"

text \<open>\<open>buf.copy_within(n..len, 0); len -= n\<close>\<close>

definition Reader_drop :: "nat \<Rightarrow> (reader, unit) op" where
  "Reader_drop n r =
     (case subslice (rd_buf r) n (rd_len r) of
        Inl e \<Rightarrow> (Inl e, r)
      | Inr kept \<Rightarrow> (Inr (), r\<lparr>rd_buf := kept @ drop (length kept) (rd_buf r), rd_len := rd_len r - n\<rparr>))"

definition Reader_release :: "part_info \<Rightarrow> (reader, unit) op" where
  "Reader_release p r = Reader_drop (min (pi_consumed p) (rd_len r)) r"

section \<open>Headers\<close>

definition strip_header :: "bytes \<Rightarrow> bytes \<Rightarrow> bytes option" where
  "strip_header line name_lower =
     (if length line < length name_lower then None
      else if \<not> eq_ignore_ascii_case (take (length name_lower) line) name_lower then None
      else Some (dropWhile (\<lambda>c. c = 32) (drop (length name_lower) line)))"

definition parse_usize :: "target \<Rightarrow> bytes \<Rightarrow> nat option" where
  "parse_usize tgt v = (if v = [] then None else parse_digits (usize_mod tgt) 0 v)"

text \<open>\<open>for header in headers.split(|&c| c == b'\n')\<close>: the length and the timestamp.\<close>

fun Reader_headers ::
  "target \<Rightarrow> nat option \<Rightarrow> u64 option \<Rightarrow> bytes list \<Rightarrow> (nat option \<times> u64 option) result" where
  "Reader_headers tgt cl ts [] = Inr (cl, ts)"
| "Reader_headers tgt cl ts (h # hs) =
     (let h = strip_cr h in
      case strip_header h (ascii ''content-length:'') of
        Some v \<Rightarrow>
          (case parse_usize tgt v of
             None \<Rightarrow> Inl (Err InvalidFormat)
           | Some n \<Rightarrow> Reader_headers tgt (Some n) ts hs)
      | None \<Rightarrow>
          (case strip_header h (ascii ''x-timestamp:'') of
             Some v \<Rightarrow> Reader_headers tgt cl (map_option of_nat (parse_usize tgt v)) hs
           | None \<Rightarrow> Reader_headers tgt cl ts hs))"

section \<open>Parsing a part\<close>

text \<open>\<open>self.boundary[..token.len()].copy_from_slice(token)\<close> after the length check.\<close>

definition Reader_learn :: "bytes \<Rightarrow> (reader, unit) op" where
  "Reader_learn token r =
     (if token = [] \<or> length token > MAX_BOUNDARY_LEN then (Inl (Err InvalidFormat), r)
      else
        (case copy_range (rd_boundary r) 0 (length token) token of
           Inl e \<Rightarrow> (Inl e, r)
         | Inr b \<Rightarrow> (Inr (), r\<lparr>rd_boundary := b, rd_boundary_len := length token\<rparr>)))"

fun skip_crlf :: "bytes \<Rightarrow> nat" where
  "skip_crlf [] = 0"
| "skip_crlf (c # cs) = (if c = 13 \<or> c = 10 then skip_crlf cs + 1 else 0)"

text \<open>From the headers of the part at \<open>headers_start\<close> on.\<close>

definition Reader_body ::
  "target \<Rightarrow> bytes \<Rightarrow> nat \<Rightarrow> (reader, part_info option) op" where
  "Reader_body tgt d headers_start r =
     (case bind_r (subslice d headers_start (length d)) (\<lambda>rest. Inr (find_sub rest (CRLF @ CRLF))) of
        Inl e \<Rightarrow> (Inl e, r)
      | Inr None \<Rightarrow> (Inr None, r)
      | Inr (Some h_end) \<Rightarrow>
          (case bind_r (subslice d headers_start (headers_start + h_end)) (\<lambda>headers.
                bind_r (Reader_headers tgt None None (split_on 10 headers)) (\<lambda>(cl, ts).
                bind_r (ok_or cl Unsupported) (\<lambda>len.
                let body_start = headers_start + h_end + 4 in
                bind_r (usize_add tgt body_start len) (\<lambda>body_end.
                bind_r (usize_add tgt body_end 2) (\<lambda>after.
                Inr (body_start, body_end, after, ts)))))) of
             Inl e \<Rightarrow> (Inl e, r)
           | Inr (body_start, body_end, after, ts) \<Rightarrow>
               if length d < after then
                 (if after > length (rd_buf r) then (Inl (Err (BufferTooSmall after)), r)
                  else (Inr None, r))
               else
                 (Inr (Some \<lparr>pi_start = body_start, pi_end = body_end, pi_timestamp = ts, pi_consumed = after\<rparr>),
                  r\<lparr>rd_parts := rd_parts r + 1\<rparr>)))"

definition Reader_parse_part :: "target \<Rightarrow> (reader, part_info option) op" where
  "Reader_parse_part tgt r =
     (case subslice (rd_buf r) 0 (rd_len r) of
        Inl e \<Rightarrow> (Inl e, r)
      | Inr d \<Rightarrow>
          (let i = skip_crlf d in
           if length d < i + 2 then (Inr None, r)
           else if cut d i (i + 2) \<noteq> ascii ''--'' then (Inl (Err InvalidFormat), r)
           else
             (case find_sub (drop i d) CRLF of
                None \<Rightarrow> (Inr None, r)
              | Some line_end \<Rightarrow>
                  (case subslice d (i + 2) (i + line_end) of
                     Inl e \<Rightarrow> (Inl e, r)
                   | Inr line \<Rightarrow>
                       (case (if rd_boundary_len r = 0
                              then Reader_learn (case strip_suffix (ascii ''--'') line of None \<Rightarrow> line | Some t \<Rightarrow> t) r
                              else (Inr (), r)) of
                          (Inl e, r1) \<Rightarrow> (Inl e, r1)
                        | (Inr _, r1) \<Rightarrow>
                            (case subslice (rd_boundary r1) 0 (rd_boundary_len r1) of
                               Inl e \<Rightarrow> (Inl e, r1)
                             | Inr boundary \<Rightarrow>
                                 if line = boundary then Reader_body tgt d (i + line_end + 2) r1
                                 else if strip_suffix (ascii ''--'') line = Some boundary
                                 then (Inr None, r1\<lparr>rd_state := Done\<rparr>)
                                 else (Inl (Err InvalidFormat), r1)))))))"

text \<open>The response head: the boundary it names, and the bytes after it.\<close>

definition Reader_head :: "nat \<Rightarrow> (reader, unit) op" where
  "Reader_head fin r =
     (case subslice (rd_buf r) 0 fin of
        Inl e \<Rightarrow> (Inl e, r)
      | Inr head \<Rightarrow>
          (case (case find_sub head (ascii ''boundary='') of
                   None \<Rightarrow> (Inr (), r)
                 | Some b \<Rightarrow>
                     (let rest = drop (b + 9) head;
                          stop = (case position (\<lambda>c. c = 13 \<or> c = 59 \<or> c = 32 \<or> c = 34) rest of
                                    None \<Rightarrow> length rest | Some k \<Rightarrow> k);
                          token = take stop rest;
                          token = (case strip_prefix [34] token of None \<Rightarrow> token | Some t \<Rightarrow> t) in
                      Reader_learn token r)) of
             (Inl e, r1) \<Rightarrow> (Inl e, r1)
           | (Inr _, r1) \<Rightarrow>
               (case Reader_drop (fin + 4) r1 of
                  (Inl e, r2) \<Rightarrow> (Inl e, r2)
                | (Inr _, r2) \<Rightarrow> (Inr (), r2\<lparr>rd_state := Parts\<rparr>))))"

text \<open>\<open>next_part\<close>: the loop over the states, each of which only moves forward.\<close>

fun state_rank :: "reader_state \<Rightarrow> nat" where
  "state_rank Start = 3"
| "state_rank Head = 2"
| "state_rank Parts = 1"
| "state_rank Done = 0"

lemma Reader_head_state: "Reader_head fin r = (Inr u, r') \<Longrightarrow> rd_state r' = Parts"
  by (auto simp: Reader_head_def split: sum.splits prod.splits)

function Reader_next_part :: "target \<Rightarrow> (reader, part_info option) op" where
  "Reader_next_part tgt r =
     (case rd_state r of
        Start \<Rightarrow>
          if rd_len r < 5 then (Inr None, r)
          else
            (case subslice (rd_buf r) 0 5 of
               Inl e \<Rightarrow> (Inl e, r)
             | Inr b \<Rightarrow>
                 Reader_next_part tgt (r\<lparr>rd_state := (if b = ascii ''HTTP/'' then Head else Parts)\<rparr>))
      | Head \<Rightarrow>
          (case bind_r (subslice (rd_buf r) 0 (rd_len r)) (\<lambda>d. Inr (find_sub d (CRLF @ CRLF))) of
             Inl e \<Rightarrow> (Inl e, r)
           | Inr None \<Rightarrow> (Inr None, r)
           | Inr (Some fin) \<Rightarrow>
               (case Reader_head fin r of
                  (Inl e, r1) \<Rightarrow> (Inl e, r1)
                | (Inr _, r1) \<Rightarrow> Reader_next_part tgt r1))
      | Parts \<Rightarrow> Reader_parse_part tgt r
      | Done \<Rightarrow> (Inr None, r))"
  by pat_completeness auto
termination
  by (relation "measure (\<lambda>(tgt, r). state_rank (rd_state r))") (auto dest: Reader_head_state [OF sym])

declare Reader_next_part.simps [simp del]

section \<open>The reader on what the writer wrote\<close>

definition reader_ok :: "reader \<Rightarrow> bool" where
  "reader_ok r \<longleftrightarrow> rd_len r \<le> length (rd_buf r) \<and> length (rd_boundary r) = MAX_BOUNDARY_LEN \<and>
     rd_boundary_len r \<le> MAX_BOUNDARY_LEN"

definition reader_content :: "reader \<Rightarrow> bytes" where
  "reader_content r = take (rd_len r) (rd_buf r)"

text \<open>The boundaries of a stream that can be read back.\<close>

definition boundary_ok :: "bytes \<Rightarrow> bool" where
  "boundary_ok b \<longleftrightarrow> b \<noteq> [] \<and> length b \<le> MAX_BOUNDARY_LEN \<and> strip_suffix (ascii ''--'') b = None \<and>
     (\<forall>c \<in> set b. c \<noteq> 13 \<and> c \<noteq> 59 \<and> c \<noteq> 32 \<and> c \<noteq> 34)"

definition reader_knows :: "reader \<Rightarrow> bytes \<Rightarrow> bool" where
  "reader_knows r b \<longleftrightarrow> rd_boundary_len r = 0 \<or> rd_boundary_len r = length b \<and> take (length b) (rd_boundary r) = b"

lemma default_boundary_ok: "boundary_ok DEFAULT_BOUNDARY"
  by (simp add: boundary_ok_def DEFAULT_BOUNDARY_def ascii_def MAX_BOUNDARY_LEN_def strip_suffix_def)

lemma Reader_learn_ok:
  assumes "reader_ok r" "boundary_ok b"
  shows "\<exists>r'. Reader_learn b r = (Inr (), r') \<and> reader_ok r' \<and> reader_knows r' b \<and>
    rd_boundary_len r' = length b \<and> rd_buf r' = rd_buf r \<and> rd_len r' = rd_len r \<and> rd_state r' = rd_state r \<and>
    rd_parts r' = rd_parts r"
proof -
  have "b \<noteq> []" "length b \<le> MAX_BOUNDARY_LEN" "length b \<le> length (rd_boundary r)"
    using assms by (simp_all add: boundary_ok_def reader_ok_def)
  then show ?thesis using assms(1)
    by (simp add: Reader_learn_def reader_ok_def reader_knows_def)
qed

subsection \<open>The headers of a part\<close>

definition part_headers :: "nat \<Rightarrow> nat \<Rightarrow> bytes" where
  "part_headers n t = ascii ''Content-Type: image/jpeg'' @ CRLF @
     (ascii ''Content-Length: '' @ decimal n) @ CRLF @ (ascii ''X-Timestamp: '' @ decimal t)"

lemma part_bytes_headers:
  "part_bytes b body ts = (ascii ''--'' @ b) @ CRLF @ part_headers (length body) (unat ts) @ CRLF @ CRLF @ body @ CRLF"
  by (simp add: part_bytes_def part_headers_def)

lemma digit_byte: "d < 10 \<Longrightarrow> (48 + of_nat d :: u8) \<notin> {10, 13, 32}"
proof -
  assume "d < 10"
  then have "d \<in> {0, 1, 2, 3, 4, 5, 6, 7, 8, 9}" by auto
  then show ?thesis by auto
qed

lemma decimal_no_sep: "10 \<notin> set (decimal n)" "13 \<notin> set (decimal n)" "32 \<notin> set (decimal n)"
proof -
  have d: "c \<notin> {10, 13, 32}" if c: "c \<in> set (decimal n)" for c
  proof -
    obtain d where "d < 10" "c = 48 + of_nat d" using decimal_digits [OF c] by auto
    then show ?thesis using digit_byte by simp
  qed
  show "10 \<notin> set (decimal n)" using d [of 10] by auto
  show "13 \<notin> set (decimal n)" using d [of 13] by auto
  show "32 \<notin> set (decimal n)" using d [of 32] by auto
qed

lemma header_lines_no_sep:
  "13 \<notin> set (ascii ''Content-Type: image/jpeg'')" "10 \<notin> set (ascii ''Content-Type: image/jpeg'')"
  "13 \<notin> set (ascii ''Content-Length: '' @ decimal n)" "10 \<notin> set (ascii ''Content-Length: '' @ decimal n)"
  "13 \<notin> set (ascii ''X-Timestamp: '' @ decimal n)" "10 \<notin> set (ascii ''X-Timestamp: '' @ decimal n)"
  using decimal_no_sep [of n] by (simp_all add: ascii_def)

lemma find_sub_part_headers:
  "find_sub (part_headers n t @ CRLF @ CRLF @ y) (CRLF @ CRLF) = Some (length (part_headers n t))"
proof -
  note ns = header_lines_no_sep
  let ?l1 = "ascii ''Content-Type: image/jpeg''" and ?l2 = "ascii ''Content-Length: '' @ decimal n"
    and ?l3 = "ascii ''X-Timestamp: '' @ decimal t"
  have h: "hd (?l3 @ x) \<noteq> 13" "hd (?l2 @ x) \<noteq> 13" "?l3 @ x \<noteq> []" "?l2 @ x \<noteq> []" for x by (simp_all add: ascii_def)
  have 3: "find_sub (?l3 @ CRLF @ CRLF @ y) (CRLF @ CRLF) = Some (length ?l3)"
    by (rule find_sub_blank [OF ns(5)])
  have 2: "find_sub (?l2 @ CRLF @ ?l3 @ CRLF @ CRLF @ y) (CRLF @ CRLF) = Some (length ?l2 + 2 + length ?l3)"
    by (rule find_sub_blank_line [OF ns(3) h(3,1) 3])
  have 1: "find_sub (?l1 @ CRLF @ ?l2 @ CRLF @ ?l3 @ CRLF @ CRLF @ y) (CRLF @ CRLF) =
      Some (length ?l1 + 2 + (length ?l2 + 2 + length ?l3))"
    by (rule find_sub_blank_line [OF ns(1) h(4,2) 2])
  moreover have "length (part_headers n t) = length ?l1 + 2 + (length ?l2 + 2 + length ?l3)"
    by (simp add: part_headers_def CRLF_facts)
  ultimately show ?thesis by (simp add: part_headers_def)
qed

lemma dropWhile_decimal: "dropWhile (\<lambda>c. c = 32) (decimal n) = decimal n"
  using decimal_no_sep(3) [of n] by (metis dropWhile_eq_self_iff hd_in_set)

lemma strip_header_lines:
  "strip_header (ascii ''Content-Type: image/jpeg'') (ascii ''content-length:'') = None"
  "strip_header (ascii ''Content-Type: image/jpeg'') (ascii ''x-timestamp:'') = None"
  "strip_header (ascii ''Content-Length: '' @ decimal n) (ascii ''content-length:'') = Some (decimal n)"
  "strip_header (ascii ''X-Timestamp: '' @ decimal n) (ascii ''content-length:'') = None"
  "strip_header (ascii ''X-Timestamp: '' @ decimal n) (ascii ''x-timestamp:'') = Some (decimal n)"
  by (simp_all add: strip_header_def ascii_def eq_ignore_ascii_case_def dropWhile_decimal)

lemma parse_usize_decimal: "0 < usize_mod tgt \<Longrightarrow>
    parse_usize tgt (decimal n) = (if n < usize_mod tgt then Some n else None)"
  by (simp add: parse_usize_def parse_digits_decimal)

lemma Reader_headers_part:
  assumes "0 < usize_mod tgt" "n < usize_mod tgt"
  shows "Reader_headers tgt None None (split_on 10 (part_headers n t)) =
    Inr (Some n, if t < usize_mod tgt then Some (of_nat t) else None)"
proof -
  let ?l1 = "ascii ''Content-Type: image/jpeg''" and ?l2 = "ascii ''Content-Length: '' @ decimal n"
    and ?l3 = "ascii ''X-Timestamp: '' @ decimal t"
  note ns = header_lines_no_sep
  have p: "part_headers n t = (?l1 @ [13]) @ 10 # (?l2 @ [13]) @ 10 # ?l3"
    by (simp add: part_headers_def CRLF_def)
  have a: "10 \<notin> set (?l1 @ [13])" "10 \<notin> set (?l2 @ [13])" "10 \<notin> set ?l3" using ns by simp_all
  have "split_on 10 (part_headers n t) = [?l1 @ [13], ?l2 @ [13], ?l3]"
    unfolding p split_on_append_sep by (simp only: split_on_no_sep [OF a(1)] split_on_no_sep [OF a(2)] split_on_no_sep [OF a(3)] append.simps)
  then show ?thesis
    by (simp only: Reader_headers.simps Let_def strip_cr_line(2) strip_cr_line(1) [OF ns(5)] strip_header_lines
        option.case parse_usize_decimal [OF assms(1)] assms(2) if_True if_distrib [of "map_option of_nat"] option.map)
qed

subsection \<open>A part, cut off anywhere\<close>

definition part_info_of :: "target \<Rightarrow> bytes \<Rightarrow> bytes \<Rightarrow> u64 \<Rightarrow> part_info" where
  "part_info_of tgt b body ts =
     (let n = length (part_bytes b body ts) in
      \<lparr>pi_start = n - 2 - length body, pi_end = n - 2,
       pi_timestamp = (if unat ts < usize_mod tgt then Some ts else None), pi_consumed = n\<rparr>)"

lemma length_part_bytes:
  "length (part_bytes b body ts) = length b + 4 + length (part_headers (length body) (unat ts)) + 4 + length body + 2"
  by (simp add: part_bytes_headers CRLF_facts ascii_def)

lemma subslice_take: "m \<le> k \<Longrightarrow> k \<le> n \<Longrightarrow> n \<le> length xs \<Longrightarrow>
    subslice (take n xs) m k = Inr (take (k - m) (drop m xs))"
  by (simp add: drop_take min_def)

lemma subslice_within: "length a = i \<Longrightarrow> j = i + length b \<Longrightarrow> subslice (a @ b @ c) i j = Inr b"
  by simp

lemma Reader_body_part:
  assumes r: "reader_ok r" and d: "d = take n (part_bytes b body ts @ rest)" "n \<le> length (part_bytes b body ts @ rest)"
    and room: "length (part_bytes b body ts) \<le> length (rd_buf r)" "length (rd_buf r) < usize_mod tgt"
    and n: "length b + 4 \<le> n"
  shows "Reader_body tgt d (length b + 4) r =
    (if length (part_bytes b body ts) \<le> n
     then (Inr (Some (part_info_of tgt b body ts)), r\<lparr>rd_parts := rd_parts r + 1\<rparr>)
     else (Inr None, r))"
proof -
  let ?p = "part_bytes b body ts" and ?h = "part_headers (length body) (unat ts)"
  let ?hs = "length b + 4"
  have len: "length d = n" using d by simp
  have t: "?p @ rest = (ascii ''--'' @ b @ CRLF) @ ?h @ CRLF @ CRLF @ body @ CRLF @ rest"
    by (simp add: part_bytes_headers)
  have lp: "length (ascii ''--'' @ b @ CRLF) = ?hs" by (simp add: CRLF_facts ascii_def)
  have dr: "drop ?hs (?p @ rest) = ?h @ CRLF @ CRLF @ body @ CRLF @ rest"
    unfolding t using lp by (simp del: append_assoc add: append_assoc [symmetric])
  have s1: "subslice d ?hs (length d) = Inr (take (n - ?hs) (?h @ CRLF @ CRLF @ body @ CRLF @ rest))"
    unfolding len dr [symmetric] unfolding d(1) by (rule subslice_take [OF n order.refl d(2)])
  have f: "find_sub (take (n - ?hs) (?h @ CRLF @ CRLF @ body @ CRLF @ rest)) (CRLF @ CRLF) =
      (if length ?h + 4 \<le> n - ?hs then Some (length ?h) else None)"
    using find_sub_prefix [OF find_sub_part_headers CRLF_facts(5), where n = "n - ?hs"]
    by (simp only: CRLF_facts(6))
  show ?thesis
  proof (cases "length ?h + 4 \<le> n - ?hs")
    case False
    then have np: "\<not> length ?p \<le> n" by (simp add: length_part_bytes)
    show ?thesis
      unfolding Reader_body_def s1 bind_r_simps sum.case f if_not_P [OF False] option.case if_not_P [OF np] ..
  next
    case True
    have s2: "subslice d ?hs (?hs + length ?h) = Inr ?h"
    proof -
      have "subslice d ?hs (?hs + length ?h) = Inr (take (?hs + length ?h - ?hs) (drop ?hs (?p @ rest)))"
        unfolding d(1) using True n by (intro subslice_take d(2)) simp_all
      then show ?thesis unfolding dr by simp
    qed
    have um: "0 < usize_mod tgt" "length body < usize_mod tgt" using room by (simp_all add: length_part_bytes)
    have a1: "usize_add tgt (?hs + length ?h + 4) (length body) = Inr (length ?p - 2)"
      using room by (subst usize_add_ok) (simp_all add: length_part_bytes)
    have a2: "usize_add tgt (length ?p - 2) 2 = Inr (length ?p)"
      using room by (subst usize_add_ok) (simp_all add: length_part_bytes)
    have st: "?hs + length ?h + 4 = length ?p - 2 - length body" by (simp add: length_part_bytes)
    show ?thesis
      unfolding Reader_body_def s1 bind_r_simps sum.case f if_P [OF True] option.case s2
        Reader_headers_part [OF um] prod.case ok_or_simps Let_def a1 a2
      using room len by (simp add: st part_info_of_def Let_def not_le)
  qed
qed

lemma skip_crlf_dash: "d ! 0 = 45 \<Longrightarrow> skip_crlf d = 0"
  by (cases d) auto

lemma Reader_parse_part_writer:
  assumes r: "reader_ok r" "reader_knows r b" and b: "boundary_ok b"
    and d: "reader_content r = take (rd_len r) (part_bytes b body ts @ rest)"
      "rd_len r \<le> length (part_bytes b body ts @ rest)"
    and room: "length (part_bytes b body ts) \<le> length (rd_buf r)" "length (rd_buf r) < usize_mod tgt"
  shows "\<exists>r'. Reader_parse_part tgt r =
      (if length (part_bytes b body ts) \<le> rd_len r
       then (Inr (Some (part_info_of tgt b body ts)), r'\<lparr>rd_parts := rd_parts r + 1\<rparr>)
       else (Inr None, r')) \<and>
    reader_ok r' \<and> reader_knows r' b \<and> rd_buf r' = rd_buf r \<and> rd_len r' = rd_len r \<and>
    rd_state r' = rd_state r \<and> rd_parts r' = rd_parts r"
proof -
  let ?p = "part_bytes b body ts" and ?n = "rd_len r"
  define d where "d = reader_content r"
  have dt: "d = take ?n (?p @ rest)" "length d = ?n" using d by (simp_all add: d_def)
  have s0: "subslice (rd_buf r) 0 ?n = Inr d" using r(1) by (simp add: reader_ok_def d_def reader_content_def)
  have nb: "13 \<notin> set (ascii ''--'' @ b)" using b by (auto simp: boundary_ok_def ascii_def)
  have t: "?p @ rest = (ascii ''--'' @ b) @ CRLF @ (part_headers (length body) (unat ts) @ CRLF @ CRLF @ body @ CRLF @ rest)"
    by (simp add: part_bytes_headers)
  have big: "\<not> length ?p \<le> ?n" if "?n < length b + 4" using that by (simp add: length_part_bytes)
  have sk: "skip_crlf d = 0"
  proof (cases "?n = 0")
    case False
    then have "d ! 0 = 45" unfolding dt t by (simp add: ascii_def)
    then show ?thesis by (rule skip_crlf_dash)
  qed (use dt in simp)
  have f: "find_sub d CRLF = (if length b + 2 + 2 \<le> ?n then Some (length b + 2) else None)"
    using find_sub_prefix [OF find_sub_CRLF [OF nb] CRLF_facts(1), where n = ?n]
    unfolding dt(1) t CRLF_facts(2) by (simp add: ascii_def)
  show ?thesis
  proof (cases "?n < 2")
    case True
    then show ?thesis using big r dt(2)
      by (intro exI [of _ r]) (simp add: Reader_parse_part_def s0 sk)
  next
    case n2: False
    have dash: "cut d 0 (0 + 2) = ascii ''--''"
      using n2 unfolding dt(1) t by (simp add: cut_def ascii_def min_def numeral_2_eq_2)
    show ?thesis
    proof (cases "length b + 2 + 2 \<le> ?n")
      case False
      then show ?thesis using big r dt(2) n2 f dash
        by (intro exI [of _ r]) (simp add: Reader_parse_part_def s0 sk Let_def)
    next
      case n4: True
      have line: "subslice d (0 + 2) (0 + (length b + 2)) = Inr b"
      proof -
      have "subslice d 2 (length b + 2) = Inr (take (length b + 2 - 2) (drop 2 (?p @ rest)))"
        unfolding dt(1) using n4 by (intro subslice_take d(2)) simp_all
      moreover have "take (length b + 2 - 2) (drop 2 (?p @ rest)) = b" unfolding t by (simp add: ascii_def)
      ultimately have "subslice d 2 (length b + 2) = Inr b" by (simp only:)
      then show ?thesis by (simp only: add_0)
    qed
      have strip: "(case strip_suffix (ascii ''--'') b of None \<Rightarrow> b | Some t \<Rightarrow> t) = b"
        using b by (simp add: boundary_ok_def)
      obtain r1 where r1: "(if rd_boundary_len r = 0 then Reader_learn b r else (Inr (), r)) = (Inr (), r1)"
        "reader_ok r1" "reader_knows r1 b" "rd_boundary_len r1 = length b" "rd_buf r1 = rd_buf r" "rd_len r1 = ?n"
        "rd_state r1 = rd_state r" "rd_parts r1 = rd_parts r"
      proof (cases "rd_boundary_len r = 0")
        case True
        then show thesis using Reader_learn_ok [OF r(1) b] that by auto
      next
        case False
        then show thesis using r that [of r] by (auto simp: reader_knows_def)
      qed
      have bl: "b \<noteq> []" "length b \<le> length (rd_boundary r1)"
        using b r1(2) by (simp_all add: boundary_ok_def reader_ok_def)
      have bd: "subslice (rd_boundary r1) 0 (rd_boundary_len r1) = Inr b"
        using r1(3,4) bl by (simp add: reader_knows_def)
      have hs: "0 + (length b + 2) + 2 = length b + 4" by simp
      have n: "\<not> length d < 0 + 2" "length b + 4 \<le> ?n" using n2 n4 dt(2) by simp_all
      have body: "Reader_body tgt d (length b + 4) r1 =
          (if length ?p \<le> ?n then (Inr (Some (part_info_of tgt b body ts)), r1\<lparr>rd_parts := rd_parts r + 1\<rparr>)
           else (Inr None, r1))"
        using Reader_body_part [OF r1(2) dt(1) d(2) _ _ n(2), of tgt] room by (simp add: r1)
      have "Reader_parse_part tgt r =
          (if length ?p \<le> ?n then (Inr (Some (part_info_of tgt b body ts)), r1\<lparr>rd_parts := rd_parts r + 1\<rparr>)
           else (Inr None, r1))"
        unfolding Reader_parse_part_def s0 sum.case Let_def sk if_not_P [OF n(1)] dash drop_0 f if_P [OF n4] option.case
          line strip r1(1) prod.case bd hs body by simp
      then show ?thesis using r1 by (intro exI [of _ r1]) simp
    qed
  qed
qed

lemma Reader_part_writer:
  assumes "reader_ok r" "reader_content r = take (rd_len r) (part_bytes b body ts @ rest)"
    and "length (part_bytes b body ts) \<le> rd_len r"
  shows "Reader_part r (part_info_of tgt b body ts) = Inr body"
proof -
  let ?p = "part_bytes b body ts"
  have lb: "rd_len r \<le> length (rd_buf r)" using assms(1) by (simp add: reader_ok_def)
  have "take (length ?p) (rd_buf r) = ?p"
  proof -
    have "take (length ?p) (rd_buf r) = take (length ?p) (reader_content r)"
      using assms(3) by (simp add: reader_content_def min_def)
    also have "\<dots> = ?p" using assms(2,3) by (simp add: min_def)
    finally show ?thesis .
  qed
  then have buf: "rd_buf r = ?p @ drop (length ?p) (rd_buf r)" by (metis append_take_drop_id)
  let ?pre = "ascii ''--'' @ b @ CRLF @ part_headers (length body) (unat ts) @ CRLF @ CRLF"
  have "rd_buf r = ?pre @ body @ (CRLF @ drop (length ?p) (rd_buf r))"
    by (subst buf) (simp add: part_bytes_headers)
  moreover have "length ?pre = length ?p - 2 - length body"
    by (simp add: length_part_bytes CRLF_facts ascii_def)
  moreover have "length ?p - 2 = length ?p - 2 - length body + length body" by (simp add: length_part_bytes)
  ultimately have "subslice (rd_buf r) (length ?p - 2 - length body) (length ?p - 2) = Inr body"
    by (metis subslice_within)
  then show ?thesis by (simp add: Reader_part_def part_info_of_def Let_def)
qed

subsection \<open>The response head, cut off anywhere\<close>

definition head_before :: bytes where
  "head_before = ascii ''HTTP/1.1 200 OK'' @ CRLF @ ascii ''Content-Type: multipart/x-mixed-replace; boundary=''"

definition head_lines :: "bytes list" where
  "head_lines = [ascii ''Cache-Control: no-cache, no-store'', ascii ''Pragma: no-cache'', ascii ''Connection: close'',
     ascii ''Access-Control-Allow-Origin: *'']"

definition head_text :: "bytes \<Rightarrow> bytes" where
  "head_text b = head_before @ b @ concat (map (\<lambda>l. CRLF @ l) head_lines)"

lemma response_head_text: "response_head b = head_text b @ CRLF @ CRLF"
  by (simp add: response_head_def head_text_def head_before_def head_lines_def)

lemma find_boundary: "find_sub head_before (ascii ''boundary='') = Some (length head_before - 9)"
  by code_simp

lemma ascii_nonempty: "ascii ''boundary='' \<noteq> []" "length (ascii ''boundary='') = 9" "9 \<le> length head_before"
  by (simp_all add: ascii_def head_before_def)

lemma find_sub_head: "13 \<notin> set b \<Longrightarrow> find_sub (response_head b @ rest) (CRLF @ CRLF) = Some (length (head_text b))"
proof -
  assume b: "13 \<notin> set b"
  let ?l1 = "ascii ''HTTP/1.1 200 OK''" and ?l2 = "ascii ''Content-Type: multipart/x-mixed-replace; boundary='' @ b"
    and ?l3 = "ascii ''Cache-Control: no-cache, no-store''" and ?l4 = "ascii ''Pragma: no-cache''"
    and ?l5 = "ascii ''Connection: close''" and ?l6 = "ascii ''Access-Control-Allow-Origin: *''"
  have n: "13 \<notin> set ?l1" "13 \<notin> set ?l2" "13 \<notin> set ?l3" "13 \<notin> set ?l4" "13 \<notin> set ?l5" "13 \<notin> set ?l6"
    using b by (simp_all add: ascii_def)
  have h: "?l2 @ x \<noteq> []" "hd (?l2 @ x) \<noteq> 13" "?l3 @ x \<noteq> []" "hd (?l3 @ x) \<noteq> 13" "?l4 @ x \<noteq> []" "hd (?l4 @ x) \<noteq> 13"
    "?l5 @ x \<noteq> []" "hd (?l5 @ x) \<noteq> 13" "?l6 @ x \<noteq> []" "hd (?l6 @ x) \<noteq> 13" for x by (simp_all add: ascii_def)
  note f6 = find_sub_blank [OF n(6), of rest]
  note f5 = find_sub_blank_line [OF n(5) h(9,10) f6]
  note f4 = find_sub_blank_line [OF n(4) h(7,8) f5]
  note f3 = find_sub_blank_line [OF n(3) h(5,6) f4]
  note f2 = find_sub_blank_line [OF n(2) h(3,4) f3]
  note f1 = find_sub_blank_line [OF n(1) h(1,2) f2]
  have "response_head b @ rest = ?l1 @ CRLF @ ?l2 @ CRLF @ ?l3 @ CRLF @ ?l4 @ CRLF @ ?l5 @ CRLF @ ?l6 @ CRLF @ CRLF @ rest"
    by (simp add: response_head_def)
  moreover have "length (head_text b) = length ?l1 + 2 + (length ?l2 + 2 + (length ?l3 + 2 + (length ?l4 + 2 + (length ?l5 + 2 + length ?l6))))"
    by (simp add: head_text_def head_before_def head_lines_def CRLF_facts)
  ultimately show ?thesis using f1 by simp
qed

lemma Reader_drop_content:
  assumes "reader_ok r" "n \<le> rd_len r"
  shows "\<exists>r'. Reader_drop n r = (Inr (), r') \<and> reader_ok r' \<and> reader_content r' = drop n (reader_content r) \<and>
    rd_len r' = rd_len r - n \<and> length (rd_buf r') = length (rd_buf r) \<and> rd_state r' = rd_state r \<and>
    rd_parts r' = rd_parts r \<and> rd_boundary r' = rd_boundary r \<and> rd_boundary_len r' = rd_boundary_len r"
proof -
  let ?kept = "drop n (reader_content r)"
  have l: "rd_len r \<le> length (rd_buf r)" using assms by (simp add: reader_ok_def)
  have s: "subslice (rd_buf r) n (rd_len r) = Inr ?kept"
    using assms l by (simp add: reader_content_def drop_take)
  have lk: "length ?kept = rd_len r - n" using l by (simp add: reader_content_def)
  show ?thesis
    using assms l by (simp add: Reader_drop_def s reader_ok_def lk) (simp add: reader_content_def lk)
qed

lemma drop_take_append: "length a \<le> n \<Longrightarrow> drop (length a) (take n (a @ x)) = take (n - length a) x"
  by simp

lemma Reader_head_writer:
  assumes r: "reader_ok r" and b: "boundary_ok b" and n: "rd_len r \<le> length (response_head b @ rest)"
    and d: "reader_content r = take (rd_len r) (response_head b @ rest)"
    and full: "length (response_head b) \<le> rd_len r"
  shows "\<exists>r'. Reader_head (length (head_text b)) r = (Inr (), r') \<and> reader_ok r' \<and> reader_knows r' b \<and>
    rd_state r' = Parts \<and> length (rd_buf r') = length (rd_buf r) \<and> rd_parts r' = rd_parts r \<and>
    rd_len r' = rd_len r - length (response_head b) \<and> reader_content r' = take (rd_len r') rest"
proof -
  let ?fin = "length (head_text b)"
  have lh: "length (response_head b) = ?fin + 4" by (simp add: response_head_text CRLF_facts)
  have "subslice (rd_buf r) 0 ?fin = Inr (take ?fin (reader_content r))"
    using r full lh by (simp add: reader_ok_def reader_content_def min_def)
  also have "take ?fin (reader_content r) = head_text b"
    using full lh by (simp add: d response_head_text min_def)
  finally have s: "subslice (rd_buf r) 0 ?fin = Inr (head_text b)" .
  let ?tail = "concat (map (\<lambda>l. CRLF @ l) head_lines)"
  have f: "find_sub (head_text b) (ascii ''boundary='') = Some (length head_before - 9)"
    unfolding head_text_def by (rule find_sub_extend [OF find_boundary ascii_nonempty(1)])
  have dr: "drop (length head_before - 9 + 9) (head_text b) = b @ ?tail"
    using ascii_nonempty(3) by (simp add: head_text_def)
  have tl: "?tail = 13 # drop 1 ?tail" by (simp add: head_lines_def CRLF_def)
  have pos: "position (\<lambda>c. c = 13 \<or> c = 59 \<or> c = 32 \<or> c = 34) (b @ ?tail) = Some (length b)"
    using b by (subst tl, intro position_append_sep) (auto simp: boundary_ok_def)
  have np: "strip_prefix [34] b = None"
    using b by (cases b) (auto simp: boundary_ok_def strip_prefix_def)
  obtain r1 where r1: "Reader_learn b r = (Inr (), r1)" "reader_ok r1" "reader_knows r1 b" "rd_buf r1 = rd_buf r"
    "rd_len r1 = rd_len r" "rd_parts r1 = rd_parts r" using Reader_learn_ok [OF r b] by auto
  have "?fin + 4 \<le> rd_len r1" using full lh r1 by simp
  from Reader_drop_content [OF r1(2) this] obtain r2 where r2: "Reader_drop (?fin + 4) r1 = (Inr (), r2)" "reader_ok r2"
    "reader_content r2 = drop (?fin + 4) (reader_content r1)" "rd_len r2 = rd_len r - (?fin + 4)"
    "length (rd_buf r2) = length (rd_buf r)" "rd_parts r2 = rd_parts r" "rd_boundary r2 = rd_boundary r1"
    "rd_boundary_len r2 = rd_boundary_len r1" using r1 by auto
  have "reader_content r1 = take (rd_len r) (response_head b @ rest)" using r1 d by (simp add: reader_content_def)
  then have c: "reader_content r2 = take (rd_len r2) rest"
    using r2(3,4) lh drop_take_append [OF full] by metis
  have "Reader_head ?fin r = (Inr (), r2\<lparr>rd_state := Parts\<rparr>)"
    unfolding Reader_head_def s sum.case f option.case Let_def dr pos append_eq_conv_conj
    using np r1(1) r2(1) by simp
  then show ?thesis using r2 c r1(3) lh
    by (intro exI [of _ "r2\<lparr>rd_state := Parts\<rparr>"]) (simp add: reader_ok_def reader_knows_def reader_content_def)
qed

text \<open>The stream a reader still has to see, by its state.\<close>

definition stream_from :: "reader_state \<Rightarrow> bytes \<Rightarrow> (bytes \<times> u64) list \<Rightarrow> bytes" where
  "stream_from st b ps =
     (if st = Start \<or> st = Head then response_head b else []) @ concat (map (\<lambda>(body, ts). part_bytes b body ts) ps)"

definition reader_on :: "target \<Rightarrow> reader \<Rightarrow> bytes \<Rightarrow> (bytes \<times> u64) list \<Rightarrow> bool" where
  "reader_on tgt r b ps \<longleftrightarrow>
     reader_ok r \<and> reader_knows r b \<and> rd_state r \<noteq> Done \<and>
     rd_len r \<le> length (stream_from (rd_state r) b ps) \<and>
     reader_content r = take (rd_len r) (stream_from (rd_state r) b ps) \<and>
     (\<forall>(body, ts) \<in> set ps. length (part_bytes b body ts) \<le> length (rd_buf r)) \<and>
     length (rd_buf r) < usize_mod tgt"

text \<open>The bytes that are missing before the reader can make progress.\<close>

definition next_item :: "reader_state \<Rightarrow> bytes \<Rightarrow> (bytes \<times> u64) list \<Rightarrow> nat" where
  "next_item st b ps =
     (if st = Start \<or> st = Head then length (response_head b)
      else (case ps of [] \<Rightarrow> 1 | (body, ts) # _ \<Rightarrow> length (part_bytes b body ts)))"

lemma Reader_next_part_parts:
  assumes r: "reader_on tgt r b ps" "rd_state r = Parts" and b: "boundary_ok b"
  obtains (wait) r' where "Reader_next_part tgt r = (Inr None, r')" "reader_on tgt r' b ps" "rd_state r' = Parts"
      "rd_len r' < next_item Parts b ps" "length (rd_buf r') = length (rd_buf r)" "reader_content r' = reader_content r"
      "rd_parts r' = rd_parts r"
  | (part) body ts ps' p r1 r2 where "ps = (body, ts) # ps'" "Reader_next_part tgt r = (Inr (Some p), r1)"
      "Reader_part r1 p = Inr body" "PartInfo_len p = length body"
      "pi_timestamp p = (if unat ts < usize_mod tgt then Some ts else None)"
      "Reader_release p r1 = (Inr (), r2)" "reader_on tgt r2 b ps'" "rd_state r2 = Parts"
      "length (rd_buf r2) = length (rd_buf r)"
      "reader_content r = part_bytes b body ts @ reader_content r2" "rd_parts r2 = rd_parts r + 1"
proof (cases ps)
  case Nil
  then have c: "rd_len r = 0" "reader_content r = []" using r by (simp_all add: reader_on_def stream_from_def)
  have "subslice (rd_buf r) 0 (rd_len r) = Inr []" using c by simp
  then have "Reader_parse_part tgt r = (Inr None, r)" by (simp add: Reader_parse_part_def Let_def)
  then have "Reader_next_part tgt r = (Inr None, r)" using r(2) by (simp add: Reader_next_part.simps)
  then show thesis using wait r Nil c by (simp add: next_item_def)
next
  case (Cons q ps')
  obtain body ts where q: "q = (body, ts)" by (cases q)
  let ?p = "part_bytes b body ts" and ?rest = "concat (map (\<lambda>(body, ts). part_bytes b body ts) ps')"
  have st: "stream_from (rd_state r) b ps = ?p @ ?rest" using r(2) Cons q by (simp add: stream_from_def)
  note on = r(1) [unfolded reader_on_def st]
  have np: "Reader_next_part tgt r = Reader_parse_part tgt r" using r(2) by (simp add: Reader_next_part.simps)
  have room: "length ?p \<le> length (rd_buf r)" "length (rd_buf r) < usize_mod tgt" using on Cons q by auto
  have ok: "reader_ok r" "reader_knows r b" "reader_content r = take (rd_len r) (?p @ ?rest)"
    "rd_len r \<le> length (?p @ ?rest)" using on by blast+
  from Reader_parse_part_writer [OF ok(1,2) b ok(3,4) room]
  obtain r' where r': "Reader_parse_part tgt r = (if length ?p \<le> rd_len r
       then (Inr (Some (part_info_of tgt b body ts)), r'\<lparr>rd_parts := rd_parts r + 1\<rparr>) else (Inr None, r'))"
    "reader_ok r'" "reader_knows r' b" "rd_buf r' = rd_buf r" "rd_len r' = rd_len r" "rd_state r' = rd_state r"
    "rd_parts r' = rd_parts r" by blast
  have rc: "reader_content r' = reader_content r" using r' by (simp add: reader_content_def)
  show thesis
  proof (cases "length ?p \<le> rd_len r")
    case False
    have "reader_on tgt r' b ps" using r(1) r' rc by (simp add: reader_on_def)
    then show thesis using wait False r' np r(2) Cons q rc by (simp add: next_item_def)
  next
    case True
    let ?i = "part_info_of tgt b body ts" and ?r1 = "r'\<lparr>rd_parts := rd_parts r + 1\<rparr>"
    have ok1: "reader_ok ?r1" "reader_content ?r1 = take (rd_len ?r1) (?p @ ?rest)" "length ?p \<le> rd_len ?r1"
      using r' rc ok(3) True by (simp_all add: reader_ok_def reader_content_def)
    have part1: "Reader_part ?r1 ?i = Inr body" by (rule Reader_part_writer [OF ok1])
    have mn: "min (pi_consumed ?i) (rd_len ?r1) = length ?p" using True r' by (simp add: part_info_of_def Let_def)
    from Reader_drop_content [OF ok1(1,3)] obtain r2 where r2: "Reader_drop (length ?p) ?r1 = (Inr (), r2)" "reader_ok r2"
      "reader_content r2 = drop (length ?p) (reader_content ?r1)" "rd_len r2 = rd_len r - length ?p"
      "length (rd_buf r2) = length (rd_buf r)" "rd_state r2 = Parts" "rd_parts r2 = rd_parts r + 1"
      "rd_boundary r2 = rd_boundary r'" "rd_boundary_len r2 = rd_boundary_len r'" using r' r(2) by auto
    have c2: "reader_content r2 = take (rd_len r2) ?rest"
      using r2(3,4) ok1(2) r'(5) drop_take_append [OF True] by simp
    have "reader_on tgt r2 b ps'"
      using r2 c2 r'(3) on Cons q r(1) by (auto simp: reader_on_def stream_from_def reader_knows_def)
    moreover have "reader_content r = ?p @ reader_content r2" unfolding c2 ok(3) using True r2(4) by simp
    moreover have "PartInfo_len ?i = length body"
      by (simp add: PartInfo_len_def part_info_of_def Let_def length_part_bytes)
    moreover have "Reader_release ?i ?r1 = (Inr (), r2)" unfolding Reader_release_def mn by (rule r2(1))
    ultimately show thesis
      using part [OF Cons [unfolded q], of ?i ?r1 r2] np r'(1) True part1 r2
      by (simp add: part_info_of_def Let_def)
  qed
qed

definition head_left :: "reader_state \<Rightarrow> bytes \<Rightarrow> nat" where
  "head_left st b = (if st = Start \<or> st = Head then length (response_head b) else 0)"

lemma length_reader_content: "reader_ok r \<Longrightarrow> length (reader_content r) = rd_len r"
  by (simp add: reader_ok_def reader_content_def)

lemma reader_on_Parts_head_left: "rd_state r = Parts \<Longrightarrow> head_left (rd_state r) b = 0"
  by (simp add: head_left_def)

lemma response_head_start: "take 5 (response_head b) = ascii ''HTTP/''" "5 \<le> length (response_head b)"
  by (simp_all add: response_head_def ascii_def)

text \<open>What \<open>next_part\<close> does on a prefix of a stream: it waits, or it reports the next part.\<close>

lemma Reader_next_part_head:
  assumes r: "reader_on tgt r b ps" "rd_state r = Head" and b: "boundary_ok b"
  obtains (wait) "Reader_next_part tgt r = (Inr None, r)" "rd_len r < length (response_head b)"
  | (parts) r' where "Reader_next_part tgt r = Reader_next_part tgt r'" "reader_on tgt r' b ps" "rd_state r' = Parts"
      "rd_len r = length (response_head b) + rd_len r'" "length (rd_buf r') = length (rd_buf r)" "rd_parts r' = rd_parts r"
proof -
  let ?rest = "concat (map (\<lambda>(body, ts). part_bytes b body ts) ps)"
  have st: "stream_from (rd_state r) b ps = response_head b @ ?rest" using r(2) by (simp add: stream_from_def)
  note on = r(1) [unfolded reader_on_def st]
  have ok: "reader_ok r" "reader_content r = take (rd_len r) (response_head b @ ?rest)"
    "rd_len r \<le> length (response_head b @ ?rest)" using on by blast+
  have b13: "13 \<notin> set b" using b by (auto simp: boundary_ok_def)
  have lh: "length (response_head b) = length (head_text b) + 4" by (simp add: response_head_text CRLF_facts)
  have s: "subslice (rd_buf r) 0 (rd_len r) = Inr (reader_content r)"
    using ok(1) by (simp add: reader_ok_def reader_content_def)
  have f: "find_sub (reader_content r) (CRLF @ CRLF) =
      (if length (response_head b) \<le> rd_len r then Some (length (head_text b)) else None)"
    using find_sub_prefix [OF find_sub_head [OF b13] CRLF_facts(5), where n = "rd_len r"]
    unfolding ok(2) lh by (simp only: CRLF_facts(6))
  note un = Reader_next_part.simps [of tgt r, unfolded r(2) reader_state.case s bind_r_simps sum.case f]
  show thesis
  proof (cases "length (response_head b) \<le> rd_len r")
    case False
    then show thesis using wait un by simp
  next
    case True
    from Reader_head_writer [OF ok(1) b ok(3,2) True] obtain r' where
      r': "Reader_head (length (head_text b)) r = (Inr (), r')" "reader_ok r'" "reader_knows r' b" "rd_state r' = Parts"
        "length (rd_buf r') = length (rd_buf r)" "rd_parts r' = rd_parts r"
        "rd_len r' = rd_len r - length (response_head b)" "reader_content r' = take (rd_len r') ?rest" by blast
    have "Reader_next_part tgt r = Reader_next_part tgt r'"
      unfolding un if_P [OF True] option.case r'(1) prod.case sum.case ..
    moreover have "reader_on tgt r' b ps"
      using on r' by (auto simp: reader_on_def stream_from_def)
    ultimately show thesis using parts r' True by simp
  qed
qed

lemma Reader_next_part_start:
  assumes r: "reader_on tgt r b ps" "rd_state r = Start"
  obtains (wait) "Reader_next_part tgt r = (Inr None, r)" "rd_len r < length (response_head b)"
  | (head) "Reader_next_part tgt r = Reader_next_part tgt (r\<lparr>rd_state := Head\<rparr>)"
      "reader_on tgt (r\<lparr>rd_state := Head\<rparr>) b ps"
proof (cases "rd_len r < 5")
  case True
  then show thesis using wait r(2) response_head_start(2) [of b] by (simp add: Reader_next_part.simps)
next
  case False
  let ?rest = "concat (map (\<lambda>(body, ts). part_bytes b body ts) ps)"
  have on: "reader_ok r" "reader_content r = take (rd_len r) (response_head b @ ?rest)"
    using r by (simp_all add: reader_on_def stream_from_def)
  have "take 5 (reader_content r) = ascii ''HTTP/''"
    using False response_head_start [of b] unfolding on(2) by (simp add: min_def)
  moreover have "subslice (rd_buf r) 0 5 = Inr (take 5 (reader_content r))"
    using on(1) False by (simp add: reader_ok_def reader_content_def min_def)
  ultimately have s: "subslice (rd_buf r) 0 5 = Inr (ascii ''HTTP/'')" by simp
  have "Reader_next_part tgt r = Reader_next_part tgt (r\<lparr>rd_state := Head\<rparr>)"
    using Reader_next_part.simps [of tgt r, unfolded r(2) reader_state.case s sum.case if_not_P [OF False]] by simp
  moreover have "reader_on tgt (r\<lparr>rd_state := Head\<rparr>) b ps"
    using r by (auto simp: reader_on_def reader_ok_def reader_knows_def reader_content_def stream_from_def)
  ultimately show thesis by (rule head)
qed

lemma Reader_next_part_on:
  assumes r: "reader_on tgt r b ps" and b: "boundary_ok b"
  obtains (wait) r' where "Reader_next_part tgt r = (Inr None, r')" "reader_on tgt r' b ps"
      "rd_len r' < next_item (rd_state r') b ps" "length (rd_buf r') = length (rd_buf r)"
      "rd_len r - head_left (rd_state r) b = rd_len r' - head_left (rd_state r') b"
      "head_left (rd_state r) b + rd_len r' = rd_len r + head_left (rd_state r') b" "rd_parts r' = rd_parts r"
      "head_left (rd_state r') b \<le> head_left (rd_state r) b"
  | (part) body ts ps' p r1 r2 where "ps = (body, ts) # ps'" "Reader_next_part tgt r = (Inr (Some p), r1)"
      "Reader_part r1 p = Inr body" "PartInfo_len p = length body"
      "pi_timestamp p = (if unat ts < usize_mod tgt then Some ts else None)"
      "Reader_release p r1 = (Inr (), r2)" "reader_on tgt r2 b ps'" "rd_state r2 = Parts"
      "length (rd_buf r2) = length (rd_buf r)"
      "rd_len r = head_left (rd_state r) b + length (part_bytes b body ts) + rd_len r2" "rd_parts r2 = rd_parts r + 1"
proof -
  note goal_wait = wait and goal_part = part
  have via_parts: thesis if r': "Reader_next_part tgt r = Reader_next_part tgt r'" "reader_on tgt r' b ps" "rd_state r' = Parts"
      "rd_len r = head_left (rd_state r) b + rd_len r'" "length (rd_buf r') = length (rd_buf r)" "rd_parts r' = rd_parts r" for r'
    using r'(2,3) b
  proof (cases rule: Reader_next_part_parts)
    case (wait r'')
    have "rd_len r'' = rd_len r'"
      using wait(2,6) r'(2) length_reader_content by (metis reader_on_def)
    then show thesis using goal_wait [of r''] wait r' by (simp add: head_left_def)
  next
    case (part body ts ps' p r1 r2)
    have "rd_len r' = length (part_bytes b body ts) + rd_len r2"
      using part(7,10) r'(2) length_reader_content by (metis length_append reader_on_def)
    then show thesis using goal_part [OF part(1) _ part(3-7)] part r' by simp
  qed
  have head: thesis if r': "Reader_next_part tgt r = Reader_next_part tgt r'" "reader_on tgt r' b ps" "rd_state r' = Head"
      "rd_len r = rd_len r'" "rd_state r = Start \<or> rd_state r = Head" "length (rd_buf r') = length (rd_buf r)" "rd_parts r' = rd_parts r" for r'
    using r'(2,3) b
  proof (cases rule: Reader_next_part_head)
    case wait
    then show thesis using goal_wait [of r'] r' by (auto simp: head_left_def next_item_def)
  next
    case (parts r'')
    then have "rd_len r = head_left (rd_state r) b + rd_len r''" using r'(4,5) by (auto simp: head_left_def)
    then show thesis using via_parts [of r''] parts r' by simp
  qed
  show thesis
  proof (cases "rd_state r")
    case Start
    with r show thesis
    proof (cases rule: Reader_next_part_start)
      case wait
      then show thesis using goal_wait [of r] r Start by (simp add: head_left_def next_item_def)
    next
      case h: head
      show thesis by (rule head [OF h]) (simp_all add: Start)
    qed
  next
    case Head
    show thesis by (rule head [OF refl r Head]) (simp_all add: Head)
  next
    case Parts
    show thesis by (rule via_parts [OF refl r Parts]) (simp_all add: Parts head_left_def)
  next
    case Done
    then show thesis using r by (simp add: reader_on_def)
  qed
qed

section \<open>Any input\<close>

text \<open>What a program can do with a reader, which remembers the parts reported so far: push bytes, ask
  for the next part, look at any part reported, and release any part. The outcome is the error, if the
  call ends in one.\<close>

datatype reader_call = CallPush bytes | CallNext | CallPart part_info | CallRelease part_info

fun fault_of :: "'a result \<Rightarrow> fault option" where
  "fault_of (Inl e) = Some e"
| "fault_of (Inr _) = None"

fun reported :: "part_info option result \<Rightarrow> part_info set" where
  "reported (Inr (Some p)) = {p}"
| "reported _ = {}"

inductive reader_step ::
  "target \<Rightarrow> reader \<times> part_info set \<Rightarrow> reader_call \<Rightarrow> fault option \<Rightarrow> reader \<times> part_info set \<Rightarrow> bool" for tgt where
  push: "Reader_push bs r = (x, r') \<Longrightarrow> reader_step tgt (r, ps) (CallPush bs) (fault_of x) (r', ps)"
| next_part: "Reader_next_part tgt r = (y, r') \<Longrightarrow>
    reader_step tgt (r, ps) CallNext (fault_of y) (r', reported y \<union> ps)"
| part: "p \<in> ps \<Longrightarrow> reader_step tgt (r, ps) (CallPart p) (fault_of (Reader_part r p)) (r, ps)"
| release: "Reader_release p r = (x, r') \<Longrightarrow> reader_step tgt (r, ps) (CallRelease p) (fault_of x) (r', ps)"

inductive_cases reader_stepE: "reader_step tgt (r, ps) c l s"

inductive reader_reach :: "target \<Rightarrow> bytes \<Rightarrow> reader \<times> part_info set \<Rightarrow> bool" for tgt buf where
  new: "reader_reach tgt buf (Reader_new buf, {})"
| step: "reader_reach tgt buf s \<Longrightarrow> reader_step tgt s c l s' \<Longrightarrow> reader_reach tgt buf s'"

text \<open>A part reported: a range, closed by two bytes; or, where sums are not checked and the declared length
  makes one overflow, an end before the start or so far out that the two bytes after it wrap.\<close>

definition part_whole :: "part_info \<Rightarrow> bool" where
  "part_whole p \<longleftrightarrow> pi_start p \<le> pi_end p \<and> pi_consumed p = pi_end p + 2"

definition part_wrapped :: "target \<Rightarrow> part_info \<Rightarrow> bool" where
  "part_wrapped tgt p \<longleftrightarrow> pi_end p < pi_start p \<or> usize_mod tgt \<le> pi_end p + 2"

definition part_reported :: "target \<Rightarrow> nat \<Rightarrow> part_info \<Rightarrow> bool" where
  "part_reported tgt n p \<longleftrightarrow> pi_consumed p \<le> n \<and> (part_whole p \<or> (\<not> overflow_checks tgt \<and> part_wrapped tgt p))"

definition usize_safe :: "target \<Rightarrow> 'a result \<Rightarrow> bool" where
  "usize_safe tgt x \<longleftrightarrow> overflow_checks tgt \<or> no_panic x"

lemma usize_safe_simps [simp]: "usize_safe tgt (Inr x)" "usize_safe tgt (Inl (Err e))"
  by (simp_all add: usize_safe_def)

lemma usize_safe_add: "usize_safe tgt (usize_add tgt a b)"
  by (simp add: usize_safe_def usize_add_def)

lemma usize_safe_bind: "usize_safe tgt m \<Longrightarrow> (\<And>x. m = Inr x \<Longrightarrow> usize_safe tgt (f x)) \<Longrightarrow> usize_safe tgt (bind_r m f)"
  by (auto simp: usize_safe_def intro: no_panic_bind_r)

definition op_ok :: "target \<Rightarrow> nat \<Rightarrow> 'a result \<times> reader \<Rightarrow> bool" where
  "op_ok tgt n x \<longleftrightarrow> usize_safe tgt (fst x) \<and> reader_ok (snd x) \<and> length (rd_buf (snd x)) = n"

lemma op_ok_simps [simp]:
  "op_ok tgt n (x, r) \<longleftrightarrow> usize_safe tgt x \<and> reader_ok r \<and> length (rd_buf r) = n"
  by (simp add: op_ok_def)

lemma Reader_push_ok: "reader_ok r \<Longrightarrow> length (rd_buf r) = n \<Longrightarrow> op_ok tgt n (Reader_push bs r)"
  by (simp add: Reader_push_def Let_def) (simp add: reader_ok_def)

lemma Reader_drop_ok:
  assumes "reader_ok r" "n \<le> rd_len r" "length (rd_buf r) = k"
  shows "op_ok tgt k (Reader_drop n r)" "rd_state (snd (Reader_drop n r)) = rd_state r"
  using Reader_drop_content [OF assms(1,2)] assms(3) by auto

lemma Reader_release_ok: "reader_ok r \<Longrightarrow> length (rd_buf r) = n \<Longrightarrow> op_ok tgt n (Reader_release p r)"
  unfolding Reader_release_def by (rule Reader_drop_ok) simp_all

lemma Reader_headers_no_panic: "no_panic (Reader_headers tgt cl ts hs)"
  by (induction tgt cl ts hs rule: Reader_headers.induct) (auto simp: Let_def split: option.splits)

lemma Reader_learn_total:
  assumes "reader_ok r" "length (rd_buf r) = n"
  shows "op_ok tgt n (Reader_learn token r)" "rd_len (snd (Reader_learn token r)) = rd_len r"
  using assms by (auto simp: Reader_learn_def reader_ok_def)

lemma Reader_body_ok:
  assumes "reader_ok r" "length (rd_buf r) = n" "headers_start \<le> length d"
  shows "op_ok tgt n (Reader_body tgt d headers_start r)"
proof -
  let ?f = "\<lambda>h_end. bind_r (subslice d headers_start (headers_start + h_end)) (\<lambda>headers.
      bind_r (Reader_headers tgt None None (split_on 10 headers)) (\<lambda>(cl, ts).
      bind_r (ok_or cl Unsupported) (\<lambda>len.
      let body_start = headers_start + h_end + 4 in
      bind_r (usize_add tgt body_start len) (\<lambda>body_end.
      bind_r (usize_add tgt body_end 2) (\<lambda>after. Inr (body_start, body_end, after, ts))))))"
  have s: "usize_safe tgt (?f h_end)" if "find_sub (drop headers_start d) (CRLF @ CRLF) = Some h_end" for h_end
  proof -
    have "headers_start + h_end \<le> length d" using that assms(3) unfolding find_sub_blank_iff length_drop by linarith
    moreover have "usize_safe tgt (Reader_headers tgt None None hs)" for hs
      using Reader_headers_no_panic by (simp add: usize_safe_def)
    moreover have "usize_safe tgt (ok_or cl Unsupported)" for cl :: "nat option" by (simp add: usize_safe_def)
    ultimately show ?thesis unfolding Let_def
      by (auto intro!: usize_safe_bind usize_safe_add split: prod.split)
  qed
  have sl: "subslice d headers_start (length d) = Inr (drop headers_start d)" using assms(3) by simp
  show ?thesis
  proof (cases "find_sub (drop headers_start d) (CRLF @ CRLF)")
    case None
    then show ?thesis using assms by (simp add: Reader_body_def sl)
  next
    case (Some h_end)
    have "Reader_body tgt d headers_start r = (case ?f h_end of
         Inl e \<Rightarrow> (Inl e, r)
       | Inr (body_start, body_end, after, ts) \<Rightarrow>
           if length d < after then
             (if after > length (rd_buf r) then (Inl (Err (BufferTooSmall after)), r)
              else (Inr None, r))
           else
             (Inr (Some \<lparr>pi_start = body_start, pi_end = body_end, pi_timestamp = ts, pi_consumed = after\<rparr>),
              r\<lparr>rd_parts := rd_parts r + 1\<rparr>))"
      unfolding Reader_body_def sl bind_r_simps Some sum.case option.case ..
    then show ?thesis using s [OF Some] assms(1,2)
      by (auto simp: reader_ok_def usize_safe_def no_panic_def split: sum.splits prod.splits)
  qed
qed

lemma skip_crlf_le: "skip_crlf d \<le> length d"
  by (induction d) auto

lemma Reader_parse_part_ok:
  assumes "reader_ok r" "length (rd_buf r) = n"
  shows "op_ok tgt n (Reader_parse_part tgt r)"
proof -
  let ?d = "reader_content r" and ?i = "skip_crlf (reader_content r)"
  have d: "subslice (rd_buf r) 0 (rd_len r) = Inr ?d" using assms by (simp add: reader_ok_def reader_content_def)
  note un = Reader_parse_part_def [of tgt r, unfolded d sum.case Let_def]
  show ?thesis
  proof (cases "length ?d < ?i + 2 \<or> cut ?d ?i (?i + 2) \<noteq> ascii ''--'' \<or> find_sub (drop ?i ?d) CRLF = None")
    case True
    then show ?thesis using assms unfolding un by auto
  next
    case False
    then obtain k where k: "\<not> length ?d < ?i + 2" "cut ?d ?i (?i + 2) = ascii ''--''" "find_sub (drop ?i ?d) CRLF = Some k" by auto
    from k(3) have f: "k + 2 \<le> length (drop ?i ?d)" "take 2 (drop k (drop ?i ?d)) = CRLF" unfolding find_sub_CRLF_iff by auto
    have dash: "take 2 (drop ?i ?d) = [45, 45]" using k(2) by (simp add: cut_def ascii_def)
    have "2 \<le> k"
    proof (rule ccontr)
      assume "\<not> 2 \<le> k"
      then have "k = 0 \<or> k = 1" by auto
      moreover obtain a b t where "drop ?i ?d = a # b # t" using f(1)
        by (metis Suc_le_length_iff add_2_eq_Suc' )
      ultimately show False using f(2) dash by (auto simp: CRLF_def)
    qed
    then have sl: "subslice ?d (?i + 2) (?i + k) = Inr (take (k - 2) (drop (?i + 2) ?d))" using f(1) by simp
    let ?line = "take (k - 2) (drop (?i + 2) ?d)"
    let ?learn = "if rd_boundary_len r = 0
        then Reader_learn (case strip_suffix (ascii ''--'') ?line of None \<Rightarrow> ?line | Some t \<Rightarrow> t) r else (Inr (), r)"
    have l: "op_ok tgt n ?learn" using assms Reader_learn_total(1) by simp
    obtain x r1 where x: "?learn = (x, r1)" by (cases ?learn)
    with l have r1: "usize_safe tgt x" "reader_ok r1" "length (rd_buf r1) = n" by simp_all
    have b: "subslice (rd_boundary r1) 0 (rd_boundary_len r1) = Inr (take (rd_boundary_len r1) (rd_boundary r1))"
      using r1(2) by (simp add: reader_ok_def)
    have body: "op_ok tgt n (Reader_body tgt ?d (?i + k + 2) r1)"
      using r1 f(1) by (intro Reader_body_ok) auto
    have e: "Reader_parse_part tgt r =
       (case x of Inl e \<Rightarrow> (Inl e, r1)
        | Inr _ \<Rightarrow>
           if ?line = take (rd_boundary_len r1) (rd_boundary r1) then Reader_body tgt ?d (?i + k + 2) r1
           else if strip_suffix (ascii ''--'') ?line = Some (take (rd_boundary_len r1) (rd_boundary r1))
           then (Inr None, r1\<lparr>rd_state := Done\<rparr>)
           else (Inl (Err InvalidFormat), r1))"
      unfolding un if_not_P [OF k(1)] k(2) k(3) option.case sl sum.case x prod.case b
      by (simp split: sum.splits)
    have "op_ok tgt n (Inl e, r1)" if "x = Inl e" for e using that r1 by (simp add: usize_safe_def no_panic_def)
    moreover have "reader_ok (r1\<lparr>rd_state := Done\<rparr>)" using r1(2) by (simp add: reader_ok_def)
    ultimately show ?thesis using body r1 unfolding e by (auto split: sum.splits)
  qed
qed

lemma Reader_head_ok:
  assumes "reader_ok r" "length (rd_buf r) = n" "fin + 4 \<le> rd_len r"
  shows "op_ok tgt n (Reader_head fin r)"
proof -
  let ?head = "take fin (rd_buf r)"
  have d: "subslice (rd_buf r) 0 fin = Inr ?head" using assms by (simp add: reader_ok_def)
  let ?learn = "case find_sub ?head (ascii ''boundary='') of
       None \<Rightarrow> (Inr (), r)
     | Some b \<Rightarrow>
         (let rest = drop (b + 9) ?head;
              stop = (case position (\<lambda>c. c = 13 \<or> c = 59 \<or> c = 32 \<or> c = 34) rest of
                        None \<Rightarrow> length rest | Some k \<Rightarrow> k);
              token = take stop rest;
              token = (case strip_prefix [34] token of None \<Rightarrow> token | Some t \<Rightarrow> t) in
          Reader_learn token r)"
  obtain x r1 where x: "?learn = (x, r1)" by (cases ?learn)
  have "op_ok tgt n ?learn \<and> rd_len (snd ?learn) = rd_len r"
    using assms(1,2) Reader_learn_total [of r n] by (simp add: Let_def split: option.split)
  then have r1: "usize_safe tgt x" "reader_ok r1" "length (rd_buf r1) = n" "rd_len r1 = rd_len r" by (simp_all add: x)
  have dr: "op_ok tgt n (Reader_drop (fin + 4) r1)"
    using Reader_drop_ok(1) [OF r1(2) _ r1(3), of "fin + 4" tgt] assms(3) r1(4) by simp
  obtain y r2 where y: "Reader_drop (fin + 4) r1 = (y, r2)" by (cases "Reader_drop (fin + 4) r1")
  with dr have r2: "usize_safe tgt y" "reader_ok r2" "length (rd_buf r2) = n" by simp_all
  have "Reader_head fin r =
     (case x of Inl e \<Rightarrow> (Inl e, r1)
      | Inr _ \<Rightarrow> (case y of Inl e \<Rightarrow> (Inl e, r2) | Inr _ \<Rightarrow> (Inr (), r2\<lparr>rd_state := Parts\<rparr>)))"
    unfolding Reader_head_def d sum.case x prod.case y ..
  moreover have "reader_ok (r2\<lparr>rd_state := Parts\<rparr>)" using r2(2) by (simp add: reader_ok_def)
  ultimately show ?thesis using r1 r2 by (auto simp: usize_safe_def no_panic_def split: sum.splits)
qed

lemma Reader_next_part_ok:
  "reader_ok r \<Longrightarrow> length (rd_buf r) = n \<Longrightarrow> op_ok tgt n (Reader_next_part tgt r)"
proof (induction "state_rank (rd_state r)" arbitrary: r rule: less_induct)
  case less
  note un = Reader_next_part.simps [of tgt r]
  show ?case
  proof (cases "rd_state r")
    case Start
    show ?thesis
    proof (cases "rd_len r < 5")
      case True
      then show ?thesis using Start less.prems unfolding un by simp
    next
      case False
      then have s: "subslice (rd_buf r) 0 5 = Inr (take 5 (rd_buf r))" using less.prems by (simp add: reader_ok_def)
      let ?r = "r\<lparr>rd_state := (if take 5 (rd_buf r) = ascii ''HTTP/'' then Head else Parts)\<rparr>"
      have "op_ok tgt n (Reader_next_part tgt ?r)"
        using less.prems Start by (intro less.hyps) (auto simp: reader_ok_def)
      then show ?thesis using False unfolding un Start reader_state.case s sum.case by simp
    qed
  next
    case Head
    have s: "subslice (rd_buf r) 0 (rd_len r) = Inr (reader_content r)"
      using less.prems by (simp add: reader_ok_def reader_content_def)
    note un = un [unfolded Head reader_state.case s bind_r_simps sum.case]
    show ?thesis
    proof (cases "find_sub (reader_content r) (CRLF @ CRLF)")
      case None
      then show ?thesis using less.prems unfolding un by simp
    next
      case (Some fin)
      then have "fin + 4 \<le> rd_len r"
        unfolding find_sub_blank_iff using less.prems length_reader_content by auto
      from Reader_head_ok [OF less.prems this, of tgt] have h: "op_ok tgt n (Reader_head fin r)" .
      obtain x r1 where x: "Reader_head fin r = (x, r1)" by (cases "Reader_head fin r")
      show ?thesis
      proof (cases x)
        case (Inl e)
        then show ?thesis using h x Some unfolding un by (simp add: usize_safe_def no_panic_def)
      next
        case (Inr u)
        then have "rd_state r1 = Parts" using Reader_head_state x by blast
        then have "op_ok tgt n (Reader_next_part tgt r1)" using Head h x by (intro less.hyps) auto
        then show ?thesis using x Inr Some unfolding un by simp
      qed
    qed
  next
    case Parts
    then show ?thesis using Reader_parse_part_ok [OF less.prems] unfolding un by simp
  next
    case Done
    then show ?thesis using less.prems unfolding un by simp
  qed
qed

lemma Reader_new_ok: "reader_ok (Reader_new buf)"
  by (simp add: reader_ok_def Reader_new_def)

lemma parse_usize_bound: "parse_usize tgt v = Some n \<Longrightarrow> n < usize_mod tgt"
proof -
  have "parse_digits b k (c # cs) = Some n \<Longrightarrow> n < b" for b k c cs
    by (induction cs arbitrary: k c) (auto split: if_splits)
  then show "parse_usize tgt v = Some n \<Longrightarrow> n < usize_mod tgt" by (cases v) (auto simp: parse_usize_def)
qed

lemma Reader_headers_bound:
  assumes "Reader_headers tgt cl ts hs = Inr (Some n, ts')" "\<forall>m. cl = Some m \<longrightarrow> m < usize_mod tgt"
  shows "n < usize_mod tgt"
  using assms
proof (induction tgt cl ts hs rule: Reader_headers.induct)
  case (2 tgt cl ts h hs)
  show ?case
  proof (cases "strip_header (strip_cr h) (ascii ''content-length:'')")
    case None
    then show ?thesis using 2 by (auto simp: Let_def split: option.splits)
  next
    case (Some v)
    then obtain m where m: "parse_usize tgt v = Some m" "Reader_headers tgt (Some m) ts hs = Inr (Some n, ts')"
      using "2.prems"(1) by (auto simp: Let_def split: option.splits)
    then show ?thesis using "2.IH"(3) [OF refl Some m(1) m(2)] parse_usize_bound [OF m(1)] by simp
  qed
qed simp

lemma part_ends:
  assumes "usize_add tgt a len = Inr e" "usize_add tgt e 2 = Inr c" "len < usize_mod tgt" "c \<le> n"
  shows "part_reported tgt n \<lparr>pi_start = a, pi_end = e, pi_timestamp = ts, pi_consumed = c\<rparr>"
proof (cases "a + len < usize_mod tgt")
  case True
  then show ?thesis using assms
    by (auto simp: usize_add_def part_reported_def part_whole_def part_wrapped_def split: if_splits)
next
  case False
  then have m: "\<not> overflow_checks tgt" "e = (a + len) mod usize_mod tgt"
    using assms(1) by (auto simp: usize_add_def split: if_splits)
  have "e = (a + len - usize_mod tgt) mod usize_mod tgt" using m(2) False by (simp add: le_mod_geq)
  then have "e \<le> a + len - usize_mod tgt" by (simp only: mod_less_eq_dividend)
  then have "e < a" using False assms(3) by linarith
  then show ?thesis using m(1) assms(4) by (simp add: part_reported_def part_wrapped_def)
qed

lemma Reader_body_reports:
  assumes "Reader_body tgt d k r = (Inr (Some p), r')"
  shows "part_reported tgt (length d) p"
proof -
  from assms obtain h cl ts e c where
    "Reader_headers tgt None None (split_on 10 h) = Inr (Some cl, ts)" and
    p: "usize_add tgt (pi_start p) cl = Inr e" "usize_add tgt e 2 = Inr c" "c \<le> length d" "pi_end p = e" "pi_consumed p = c"
    by (auto simp: Reader_body_def Let_def bind_r_eq_Inr_iff ok_or_def split: sum.splits option.splits prod.splits if_splits)
  then have "cl < usize_mod tgt" using Reader_headers_bound by blast
  from part_ends [OF p(1,2) this p(3), of "pi_timestamp p"] p(4,5) show ?thesis by (cases p) simp
qed

lemma Reader_parse_part_reports:
  assumes "Reader_parse_part tgt r = (Inr (Some p), r')"
  shows "part_reported tgt (length (rd_buf r)) p"
proof -
  from assms obtain d k r1 where d: "subslice (rd_buf r) 0 (rd_len r) = Inr d" "Reader_body tgt d k r1 = (Inr (Some p), r')"
    by (auto simp: Reader_parse_part_def Let_def split: sum.splits option.splits prod.splits if_splits)
  have "length d \<le> length (rd_buf r)" using d(1) by (auto simp: subslice_def split: if_splits)
  with Reader_body_reports [OF d(2)] show ?thesis by (auto simp: part_reported_def)
qed

lemma Reader_next_part_reports:
  "Reader_next_part tgt r = (Inr (Some p), r') \<Longrightarrow> reader_ok r \<Longrightarrow> length (rd_buf r) = n \<Longrightarrow> part_reported tgt n p"
proof (induction "state_rank (rd_state r)" arbitrary: r rule: less_induct)
  case less
  note un = Reader_next_part.simps [of tgt r]
  show ?case
  proof (cases "rd_state r")
    case Start
    let ?r = "r\<lparr>rd_state := (if take 5 (rd_buf r) = ascii ''HTTP/'' then Head else Parts)\<rparr>"
    have "Reader_next_part tgt ?r = (Inr (Some p), r')"
      using less.prems(1) Start unfolding un by (auto simp: subslice_def split: if_splits)
    then show ?thesis using less.hyps [of ?r] less.prems(2,3) Start by (auto simp: reader_ok_def)
  next
    case Head
    have s: "subslice (rd_buf r) 0 (rd_len r) = Inr (reader_content r)"
      using less.prems(2) by (simp add: reader_ok_def reader_content_def)
    obtain fin r1 where f: "find_sub (reader_content r) (CRLF @ CRLF) = Some fin" "Reader_head fin r = (Inr (), r1)"
      "Reader_next_part tgt r1 = (Inr (Some p), r')"
      using less.prems(1) unfolding un Head reader_state.case s bind_r_simps sum.case
      by (auto split: option.splits sum.splits prod.splits)
    then have "fin + 4 \<le> rd_len r"
      unfolding find_sub_blank_iff using less.prems(2) length_reader_content by auto
    from Reader_head_ok [OF less.prems(2,3) this, of tgt] have "reader_ok r1" "length (rd_buf r1) = n" by (simp_all add: f)
    with less.hyps [of r1] Head Reader_head_state [OF f(2)] f(3) show ?thesis by simp
  next
    case Parts
    then show ?thesis using Reader_parse_part_reports less.prems(1,3) unfolding un by auto
  qed (use less.prems(1) in \<open>simp add: un\<close>)
qed

text \<open>What holds of a reader and of the parts it reported.\<close>

definition reader_inv :: "target \<Rightarrow> nat \<Rightarrow> reader \<times> part_info set \<Rightarrow> bool" where
  "reader_inv tgt n s \<longleftrightarrow> reader_ok (fst s) \<and> length (rd_buf (fst s)) = n \<and> (\<forall>p \<in> snd s. part_reported tgt n p)"

lemma fault_of_panic: "fault_of x = Some Panic \<longleftrightarrow> \<not> no_panic x"
  by (cases x) (auto simp: no_panic_def)

lemma Reader_part_panics:
  assumes "length (rd_buf r) = n" "part_reported tgt n p" "\<not> no_panic (Reader_part r p)"
  shows "\<not> overflow_checks tgt \<and> part_wrapped tgt p"
  using assms by (auto simp: part_reported_def part_whole_def Reader_part_def)

lemma reader_step_ok:
  assumes "reader_step tgt (r, ps) c l s" "reader_inv tgt n (r, ps)"
  shows "reader_inv tgt n s" "l = Some Panic \<Longrightarrow> c = CallNext \<and> overflow_checks tgt \<or>
    (\<exists>p \<in> ps. c = CallPart p \<and> \<not> overflow_checks tgt \<and> part_wrapped tgt p)"
proof -
  have r: "reader_ok r" "length (rd_buf r) = n" "\<forall>p \<in> ps. part_reported tgt n p"
    using assms(2) by (simp_all add: reader_inv_def)
  from assms(1) have "reader_inv tgt n s \<and> (l = Some Panic \<longrightarrow> c = CallNext \<and> overflow_checks tgt \<or>
    (\<exists>p \<in> ps. c = CallPart p \<and> \<not> overflow_checks tgt \<and> part_wrapped tgt p))"
  proof (cases rule: reader_stepE [consumes 1, case_names push next_part part release])
    case (push bs x r')
    have "no_panic x" using push(4) by (auto simp: Reader_push_def Let_def no_panic_def copy_range_def split: if_splits sum.splits)
    then show ?thesis using push Reader_push_ok [OF r(1,2), of tgt bs] r(3) by (simp add: fault_of_panic reader_inv_def)
  next
    case (next_part y r')
    have "\<forall>p \<in> reported y. part_reported tgt n p"
      using Reader_next_part_reports [of tgt r _ r' n] next_part(4) r(1,2) by (cases y rule: reported.cases) auto
    then show ?thesis using next_part Reader_next_part_ok [OF r(1,2), of tgt] r(3)
      by (auto simp: fault_of_panic usize_safe_def reader_inv_def)
  next
    case (part p)
    then show ?thesis using Reader_part_panics [OF r(2)] assms(2) r(3) by (auto simp: fault_of_panic)
  next
    case (release p x r')
    have "no_panic x" using release(4) Reader_release_ok [OF r(1,2), of "tgt\<lparr>overflow_checks := False\<rparr>" p]
      by (simp add: usize_safe_def)
    then show ?thesis using release Reader_release_ok [OF r(1,2), of tgt p] r(3)
      by (simp add: fault_of_panic reader_inv_def)
  qed
  then show "reader_inv tgt n s" "l = Some Panic \<Longrightarrow> c = CallNext \<and> overflow_checks tgt \<or>
    (\<exists>p \<in> ps. c = CallPart p \<and> \<not> overflow_checks tgt \<and> part_wrapped tgt p)" by blast+
qed

lemma reader_reach_ok: "reader_reach tgt buf s \<Longrightarrow> reader_inv tgt (length buf) s"
proof (induction rule: reader_reach.induct)
  case new
  show ?case using Reader_new_ok by (simp add: reader_inv_def Reader_new_def)
next
  case (step s c l s')
  then show ?case using reader_step_ok(1) by (cases s) blast
qed

text \<open>C16: Whatever bytes a stream delivers and however the calls of \<open>push\<close>, \<open>next_part\<close>, \<open>part\<close> and
  \<open>release\<close> are interleaved, failed ones included, the reader keeps its invariant: the filled length is
  within the buffer, which is never resized, and the boundary within its 70 bytes. Every part it has
  reported is a range with its closing bytes within the buffer, so \<open>part\<close> shows it, now or later; except
  where a build does not check overflow and a declared length wrapped. The only panics are of \<open>next_part\<close> where
  overflow is checked, and of \<open>part\<close> on such a wrapped part where it is not; \<open>push\<close> and
  \<open>release\<close> never panic.\<close>

theorem Reader_invariant:
  assumes "reader_reach tgt buf (r, ps)"
  shows "rd_len r \<le> length buf \<and> length (rd_buf r) = length buf \<and>
    rd_boundary_len r \<le> MAX_BOUNDARY_LEN \<and> no_panic (Reader_boundary r) \<and>
    (\<forall>p \<in> ps. pi_consumed p \<le> length buf \<and> (part_whole p \<or> (\<not> overflow_checks tgt \<and> part_wrapped tgt p))) \<and>
    (\<forall>c s. reader_step tgt (r, ps) c (Some Panic) s \<longrightarrow>
       (c = CallNext \<and> overflow_checks tgt) \<or>
       (\<exists>p \<in> ps. c = CallPart p \<and> \<not> overflow_checks tgt \<and> part_wrapped tgt p))"
proof -
  note inv = reader_reach_ok [OF assms]
  show ?thesis using inv reader_step_ok(2) [OF _ inv]
    by (auto simp: reader_inv_def reader_ok_def Reader_boundary_def part_reported_def)
qed

theorem Reader_invariant_witness:
  "\<exists>r. reader_reach \<lparr>usize_mod = 2 ^ 32, overflow_checks = False\<rparr> [0, 0, 0] (r, {}) \<and> rd_len r = 2 \<and>
     rd_len r \<le> length [0, 0, 0 :: u8] \<and>
     reader_step \<lparr>usize_mod = 2 ^ 32, overflow_checks = False\<rparr> (r, {}) (CallPush [1, 2]) (Some (Err (BufferTooSmall 4))) (r, {}) \<and>
     (\<forall>c s. \<not> reader_step \<lparr>usize_mod = 2 ^ 32, overflow_checks = False\<rparr> (r, {}) c (Some Panic) s)"
proof -
  let ?t = "\<lparr>usize_mod = 2 ^ 32, overflow_checks = False\<rparr>"
  define r where "r = (Reader_new [0, 0, 0])\<lparr>rd_buf := [45, 45, 0], rd_len := 2\<rparr>"
  have "Reader_push [45, 45] (Reader_new [0, 0, 0]) = (Inr (), r)"
    by (simp add: Reader_push_def Reader_new_def r_def copy_range_def)
  then have reach: "reader_reach ?t [0, 0, 0] (r, {})"
    by (rule reader_reach.step [OF reader_reach.new reader_step.push])
  have "Reader_push [1, 2] r = (Inl (Err (BufferTooSmall 4)), r)" by (simp add: Reader_push_def r_def)
  from reader_step.push [OF this, of ?t "{}"]
  have st: "reader_step ?t (r, {}) (CallPush [1, 2]) (Some (Err (BufferTooSmall 4))) (r, {})" by simp
  have "rd_len r = 2" by (simp add: r_def)
  with reach st Reader_invariant [OF reach] show ?thesis by auto
qed

text \<open>What a program that handles every reported part at once sees of a stream.\<close>

definition first_part :: "target \<Rightarrow> nat \<Rightarrow> bytes \<Rightarrow> bytes option result" where
  "first_part tgt room stream =
     (case Reader_push stream (Reader_new (replicate room 0)) of
        (Inl e, _) \<Rightarrow> Inl e
      | (Inr _, r) \<Rightarrow>
          (case Reader_next_part tgt r of
             (Inl e, _) \<Rightarrow> Inl e
           | (Inr None, _) \<Rightarrow> Inr None
           | (Inr (Some p), r1) \<Rightarrow> bind_r (Reader_part r1 p) (\<lambda>b. Inr (Some b))))"

definition big_part :: bytes where
  "big_part = ascii ''--b'' @ CRLF @ ascii ''Content-Length: 4294967290'' @ CRLF @ CRLF"

lemma big_part_headers:
  "4294967290 < n \<Longrightarrow> Reader_headers \<lparr>usize_mod = n, overflow_checks = b\<rparr> None None
     (split_on 10 (ascii ''Content-Length: 4294967290'')) = Inr (Some 4294967290, None)"
proof -
  assume n: "4294967290 < n"
  have sp: "split_on 10 (ascii ''Content-Length: 4294967290'') = [ascii ''Content-Length: 4294967290'']"
    "strip_cr (ascii ''Content-Length: 4294967290'') = ascii ''Content-Length: 4294967290''"
    "strip_header (ascii ''Content-Length: 4294967290'') (ascii ''content-length:'') = Some (ascii ''4294967290'')"
    by code_simp+
  have "parse_digits n 0 (ascii ''4294967290'') = Some 4294967290"
    using n by (simp add: ascii_def is_ascii_digit_def)
  then have "parse_usize \<lparr>usize_mod = n, overflow_checks = b\<rparr> (ascii ''4294967290'') = Some 4294967290"
    by (simp add: parse_usize_def ascii_def)
  then show ?thesis by (simp add: sp Let_def)
qed

lemma big_part_parsed:
  fixes b :: bool
  assumes "4294967290 < n"
  defines "t \<equiv> \<lparr>usize_mod = n, overflow_checks = b\<rparr>" and "r \<equiv> snd (Reader_push big_part (Reader_new (replicate 64 0)))"
  shows "\<exists>r1. length (rd_buf r1) = 64 \<and> Reader_next_part t r =
    (case bind_r (usize_add t 35 4294967290) (\<lambda>body_end. bind_r (usize_add t body_end 2) (\<lambda>after. Inr (body_end, after))) of
       Inl e \<Rightarrow> (Inl e, r1)
     | Inr (body_end, after) \<Rightarrow>
         if 35 < after then (if after > 64 then (Inl (Err (BufferTooSmall after)), r1) else (Inr None, r1))
         else (Inr (Some \<lparr>pi_start = 35, pi_end = body_end, pi_timestamp = None, pi_consumed = after\<rparr>),
               r1\<lparr>rd_parts := rd_parts r1 + 1\<rparr>))"
proof -
  define r1 where "r1 = snd (Reader_learn (ascii ''b'') (r\<lparr>rd_state := Parts\<rparr>))"
  let ?r = "r\<lparr>rd_state := Parts\<rparr>"
  have st: "rd_state r = Start" "\<not> rd_len r < 5" "subslice (rd_buf r) 0 5 = Inr [45, 45, 98, 13, 10]"
    "([45, 45, 98, 13, 10] = ascii ''HTTP/'') = False" unfolding r_def by code_simp+
  have d: "subslice (rd_buf ?r) 0 (rd_len ?r) = Inr big_part" unfolding r_def by code_simp
  have h: "skip_crlf big_part = 0" "length big_part = 35" "cut big_part 0 2 = ascii ''--''" "find_sub big_part CRLF = Some 3"
    "subslice big_part 2 3 = Inr (ascii ''b'')" "rd_boundary_len ?r = 0" "strip_suffix (ascii ''--'') (ascii ''b'') = None"
    "Reader_learn (ascii ''b'') ?r = (Inr (), r1)" "subslice (rd_boundary r1) 0 (rd_boundary_len r1) = Inr (ascii ''b'')"
    "length (rd_buf r1) = 64" unfolding r_def r1_def by code_simp+
  have b: "subslice big_part 5 35 = Inr (drop 5 big_part)" "find_sub (drop 5 big_part) (CRLF @ CRLF) = Some 26"
    "subslice big_part 5 31 = Inr (ascii ''Content-Length: 4294967290'')" by code_simp+
  have "Reader_next_part t r = Reader_next_part t ?r"
    using st by (simp add: Reader_next_part.simps [of t r])
  also have "\<dots> = Reader_parse_part t ?r" by (simp add: Reader_next_part.simps [of t ?r])
  also have "\<dots> = Reader_body t big_part 5 r1"
    by (simp only: Reader_parse_part_def d sum.case Let_def h prod.case option.case add_0 drop_0 simp_thms if_True if_False)
      simp
  also have "\<dots> = (case bind_r (usize_add t 35 4294967290) (\<lambda>body_end. bind_r (usize_add t body_end 2) (\<lambda>after. Inr (body_end, after))) of
       Inl e \<Rightarrow> (Inl e, r1)
     | Inr (body_end, after) \<Rightarrow>
         if 35 < after then (if after > 64 then (Inl (Err (BufferTooSmall after)), r1) else (Inr None, r1))
         else (Inr (Some \<lparr>pi_start = 35, pi_end = body_end, pi_timestamp = None, pi_consumed = after\<rparr>),
               r1\<lparr>rd_parts := rd_parts r1 + 1\<rparr>))"
    using b big_part_headers [OF assms(1), of b] h(2,10) unfolding t_def
    by (simp add: Reader_body_def Let_def split: sum.splits)
      (auto simp: bind_r_def split: sum.splits)
  finally show ?thesis using h(10) by blast
qed

text \<open>A length near the largest \<open>usize\<close> takes a 32-bit reader down: where sums are checked,
  \<open>next_part\<close> panics; where they wrap, the end of the body comes out before its start, the part
  is reported as complete, and \<open>part\<close> panics on the range. With a 64-bit \<open>usize\<close> the same stream is
  refused for want of room.\<close>

lemma Reader_content_length_overflow_panics:
  "first_part \<lparr>usize_mod = 2 ^ 32, overflow_checks = b\<rparr> 64 big_part = Inl Panic \<and>
   first_part \<lparr>usize_mod = 2 ^ 64, overflow_checks = b\<rparr> 64 big_part = Inl (Err (BufferTooSmall 4294967327))"
proof -
  define r where "r = snd (Reader_push big_part (Reader_new (replicate 64 0)))"
  have p: "Reader_push big_part (Reader_new (replicate 64 0)) = (Inr (), r)" unfolding r_def by code_simp
  have "(4294967290 :: nat) < 2 ^ 32" "(4294967290 :: nat) < 2 ^ 64" by simp_all
  from this [THEN big_part_parsed [where b = b, folded r_def]] show ?thesis
    by (cases b) (auto simp: first_part_def p usize_add_def Reader_part_def subslice_def)
qed

definition quoted_head :: bytes where
  "quoted_head = ascii ''HTTP/1.1 200 OK'' @ CRLF @
     ascii ''Content-Type: multipart/x-mixed-replace; boundary='' @ [34] @ ascii ''x'' @ [34] @ CRLF @ CRLF"

text \<open>A response head that quotes its boundary, as the grammar of \<open>Content-Type\<close> allows and the
  code means to accept, is refused: the token ends at the opening quote, so it is empty.\<close>

lemma Reader_quoted_boundary_refused:
  "first_part tgt 128 quoted_head = Inl (Err InvalidFormat)"
proof -
  define r where "r = snd (Reader_push quoted_head (Reader_new (replicate 128 0)))"
  have p: "Reader_push quoted_head (Reader_new (replicate 128 0)) = (Inr (), r)"
    unfolding r_def by code_simp
  have st: "rd_state r = Start" "rd_len r = length quoted_head" "subslice (rd_buf r) 0 5 = Inr (ascii ''HTTP/'')"
    "\<not> rd_len r < 5" unfolding r_def by code_simp+
  let ?r = "r\<lparr>rd_state := Head\<rparr>"
  have h: "rd_state ?r = Head" "bind_r (subslice (rd_buf ?r) 0 (rd_len ?r)) (\<lambda>d. Inr (find_sub d (CRLF @ CRLF))) = Inr (Some 70)"
    "fst (Reader_head 70 ?r) = Inl (Err InvalidFormat)" unfolding r_def by code_simp+
  obtain r1 where r1: "Reader_head 70 ?r = (Inl (Err InvalidFormat), r1)" using h(3) by (cases "Reader_head 70 ?r") auto
  have "Reader_next_part tgt ?r = (Inl (Err InvalidFormat), r1)"
    unfolding Reader_next_part.simps [of tgt ?r] h(1,2) reader_state.case sum.case option.case r1 prod.case ..
  then have "Reader_next_part tgt r = (Inl (Err InvalidFormat), r1)"
    using st unfolding Reader_next_part.simps [of tgt r] by simp
  then show ?thesis by (simp add: first_part_def p)
qed

end
