(* ===== verification/Client.thy ===== *)
theory Client
  imports MjpegReader
begin

text \<open>
  The receiving end of the stream, \<open>client.rs\<close>: the loop that feeds what a socket delivers to
  the multipart reader and hands every part to a callback. The socket is the list of the
  results of its reads; the end of the list, like an empty read, is a closed connection.
\<close>

section \<open>Model\<close>

record pull_stats =
  pl_frames :: nat
  pl_bytes :: nat
  pl_first_timestamp :: "u64 option"
  pl_last_timestamp :: "u64 option"

definition pull_stats_default :: pull_stats where
  "pull_stats_default = \<lparr>pl_frames = 0, pl_bytes = 0, pl_first_timestamp = None, pl_last_timestamp = None\<rparr>"

type_synonym 's on_frame = "'s \<Rightarrow> bytes \<Rightarrow> u64 option \<Rightarrow> unit result \<times> 's"

definition pull_count :: "part_info \<Rightarrow> pull_stats \<Rightarrow> pull_stats" where
  "pull_count p st = st\<lparr>pl_frames := pl_frames st + 1, pl_bytes := pl_bytes st + PartInfo_len p,
     pl_first_timestamp := (if pl_first_timestamp st = None then pi_timestamp p else pl_first_timestamp st),
     pl_last_timestamp := pi_timestamp p\<rparr>"

text \<open>\<open>while let Some(part) = reader.next_part()?\<close>\<close>

function pull_parts ::
  "target \<Rightarrow> 's on_frame \<Rightarrow> nat \<Rightarrow> reader \<Rightarrow> pull_stats \<Rightarrow> 's \<Rightarrow> unit result \<times> reader \<times> pull_stats \<times> 's" where
  "pull_parts tgt on_frame max_frames r st s =
     (case Reader_next_part tgt r of
        (Inl e, r1) \<Rightarrow> (Inl e, r1, st, s)
      | (Inr None, r1) \<Rightarrow> (Inr (), r1, st, s)
      | (Inr (Some p), r1) \<Rightarrow>
          (case Reader_part r1 p of
             Inl e \<Rightarrow> (Inl e, r1, st, s)
           | Inr body \<Rightarrow>
               (case on_frame s body (pi_timestamp p) of
                  (Inl e, s1) \<Rightarrow> (Inl e, r1, st, s1)
                | (Inr _, s1) \<Rightarrow>
                    (case Reader_release p r1 of
                       (Inl e, r2) \<Rightarrow> (Inl e, r2, pull_count p st, s1)
                     | (Inr _, r2) \<Rightarrow>
                         if pl_frames (pull_count p st) \<ge> max_frames then (Inr (), r2, pull_count p st, s1)
                         else pull_parts tgt on_frame max_frames r2 (pull_count p st) s1))))"
  by pat_completeness auto
termination
  by (relation "measure (\<lambda>(tgt, f, max_frames, r, st, s). max_frames - pl_frames st)") (auto simp: pull_count_def)

declare pull_parts.simps [simp del]

text \<open>\<open>while stats.frames < max_frames\<close>; \<open>None\<close> is a read that failed.\<close>

fun pull_loop ::
  "target \<Rightarrow> 's on_frame \<Rightarrow> nat \<Rightarrow> reader \<Rightarrow> pull_stats \<Rightarrow> 's \<Rightarrow> bytes option list \<Rightarrow> pull_stats result \<times> 's" where
  "pull_loop tgt on_frame max_frames r st s [] = (Inr st, s)"
| "pull_loop tgt on_frame max_frames r st s (x # xs) =
     (if pl_frames st < max_frames then
        (case x of
           None \<Rightarrow> (Inl (Err Hardware), s)
         | Some chunk \<Rightarrow>
             if chunk = [] then (Inr st, s)
             else
               (case Reader_push chunk r of
                  (Inl e, _) \<Rightarrow> (Inl e, s)
                | (Inr _, r1) \<Rightarrow>
                    (case pull_parts tgt on_frame max_frames r1 st s of
                       (Inl e, _, _, s1) \<Rightarrow> (Inl e, s1)
                     | (Inr _, r2, st1, s1) \<Rightarrow>
                         if Reader_is_done r2 then (Inr st1, s1)
                         else pull_loop tgt on_frame max_frames r2 st1 s1 xs)))
      else (Inr st, s))"

text \<open>A server: whether it accepts, how it takes the request, and what it then delivers.\<close>

record 'w server =
  sv_write :: "'w writer"
  sv_reads :: "bytes option list"

definition pull_request :: "bytes \<Rightarrow> bytes" where
  "pull_request path = ascii ''GET '' @ path @ ascii '' HTTP/1.1'' @ CRLF @ ascii ''Host: janus'' @ CRLF @
     ascii ''Connection: close'' @ CRLF @ CRLF"

definition pull_stream ::
  "target \<Rightarrow> 'w server option \<Rightarrow> 'w \<Rightarrow> bytes \<Rightarrow> nat \<Rightarrow> bytes \<Rightarrow> 's on_frame \<Rightarrow> 's \<Rightarrow> pull_stats result \<times> 'w \<times> 's" where
  "pull_stream tgt server w path max_frames buf on_frame s =
     (case server of
        None \<Rightarrow> (Inl (Err Hardware), w, s)
      | Some sv \<Rightarrow>
          (case sv_write sv w (pull_request path) of
             (Inl e, w1) \<Rightarrow> (Inl (Err Hardware), w1, s)
           | (Inr _, w1) \<Rightarrow>
               (case pull_loop tgt on_frame max_frames (Reader_new buf) pull_stats_default s (sv_reads sv) of
                  (x, s1) \<Rightarrow> (x, w1, s1))))"

section \<open>What a client receives\<close>

text \<open>A callback that keeps every frame.\<close>

definition keep_frame :: "(bytes \<times> u64 option) list on_frame" where
  "keep_frame s body ts = (Inr (), s @ [(body, ts)])"

definition frame_of :: "target \<Rightarrow> bytes \<times> u64 \<Rightarrow> bytes \<times> u64 option" where
  "frame_of tgt = (\<lambda>(body, ts). (body, if unat ts < usize_mod tgt then Some ts else None))"

definition frames_bytes :: "(bytes \<times> u64) list \<Rightarrow> nat" where
  "frames_bytes ps = sum_list (map (length \<circ> fst) ps)"

lemma pull_parts_on:
  assumes "reader_on tgt r b ps" "boundary_ok b" "pl_frames st < max_frames"
  shows "\<exists>n r' st'. pull_parts tgt keep_frame max_frames r st s =
      (Inr (), r', st', s @ map (frame_of tgt) (take n ps)) \<and> n \<le> length ps \<and>
    pl_frames st' = pl_frames st + n \<and> pl_bytes st' = pl_bytes st + frames_bytes (take n ps) \<and>
    reader_on tgt r' b (drop n ps) \<and> length (rd_buf r') = length (rd_buf r) \<and>
    rd_len r + head_left (rd_state r') b =
      head_left (rd_state r) b + sum_list (map (\<lambda>(body, ts). length (part_bytes b body ts)) (take n ps)) + rd_len r' \<and>
    pl_frames st + n \<le> max_frames \<and>
    head_left (rd_state r') b \<le> head_left (rd_state r) b \<and> (0 < n \<longrightarrow> head_left (rd_state r') b = 0) \<and>
    (pl_frames st + n = max_frames \<or> rd_len r' < next_item (rd_state r') b (drop n ps))"
  using assms
proof (induction "max_frames - pl_frames st" arbitrary: r ps st s rule: less_induct)
  case less
  note un = pull_parts.simps [of tgt keep_frame max_frames r st s]
  from less.prems(1,2) show ?case
  proof (cases rule: Reader_next_part_on)
    case (wait r')
    then show ?thesis using less.prems(3) un
      by (intro exI [of _ 0] exI [of _ r'] exI [of _ st]) (simp add: frames_bytes_def)
  next
    case (part body ts ps' p r1 r2)
    define st1 where "st1 = pull_count p st"
    let ?s1 = "s @ [frame_of tgt (body, ts)]"
    have st1: "pl_frames st1 = pl_frames st + 1" "pl_bytes st1 = pl_bytes st + length body"
      using part(4) by (simp_all add: st1_def pull_count_def)
    have k: "keep_frame s body (pi_timestamp p) = (Inr (), ?s1)"
      using part(5) by (simp add: keep_frame_def frame_of_def)
    have step: "pull_parts tgt keep_frame max_frames r st s =
        (if pl_frames st1 \<ge> max_frames then (Inr (), r2, st1, ?s1) else pull_parts tgt keep_frame max_frames r2 st1 ?s1)"
      unfolding un part(2,3,6) prod.case sum.case option.case k st1_def ..
    show ?thesis
    proof (cases "pl_frames st1 \<ge> max_frames")
      case True
      then show ?thesis using step st1 part less.prems(3)
        by (intro exI [of _ 1] exI [of _ r2] exI [of _ st1]) (simp add: frames_bytes_def head_left_def)
    next
      case False
      then have "max_frames - pl_frames st1 < max_frames - pl_frames st" "pl_frames st1 < max_frames" using st1 by simp_all
      from less.hyps [OF this(1) part(7) less.prems(2) this(2), of ?s1] obtain n r' st' where
        ih: "pull_parts tgt keep_frame max_frames r2 st1 ?s1 = (Inr (), r', st', ?s1 @ map (frame_of tgt) (take n ps'))"
          "n \<le> length ps'" "pl_frames st' = pl_frames st1 + n" "pl_bytes st' = pl_bytes st1 + frames_bytes (take n ps')"
          "reader_on tgt r' b (drop n ps')" "length (rd_buf r') = length (rd_buf r2)"
          "rd_len r2 + head_left (rd_state r') b = head_left (rd_state r2) b +
             sum_list (map (\<lambda>(body, ts). length (part_bytes b body ts)) (take n ps')) + rd_len r'"
          "pl_frames st1 + n \<le> max_frames" "head_left (rd_state r') b \<le> head_left (rd_state r2) b"
          "pl_frames st1 + n = max_frames \<or> rd_len r' < next_item (rd_state r') b (drop n ps')" by blast
      then show ?thesis using step False st1 part
        by (intro exI [of _ "Suc n"] exI [of _ r'] exI [of _ st']) (simp add: frames_bytes_def head_left_def)
    qed
  qed
qed

definition parts_length :: "bytes \<Rightarrow> (bytes \<times> u64) list \<Rightarrow> nat" where
  "parts_length b ps = sum_list (map (\<lambda>(body, ts). length (part_bytes b body ts)) ps)"

lemma parts_length_simps [simp]:
  "parts_length b [] = 0" "parts_length b (p # ps) = length (part_bytes b (fst p) (snd p)) + parts_length b ps"
  "parts_length b (ps @ qs) = parts_length b ps + parts_length b qs"
  by (simp_all add: parts_length_def split: prod.split)

lemma length_parts: "length (concat (map (\<lambda>(body, ts). part_bytes b body ts) ps)) = parts_length b ps"
  by (induction ps) (auto simp: parts_length_def)

lemma length_stream_from: "length (stream_from st b ps) = head_left st b + parts_length b ps"
  by (simp add: stream_from_def head_left_def length_parts)

lemma stream_from_split:
  assumes "head_left st' b \<le> head_left st b" "0 < n \<longrightarrow> head_left st' b = 0" "n \<le> length ps"
  shows "drop (head_left st b - head_left st' b + parts_length b (take n ps)) (stream_from st b ps) =
    stream_from st' b (drop n ps)"
proof -
  let ?c = "\<lambda>ps. concat (map (\<lambda>(body, ts). part_bytes b body ts) ps)"
  have c: "?c ps = ?c (take n ps) @ ?c (drop n ps)"
    by (metis append_take_drop_id concat_append map_append)
  have d: "drop (parts_length b (take n ps)) (?c ps) = ?c (drop n ps)"
    unfolding c by (simp add: length_parts)
  have pos: "0 < length (response_head b)" using response_head_start(2) [of b] by linarith
  show ?thesis
  proof (cases "head_left st' b = 0")
    case True
    then have s': "stream_from st' b (drop n ps) = ?c (drop n ps)"
      using pos by (auto simp: stream_from_def head_left_def split: if_splits)
    have "drop (head_left st b + k) (stream_from st b ps) = drop k (?c ps)" for k
      by (simp add: stream_from_def head_left_def)
    then show ?thesis using True d s' by simp
  next
    case False
    then have "n = 0" "head_left st b = head_left st' b" "head_left st b \<noteq> 0"
      using assms by (auto simp: head_left_def split: if_splits)
    then show ?thesis using False by (auto simp: stream_from_def head_left_def split: if_splits)
  qed
qed

lemma next_item_nothing_left:
  assumes "head_left st b + parts_length b ps + k < next_item st b (ps @ [q])"
  shows "ps = []"
proof (rule ccontr)
  assume "ps \<noteq> []"
  then obtain p ps' where "ps = p # ps'" by (cases ps) auto
  then show False using assms by (cases p) (auto simp: next_item_def head_left_def split: if_splits)
qed

lemma Reader_push_on:
  assumes "reader_on tgt r b ps" "rd_len r + length c \<le> length (rd_buf r)"
    and "c = take (length c) (drop (rd_len r) (stream_from (rd_state r) b ps))"
    and "rd_len r + length c \<le> length (stream_from (rd_state r) b ps)"
  shows "\<exists>r'. Reader_push c r = (Inr (), r') \<and> reader_on tgt r' b ps \<and> rd_state r' = rd_state r \<and>
    rd_len r' = rd_len r + length c \<and> length (rd_buf r') = length (rd_buf r) \<and> rd_parts r' = rd_parts r"
proof -
  let ?n = "rd_len r" and ?s = "stream_from (rd_state r) b ps"
  let ?buf = "take ?n (rd_buf r) @ c @ drop (?n + length c) (rd_buf r)"
  have "copy_range (rd_buf r) ?n (?n + length c) c = Inr ?buf" using assms(2) by (intro copy_range_ok) simp_all
  then have p: "Reader_push c r = (Inr (), r\<lparr>rd_buf := ?buf, rd_len := ?n + length c\<rparr>)"
    using assms(2) unfolding Reader_push_def Let_def by simp
  have "take ?n (rd_buf r) @ c = take (?n + length c) ?s"
    using assms(1,3) by (metis reader_on_def reader_content_def take_add)
  moreover have "take (?n + length c) ?buf = take ?n (rd_buf r) @ c" using assms(2) by simp
  ultimately show ?thesis using assms p
    by (auto simp: reader_on_def reader_ok_def reader_knows_def reader_content_def)
qed

definition chunk_room :: "nat \<Rightarrow> bytes \<Rightarrow> (bytes \<times> u64) list \<Rightarrow> bool" where
  "chunk_room n b ps \<longleftrightarrow> length (response_head b) + 4096 \<le> n \<and>
     (\<forall>(body, ts) \<in> set ps. length (part_bytes b body ts) + 4096 \<le> n)"

lemma next_item_room: "chunk_room n b ps \<Longrightarrow> ps \<noteq> [] \<Longrightarrow> next_item st b ps + 4096 \<le> n"
  by (cases ps) (auto simp: chunk_room_def next_item_def)

lemma take_prefix_split:
  assumes "a @ b = take (length a + length b) x"
  shows "a = take (length a) x" "b = take (length b) (drop (length a) x)"
proof -
  have "take (length a) (a @ b) = take (length a) (take (length a + length b) x)" by (rule arg_cong [OF assms])
  then show "a = take (length a) x" by (simp add: min_def)
  have "drop (length a) (a @ b) = drop (length a) (take (length a + length b) x)" by (rule arg_cong [OF assms])
  then show "b = take (length b) (drop (length a) x)" by (simp add: drop_take)
qed

lemma pull_loop_on:
  assumes "reader_on tgt r b (ps @ [q])" "boundary_ok b"
    and "max_frames \<le> pl_frames st \<or> rd_len r < next_item (rd_state r) b (ps @ [q])"
    and "\<forall>c \<in> set cs. c \<noteq> [] \<and> length c \<le> 4096" "chunk_room (length (rd_buf r)) b (ps @ [q])"
    and "concat cs = take (length (concat cs)) (drop (rd_len r) (stream_from (rd_state r) b (ps @ [q])))"
    and "rd_len r + length (concat cs) = head_left (rd_state r) b + parts_length b ps + k"
    and "k < length (part_bytes b (fst q) (snd q))"
  shows "\<exists>st'. pull_loop tgt keep_frame max_frames r st s (map Some cs) =
      (Inr st', s @ map (frame_of tgt) (take (max_frames - pl_frames st) ps)) \<and>
    pl_frames st' = pl_frames st + min (max_frames - pl_frames st) (length ps) \<and>
    pl_bytes st' = pl_bytes st + frames_bytes (take (max_frames - pl_frames st) ps)"
  using assms
proof (induction cs arbitrary: r ps st s)
  case Nil
  then have "max_frames \<le> pl_frames st \<or> ps = []" using next_item_nothing_left [of "rd_state r" b ps k q] by auto
  then show ?case by (auto simp: frames_bytes_def)
next
  case (Cons c cs)
  let ?S = "stream_from (rd_state r) b (ps @ [q])"
  show ?case
  proof (cases "pl_frames st < max_frames")
    case False
    then show ?thesis by (simp add: frames_bytes_def)
  next
    case True
    have "rd_len r < next_item (rd_state r) b (ps @ [q])" using Cons.prems(3) True by linarith
    moreover have "length c \<le> 4096" using Cons.prems(4) by simp
    moreover have "next_item (rd_state r) b (ps @ [q]) + 4096 \<le> length (rd_buf r)"
      by (rule next_item_room [OF Cons.prems(5)]) simp
    ultimately have rl: "rd_len r + length c \<le> length (rd_buf r)" by linarith
    have F: "c @ concat cs = take (length c + length (concat cs)) (drop (rd_len r) ?S)" using Cons.prems(6) by simp
    from take_prefix_split [OF this] have c: "c = take (length c) (drop (rd_len r) ?S)"
      and cs: "concat cs = take (length (concat cs)) (drop (rd_len r + length c) ?S)"
      by (simp_all only: drop_drop add.commute)
    have ls: "rd_len r + length c \<le> length ?S"
      using Cons.prems(7,8) by (simp add: length_stream_from)
    from Reader_push_on [OF Cons.prems(1) rl c ls] obtain r1 where
      r1: "Reader_push c r = (Inr (), r1)" "reader_on tgt r1 b (ps @ [q])" "rd_state r1 = rd_state r"
        "rd_len r1 = rd_len r + length c" "length (rd_buf r1) = length (rd_buf r)" by blast
    from pull_parts_on [OF r1(2) Cons.prems(2) True, of s] obtain n r2 st2 where
      pp: "pull_parts tgt keep_frame max_frames r1 st s = (Inr (), r2, st2, s @ map (frame_of tgt) (take n (ps @ [q])))"
        "n \<le> length (ps @ [q])" "pl_frames st2 = pl_frames st + n" "pl_bytes st2 = pl_bytes st + frames_bytes (take n (ps @ [q]))"
        "reader_on tgt r2 b (drop n (ps @ [q]))" "length (rd_buf r2) = length (rd_buf r1)"
        "rd_len r1 + head_left (rd_state r2) b = head_left (rd_state r1) b + parts_length b (take n (ps @ [q])) + rd_len r2"
        "pl_frames st + n \<le> max_frames" "head_left (rd_state r2) b \<le> head_left (rd_state r1) b"
        "0 < n \<longrightarrow> head_left (rd_state r2) b = 0"
        "pl_frames st + n = max_frames \<or> rd_len r2 < next_item (rd_state r2) b (drop n (ps @ [q]))"
      unfolding parts_length_def by blast
    have n: "n \<le> length ps"
    proof (rule ccontr)
      assume "\<not> n \<le> length ps"
      then have "take n (ps @ [q]) = ps @ [q]" "0 < n" using pp(2) by auto
      then have "rd_len r1 = head_left (rd_state r) b + parts_length b ps + length (part_bytes b (fst q) (snd q)) + rd_len r2"
        using pp(7,10) r1(3) by simp
      then show False using Cons.prems(7,8) r1(4) by simp
    qed
    then have dt: "drop n (ps @ [q]) = drop n ps @ [q]" "take n (ps @ [q]) = take n ps" by simp_all
    have sp: "stream_from (rd_state r2) b (drop n ps @ [q]) =
        drop (head_left (rd_state r1) b - head_left (rd_state r2) b + parts_length b (take n ps)) ?S"
      using stream_from_split [OF pp(9,10), of "ps @ [q]"] n dt r1(3) by simp
    have rl2: "rd_len r1 = head_left (rd_state r1) b - head_left (rd_state r2) b + parts_length b (take n ps) + rd_len r2"
      using pp(7,9) dt by simp
    have cs2: "concat cs = take (length (concat cs)) (drop (rd_len r2) (stream_from (rd_state r2) b (drop n ps @ [q])))"
      unfolding sp drop_drop using cs rl2 r1(4) by (simp add: add.commute)
    have pl: "parts_length b ps = parts_length b (take n ps) + parts_length b (drop n ps)"
      by (metis append_take_drop_id parts_length_simps(3))
    have k2: "rd_len r2 + length (concat cs) = head_left (rd_state r2) b + parts_length b (drop n ps) + k"
      using Cons.prems(7) r1(3,4) pp(7) pl dt by simp
    have room2: "chunk_room (length (rd_buf r2)) b (drop n ps @ [q])"
      using Cons.prems(5) pp(6) r1(5) by (auto simp: chunk_room_def dest: in_set_dropD)
    have d3: "max_frames \<le> pl_frames st2 \<or> rd_len r2 < next_item (rd_state r2) b (drop n ps @ [q])"
      using pp(3,11) dt by auto
    have all: "\<forall>c \<in> set cs. c \<noteq> [] \<and> length c \<le> 4096" using Cons.prems(4) by simp
    from Cons.IH [OF pp(5) [unfolded dt] Cons.prems(2) d3 all room2 cs2 k2 Cons.prems(8), of "s @ map (frame_of tgt) (take n ps)"]
    obtain st' where ih: "pull_loop tgt keep_frame max_frames r2 st2 (s @ map (frame_of tgt) (take n ps)) (map Some cs) =
        (Inr st', (s @ map (frame_of tgt) (take n ps)) @ map (frame_of tgt) (take (max_frames - pl_frames st2) (drop n ps)))"
      "pl_frames st' = pl_frames st2 + min (max_frames - pl_frames st2) (length (drop n ps))"
      "pl_bytes st' = pl_bytes st2 + frames_bytes (take (max_frames - pl_frames st2) (drop n ps))" by blast
    have nd: "\<not> Reader_is_done r2" using pp(5) by (simp add: reader_on_def Reader_is_done_def)
    have m: "max_frames - pl_frames st = n + (max_frames - pl_frames st2)" using pp(3,8) by simp
    have tk: "take (max_frames - pl_frames st) ps = take n ps @ take (max_frames - pl_frames st2) (drop n ps)"
      unfolding m take_add ..
    have "pull_loop tgt keep_frame max_frames r st s (map Some (c # cs)) =
        pull_loop tgt keep_frame max_frames r2 st2 (s @ map (frame_of tgt) (take n ps)) (map Some cs)"
      using True Cons.prems(4) r1(1) pp(1) nd dt by simp
    moreover have "min (max_frames - pl_frames st) (length ps) = n + min (max_frames - pl_frames st2) (length (drop n ps))"
      using n m by simp
    ultimately show ?thesis using ih pp(3,4) dt(2) unfolding tk
      by (intro exI [of _ st']) (simp add: frames_bytes_def)
  qed
qed

section \<open>A stream, end to end\<close>

text \<open>The frames a server pushes after the head, up to the first error.\<close>

fun push_frames :: "'s writer \<Rightarrow> media_packet list \<Rightarrow> ('s multipart, unit) op" where
  "push_frames wr [] m = (Inr (), m)"
| "push_frames wr (p # ps) m =
     (case Multipart_push wr p m of (Inl e, m1) \<Rightarrow> (Inl e, m1) | (Inr _, m1) \<Rightarrow> push_frames wr ps m1)"

definition jpeg_frame :: "media_packet \<Rightarrow> bool" where
  "jpeg_frame p \<longleftrightarrow> mp_codec p = Jpeg \<and> mp_data p \<noteq> [] \<and> length (mp_data p) < 2 ^ 64"

definition packet_part :: "media_packet \<Rightarrow> bytes \<times> u64" where
  "packet_part p = (mp_data p, mp_timestamp p)"

lemma Multipart_push_Vec:
  assumes "jpeg_frame p"
  shows "Multipart_push Vec_write p m =
    (Inr (), m\<lparr>mt_sink := mt_sink m @ part_bytes (mt_boundary m) (mp_data p) (mp_timestamp p), mt_frames := mt_frames m + 1\<rparr>)"
proof -
  from assms have "mp_codec p = Jpeg" "mp_data p \<noteq> []" "length (mp_data p) < 2 ^ 64" by (simp_all add: jpeg_frame_def)
  from Multipart_push_writes [OF this, of m Vec_write] show ?thesis by auto
qed

lemma push_frames_Vec:
  "(\<forall>p \<in> set ps. jpeg_frame p) \<Longrightarrow> push_frames Vec_write ps m =
    (Inr (), m\<lparr>mt_sink := mt_sink m @ concat (map (\<lambda>(body, ts). part_bytes (mt_boundary m) body ts) (map packet_part ps)),
       mt_frames := mt_frames m + length ps\<rparr>)"
proof (induction ps arbitrary: m)
  case (Cons p ps)
  then show ?case by (simp add: Multipart_push_Vec) (simp add: packet_part_def)
qed simp

lemma Reader_new_on:
  assumes "\<forall>(body, ts) \<in> set ps. length (part_bytes b body ts) \<le> length buf" "length buf < usize_mod tgt"
  shows "reader_on tgt (Reader_new buf) b ps"
  using assms by (simp add: reader_on_def Reader_new_def reader_ok_def reader_knows_def reader_content_def)

lemma pull_loop_stream:
  assumes "boundary_ok b" "chunk_room (length buf) b (ps @ [q])" "length buf < usize_mod tgt"
    and "\<forall>c \<in> set cs. c \<noteq> [] \<and> length c \<le> 4096"
    and "concat cs = stream_from Start b ps @ take k (part_bytes b (fst q) (snd q))"
    and "k < length (part_bytes b (fst q) (snd q))"
  shows "\<exists>st. pull_loop tgt keep_frame n (Reader_new buf) pull_stats_default s (map Some cs) =
      (Inr st, s @ map (frame_of tgt) (take n ps)) \<and>
    pl_frames st = min n (length ps) \<and> pl_bytes st = frames_bytes (take n ps)"
proof -
  let ?r = "Reader_new buf"
  have on: "reader_on tgt ?r b (ps @ [q])"
    using assms(2,3) by (intro Reader_new_on) (auto simp: chunk_room_def)
  have z: "rd_len ?r = 0" "rd_state ?r = Start" by (simp_all add: Reader_new_def)
  have "0 < length (response_head b)" using response_head_start(2) [of b] by linarith
  then have w: "n \<le> pl_frames pull_stats_default \<or> rd_len ?r < next_item (rd_state ?r) b (ps @ [q])"
    unfolding z by (simp add: next_item_def)
  have room: "chunk_room (length (rd_buf ?r)) b (ps @ [q])" using assms(2) by (simp add: Reader_new_def)
  have s: "stream_from Start b (ps @ [q]) = stream_from Start b ps @ part_bytes b (fst q) (snd q)"
    by (simp add: stream_from_def split: prod.split)
  have l: "length (concat cs) = length (stream_from Start b ps) + k" using assms(5,6) by simp
  have c: "concat cs = take (length (concat cs)) (drop (rd_len ?r) (stream_from (rd_state ?r) b (ps @ [q])))"
    unfolding z s l drop_0 by (simp add: assms(5))
  have k: "rd_len ?r + length (concat cs) = head_left (rd_state ?r) b + parts_length b ps + k"
    unfolding z l length_stream_from by simp
  show ?thesis
    using pull_loop_on [OF on assms(1) w assms(4) room c k assms(6), of s] by (simp add: pull_stats_default_def)
qed

text \<open>C2: What the multipart writer writes, the client delivers, however the connection cuts the
  stream into reads and wherever it is closed: the head and the frames a server pushed, read in
  pieces of at most 4096 bytes and ended inside a further part, reach the callback in order and
  byte for byte, at most \<open>max_frames\<close> of them, with the timestamps a \<open>usize\<close> of the client can
  hold; the statistics count them. The only demand on the buffer is room for one part and one
  read.\<close>

theorem pull_stream_delivers:
  assumes frames: "\<forall>p \<in> set pkts. jpeg_frame p"
    and server: "Multipart_write_response_head Vec_write (Multipart_new []) = (Inr (), m0)"
      "push_frames Vec_write pkts m0 = (Inr (), m)"
    and reads: "sv_reads sv = map Some cs" "\<forall>c \<in> set cs. c \<noteq> [] \<and> length c \<le> 4096"
      "concat cs = mt_sink m @ take k (part_bytes DEFAULT_BOUNDARY (fst q) (snd q))"
      "k < length (part_bytes DEFAULT_BOUNDARY (fst q) (snd q))"
    and accepts: "sv_write sv w (pull_request path) = (Inr (), w')"
    and room: "chunk_room (length buf) DEFAULT_BOUNDARY (map packet_part pkts @ [q])" "length buf < usize_mod tgt"
  shows "\<exists>st. pull_stream tgt (Some sv) w path max_frames buf keep_frame [] =
      (Inr st, w', map (frame_of tgt \<circ> packet_part) (take max_frames pkts)) \<and>
    pl_frames st = min max_frames (length pkts) \<and>
    pl_bytes st = sum_list (map (length \<circ> mp_data) (take max_frames pkts))"
proof -
  let ?ps = "map packet_part pkts"
  have m0: "m0 = \<lparr>mt_sink = response_head DEFAULT_BOUNDARY, mt_boundary = DEFAULT_BOUNDARY, mt_frames = 0\<rparr>"
    using server(1) by (simp add: Multipart_head_Vec Multipart_new_def Multipart_with_boundary_def)
  have "mt_sink m = stream_from Start DEFAULT_BOUNDARY ?ps"
    using server(2) push_frames_Vec [OF frames, of m0] by (auto simp: m0 stream_from_def)
  then have c: "concat cs = stream_from Start DEFAULT_BOUNDARY ?ps @ take k (part_bytes DEFAULT_BOUNDARY (fst q) (snd q))"
    using reads(3) by simp
  from pull_loop_stream [OF default_boundary_ok room reads(2) c reads(4), of max_frames "[]"] show ?thesis
    by (auto simp: pull_stream_def accepts reads(1) take_map frames_bytes_def packet_part_def comp_def)
qed

theorem pull_stream_delivers_witness:
  "\<exists>sv :: bytes server. \<exists>st w' body.
     sv_reads sv = map Some [response_head DEFAULT_BOUNDARY, part_bytes DEFAULT_BOUNDARY [1, 2, 3] 7,
       take 20 (part_bytes DEFAULT_BOUNDARY [9] 8)] \<and>
     pull_stream \<lparr>usize_mod = 2 ^ 32, overflow_checks = True\<rparr> (Some sv) [] (ascii ''/stream'') 5 (replicate 5000 0) keep_frame [] =
       (Inr st, w', [([1, 2, 3], Some 7)]) \<and> pl_frames st = 1 \<and> pl_bytes st = 3"
proof -
  let ?pkt = "\<lparr>mp_codec = Jpeg, mp_key = True, mp_timestamp = 7, mp_data = [1, 2, 3]\<rparr>"
  let ?b = DEFAULT_BOUNDARY
  let ?cs = "[response_head ?b, part_bytes ?b [1, 2, 3] 7, take 20 (part_bytes ?b [9] 8)]"
  let ?sv = "\<lparr>sv_write = Vec_write, sv_reads = map Some ?cs\<rparr>"
  let ?tgt = "\<lparr>usize_mod = 2 ^ 32, overflow_checks = True\<rparr>"
  define m0 where "m0 = snd (Multipart_write_response_head Vec_write (Multipart_new []))"
  define m where "m = snd (push_frames Vec_write [?pkt] m0)"
  have f: "\<forall>p \<in> set [?pkt]. jpeg_frame p" by (simp add: jpeg_frame_def)
  have m0: "Multipart_write_response_head Vec_write (Multipart_new []) = (Inr (), m0)"
    by (simp add: m0_def Multipart_head_Vec)
  have m: "push_frames Vec_write [?pkt] m0 = (Inr (), m)" by (simp only: m_def push_frames_Vec [OF f] snd_conv)
  have mm: "mt_sink m = response_head ?b @ part_bytes ?b [1, 2, 3] 7"
    by (simp only: m_def push_frames_Vec [OF f]) (simp add: packet_part_def m0_def Multipart_head_Vec Multipart_new_def Multipart_with_boundary_def)
  have l: "length (response_head ?b) = 186" "length (part_bytes ?b [1, 2, 3] 7) = 83"
    "length (part_bytes ?b [9] 8) = 81" by code_simp+
  have ne: "response_head ?b \<noteq> []" "part_bytes ?b [1, 2, 3] 7 \<noteq> []" "part_bytes ?b [9] 8 \<noteq> []" using l by auto
  have cs: "\<forall>c \<in> set ?cs. c \<noteq> [] \<and> length c \<le> 4096" using l ne by simp
  have cc: "concat ?cs = mt_sink m @ take 20 (part_bytes ?b (fst ([9], 8)) (snd ([9], 8)))" by (simp add: mm)
  have k: "20 < length (part_bytes ?b (fst ([9], 8)) (snd ([9], 8)))" using l by simp
  have w: "sv_write ?sv [] (pull_request (ascii ''/stream'')) = (Inr (), pull_request (ascii ''/stream''))"
    by (simp add: Vec_write_def)
  have room: "chunk_room (length (replicate 5000 (0 :: u8))) ?b (map packet_part [?pkt] @ [([9], 8)])"
    "length (replicate 5000 (0 :: u8)) < usize_mod ?tgt" using l by (simp_all add: chunk_room_def packet_part_def)
  have u: "unat (7 :: u64) = 7" by simp
  from pull_stream_delivers [OF f m0 m _ cs cc k w room, where max_frames = 5] show ?thesis
    by (intro exI [of _ ?sv]) (auto simp: frame_of_def packet_part_def u)
qed

text \<open>Room for one whole part is not enough, as the documentation of \<open>pull_stream\<close> has it: a
  first read longer than the buffer, however many complete parts it holds, ends the stream with
  \<open>BufferTooSmall\<close> before any part is delivered.\<close>

lemma pull_stream_read_exceeds_buffer:
  assumes "sv_write sv w (pull_request path) = (Inr (), w')" "sv_reads sv = Some c # xs"
    and "length buf < length c" "0 < max_frames"
  shows "pull_stream tgt (Some sv) w path max_frames buf on_frame s =
    (Inl (Err (BufferTooSmall (length c))), w', s)"
proof -
  have "c \<noteq> []" using assms(3) by auto
  then show ?thesis
    using assms by (simp add: pull_stream_def pull_stats_default_def Reader_push_def Reader_new_def Let_def)
qed

lemma pull_stream_read_exceeds_buffer_witness:
  "let part = part_bytes DEFAULT_BOUNDARY [1, 2, 3] 7 in
   length (part @ part) \<le> 4096 \<and>
   pull_stream \<lparr>usize_mod = 2 ^ 32, overflow_checks = True\<rparr> (Some \<lparr>sv_write = Vec_write, sv_reads = [Some (part @ part)]\<rparr>)
     [] (ascii ''/stream'') 5 (replicate (length part) 0) keep_frame [] =
   (Inl (Err (BufferTooSmall (length (part @ part)))), pull_request (ascii ''/stream''), [])"
proof -
  let ?part = "part_bytes DEFAULT_BOUNDARY [1, 2, 3] 7"
  let ?sv = "\<lparr>sv_write = Vec_write, sv_reads = [Some (?part @ ?part)]\<rparr>"
  have l: "length ?part = 83" by code_simp
  have "sv_write ?sv [] (pull_request (ascii ''/stream'')) = (Inr (), pull_request (ascii ''/stream''))"
    by (simp add: Vec_write_def)
  from pull_stream_read_exceeds_buffer [OF this, where c = "?part @ ?part" and xs = "[]" and
      buf = "replicate (length ?part) 0" and max_frames = 5 and on_frame = keep_frame and s = "[]"]
  show ?thesis by (simp add: l Let_def)
qed

end
