(* ===== verification/Http.thy ===== *)
theory Http
  imports MjpegHttp
begin

text \<open>
  The camera page's HTTP without its socket: \<open>http.rs\<close>. Request heads are bytes, header text
  its UTF-8 bytes; the responses are written piece by piece to a sink. The searches that were
  tuned for the chip are shown equal to the plain ones.
\<close>

section \<open>Paths and requests\<close>

definition STREAM_PATH :: bytes where
  "STREAM_PATH = ascii ''/stream''"

definition MAX_REQUEST_BYTES :: nat where
  "MAX_REQUEST_BYTES = 2048"

definition INDEX_HTML :: bytes where
  "INDEX_HTML =
     ascii ''<!doctype html><html><head><meta charset='' @ [34] @ ascii ''utf-8'' @ [34] @ ascii ''><title>janus</title>'' @
     ascii ''<style>html,body{margin:0;background:#000;height:100%}img{display:block;max-width:100vw;max-height:100vh;margin:auto}</style>'' @
     ascii ''</head><body><img src='' @ [34] @ ascii ''/stream'' @ [34] @ ascii '' alt='' @ [34] @ ascii ''stream'' @ [34] @ ascii ''></body></html>''"

datatype StatusQuery = Plain | Nonce bytes | InvalidQuery

datatype path = Index | Stream | Update | Setup | Status StatusQuery | OtherPath

datatype request =
    Get path bool
  | Put path bool "nat option"
  | Post path bool "nat option" "bytes option"
  | OtherMethod

definition nibble :: "u8 \<Rightarrow> u8 option" where
  "nibble c =
     (if 48 \<le> c \<and> c \<le> 57 then Some (c - 48)
      else if 97 \<le> c \<and> c \<le> 102 then Some (c - 97 + 10)
      else None)"

text \<open>The loop over the pairs of digits; the length is even when it is called.\<close>

fun nonce_bytes :: "bytes \<Rightarrow> bytes option" where
  "nonce_bytes (h # l # rest) =
     (case (nibble h, nibble l) of
        (Some x, Some y) \<Rightarrow> map_option (\<lambda>out. (push_bit 4 x OR y) # out) (nonce_bytes rest)
      | _ \<Rightarrow> None)"
| "nonce_bytes _ = Some []"

definition status_query :: "bytes option \<Rightarrow> StatusQuery" where
  "status_query query =
     (case query of
        None \<Rightarrow> Plain
      | Some q \<Rightarrow>
          if q = [] then Plain
          else
            (case strip_prefix (ascii ''nonce='') q of
               None \<Rightarrow> InvalidQuery
             | Some hex \<Rightarrow>
                 if length hex \<noteq> 64 then InvalidQuery
                 else (case nonce_bytes hex of None \<Rightarrow> InvalidQuery | Some out \<Rightarrow> Nonce out)))"

section \<open>Finding the blank line\<close>

text \<open>\<open>while let Some(w) = head.get(k..k + 8)\<close>: eight bytes at a time while none is a newline.\<close>

definition min_xor :: "bytes \<Rightarrow> u8" where
  "min_xor w =
     min (min (min (w ! 0 XOR 10) (w ! 1 XOR 10)) (min (w ! 2 XOR 10) (w ! 3 XOR 10)))
       (min (min (w ! 4 XOR 10) (w ! 5 XOR 10)) (min (w ! 6 XOR 10) (w ! 7 XOR 10)))"

function newline_skip :: "bytes \<Rightarrow> nat \<Rightarrow> nat" where
  "newline_skip head k =
     (case get_range head k (k + 8) of
        None \<Rightarrow> k
      | Some w \<Rightarrow> if min_xor w = 0 then k else newline_skip head (k + 8))"
  by pat_completeness auto
termination
  by (relation "measure (\<lambda>(head, k). length head - k)") (auto simp: get_range_eq_Some_iff)

declare newline_skip.simps [simp del]

definition next_newline_portable :: "bytes \<Rightarrow> nat \<Rightarrow> nat option result" where
  "next_newline_portable head k =
     (let k = newline_skip head k in
      bind_r (subslice head k (length head)) (\<lambda>rest.
      Inr (map_option (\<lambda>i. k + i) (position (\<lambda>b. b = 10) rest))))"

text \<open>\<open>at\<close> is at least \<open>k\<close>, and \<open>k\<close> at least 3, so the three positions before it exist.\<close>

lemma next_newline_portable_bounds:
  assumes "next_newline_portable head k = Inr (Some at)"
  shows "k \<le> at \<and> at < length head"
proof -
  have "k \<le> newline_skip head k"
  proof (induction head k rule: newline_skip.induct)
    case (1 head k)
    note un = newline_skip.simps [of head k]
    show ?case
    proof (cases "get_range head k (k + 8)")
      case (Some w)
      show ?thesis
      proof (cases "min_xor w = 0")
        case False
        from 1 [OF Some False] show ?thesis using Some False un by simp
      qed (simp add: un Some)
    qed (simp add: un)
  qed
  then show ?thesis using assms
    by (auto simp: next_newline_portable_def Let_def bind_r_eq_Inr_iff subslice_def position_eq_Some_iff
        split: if_splits)
qed

function blank_line_loop :: "bytes \<Rightarrow> nat \<Rightarrow> nat option result" where
  "blank_line_loop head k =
     (if k < length head then
        (case next_newline_portable head k of
           Inl e \<Rightarrow> Inl e
         | Inr None \<Rightarrow> Inr None
         | Inr (Some at) \<Rightarrow>
             (case bind_r (idx head (at - 1)) (\<lambda>a. bind_r (idx head (at - 2)) (\<lambda>b. bind_r (idx head (at - 3)) (\<lambda>c.
                Inr (a = 13 \<and> b = 10 \<and> c = 13)))) of
                Inl e \<Rightarrow> Inl e
              | Inr hit \<Rightarrow> if hit then Inr (Some (at + 1)) else blank_line_loop head (at + 1)))
      else Inr None)"
  by pat_completeness auto
termination
  by (relation "measure (\<lambda>(head, k). length head - k)") (auto dest!: next_newline_portable_bounds)

declare blank_line_loop.simps [simp del]

definition blank_line_portable :: "bytes \<Rightarrow> nat \<Rightarrow> nat option result" where
  "blank_line_portable head from = blank_line_loop head (from + 3)"

text \<open>
  The searches of the vector unit. \<open>find_byte\<close> and \<open>find_pair\<close> of the other crate are
  parameters; a search that finds nothing returns a position past the end. The loop is bounded by
  the fuel, one per position.
\<close>

definition next_newline_pie :: "(bytes \<Rightarrow> nat \<Rightarrow> u8 \<Rightarrow> nat) \<Rightarrow> bytes \<Rightarrow> nat \<Rightarrow> nat option" where
  "next_newline_pie find_byte head k = (let i = find_byte head k 10 in if i < length head then Some i else None)"

fun blank_line_pie_loop :: "(bytes \<Rightarrow> nat \<Rightarrow> u8 \<Rightarrow> u8 \<Rightarrow> nat) \<Rightarrow> nat \<Rightarrow> bytes \<Rightarrow> nat \<Rightarrow> nat option result" where
  "blank_line_pie_loop find_pair 0 head j = Inr None"
| "blank_line_pie_loop find_pair (Suc fuel) head j =
     (let i = find_pair head j 10 13 in
      if i \<ge> length head then Inr None
      else
        bind_r (idx head (i - 1)) (\<lambda>a.
        if a = 13 \<and> get head (i + 2) = Some 10 then Inr (Some (i + 3))
        else blank_line_pie_loop find_pair fuel head (i + 1)))"

definition blank_line_pie :: "(bytes \<Rightarrow> nat \<Rightarrow> u8 \<Rightarrow> u8 \<Rightarrow> nat) \<Rightarrow> bytes \<Rightarrow> nat \<Rightarrow> nat option result" where
  "blank_line_pie find_pair head from = blank_line_pie_loop find_pair (length head + 1) head (from + 1)"

text \<open>The portable search is what a build without the vector unit calls.\<close>

definition head_complete :: "bytes \<Rightarrow> bool result" where
  "head_complete head = bind_r (blank_line_portable head 0) (\<lambda>p. Inr (p \<noteq> None))"

definition head_complete_from :: "bytes \<Rightarrow> nat \<Rightarrow> bool result" where
  "head_complete_from head seen = bind_r (blank_line_portable head (seen - 3)) (\<lambda>p. Inr (p \<noteq> None))"

definition body_offset :: "bytes \<Rightarrow> nat option result" where
  "body_offset head = blank_line_portable head 0"

section \<open>Headers\<close>

definition header_candidate :: "u8 \<Rightarrow> bytes \<Rightarrow> bool" where
  "header_candidate first l =
     (case l of
        [] \<Rightarrow> False
      | b # _ \<Rightarrow> to_ascii_lowercase b = first \<or> (9 \<le> b \<and> b \<le> 13) \<or> b = 32 \<or> b = 0xC2 \<or> b = 0xE1 \<or> b = 0xE2 \<or> b = 0xE3)"

definition header_in :: "bytes list \<Rightarrow> bytes \<Rightarrow> bytes option" where
  "header_in ls name =
     map_option snd (find (\<lambda>(n, _). eq_ignore_ascii_case (trim n) name) (List.map_filter (split_once 58) ls))"

definition header :: "bytes \<Rightarrow> bytes \<Rightarrow> bytes option" where
  "header text name =
     (case name of
        [] \<Rightarrow> None
      | c # _ \<Rightarrow> header_in (filter (header_candidate (to_ascii_lowercase c)) (drop 1 (lines text))) name)"

text \<open>The lookup before it was filtered.\<close>

definition header_scan :: "bytes \<Rightarrow> bytes \<Rightarrow> bytes option" where
  "header_scan text name = header_in (drop 1 (lines text)) name"

section \<open>The request\<close>

definition is_ascii :: "bytes \<Rightarrow> bool" where
  "is_ascii l \<longleftrightarrow> (\<forall>c \<in> set l. c < 0x80)"

definition request_words :: "bytes \<Rightarrow> (bytes \<times> bytes) option" where
  "request_words line =
     (case (if is_ascii line then split_ascii_whitespace line else split_whitespace line) of
        method # target # _ \<Rightarrow> Some (method, target)
      | _ \<Rightarrow> None)"

definition target_path :: "bytes \<Rightarrow> path" where
  "target_path target =
     (let (p, query) = (case split_once 63 target of None \<Rightarrow> (target, None) | Some (p, q) \<Rightarrow> (p, Some q)) in
      if p = ascii ''/stream'' then Stream
      else if p = ascii ''/'' \<or> p = ascii ''/index.html'' then Index
      else if p = ascii ''/update'' then Update
      else if p = ascii ''/setup'' then Setup
      else if p = ascii ''/v1/status'' then Status (status_query query)
      else OtherPath)"

definition content_length_of :: "bytes \<Rightarrow> nat option" where
  "content_length_of text = Option.bind (header text (ascii ''content-length'')) (\<lambda>v. parse_u64 (trim v))"

definition setup_session_of :: "bytes \<Rightarrow> bytes option" where
  "setup_session_of text =
     Option.bind (map_option trim (header text (ascii ''x-setup-session''))) (\<lambda>v. if length v = 16 then Some v else None)"

definition parse_text :: "bytes \<Rightarrow> gate option \<Rightarrow> request option" where
  "parse_text text g =
     (if \<not> utf8_valid text then None
      else
        (case lines text of
           [] \<Rightarrow> None
         | line # _ \<Rightarrow>
             (case request_words line of
                None \<Rightarrow> None
              | Some (method, target) \<Rightarrow>
                  if method \<noteq> ascii ''GET'' \<and> method \<noteq> ascii ''PUT'' \<and> method \<noteq> ascii ''POST'' then Some OtherMethod
                  else
                    (let admitted = (case g of None \<Rightarrow> True
                           | Some gt \<Rightarrow> Gate_admits gt target (map_option trim (header text (ascii ''cookie''))));
                         path = target_path target in
                     if method = ascii ''PUT'' then Some (Put path admitted (content_length_of text))
                     else if method = ascii ''POST'' then
                       Some (Post path admitted (content_length_of text) (setup_session_of text))
                     else Some (Get path admitted)))))"

definition parse_request :: "bytes \<Rightarrow> gate option \<Rightarrow> request option result" where
  "parse_request head g =
     bind_r (body_offset head) (\<lambda>b.
     bind_r (subslice head 0 (case b of None \<Rightarrow> length head | Some n \<Rightarrow> n)) (\<lambda>text.
     Inr (parse_text text g)))"

section \<open>The responses\<close>

text \<open>\<open>fmt_u64\<close> into the scratch buffer, whose content does not matter (\<open>fmt_u64_decimal\<close>).\<close>

definition number :: "u64 \<Rightarrow> bytes result" where
  "number v = fmt_u64 v (replicate 20 0)"

lemma number_decimal [simp]: "number v = Inr (decimal (unat v))"
  unfolding number_def by (rule fmt_u64_decimal) simp

definition write_numbered :: "'s writer \<Rightarrow> u64 list \<Rightarrow> (bytes list \<Rightarrow> bytes list) \<Rightarrow> 's \<Rightarrow> unit result \<times> 's" where
  "write_numbered wr vs pieces s =
     (case foldr (\<lambda>v r. bind_r (number v) (\<lambda>n. bind_r r (\<lambda>ns. Inr (n # ns)))) vs (Inr []) of
        Inl e \<Rightarrow> (Inl e, s)
      | Inr ns \<Rightarrow> write_seq wr (pieces ns) s)"

definition write_json :: "'s writer \<Rightarrow> u16 \<Rightarrow> bytes \<Rightarrow> 's \<Rightarrow> unit result \<times> 's" where
  "write_json wr code body =
     (let reason =
        (if code = 200 then ascii ''OK'' else if code = 400 then ascii ''Bad Request''
         else if code = 404 then ascii ''Not Found'' else ascii ''Error'') in
      write_numbered wr [ucast code, of_nat (length body)] (\<lambda>ns.
        [ascii ''HTTP/1.1 '', ns ! 0, ascii '' '', reason,
         CRLF @ ascii ''Content-Type: application/json'' @ CRLF @ ascii ''Cache-Control: no-store'' @ CRLF @
           ascii ''Connection: close'' @ CRLF @ ascii ''Content-Length: '',
         ns ! 1, CRLF @ CRLF, body]))"

definition write_octets :: "'s writer \<Rightarrow> u16 \<Rightarrow> bytes \<Rightarrow> 's \<Rightarrow> unit result \<times> 's" where
  "write_octets wr code body =
     (let reason =
        (if code = 200 then ascii ''OK'' else if code = 400 then ascii ''Bad Request''
         else if code = 401 then ascii ''Unauthorized'' else if code = 403 then ascii ''Forbidden''
         else if code = 409 then ascii ''Conflict'' else ascii ''Error'') in
      write_numbered wr [ucast code, of_nat (length body)] (\<lambda>ns.
        [ascii ''HTTP/1.1 '', ns ! 0, ascii '' '', reason,
         CRLF @ ascii ''Content-Type: application/octet-stream'' @ CRLF @ ascii ''Cache-Control: no-store'' @ CRLF @
           ascii ''Connection: close'' @ CRLF @ ascii ''Content-Length: '',
         ns ! 1, CRLF @ CRLF, body]))"

definition write_plain :: "'s writer \<Rightarrow> u16 \<Rightarrow> bytes \<Rightarrow> bytes \<Rightarrow> 's \<Rightarrow> unit result \<times> 's" where
  "write_plain wr code reason body =
     write_numbered wr [ucast code, of_nat (length body)] (\<lambda>ns.
       [ascii ''HTTP/1.1 '', ns ! 0, ascii '' '', reason,
        CRLF @ ascii ''Content-Type: text/plain; charset=utf-8'' @ CRLF @ ascii ''Connection: close'' @ CRLF @
          ascii ''Content-Length: '',
        ns ! 1, CRLF @ CRLF, body])"

datatype status = BadRequest | Forbidden | NotFound | MethodNotAllowed | NoCamera

definition write_index :: "'s writer \<Rightarrow> bytes option \<Rightarrow> 's \<Rightarrow> unit result \<times> 's" where
  "write_index wr token =
     write_numbered wr [of_nat (length INDEX_HTML)] (\<lambda>ns.
       [ascii ''HTTP/1.1 200 OK'' @ CRLF @ ascii ''Content-Type: text/html; charset=utf-8'' @ CRLF @
          ascii ''Connection: close'' @ CRLF] @
       (case token of
          None \<Rightarrow> []
        | Some t \<Rightarrow> [ascii ''Set-Cookie: '', TOKEN_PARAM, ascii ''='', t,
            ascii ''; Path=/; SameSite=Strict; HttpOnly'' @ CRLF]) @
       [ascii ''Content-Length: '', ns ! 0, CRLF @ CRLF, INDEX_HTML])"

definition status_text :: "status \<Rightarrow> bytes \<times> bytes" where
  "status_text status =
     (case status of
        BadRequest \<Rightarrow> (ascii ''HTTP/1.1 400 Bad Request'' @ CRLF, [])
      | Forbidden \<Rightarrow> (ascii ''HTTP/1.1 403 Forbidden'' @ CRLF @ ascii ''Content-Type: text/plain'' @ CRLF,
          ascii ''403 Forbidden: this page needs its token, the URL printed at boot'' @ [10])
      | NotFound \<Rightarrow> (ascii ''HTTP/1.1 404 Not Found'' @ CRLF, [])
      | MethodNotAllowed \<Rightarrow> (ascii ''HTTP/1.1 405 Method Not Allowed'' @ CRLF @ ascii ''Allow: GET'' @ CRLF, [])
      | NoCamera \<Rightarrow> (ascii ''HTTP/1.1 503 Service Unavailable'' @ CRLF @ ascii ''Content-Type: text/plain'' @ CRLF,
          ascii ''503: this device has no camera to stream'' @ [10]))"

definition write_status :: "'s writer \<Rightarrow> status \<Rightarrow> 's \<Rightarrow> unit result \<times> 's" where
  "write_status wr status =
     (let (line, body) = status_text status in
      write_numbered wr [of_nat (length body)] (\<lambda>ns.
        [line, ascii ''Connection: close'' @ CRLF @ ascii ''Content-Length: '', ns ! 0, CRLF @ CRLF] @
        (if body = [] then [] else [body])))"

section \<open>The searches\<close>

lemma min_eq_0_iff: "min a b = 0 \<longleftrightarrow> a = 0 \<or> b = (0 :: u8)"
  by (auto simp: min_def)

lemma min_xor_eq_0_iff: "length w = 8 \<Longrightarrow> min_xor w = 0 \<longleftrightarrow> 10 \<in> set w"
proof -
  assume "length w = 8"
  then obtain a b c d e f g h where w: "w = [a, b, c, d, e, f, g, h]"
    by (auto simp: length_Suc_conv numeral_eq_Suc)
  have z: "x XOR y = 0 \<longleftrightarrow> x = y" for x y :: u8
    by (metis xor_self_eq xor.assoc xor.right_neutral xor.left_neutral)
  show ?thesis unfolding min_xor_def min_eq_0_iff w by (simp add: z eq_commute [of 10] disj_assoc)
qed

lemma position_shift:
  assumes "\<forall>x \<in> set (take n xs). \<not> P x" "n \<le> length xs"
  shows "position P xs = map_option (\<lambda>i. n + i) (position P (drop n xs))"
  using assms
proof (induction n arbitrary: xs)
  case (Suc n)
  then show ?case by (cases xs) (auto simp: option.map_comp comp_def)
next
  case 0
  then show ?case by (cases "position P xs") simp_all
qed

lemma next_newline_portable_eq:
  "k \<le> length head \<Longrightarrow>
   next_newline_portable head k = Inr (map_option (\<lambda>i. k + i) (position (\<lambda>b. b = 10) (drop k head)))"
proof (induction head k rule: newline_skip.induct)
  case (1 head k)
  note un = newline_skip.simps [of head k]
  show ?case
  proof (cases "k + 8 \<le> length head \<and> 10 \<notin> set (take 8 (drop k head))")
    case True
    let ?w = "take 8 (drop k head)"
    have "8 \<le> length head - k" using True by linarith
    then have "length ?w = 8" by simp
    from min_xor_eq_0_iff [OF this] True have w: "get_range head k (k + 8) = Some ?w" "min_xor ?w \<noteq> 0"
      by simp_all
    have "next_newline_portable head k = next_newline_portable head (k + 8)"
      using w by (simp add: next_newline_portable_def un)
    also have "\<dots> = Inr (map_option (\<lambda>i. k + 8 + i) (position (\<lambda>b. b = 10) (drop (k + 8) head)))"
      using True by (intro 1(1) [OF w]) simp
    also have "\<dots> = Inr (map_option (\<lambda>i. k + i) (position (\<lambda>b. b = 10) (drop k head)))"
    proof -
      have "\<forall>x \<in> set (take 8 (drop k head)). x \<noteq> 10" "8 \<le> length (drop k head)" using True by auto
      from position_shift [OF this] show ?thesis by (simp add: option.map_comp comp_def ac_simps)
    qed
    finally show ?thesis .
  next
    case False
    then have "newline_skip head k = k"
      using min_xor_eq_0_iff [of "take 8 (drop k head)"] by (auto simp: un get_range_def)
    then show ?thesis using 1(2) by (simp add: next_newline_portable_def)
  qed
qed

text \<open>A blank line ends at \<open>at\<close>, whose first byte is at or after \<open>from\<close>.\<close>

definition blank_before :: "bytes \<Rightarrow> nat \<Rightarrow> bool" where
  "blank_before head at \<longleftrightarrow> 3 \<le> at \<and> at < length head \<and> take 4 (drop (at - 3) head) = CRLF @ CRLF"

lemma blank_before_iff: "3 \<le> at \<Longrightarrow> blank_before head at \<longleftrightarrow> at < length head \<and>
   head ! at = 10 \<and> head ! (at - 1) = 13 \<and> head ! (at - 2) = 10 \<and> head ! (at - 3) = 13"
proof -
  assume "3 \<le> at"
  then obtain j where "at = j + 3" by (metis le_add_diff_inverse2)
  then show ?thesis unfolding blank_before_def blank_at by (auto simp: eval_nat_numeral)
qed

definition first_from :: "(nat \<Rightarrow> bool) \<Rightarrow> nat \<Rightarrow> nat option \<Rightarrow> bool" where
  "first_from P k x = (case x of None \<Rightarrow> (\<forall>j \<ge> k. \<not> P j) | Some n \<Rightarrow> k \<le> n \<and> P n \<and> (\<forall>j. k \<le> j \<longrightarrow> j < n \<longrightarrow> \<not> P j))"

lemma first_from_unique: "first_from P k x \<Longrightarrow> first_from P k y \<Longrightarrow> x = y"
  by (cases x; cases y) (auto simp: first_from_def, meson linorder_neqE_nat)

lemma first_from_skip: "first_from P n x \<Longrightarrow> k \<le> n \<Longrightarrow> (\<And>j. k \<le> j \<Longrightarrow> j < n \<Longrightarrow> \<not> P j) \<Longrightarrow> first_from P k x"
  by (auto simp: first_from_def split: option.splits) (metis not_le)+

lemma position_first_from:
  "first_from (\<lambda>j. j < length xs \<and> P (xs ! j)) k (map_option (\<lambda>i. k + i) (position P (drop k xs)))"
proof (cases "position P (drop k xs)")
  case None
  then have n: "\<not> P x" if "x \<in> set (drop k xs)" for x using that by (auto simp: position_eq_None_iff)
  have "\<not> P (xs ! j)" if "k \<le> j" "j < length xs" for j
    using n [of "drop k xs ! (j - k)"] nth_mem [of "j - k" "drop k xs"] that by simp
  then show ?thesis using None by (simp add: first_from_def)
next
  case (Some i)
  then have f: "i < length (drop k xs)" "P (drop k xs ! i)" "\<forall>j < i. \<not> P (drop k xs ! j)"
    by (simp_all add: position_eq_Some_iff)
  have "\<not> P (xs ! j)" if "k \<le> j" "j < k + i" for j
  proof -
    have "\<not> P (drop k xs ! (j - k))" using f(3) that by simp
    then show ?thesis using that f(1) by simp
  qed
  then show ?thesis using f Some by (simp add: first_from_def)
qed

lemma blank_line_loop_eq:
  "3 \<le> k \<Longrightarrow> \<exists>x. blank_line_loop head k = Inr (map_option Suc x) \<and> first_from (blank_before head) k x"
proof (induction head k rule: blank_line_loop.induct)
  case (1 head k)
  note un = blank_line_loop.simps [of head k]
  show ?case
  proof (cases "k < length head")
    case False
    then show ?thesis using un by (intro exI [of _ None]) (auto simp: first_from_def blank_before_def)
  next
    case True
    let ?nl = "\<lambda>j. j < length head \<and> head ! j = 10"
    obtain p where p: "next_newline_portable head k = Inr p" "first_from ?nl k p"
      using next_newline_portable_eq [of k head] True position_first_from [of head "\<lambda>b. b = 10" k] by simp
    show ?thesis
    proof (cases p)
      case None
      then have "\<not> blank_before head j" if "k \<le> j" for j
        using p(2) that 1(2) blank_before_iff [of j head] by (auto simp: first_from_def)
      then show ?thesis using un True p None by (intro exI [of _ None]) (simp add: first_from_def)
    next
      case (Some at)
      then have at: "k \<le> at" "at < length head" "head ! at = 10" "\<And>j. k \<le> j \<Longrightarrow> j < at \<Longrightarrow> head ! j \<noteq> 10"
        using p(2) by (auto simp: first_from_def)
      have nb: "\<not> blank_before head j" if "k \<le> j" "j < at" for j
        using at(4) [OF that] blank_before_iff [of j head] that(1) 1(2) by auto
      let ?hit = "head ! (at - 1) = 13 \<and> head ! (at - 2) = 10 \<and> head ! (at - 3) = 13"
      have b: "bind_r (idx head (at - 1)) (\<lambda>a. bind_r (idx head (at - 2)) (\<lambda>b. bind_r (idx head (at - 3)) (\<lambda>c.
                Inr (a = 13 \<and> b = 10 \<and> c = 13)))) = Inr ?hit" using at(2) by simp
      have u: "blank_line_loop head k = (if ?hit then Inr (Some (at + 1)) else blank_line_loop head (at + 1))"
        unfolding un if_P [OF True] p(1) Some sum.case option.case b ..
      have hit: "blank_before head at \<longleftrightarrow> ?hit" using blank_before_iff [of at head] at 1(2) by auto
      show ?thesis
      proof (cases ?hit)
        case True
        then show ?thesis using u nb hit at(1) by (intro exI [of _ "Some at"]) (simp add: first_from_def)
      next
        case False
        have "\<exists>x. blank_line_loop head (at + 1) = Inr (map_option Suc x) \<and> first_from (blank_before head) (at + 1) x"
          using 1(1) [OF True p(1) [unfolded Some] refl b False] at(1) 1(2) by simp
        then obtain x where x: "blank_line_loop head (at + 1) = Inr (map_option Suc x)"
          "first_from (blank_before head) (at + 1) x" by blast
        have "first_from (blank_before head) k x"
          using nb hit False at(1) by (intro first_from_skip [OF x(2)]) (auto simp: less_Suc_eq)
        then show ?thesis using u False x(1) by auto
      qed
    qed
  qed
qed

lemma find_blank_first_from:
  "first_from (blank_before head) 3 (map_option (\<lambda>i. i + 3) (find_sub head (CRLF @ CRLF)))"
proof (cases "find_sub head (CRLF @ CRLF)")
  case None
  have "\<not> blank_before head j" for j
  proof
    assume b: "blank_before head j"
    then have "j - 3 + length (CRLF @ CRLF) \<le> length head" by (simp add: blank_before_def CRLF_facts)
    then show False using None b
      unfolding find_sub_eq_None_iff [OF CRLF_facts(5)] by (auto simp: blank_before_def CRLF_facts)
  qed
  then show ?thesis using None by (simp add: first_from_def)
next
  case (Some i)
  then have f: "i + 4 \<le> length head" "take 4 (drop i head) = CRLF @ CRLF" "\<forall>j < i. take 4 (drop j head) \<noteq> CRLF @ CRLF"
    unfolding find_sub_blank_iff by simp_all
  have "\<not> blank_before head j" if "3 \<le> j" "j < i + 3" for j
  proof -
    have "j - 3 < i" using that by simp
    then show ?thesis using f(3) by (simp add: blank_before_def)
  qed
  then show ?thesis using f(1,2) Some by (simp add: first_from_def blank_before_def)
qed

lemma blank_line_portable_eq:
  "\<exists>x. blank_line_portable head from = Inr (map_option Suc x) \<and> first_from (blank_before head) (from + 3) x"
  unfolding blank_line_portable_def by (rule blank_line_loop_eq) simp

lemma body_offset_eq: "body_offset head = Inr (map_option (\<lambda>i. i + 4) (find_sub head (CRLF @ CRLF)))"
proof -
  obtain x where x: "body_offset head = Inr (map_option Suc x)" "first_from (blank_before head) 3 x"
    using blank_line_portable_eq [of head 0] unfolding body_offset_def by (auto simp: numeral_3_eq_3)
  then show ?thesis
    using first_from_unique [OF x(2) find_blank_first_from] by (simp add: option.map_comp comp_def add.commute)
qed

lemma head_complete_eq: "head_complete head = Inr (find_sub head (CRLF @ CRLF) \<noteq> None)"
  using body_offset_eq [of head] by (simp add: head_complete_def body_offset_def)

lemma head_complete_from_eq:
  assumes "find_sub (take seen head) (CRLF @ CRLF) = None"
  shows "head_complete_from head seen = head_complete head"
proof -
  obtain x where x: "blank_line_portable head (seen - 3) = Inr (map_option Suc x)"
    "first_from (blank_before head) (seen - 3 + 3) x" using blank_line_portable_eq by blast
  have "\<not> blank_before head j" if "3 \<le> j" "j < seen - 3 + 3" for j
  proof
    assume b: "blank_before head j"
    have j: "j < seen" using that by simp
    then have "4 \<le> seen - (j - 3)" using that(1) by arith
    then have "take 4 (drop (j - 3) (take seen head)) = take 4 (drop (j - 3) head)" by (simp add: drop_take min.absorb1)
    then have "take (length (CRLF @ CRLF)) (drop (j - 3) (take seen head)) = CRLF @ CRLF"
      using b by (simp add: blank_before_def CRLF_facts)
    moreover have "j - 3 + length (CRLF @ CRLF) \<le> length (take seen head)"
      using b j that(1) by (simp add: blank_before_def CRLF_facts)
    ultimately show False using assms unfolding find_sub_eq_None_iff [OF CRLF_facts(5)] by blast
  qed
  then have "first_from (blank_before head) 3 x" by (intro first_from_skip [OF x(2)]) auto
  from first_from_unique [OF this find_blank_first_from] show ?thesis
    by (simp add: head_complete_from_def x(1) head_complete_eq)
qed

text \<open>C25: The search for the blank line by its newlines, eight bytes at a time, finds what the
  search of every window of four bytes finds, and never reads outside the head. Checking a head
  that grows by reads only from three bytes before the new ones gives the same answer, as long as
  what was checked before was incomplete.\<close>

theorem blank_line_is_window_search:
  "body_offset head = Inr (map_option (\<lambda>i. i + 4) (find_sub head (CRLF @ CRLF))) \<and>
   head_complete head = Inr (find_sub head (CRLF @ CRLF) \<noteq> None) \<and>
   (find_sub (take seen head) (CRLF @ CRLF) = None \<longrightarrow> head_complete_from head seen = head_complete head)"
  using body_offset_eq head_complete_eq head_complete_from_eq by blast

theorem blank_line_is_window_search_witness:
  "head_complete_from (ascii ''GET'' @ CRLF @ CRLF) 6 = head_complete (ascii ''GET'' @ CRLF @ CRLF) \<and>
   head_complete (ascii ''GET'' @ CRLF @ CRLF) = Inr True"
proof -
  have "find_sub (take 6 (ascii ''GET'' @ CRLF @ CRLF)) (CRLF @ CRLF) = None"
    "find_sub (ascii ''GET'' @ CRLF @ CRLF) (CRLF @ CRLF) \<noteq> None" by code_simp+
  then show ?thesis using blank_line_is_window_search [of "ascii ''GET'' @ CRLF @ CRLF" 6] by simp
qed

section \<open>The vector unit\<close>

text \<open>What the two searches of the other crate are documented to return: the first match at or
  after the start, or a position past the end.\<close>

definition byte_search :: "(bytes \<Rightarrow> nat \<Rightarrow> u8 \<Rightarrow> nat) \<Rightarrow> bool" where
  "byte_search f \<longleftrightarrow> (\<forall>s j a. first_from (\<lambda>i. i < length s \<and> s ! i = a) j
     (if f s j a < length s then Some (f s j a) else None))"

definition pair_search :: "(bytes \<Rightarrow> nat \<Rightarrow> u8 \<Rightarrow> u8 \<Rightarrow> nat) \<Rightarrow> bool" where
  "pair_search f \<longleftrightarrow> (\<forall>s j a b. first_from (\<lambda>i. i + 1 < length s \<and> s ! i = a \<and> s ! (i + 1) = b) j
     (if f s j a b < length s then Some (f s j a b) else None))"

lemma blank_line_pie_loop_eq:
  assumes f: "pair_search find_pair"
  shows "1 \<le> j \<Longrightarrow> length head + 1 - j \<le> fuel \<Longrightarrow>
    \<exists>x. blank_line_pie_loop find_pair fuel head j = Inr (map_option Suc x) \<and> first_from (blank_before head) (j + 2) x"
proof (induction fuel arbitrary: j)
  case 0
  then show ?case by (intro exI [of _ None]) (auto simp: first_from_def blank_before_def)
next
  case (Suc fuel)
  define i where "i = find_pair head j 10 13"
  let ?pair = "\<lambda>i. i + 1 < length head \<and> head ! i = 10 \<and> head ! (i + 1) = 13"
  have ff: "first_from ?pair j (if i < length head then Some i else None)"
    using f unfolding pair_search_def i_def by blast
  have blank: "blank_before head m \<longleftrightarrow> m < length head \<and> ?pair (m - 2) \<and> head ! (m - 3) = 13 \<and> head ! m = 10" if "3 \<le> m" for m
  proof -
    obtain n where "m = n + 3" using \<open>3 \<le> m\<close> by (metis le_add_diff_inverse2)
    then show ?thesis using blank_before_iff [OF that, of head] by (auto simp: eval_nat_numeral)
  qed
  show ?case
  proof (cases "i < length head")
    case False
    then have "\<not> blank_before head m" if "j + 2 \<le> m" for m
      using ff that Suc.prems(1) blank [of m] by (auto simp: first_from_def)
    then show ?thesis using False by (intro exI [of _ None]) (simp add: first_from_def Let_def i_def)
  next
    case True
    then have i: "j \<le> i" "?pair i" "\<And>m. j \<le> m \<Longrightarrow> m < i \<Longrightarrow> \<not> ?pair m" using ff by (auto simp: first_from_def)
    have nb: "\<not> blank_before head m" if "j + 2 \<le> m" "m < i + 2" for m
    proof -
      have "j \<le> m - 2" "m - 2 < i" "3 \<le> m" using that Suc.prems(1) by arith+
      then show ?thesis using i(3) blank by blast
    qed
    have hit: "blank_before head (i + 2) \<longleftrightarrow> head ! (i - 1) = 13 \<and> get head (i + 2) = Some 10"
      using blank [of "i + 2"] i(1,2) Suc.prems(1) by (auto simp: get_def eval_nat_numeral)
    have u: "blank_line_pie_loop find_pair (Suc fuel) head j =
        (if blank_before head (i + 2) then Inr (Some (i + 3)) else blank_line_pie_loop find_pair fuel head (i + 1))"
      using True unfolding hit blank_line_pie_loop.simps(2) Let_def i_def [symmetric] by simp
    show ?thesis
    proof (cases "blank_before head (i + 2)")
      case True
      then show ?thesis using u nb i(1) by (intro exI [of _ "Some (i + 2)"]) (auto simp: first_from_def)
    next
      case False
      have "1 \<le> i + 1" "length head + 1 - (i + 1) \<le> fuel" using i(1) Suc.prems by auto
      from Suc.IH [OF this] obtain x where x: "blank_line_pie_loop find_pair fuel head (i + 1) = Inr (map_option Suc x)"
        "first_from (blank_before head) (i + 1 + 2) x" by blast
      have "\<not> blank_before head m" if "j + 2 \<le> m" "m < i + 1 + 2" for m
      proof (cases "m = i + 2")
        case False
        then show ?thesis using nb [OF that(1)] that(2) by simp
      qed (use \<open>\<not> blank_before head (i + 2)\<close> in simp)
      then have "first_from (blank_before head) (j + 2) x"
        using i(1) by (intro first_from_skip [OF x(2)]) auto
      then show ?thesis using u False x(1) by auto
    qed
  qed
qed

text \<open>C40: On the vector unit, whatever the two searches of the other crate compute so long as they
  return the first match, the newline and the blank line are found where the portable code finds
  them: the loop over pairs ends and takes no other branch.\<close>

theorem vector_search_is_portable:
  assumes "pair_search find_pair" "byte_search find_byte" "k \<le> length head"
  shows "blank_line_pie find_pair head from = blank_line_portable head from \<and>
    Inr (next_newline_pie find_byte head k) = next_newline_portable head k"
proof -
  obtain x where x: "blank_line_pie find_pair head from = Inr (map_option Suc x)"
    "first_from (blank_before head) (from + 1 + 2) x"
  proof -
    have "1 \<le> from + 1" "length head + 1 - (from + 1) \<le> length head + 1" by simp_all
    from blank_line_pie_loop_eq [OF assms(1) this] show ?thesis using that unfolding blank_line_pie_def by blast
  qed
  obtain y where y: "blank_line_portable head from = Inr (map_option Suc y)"
    "first_from (blank_before head) (from + 1 + 2) y"
    using blank_line_portable_eq [of head "from"] by (auto simp: eval_nat_numeral)
  let ?nl = "\<lambda>i. i < length head \<and> head ! i = 10"
  have "first_from ?nl k (next_newline_pie find_byte head k)"
    using assms(2) unfolding byte_search_def next_newline_pie_def Let_def by blast
  from first_from_unique [OF this position_first_from] next_newline_portable_eq [OF assms(3)]
  have "Inr (next_newline_pie find_byte head k) = next_newline_portable head k" by simp
  then show ?thesis using x(1) y(1) first_from_unique [OF x(2) y(2)] by simp
qed

definition scan_byte :: "bytes \<Rightarrow> nat \<Rightarrow> u8 \<Rightarrow> nat" where
  "scan_byte s j a = (case position (\<lambda>b. b = a) (drop j s) of None \<Rightarrow> length s | Some i \<Rightarrow> j + i)"

definition scan_pair :: "bytes \<Rightarrow> nat \<Rightarrow> u8 \<Rightarrow> u8 \<Rightarrow> nat" where
  "scan_pair s j a b = (case position (\<lambda>p. p = (a, b)) (drop j (zip s (drop 1 s))) of None \<Rightarrow> length s | Some i \<Rightarrow> j + i)"

lemma scan_byte_search: "byte_search scan_byte"
  unfolding byte_search_def
proof (intro allI)
  fix s :: bytes and j a
  have ff: "first_from (\<lambda>i. i < length s \<and> s ! i = a) j (map_option (\<lambda>i. j + i) (position (\<lambda>b. b = a) (drop j s)))"
    by (rule position_first_from)
  moreover have "(if scan_byte s j a < length s then Some (scan_byte s j a) else None) =
      map_option (\<lambda>i. j + i) (position (\<lambda>b. b = a) (drop j s))"
    using ff by (auto simp: scan_byte_def first_from_def split: option.splits)
  ultimately show "first_from (\<lambda>i. i < length s \<and> s ! i = a) j (if scan_byte s j a < length s then Some (scan_byte s j a) else None)"
    by simp
qed

lemma scan_pair_search: "pair_search scan_pair"
  unfolding pair_search_def
proof (intro allI)
  fix s :: bytes and j a b
  let ?z = "zip s (drop 1 s)"
  let ?x = "map_option (\<lambda>i. j + i) (position (\<lambda>p. p = (a, b)) (drop j ?z))"
  have "first_from (\<lambda>i. i < length ?z \<and> ?z ! i = (a, b)) j ?x" by (rule position_first_from)
  moreover have "(\<lambda>i. i < length ?z \<and> ?z ! i = (a, b)) = (\<lambda>i. i + 1 < length s \<and> s ! i = a \<and> s ! (i + 1) = b)"
    by (intro ext) auto
  ultimately have ff: "first_from (\<lambda>i. i + 1 < length s \<and> s ! i = a \<and> s ! (i + 1) = b) j ?x" by simp
  moreover have "(if scan_pair s j a b < length s then Some (scan_pair s j a b) else None) = ?x"
    using ff by (auto simp: scan_pair_def first_from_def split: option.splits)
  ultimately show "first_from (\<lambda>i. i + 1 < length s \<and> s ! i = a \<and> s ! (i + 1) = b) j
      (if scan_pair s j a b < length s then Some (scan_pair s j a b) else None)" by simp
qed

theorem vector_search_is_portable_witness:
  "blank_line_pie scan_pair (ascii ''GET'' @ CRLF @ CRLF) 0 = Inr (Some 7)"
proof -
  have "blank_line_portable (ascii ''GET'' @ CRLF @ CRLF) 0 = Inr (Some 7)"
    using body_offset_eq [of "ascii ''GET'' @ CRLF @ CRLF"] find_sub_blank [of "ascii ''GET''" "[]"]
    by (simp add: body_offset_def ascii_def)
  then show ?thesis
    using vector_search_is_portable [OF scan_pair_search scan_byte_search, of 0 "ascii ''GET'' @ CRLF @ CRLF" 0] by simp
qed

section \<open>The header lookup\<close>

lemma trim_end_prefix: "\<exists>ys. xs = trim_end xs @ ys"
proof (induction xs rule: trim_end.induct)
  case (1 xs)
  show ?case
  proof (cases "find (ends_with xs) white_space")
    case None
    then show ?thesis by (subst trim_end.simps) simp
  next
    case (Some w)
    then have "trim_end xs = trim_end (take (length xs - length w) xs)" by (subst trim_end.simps) simp
    with 1 [OF Some] obtain ys where "take (length xs - length w) xs = trim_end xs @ ys" by auto
    then show ?thesis by (metis append.assoc append_take_drop_id)
  qed
qed

lemma trim_first:
  assumes "trim n = c # cs"
  shows "\<exists>b bs. n = b # bs \<and> (b = c \<or> (9 \<le> b \<and> b \<le> 13) \<or> b = 32 \<or> b = 0xC2 \<or> b = 0xE1 \<or> b = 0xE2 \<or> b = 0xE3)"
proof (cases "space_at n")
  case None
  then have "trim_start n = n" by (subst trim_start.simps) simp
  then obtain ys where "n = trim n @ ys" using trim_end_prefix [of n] by (auto simp: trim_def)
  then show ?thesis using assms by auto
next
  case (Some w)
  then have "w \<in> set white_space" "take (length w) n = w" using space_at_Some by (auto simp: starts_with_def)
  then show ?thesis by (cases n) (auto simp: white_space_def)
qed

lemma header_in_simps:
  "header_in [] name = None"
  "header_in (l # ls) name =
     (case split_once 58 l of
        None \<Rightarrow> header_in ls name
      | Some (n, v) \<Rightarrow> if eq_ignore_ascii_case (trim n) name then Some v else header_in ls name)"
  by (auto simp: header_in_def map_filter_simps split: option.split)

lemma header_in_filter:
  assumes "\<And>l n v. l \<in> set ls \<Longrightarrow> split_once 58 l = Some (n, v) \<Longrightarrow> eq_ignore_ascii_case (trim n) name \<Longrightarrow> P l"
  shows "header_in (filter P ls) name = header_in ls name"
  using assms
proof (induction ls)
  case (Cons l ls)
  have ih: "header_in (filter P ls) name = header_in ls name" using Cons by simp
  show ?case
  proof (cases "P l")
    case False
    then have "split_once 58 l = None \<or> (\<exists>n v. split_once 58 l = Some (n, v) \<and> \<not> eq_ignore_ascii_case (trim n) name)"
      using Cons.prems [of l] by (cases "split_once 58 l") auto
    then show ?thesis using ih False by (auto simp: header_in_simps(2))
  qed (simp add: header_in_simps(2) ih split: option.split)
qed simp

lemma header_eq_scan: "name \<noteq> [] \<Longrightarrow> header text name = header_scan text name"
proof (cases name)
  case (Cons c cs)
  have "header_candidate (to_ascii_lowercase c) l"
    if l: "split_once 58 l = Some (n, v)" "eq_ignore_ascii_case (trim n) name" for l n v
  proof -
    obtain d ds where t: "trim n = d # ds" "to_ascii_lowercase d = to_ascii_lowercase c"
      using l(2) Cons by (cases "trim n") (auto simp: eq_ignore_ascii_case_def)
    from trim_first [OF t(1)] obtain b bs where b: "n = b # bs"
      "b = d \<or> (9 \<le> b \<and> b \<le> 13) \<or> b = 32 \<or> b = 0xC2 \<or> b = 0xE1 \<or> b = 0xE2 \<or> b = 0xE3" by blast
    have "l = n @ 58 # v" using l(1) by (simp add: split_once_eq_Some_iff)
    then show ?thesis using b t(2) by (auto simp: header_candidate_def)
  qed
  then show ?thesis unfolding header_def header_scan_def Cons list.case
    by (intro header_in_filter) (simp add: Cons)
qed simp

text \<open>The header lookup that splits and trims only the lines whose first byte can begin the name
  finds what splitting and trimming every line finds, for every text and every name: a line it
  skips has another name once trimmed of any Unicode white space.\<close>

lemma header_is_full_scan: "header text (c # name) = header_scan text (c # name)"
  by (rule header_eq_scan) simp

section \<open>Parsing\<close>

lemma parse_request_eq:
  "parse_request head g =
     Inr (parse_text (case find_sub head (CRLF @ CRLF) of None \<Rightarrow> head | Some i \<Rightarrow> take (i + 4) head) g)"
proof (cases "find_sub head (CRLF @ CRLF)")
  case (Some i)
  then have "i + 4 \<le> length head" unfolding find_sub_blank_iff by simp
  then show ?thesis using Some by (simp add: parse_request_def body_offset_eq add.commute)
qed (simp add: parse_request_def body_offset_eq)

text \<open>C31: Parsing a request returns for every head, malformed or not, and looks at the head alone:
  a body that has already arrived behind the blank line, whatever its bytes, changes nothing.\<close>

theorem parse_request_ignores_body:
  "(\<exists>r. parse_request head g = Inr r) \<and>
   (find_sub head (CRLF @ CRLF) = Some (length head - 4) \<longrightarrow>
     parse_request (head @ body) g = parse_request head g)"
proof (intro conjI impI)
  show "\<exists>r. parse_request head g = Inr r" by (simp add: parse_request_eq)
  assume f: "find_sub head (CRLF @ CRLF) = Some (length head - 4)"
  then have "length head - 4 + 4 \<le> length head" unfolding find_sub_blank_iff by simp
  then show "parse_request (head @ body) g = parse_request head g"
    using find_sub_extend [OF f CRLF_facts(5), of body] f by (simp add: parse_request_eq)
qed

theorem parse_request_ignores_body_witness:
  "parse_request (ascii ''PUT /update HTTP/1.1'' @ CRLF @ CRLF @ [0xFF, 0xFE]) None =
     parse_request (ascii ''PUT /update HTTP/1.1'' @ CRLF @ CRLF) None"
proof -
  have "find_sub (ascii ''PUT /update HTTP/1.1'' @ CRLF @ CRLF) (CRLF @ CRLF) =
      Some (length (ascii ''PUT /update HTTP/1.1'' @ CRLF @ CRLF) - 4)" by code_simp
  with parse_request_ignores_body [of "ascii ''PUT /update HTTP/1.1'' @ CRLF @ CRLF" None "[0xFF, 0xFE]"]
  show ?thesis by simp
qed

text \<open>A request line of ASCII bytes splits the same on ASCII white space as on Unicode white
  space when it holds no vertical tab, and only then in general: the vertical tab is Unicode white
  space but not ASCII white space, so a line with one is another request than it was before the
  split was specialised.\<close>

lemma request_line_vertical_tab:
  "(is_ascii line \<longrightarrow> 11 \<notin> set line \<longrightarrow> split_ascii_whitespace line = split_whitespace line) \<and>
   is_ascii (ascii ''GET'' @ [11] @ ascii ''/stream'') \<and>
   split_whitespace (ascii ''GET'' @ [11] @ ascii ''/stream'') = [ascii ''GET'', ascii ''/stream''] \<and>
   split_ascii_whitespace (ascii ''GET'' @ [11] @ ascii ''/stream'') = [ascii ''GET'' @ [11] @ ascii ''/stream''] \<and>
   request_words (ascii ''GET'' @ [11] @ ascii ''/stream'') = None"
proof (intro conjI impI)
  assume "is_ascii line" "11 \<notin> set line"
  then have "\<forall>x \<in> set line. x < 0x80 \<and> x \<noteq> 11" by (auto simp: is_ascii_def)
  then show "split_ascii_whitespace line = split_whitespace line"
    by (simp add: split_ascii_whitespace_def split_whitespace_def words_from_ascii)
qed code_simp+

lemma request_line_vertical_tab_witness:
  "split_ascii_whitespace (ascii ''GET /'') = split_whitespace (ascii ''GET /'')"
proof -
  have "is_ascii (ascii ''GET /'')" "11 \<notin> set (ascii ''GET /'')" by code_simp+
  then show ?thesis using request_line_vertical_tab [of "ascii ''GET /''"] by blast
qed

section \<open>The responses\<close>

lemma write_numbered_Vec [simp]:
  "write_numbered Vec_write [a, b] f s = (Inr (), s @ concat (f [decimal (unat a), decimal (unat b)]))"
  "write_numbered Vec_write [a] f s = (Inr (), s @ concat (f [decimal (unat a)]))"
  by (simp_all add: write_numbered_def)

text \<open>A head as lines, with the blank line that ends it.\<close>

definition head_of :: "bytes list \<Rightarrow> bytes" where
  "head_of ls = concat (map (\<lambda>l. l @ CRLF) ls) @ CRLF"

definition head_line :: "bytes \<Rightarrow> bool" where
  "head_line l \<longleftrightarrow> l \<noteq> [] \<and> 10 \<notin> set l \<and> 13 \<notin> set l"

lemma head_of_simps: "head_of [] = CRLF" "head_of (l # ls) = l @ CRLF @ head_of ls"
  by (simp_all add: head_of_def)

lemma find_sub_head_of:
  "ls \<noteq> [] \<Longrightarrow> \<forall>l \<in> set ls. head_line l \<Longrightarrow>
   find_sub (head_of ls @ body) (CRLF @ CRLF) = Some (length (head_of ls) - 4)"
proof (induction ls)
  case (Cons l ls)
  show ?case
  proof (cases ls)
    case Nil
    then show ?thesis using find_sub_blank [of l body] Cons.prems
      by (simp add: head_of_simps head_line_def CRLF_facts)
  next
    case (Cons l' ls')
    then have ih: "find_sub (head_of ls @ body) (CRLF @ CRLF) = Some (length (head_of ls) - 4)"
      using Cons.IH Cons.prems by simp
    have l': "l' \<noteq> []" "13 \<notin> set l'" using Cons.prems(2) Cons by (simp_all add: head_line_def)
    have hn: "hd l' \<noteq> 13" using l' hd_in_set by metis
    have h: "head_of ls = l' @ CRLF @ head_of ls'" using Cons by (simp add: head_of_simps)
    have "2 \<le> length (head_of ls')" by (cases ls') (simp_all add: head_of_simps CRLF_facts)
    then have x: "head_of ls @ body \<noteq> []" "hd (head_of ls @ body) \<noteq> 13" "4 \<le> length (head_of ls)"
      using l' hn unfolding h by (auto simp: CRLF_facts)
    have "13 \<notin> set l" using Cons.prems by (simp add: head_line_def)
    from find_sub_blank_line [OF this x(1,2) ih] x(3) show ?thesis by (simp add: head_of_simps CRLF_facts)
  qed
qed simp

lemma lines_head_of:
  assumes "\<forall>l \<in> set ls. head_line l"
  shows "lines (head_of ls) = ls @ [[]]"
proof -
  have "split_on 10 (head_of ls) = map (\<lambda>l. l @ [13]) ls @ [[13], []]"
    using assms
  proof (induction ls)
    case Nil
    then show ?case by (simp add: head_of_simps CRLF_def)
  next
    case (Cons l ls)
    have "10 \<notin> set (l @ [13])" using Cons.prems by (simp add: head_line_def)
    then show ?case
      using Cons split_on_append_sep [of 10 "l @ [13]" "head_of ls"] split_on_no_sep [of 10 "l @ [13]"]
      by (simp add: head_of_simps CRLF_def)
  qed
  then show ?thesis by (simp add: lines_def butlast_append strip_cr_line strip_cr_line(2) [of "[]", unfolded append_Nil]
    comp_def cong: map_cong)
qed

lemma trim_number: "trim (32 # decimal n) = decimal n"
proof -
  note d = decimal_range [of _ n]
  obtain c cs where c: "decimal n = c # cs" using decimal_nonempty by (metis list.exhaust)
  have cr: "48 \<le> c" "c \<le> 57" using d [of c] c by simp_all
  have "c < 0x80" by (rule le_less_trans [OF cr(2)]) simp
  moreover have "c \<noteq> 9" "c \<noteq> 10" "c \<noteq> 11" "c \<noteq> 12" "c \<noteq> 13" "c \<noteq> 32" using cr(1) by auto
  ultimately have "space_at (decimal n) = None" by (simp add: c space_at_ascii is_ascii_whitespace_def)
  then have s: "trim_start (32 # decimal n) = decimal n"
    by (subst trim_start.simps) (simp add: space_at_ascii is_ascii_whitespace_def, subst trim_start.simps, simp)
  obtain e es where e: "decimal n = es @ [e]" using c by (metis append_butlast_last_id list.distinct(1))
  have "ends_with (decimal n) w \<Longrightarrow> w \<in> set white_space \<Longrightarrow> False" for w
  proof -
    assume a: "ends_with (decimal n) w" "w \<in> set white_space"
    then have "w \<noteq> []" by (simp add: white_space_nonempty)
    then have "last w = e" using a(1) e
      by (metis ends_with_def last_appendR append_take_drop_id last_snoc)
    then show False using d [of e] a(2) e by (auto simp: white_space_def)
  qed
  then have "find (ends_with (decimal n)) white_space = None" by (auto simp: find_None_iff)
  then have "trim_end (decimal n) = decimal n" by (subst trim_end.simps) simp
  then show ?thesis by (simp add: trim_def s)
qed

lemma parse_u64_decimal: "n < 2 ^ 64 \<Longrightarrow> parse_u64 (decimal n) = Some n"
proof -
  assume n: "n < 2 ^ 64"
  obtain c cs where c: "decimal n = c # cs" using decimal_nonempty by (metis list.exhaust)
  then have "c \<noteq> 43" using decimal_range [of c n] by auto
  then show ?thesis using parse_digits_decimal [of "2 ^ 64" n] n by (simp add: parse_u64_def c Let_def)
qed

lemma header_in_append: "header_in ls name = Some v \<Longrightarrow> header_in (ls @ ks) name = Some v"
  by (induction ls) (auto simp: header_in_simps split: option.splits if_splits)

lemma header_in_skip:
  "(case split_once 58 l of None \<Rightarrow> True | Some (n, _) \<Rightarrow> \<not> eq_ignore_ascii_case (trim n) name) \<Longrightarrow>
   header_in (l # ls) name = header_in ls name"
  by (auto simp: header_in_simps split: option.splits)

lemma split_once_colon: "58 \<notin> set n \<Longrightarrow> split_once 58 (n @ 58 # v) = Some (n, v :: bytes)"
  by (simp add: split_once_eq_Some_iff)

definition CL :: bytes where
  "CL = ascii ''content-length''"

lemma CL_skips:
  "header_in (ascii ''Content-Type: application/json'' # ls) CL = header_in ls CL"
  "header_in (ascii ''Content-Type: application/octet-stream'' # ls) CL = header_in ls CL"
  "header_in (ascii ''Content-Type: text/plain; charset=utf-8'' # ls) CL = header_in ls CL"
  "header_in (ascii ''Content-Type: text/html; charset=utf-8'' # ls) CL = header_in ls CL"
  "header_in (ascii ''Content-Type: text/plain'' # ls) CL = header_in ls CL"
  "header_in (ascii ''Cache-Control: no-store'' # ls) CL = header_in ls CL"
  "header_in (ascii ''Connection: close'' # ls) CL = header_in ls CL"
  "header_in (ascii ''Allow: GET'' # ls) CL = header_in ls CL"
  by (rule header_in_skip, code_simp)+

lemma CL_skip_cookie: "header_in ((ascii ''Set-Cookie: '' @ t) # ls) CL = header_in ls CL"
proof -
  have e: "ascii ''Set-Cookie: '' @ t = ascii ''Set-Cookie'' @ 58 # 32 # t" by (simp add: ascii_def)
  have "58 \<notin> set (ascii ''Set-Cookie'')" "\<not> eq_ignore_ascii_case (trim (ascii ''Set-Cookie'')) CL" by code_simp+
  then show ?thesis unfolding e by (intro header_in_skip) (simp add: split_once_colon)
qed

lemma CL_hit: "header_in ((ascii ''Content-Length: '' @ d) # ls) CL = Some (32 # d)"
proof -
  have e: "ascii ''Content-Length: '' @ d = ascii ''Content-Length'' @ 58 # 32 # d" by (simp add: ascii_def)
  have "58 \<notin> set (ascii ''Content-Length'')" "eq_ignore_ascii_case (trim (ascii ''Content-Length'')) CL" by code_simp+
  then show ?thesis unfolding e by (simp add: header_in_simps split_once_colon)
qed

lemmas CL_simps = CL_skips CL_skip_cookie CL_hit

text \<open>A complete response with a body: the module's own parser finds where the body starts and how
  long it is.\<close>

definition answers :: "unit result \<times> bytes \<Rightarrow> bytes \<Rightarrow> bool" where
  "answers r body \<longleftrightarrow> fst r = Inr () \<and>
     (\<exists>h. snd r = h @ body \<and> body_offset (snd r) = Inr (Some (length h)) \<and> content_length_of h = Some (length body))"

lemma answers_head_of:
  assumes "fst r = Inr ()" "snd r = head_of (s # ls) @ body"
    and "\<forall>l \<in> set (s # ls). head_line l" "header_in ls CL = Some (32 # decimal (length body))" "length body < 2 ^ 64"
  shows "answers r body"
proof -
  have l4: "4 \<le> length (head_of (s # ls))"
    using find_sub_head_of [of "s # ls" "[]"] assms(3) find_sub_blank_iff [of "head_of (s # ls)"] by (cases ls) (auto simp: head_of_simps CRLF_facts)
  have "body_offset (snd r) = Inr (Some (length (head_of (s # ls))))"
    using find_sub_head_of [of "s # ls" body] assms(2,3) l4 by (simp add: body_offset_eq)
  moreover have "content_length_of (head_of (s # ls)) = Some (length body)"
  proof -
    have "header (head_of (s # ls)) CL = Some (32 # decimal (length body))"
      using header_eq_scan [of CL] lines_head_of [OF assms(3)] header_in_append [OF assms(4)]
      by (simp add: header_scan_def CL_def ascii_def)
    then show ?thesis using parse_u64_decimal [OF assms(5)]
      by (simp add: content_length_of_def CL_def trim_number)
  qed
  ultimately show ?thesis using assms(1,2) by (auto simp: answers_def)
qed

definition no_line_end :: "bytes \<Rightarrow> bool" where
  "no_line_end t \<longleftrightarrow> 10 \<notin> set t \<and> 13 \<notin> set t"

lemma decimal_no_line_end [simp]: "no_line_end (decimal n)"
  using decimal_range [of 10 n] decimal_range [of 13 n] by (auto simp: no_line_end_def)

lemma head_line_append: "head_line l \<Longrightarrow> no_line_end t \<Longrightarrow> head_line (l @ t)"
  by (simp add: head_line_def no_line_end_def)

lemma no_line_end_append [simp]: "no_line_end (a @ b) \<longleftrightarrow> no_line_end a \<and> no_line_end b"
  by (auto simp: no_line_end_def)

lemma fixed_head_lines:
  "head_line (ascii ''Content-Type: application/json'')" "head_line (ascii ''Content-Type: application/octet-stream'')"
  "head_line (ascii ''Content-Type: text/plain; charset=utf-8'')" "head_line (ascii ''Content-Type: text/html; charset=utf-8'')"
  "head_line (ascii ''Content-Type: text/plain'')" "head_line (ascii ''Cache-Control: no-store'')"
  "head_line (ascii ''Connection: close'')" "head_line (ascii ''Allow: GET'')" "head_line (ascii ''Content-Length: '')"
  "head_line (ascii ''Set-Cookie: '')" "head_line (ascii ''HTTP/1.1 '')" "head_line (ascii ''HTTP/1.1 200 OK'')"
  "head_line (ascii ''HTTP/1.1 400 Bad Request'')" "head_line (ascii ''HTTP/1.1 403 Forbidden'')"
  "head_line (ascii ''HTTP/1.1 404 Not Found'')" "head_line (ascii ''HTTP/1.1 405 Method Not Allowed'')"
  "head_line (ascii ''HTTP/1.1 503 Service Unavailable'')"
  "no_line_end (ascii '' '')" "no_line_end (ascii ''='')" "no_line_end (ascii ''; Path=/; SameSite=Strict; HttpOnly'')"
  "no_line_end TOKEN_PARAM" "no_line_end (ascii ''OK'')" "no_line_end (ascii ''Bad Request'')"
  "no_line_end (ascii ''Not Found'')" "no_line_end (ascii ''Error'')" "no_line_end (ascii ''Unauthorized'')"
  "no_line_end (ascii ''Forbidden'')" "no_line_end (ascii ''Conflict'')"
  by code_simp+

lemma unat_length: "n < 2 ^ 64 \<Longrightarrow> unat (of_nat n :: u64) = n"
  by (simp add: unat_of_nat)

lemma write_json_answers: "length body < 2 ^ 64 \<Longrightarrow> answers (write_json Vec_write code body []) body"
proof -
  assume l: "length body < 2 ^ 64"
  obtain reason where r: "no_line_end reason" "write_json Vec_write code body [] =
      (Inr (), head_of [ascii ''HTTP/1.1 '' @ decimal (unat (ucast code :: u64)) @ ascii '' '' @ reason,
        ascii ''Content-Type: application/json'', ascii ''Cache-Control: no-store'', ascii ''Connection: close'',
        ascii ''Content-Length: '' @ decimal (length body)] @ body)"
    by (rule that [of "if code = 200 then ascii ''OK'' else if code = 400 then ascii ''Bad Request''
         else if code = 404 then ascii ''Not Found'' else ascii ''Error''"])
      (simp_all add: write_json_def Let_def head_of_def fixed_head_lines unat_length [OF l])
  show ?thesis
    unfolding r(2) by (rule answers_head_of [OF fst_conv snd_conv])
      (use l in \<open>simp_all add: CL_simps fixed_head_lines head_line_append r(1)\<close>)
qed

lemma write_octets_answers: "length body < 2 ^ 64 \<Longrightarrow> answers (write_octets Vec_write code body []) body"
proof -
  assume l: "length body < 2 ^ 64"
  obtain reason where r: "no_line_end reason" "write_octets Vec_write code body [] =
      (Inr (), head_of [ascii ''HTTP/1.1 '' @ decimal (unat (ucast code :: u64)) @ ascii '' '' @ reason,
        ascii ''Content-Type: application/octet-stream'', ascii ''Cache-Control: no-store'', ascii ''Connection: close'',
        ascii ''Content-Length: '' @ decimal (length body)] @ body)"
    by (rule that [of "if code = 200 then ascii ''OK'' else if code = 400 then ascii ''Bad Request''
         else if code = 401 then ascii ''Unauthorized'' else if code = 403 then ascii ''Forbidden''
         else if code = 409 then ascii ''Conflict'' else ascii ''Error''"])
      (simp_all add: write_octets_def Let_def head_of_def fixed_head_lines unat_length [OF l])
  show ?thesis
    unfolding r(2) by (rule answers_head_of [OF fst_conv snd_conv])
      (use l in \<open>simp_all add: CL_simps fixed_head_lines head_line_append r(1)\<close>)
qed

lemma write_plain_answers:
  assumes l: "length body < 2 ^ 64" and r: "no_line_end reason"
  shows "answers (write_plain Vec_write code reason body []) body"
  by (rule answers_head_of [where s = "ascii ''HTTP/1.1 '' @ decimal (unat (ucast code :: u64)) @ ascii '' '' @ reason"
      and ls = "[ascii ''Content-Type: text/plain; charset=utf-8'', ascii ''Connection: close'',
        ascii ''Content-Length: '' @ decimal (length body)]"])
    (use l in \<open>simp_all add: write_plain_def head_of_def unat_length CL_simps fixed_head_lines head_line_append r\<close>)

lemma length_INDEX_HTML: "length INDEX_HTML < 2 ^ 64"
proof -
  have "length INDEX_HTML = 253" by code_simp
  then show ?thesis by simp
qed

lemma write_index_answers:
  assumes "\<forall>t. token = Some t \<longrightarrow> no_line_end t"
  shows "answers (write_index Vec_write token []) INDEX_HTML"
  by (rule answers_head_of [where s = "ascii ''HTTP/1.1 200 OK''"
      and ls = "[ascii ''Content-Type: text/html; charset=utf-8'', ascii ''Connection: close''] @
        (case token of None \<Rightarrow> [] | Some t \<Rightarrow> [ascii ''Set-Cookie: '' @ TOKEN_PARAM @ ascii ''='' @ t @ ascii ''; Path=/; SameSite=Strict; HttpOnly'']) @
        [ascii ''Content-Length: '' @ decimal (length INDEX_HTML)]"])
    (use assms length_INDEX_HTML in \<open>auto simp: write_index_def head_of_def unat_length CL_simps
      fixed_head_lines head_line_append split: option.split\<close>)

lemma write_status_answers: "answers (write_status Vec_write st []) (snd (status_text st))"
proof -
  have l: "length (snd (status_text st)) < 2 ^ 64"
    by (cases st) (simp_all add: status_text_def ascii_def)
  obtain line extra where e: "fst (status_text st) = concat (map (\<lambda>l. l @ CRLF) (line # extra))"
    "\<forall>l \<in> set (line # extra). head_line l" "\<And>ls. header_in (extra @ ls) CL = header_in ls CL"
  proof (cases st)
    case BadRequest
    then show thesis by (intro that [of "ascii ''HTTP/1.1 400 Bad Request''" "[]"]) (simp_all add: status_text_def fixed_head_lines)
  next
    case Forbidden
    then show thesis by (intro that [of "ascii ''HTTP/1.1 403 Forbidden''" "[ascii ''Content-Type: text/plain'']"])
      (simp_all add: status_text_def fixed_head_lines CL_simps)
  next
    case NotFound
    then show thesis by (intro that [of "ascii ''HTTP/1.1 404 Not Found''" "[]"]) (simp_all add: status_text_def fixed_head_lines)
  next
    case MethodNotAllowed
    then show thesis by (intro that [of "ascii ''HTTP/1.1 405 Method Not Allowed''" "[ascii ''Allow: GET'']"])
      (simp_all add: status_text_def fixed_head_lines CL_simps)
  next
    case NoCamera
    then show thesis by (intro that [of "ascii ''HTTP/1.1 503 Service Unavailable''" "[ascii ''Content-Type: text/plain'']"])
      (simp_all add: status_text_def fixed_head_lines CL_simps)
  qed
  show ?thesis
    by (rule answers_head_of [where s = line and ls = "extra @ [ascii ''Connection: close'', ascii ''Content-Length: '' @ decimal (length (snd (status_text st)))]"])
      (use e l in \<open>auto simp: write_status_def head_of_def unat_length CL_simps fixed_head_lines head_line_append split: prod.split\<close>)
qed

text \<open>C24: Every response of the page is one that the module's own parser reads back: its head ends in
  the first blank line, the body follows it, and the \<open>Content-Length\<close> found by the header lookup
  is the body's length. The token of the cookie and the reason of a plain response must not
  contain a line end, which nothing checks.\<close>

theorem responses_are_framed:
  assumes "length body < 2 ^ 64" "no_line_end reason" "\<forall>t. token = Some t \<longrightarrow> no_line_end t"
  shows "answers (write_json Vec_write code body []) body \<and> answers (write_octets Vec_write code body []) body \<and>
    answers (write_plain Vec_write code reason body []) body \<and>
    answers (write_index Vec_write token []) INDEX_HTML \<and>
    answers (write_status Vec_write st []) (snd (status_text st))"
  using assms by (simp add: write_json_answers write_octets_answers write_plain_answers write_index_answers write_status_answers)

theorem responses_are_framed_witness:
  "answers (write_plain Vec_write 200 (ascii ''OK'') (ascii ''committed'') []) (ascii ''committed'') \<and>
   answers (write_index Vec_write (Some (ascii ''7Ns3'')) []) INDEX_HTML"
proof -
  have "length (ascii ''committed'') < 2 ^ 64" "no_line_end (ascii ''OK'')"
    "\<forall>t. Some (ascii ''7Ns3'') = Some t \<longrightarrow> no_line_end t"
    by (simp_all add: ascii_def no_line_end_def)
  from responses_are_framed [OF this] show ?thesis by blast
qed

end
