(* ===== verification/Net.thy ===== *)
theory Net
  imports Http
begin

text \<open>
  The stream server: \<open>net.rs\<close>. A connection is a state with two operations, a blocking read of
  at most so many bytes and \<open>write_all\<close>; both belong to the standard library and are
  parameters. The source of packets is one too. The loop that streams to a viewer need not end.
\<close>

section \<open>Connections\<close>

text \<open>A read fails (\<open>None\<close>), ends the connection (no bytes) or delivers bytes; \<open>write_all\<close> succeeds
  or fails.\<close>

record 'c net_ops =
  op_read :: "'c \<Rightarrow> nat \<Rightarrow> bytes option \<times> 'c"
  op_write_all :: "'c \<Rightarrow> bytes \<Rightarrow> bool \<times> 'c"

definition TcpSink_write :: "'c net_ops \<Rightarrow> 'c writer" where
  "TcpSink_write ops c bs =
     (case op_write_all ops c bs of
        (True, c1) \<Rightarrow> (Inr (), c1)
      | (False, c1) \<Rightarrow> (Inl (Err Hardware), c1))"

record serve_stats =
  ss_connections :: nat
  ss_streams :: nat
  ss_frames :: nat
  ss_other :: nat

definition serve_stats_default :: serve_stats where
  "serve_stats_default = \<lparr>ss_connections = 0, ss_streams = 0, ss_frames = 0, ss_other = 0\<rparr>"

datatype served =
    ServedStream nat
  | ServedIndex
  | ServedNotFound
  | ServedMethodNotAllowed
  | ServedForbidden
  | ServedBadRequest
  | ServedStatus

text \<open>A \<open>StreamConn\<close> is the connection itself; an answered one is kept to see what was sent.\<close>

datatype 'c accepted = Answered served 'c | StreamConn 'c

section \<open>Streaming to a viewer\<close>

text \<open>\<open>next_packet\<close> of the source; \<open>None\<close> when it does not return.\<close>

type_synonym 'p source = "'p \<Rightarrow> (media_packet result \<times> 'p) option"

partial_function (option) run_loop ::
  "'c writer \<Rightarrow> 'p source \<Rightarrow> 'c multipart \<Rightarrow> 'p \<Rightarrow> serve_stats \<Rightarrow> nat \<Rightarrow>
     (served result \<times> 'c multipart \<times> 'p \<times> serve_stats) option" where
  "run_loop wr next mp p stats frames =
     (case next p of
        None \<Rightarrow> None
      | Some (Inl e, p1) \<Rightarrow> Some (Inl e, mp, p1, stats)
      | Some (Inr packet, p1) \<Rightarrow>
          (case Multipart_push wr packet mp of
             (Inr _, mp1) \<Rightarrow> run_loop wr next mp1 p1 (stats\<lparr>ss_frames := ss_frames stats + 1\<rparr>) (frames + 1)
           | (Inl e, mp1) \<Rightarrow>
               if e = Err Hardware then Some (Inr (ServedStream frames), mp1, p1, stats)
               else Some (Inl e, mp1, p1, stats)))"

definition StreamConn_run ::
  "'c writer \<Rightarrow> 'p source \<Rightarrow> 'c \<Rightarrow> 'p \<Rightarrow> serve_stats \<Rightarrow> (served result \<times> 'c multipart \<times> 'p \<times> serve_stats) option" where
  "StreamConn_run wr next c p stats =
     (case Multipart_write_response_head wr (Multipart_new c) of
        (Inl _, mp) \<Rightarrow> Some (Inr (ServedStream 0), mp, p, stats)
      | (Inr _, mp) \<Rightarrow> run_loop wr next mp p (stats\<lparr>ss_streams := ss_streams stats + 1\<rparr>) 0)"

section \<open>Reading a request\<close>

text \<open>\<open>head\<close> is the filled part of the 2048-byte buffer; a read gets the rest of it.\<close>

function read_request :: "'c net_ops \<Rightarrow> gate option \<Rightarrow> bytes \<Rightarrow> 'c \<Rightarrow> request option result \<times> 'c" where
  "read_request ops g head c =
     (case head_complete head of
        Inl e \<Rightarrow> (Inl e, c)
      | Inr True \<Rightarrow> (parse_request head g, c)
      | Inr False \<Rightarrow>
          if length head \<ge> MAX_REQUEST_BYTES then (Inr None, c)
          else
            (case op_read ops c (MAX_REQUEST_BYTES - length head) of
               (None, c1) \<Rightarrow> (Inr None, c1)
             | (Some bs, c1) \<Rightarrow>
                 if bs = [] then (Inr None, c1)
                 else read_request ops g (head @ take (MAX_REQUEST_BYTES - length head) bs) c1))"
  by pat_completeness auto
termination
  by (relation "measure (\<lambda>(ops, g, head, c). MAX_REQUEST_BYTES - length head)")
    (auto simp: neq_Nil_conv)

declare read_request.simps [simp del]

section \<open>The server\<close>

record http_server =
  hs_status :: "(bytes option \<Rightarrow> bytes) option"
  hs_token :: "bytes option"

definition MjpegHttpServer_bind :: http_server where
  "MjpegHttpServer_bind = \<lparr>hs_status = None, hs_token = None\<rparr>"

definition with_status :: "(bytes option \<Rightarrow> bytes) \<Rightarrow> http_server \<Rightarrow> http_server" where
  "with_status handler sv = sv\<lparr>hs_status := Some handler\<rparr>"

definition gated :: "bytes \<Rightarrow> http_server \<Rightarrow> http_server" where
  "gated token sv = sv\<lparr>hs_token := Some token\<rparr>"

definition server_gate :: "http_server \<Rightarrow> gate option" where
  "server_gate sv = map_option (\<lambda>t. \<lparr>gt_token = t\<rparr>) (hs_token sv)"

definition stats_other :: "serve_stats \<Rightarrow> serve_stats" where
  "stats_other stats = stats\<lparr>ss_other := ss_other stats + 1\<rparr>"

text \<open>\<open>let _ = http::write_...(&mut sink, ...)\<close>: the outcome of the write is dropped.\<close>

definition answer :: "served \<Rightarrow> (unit result \<times> 'c) \<Rightarrow> serve_stats \<Rightarrow> 'c accepted \<times> serve_stats" where
  "answer served w stats = (Answered served (snd w), stats_other stats)"

text \<open>\<open>match request\<close>\<close>

fun dispatch :: "'c writer \<Rightarrow> http_server \<Rightarrow> 'c \<Rightarrow> serve_stats \<Rightarrow> request \<Rightarrow> 'c accepted \<times> serve_stats" where
  "dispatch wr sv c stats (Get path admitted) =
     (case path of
        Status query \<Rightarrow>
          (case hs_status sv of
             None \<Rightarrow> answer ServedNotFound (write_status wr NotFound c) stats
           | Some handler \<Rightarrow>
               if query = InvalidQuery then answer ServedBadRequest (write_status wr BadRequest c) stats
               else
                 answer ServedStatus
                   (write_json wr 200 (handler (case query of Nonce n \<Rightarrow> Some n | _ \<Rightarrow> None)) c) stats)
      | _ \<Rightarrow>
          if \<not> admitted then answer ServedForbidden (write_status wr Forbidden c) stats
          else
            (case path of
               Stream \<Rightarrow> (StreamConn c, stats)
             | Index \<Rightarrow> answer ServedIndex (write_index wr (hs_token sv) c) stats
             | Update \<Rightarrow> answer ServedMethodNotAllowed (write_status wr MethodNotAllowed c) stats
             | _ \<Rightarrow> answer ServedNotFound (write_status wr NotFound c) stats))"
| "dispatch wr sv c stats _ = answer ServedMethodNotAllowed (write_status wr MethodNotAllowed c) stats"

text \<open>\<open>None\<close> is a listener that fails.\<close>

definition accept_one ::
  "'c net_ops \<Rightarrow> http_server \<Rightarrow> 'c option \<Rightarrow> serve_stats \<Rightarrow> 'c accepted result \<times> serve_stats" where
  "accept_one ops sv conn stats =
     (case conn of
        None \<Rightarrow> (Inl (Err Hardware), stats)
      | Some c \<Rightarrow>
          (let stats = stats\<lparr>ss_connections := ss_connections stats + 1\<rparr>;
               wr = TcpSink_write ops in
           case read_request ops (server_gate sv) [] c of
             (Inl e, _) \<Rightarrow> (Inl e, stats)
           | (Inr None, c1) \<Rightarrow>
               (let (a, stats1) = answer ServedBadRequest (write_status wr BadRequest c1) stats in (Inr a, stats1))
           | (Inr (Some request), c1) \<Rightarrow>
               (let (a, stats1) = dispatch wr sv c1 stats request in (Inr a, stats1))))"

definition serve_one ::
  "'c net_ops \<Rightarrow> http_server \<Rightarrow> 'p source \<Rightarrow> 'c option \<Rightarrow> 'p \<Rightarrow> serve_stats \<Rightarrow>
     (served result \<times> 'p \<times> serve_stats) option" where
  "serve_one ops sv next conn p stats =
     (case accept_one ops sv conn stats of
        (Inl e, stats1) \<Rightarrow> Some (Inl e, p, stats1)
      | (Inr (Answered served _), stats1) \<Rightarrow> Some (Inr served, p, stats1)
      | (Inr (StreamConn c), stats1) \<Rightarrow>
          map_option (\<lambda>(r, _, p1, stats2). (r, p1, stats2)) (StreamConn_run (TcpSink_write ops) next c p stats1))"

text \<open>\<open>loop { self.serve_one(...)? }\<close> over what the listener hands out; the end of the list is a
  listener that fails.\<close>

fun serve ::
  "'c net_ops \<Rightarrow> http_server \<Rightarrow> 'p source \<Rightarrow> 'c list \<Rightarrow> 'p \<Rightarrow> serve_stats \<Rightarrow> (unit result \<times> 'p \<times> serve_stats) option" where
  "serve ops sv next [] p stats =
     (case serve_one ops sv next None p stats of
        None \<Rightarrow> None
      | Some (Inl e, p1, stats1) \<Rightarrow> Some (Inl e, p1, stats1)
      | Some (Inr _, p1, stats1) \<Rightarrow> None)"
| "serve ops sv next (c # cs) p stats =
     (case serve_one ops sv next (Some c) p stats of
        None \<Rightarrow> None
      | Some (Inl e, p1, stats1) \<Rightarrow> Some (Inl e, p1, stats1)
      | Some (Inr _, p1, stats1) \<Rightarrow> serve ops sv next cs p1 stats1)"

section \<open>A connection that delivers its bytes in pieces\<close>

text \<open>The bytes still to be read, in the pieces they arrive in, and what was sent back. A read takes
  at most one piece, and no more than was asked for.\<close>

record wire =
  wi_in :: "bytes list"
  wi_out :: bytes

definition wire_read :: "'a wire_scheme \<Rightarrow> nat \<Rightarrow> bytes option \<times> 'a wire_scheme" where
  "wire_read w n =
     (case wi_in w of
        [] \<Rightarrow> (Some [], w)
      | c # cs \<Rightarrow> (Some (take n c), w\<lparr>wi_in := (if length c \<le> n then cs else drop n c # cs)\<rparr>))"

definition wire_write_all :: "wire \<Rightarrow> bytes \<Rightarrow> bool \<times> wire" where
  "wire_write_all w bs = (True, w\<lparr>wi_out := wi_out w @ bs\<rparr>)"

definition wire_ops :: "wire net_ops" where
  "wire_ops = \<lparr>op_read = wire_read, op_write_all = wire_write_all\<rparr>"

lemma wire_write [simp]: "TcpSink_write wire_ops w bs = (Inr (), w\<lparr>wi_out := wi_out w @ bs\<rparr>)"
  by (simp add: TcpSink_write_def wire_ops_def wire_write_all_def)

text \<open>What a server is to make of the bytes a client sends: the request head that ends in the first
  blank line of the first 2048 bytes, or none.\<close>

definition request_of :: "gate option \<Rightarrow> bytes \<Rightarrow> request option" where
  "request_of g bs =
     (case find_sub (take MAX_REQUEST_BYTES bs) (CRLF @ CRLF) of
        None \<Rightarrow> None
      | Some i \<Rightarrow> parse_text (take (i + 4) bs) g)"

lemma request_of_complete:
  assumes "find_sub head (CRLF @ CRLF) = Some i" "length head \<le> MAX_REQUEST_BYTES"
  shows "request_of g (head @ rest) = parse_text (take (i + 4) head) g"
proof -
  have "i + 4 \<le> length head" using assms(1) unfolding find_sub_blank_iff by simp
  moreover have "find_sub (take MAX_REQUEST_BYTES (head @ rest)) (CRLF @ CRLF) = Some i"
    using find_sub_extend [OF assms(1) CRLF_facts(5)] assms(2) by simp
  ultimately show ?thesis by (simp add: request_of_def)
qed

lemma read_request_wire:
  assumes "\<forall>c \<in> set (wi_in w). c \<noteq> []" "length head \<le> MAX_REQUEST_BYTES"
    and read: "op_read ops = wire_read"
  shows "\<exists>rest. read_request ops g head w = (Inr (request_of g (head @ concat (wi_in w))), w\<lparr>wi_in := rest\<rparr>)"
  using assms(1,2)
proof (induction "MAX_REQUEST_BYTES - length head" arbitrary: head w rule: less_induct)
  case less
  note un = read_request.simps [of ops g head w]
  show ?case
  proof (cases "find_sub head (CRLF @ CRLF)")
    case (Some i)
    then show ?thesis
      using request_of_complete [OF Some less.prems(2)] by (intro exI [of _ "wi_in w"]) (simp add: un head_complete_eq parse_request_eq)
  next
    case None
    then have hc: "head_complete head = Inr False" by (simp add: head_complete_eq)
    have empty: "request_of g (head @ rest) = None" if "rest = [] \<or> length head \<ge> MAX_REQUEST_BYTES" for rest
      using that None less.prems(2) by (auto simp: request_of_def)
    show ?thesis
    proof (cases "length head \<ge> MAX_REQUEST_BYTES \<or> wi_in w = []")
      case True
      then show ?thesis using empty hc
        by (intro exI [of _ "wi_in w"]) (auto simp: un, auto simp: read wire_read_def)
    next
      case False
      let ?n = "MAX_REQUEST_BYTES - length head"
      from False obtain c cs where c: "wi_in w = c # cs" by (cases "wi_in w") auto
      define w1 where "w1 = w\<lparr>wi_in := (if length c \<le> ?n then cs else drop ?n c # cs)\<rparr>"
      have ne: "c \<noteq> []" "take ?n c \<noteq> []" "\<forall>x \<in> set cs. x \<noteq> []" "\<not> length head \<ge> MAX_REQUEST_BYTES"
        using less.prems(1) c False by auto
      have step: "read_request ops g head w = read_request ops g (head @ take ?n c) w1"
        unfolding un hc sum.case bool.case if_not_P [OF ne(4)]
        using ne by (simp add: read wire_read_def c w1_def)
      obtain k where k: "length (take ?n c) = k" "0 < k" "k \<le> ?n" using ne(2) by (metis length_greater_0_conv length_take min.cobounded2)
      have smaller: "MAX_REQUEST_BYTES - length (head @ take ?n c) < MAX_REQUEST_BYTES - length head"
        "length (head @ take ?n c) \<le> MAX_REQUEST_BYTES" unfolding length_append k(1) using ne(4) k(2,3) by arith+
      have w1: "\<forall>x \<in> set (wi_in w1). x \<noteq> []" "concat (wi_in w) = take ?n c @ concat (wi_in w1)"
        "w1\<lparr>wi_in := rest\<rparr> = w\<lparr>wi_in := rest\<rparr>" for rest
        using ne(3) by (auto simp: w1_def c)
      from less.hyps [OF smaller(1) w1(1) smaller(2)] show ?thesis
        unfolding step w1(2,3) append.assoc .
    qed
  qed
qed

section \<open>What is answered\<close>

text \<open>The answer to a request, as a table: the stream (\<open>None\<close>), or what was served and the response.\<close>

fun respond :: "http_server \<Rightarrow> request option \<Rightarrow> (served \<times> bytes) option" where
  "respond sv None = Some (ServedBadRequest, snd (write_status Vec_write BadRequest []))"
| "respond sv (Some (Get (Status query) _)) =
     (case (hs_status sv, query) of
        (None, _) \<Rightarrow> Some (ServedNotFound, snd (write_status Vec_write NotFound []))
      | (Some _, InvalidQuery) \<Rightarrow> Some (ServedBadRequest, snd (write_status Vec_write BadRequest []))
      | (Some status, Plain) \<Rightarrow> Some (ServedStatus, snd (write_json Vec_write 200 (status None) []))
      | (Some status, Nonce n) \<Rightarrow> Some (ServedStatus, snd (write_json Vec_write 200 (status (Some n)) [])))"
| "respond sv (Some (Get _ False)) = Some (ServedForbidden, snd (write_status Vec_write Forbidden []))"
| "respond sv (Some (Get Stream True)) = None"
| "respond sv (Some (Get Index True)) = Some (ServedIndex, snd (write_index Vec_write (hs_token sv) []))"
| "respond sv (Some (Get Update True)) = Some (ServedMethodNotAllowed, snd (write_status Vec_write MethodNotAllowed []))"
| "respond sv (Some (Get _ True)) = Some (ServedNotFound, snd (write_status Vec_write NotFound []))"
| "respond sv (Some _) = Some (ServedMethodNotAllowed, snd (write_status Vec_write MethodNotAllowed []))"

lemma write_seq_wire: "write_seq (TcpSink_write wire_ops) bs w = (Inr (), w\<lparr>wi_out := wi_out w @ concat bs\<rparr>)"
  by (induction bs arbitrary: w) simp_all

lemma write_numbered_wire:
  "snd (write_numbered (TcpSink_write wire_ops) vs f w) = w\<lparr>wi_out := wi_out w @ snd (write_numbered Vec_write vs f [])\<rparr>"
  by (simp add: write_numbered_def write_seq_wire split: sum.split)

lemma responses_wire:
  "snd (write_status (TcpSink_write wire_ops) st w) = w\<lparr>wi_out := wi_out w @ snd (write_status Vec_write st [])\<rparr>"
  "snd (write_json (TcpSink_write wire_ops) code body w) = w\<lparr>wi_out := wi_out w @ snd (write_json Vec_write code body [])\<rparr>"
  "snd (write_index (TcpSink_write wire_ops) token w) = w\<lparr>wi_out := wi_out w @ snd (write_index Vec_write token [])\<rparr>"
  by (simp_all only: write_status_def write_json_def write_index_def Let_def write_numbered_wire prod.case_eq_if)

lemma dispatch_wire:
  "dispatch (TcpSink_write wire_ops) sv w stats r =
     (case respond sv (Some r) of
        None \<Rightarrow> (StreamConn w, stats)
      | Some (served, out) \<Rightarrow> (Answered served (w\<lparr>wi_out := wi_out w @ out\<rparr>), stats_other stats))"
  by (cases "(sv, Some r)" rule: respond.cases)
    (auto simp: answer_def responses_wire split: option.split StatusQuery.split)

lemma read_request_from_start:
  assumes "\<forall>c \<in> set cs. c \<noteq> []"
  obtains rest where "read_request wire_ops g [] \<lparr>wi_in = cs, wi_out = out\<rparr> =
    (Inr (request_of g (concat cs)), \<lparr>wi_in = rest, wi_out = out\<rparr>)"
  using read_request_wire [of "\<lparr>wi_in = cs, wi_out = out\<rparr>" "[]" wire_ops g] assms by (auto simp: wire_ops_def)

lemma accept_one_wire:
  assumes "\<forall>c \<in> set cs. c \<noteq> []"
  shows "\<exists>rest. accept_one wire_ops sv (Some \<lparr>wi_in = cs, wi_out = []\<rparr>) stats =
    (case respond sv (request_of (server_gate sv) (concat cs)) of
       None \<Rightarrow> (Inr (StreamConn \<lparr>wi_in = rest, wi_out = []\<rparr>), stats\<lparr>ss_connections := ss_connections stats + 1\<rparr>)
     | Some (served, out) \<Rightarrow>
         (Inr (Answered served \<lparr>wi_in = rest, wi_out = out\<rparr>),
          stats\<lparr>ss_connections := ss_connections stats + 1, ss_other := ss_other stats + 1\<rparr>))"
proof -
  let ?w = "\<lparr>wi_in = cs, wi_out = []\<rparr>"
  obtain rest where rest: "read_request wire_ops (server_gate sv) [] ?w =
      (Inr (request_of (server_gate sv) (concat cs)), \<lparr>wi_in = rest, wi_out = []\<rparr>)"
    using read_request_from_start [OF assms] by blast
  show ?thesis
  proof (cases "request_of (server_gate sv) (concat cs)")
    case None
    then show ?thesis
      by (intro exI [of _ rest]) (simp add: accept_one_def rest answer_def stats_other_def responses_wire)
  next
    case (Some r)
    then show ?thesis
      by (intro exI [of _ rest])
        (simp add: accept_one_def rest dispatch_wire stats_other_def split: option.split prod.split)
  qed
qed

text \<open>C11: A connection is answered by the table, from the bytes the client sent alone: in whatever
  pieces they arrive, the incremental reading, the checks for the blank line and the dispatch
  come to what \<open>respond\<close> says of the request in the first 2048 bytes, malformed, cut off and
  oversized requests included; an admitted \<open>/stream\<close> is handed back with nothing written. The
  connection is counted once, and as \<open>other\<close> exactly when it was answered.\<close>

theorem accept_one_refines_respond:
  assumes "\<forall>c \<in> set cs. c \<noteq> []"
  shows "\<exists>rest. accept_one wire_ops sv (Some \<lparr>wi_in = cs, wi_out = []\<rparr>) stats =
    (case respond sv (request_of (server_gate sv) (concat cs)) of
       None \<Rightarrow> (Inr (StreamConn \<lparr>wi_in = rest, wi_out = []\<rparr>), stats\<lparr>ss_connections := ss_connections stats + 1\<rparr>)
     | Some (served, out) \<Rightarrow>
         (Inr (Answered served \<lparr>wi_in = rest, wi_out = out\<rparr>),
          stats\<lparr>ss_connections := ss_connections stats + 1, ss_other := ss_other stats + 1\<rparr>))"
  by (rule accept_one_wire [OF assms])

theorem accept_one_refines_respond_witness:
  "\<exists>rest. accept_one wire_ops MjpegHttpServer_bind
      (Some \<lparr>wi_in = [ascii ''GET /stre'', ascii ''am HTTP/1.1'' @ CRLF, CRLF], wi_out = []\<rparr>) serve_stats_default =
    (Inr (StreamConn \<lparr>wi_in = rest, wi_out = []\<rparr>), serve_stats_default\<lparr>ss_connections := 1\<rparr>)"
proof -
  let ?cs = "[ascii ''GET /stre'', ascii ''am HTTP/1.1'' @ CRLF, CRLF]"
  have "\<forall>c \<in> set ?cs. c \<noteq> []" by (simp add: ascii_def CRLF_def)
  moreover have "respond MjpegHttpServer_bind (request_of (server_gate MjpegHttpServer_bind) (concat ?cs)) = None"
    by code_simp
  ultimately show ?thesis
    using accept_one_refines_respond [of ?cs MjpegHttpServer_bind serve_stats_default]
    by (simp add: serve_stats_default_def)
qed

section \<open>The gate in front of the page and the stream\<close>

text \<open>The request text presents the token: in the query of its target, or in the first \<open>Cookie\<close>
  header when the query names none.\<close>

definition presents :: "bytes \<Rightarrow> bytes \<Rightarrow> bytes \<Rightarrow> bool" where
  "presents text target token \<longleftrightarrow>
     (case query_param_split target TOKEN_PARAM of
        Some v \<Rightarrow> v = token
      | None \<Rightarrow> (\<exists>c. header_scan text (ascii ''cookie'') = Some c \<and> cookie_value (trim c) TOKEN_PARAM = Some token))"

lemma Gate_admits_presents:
  "Gate_admits \<lparr>gt_token = token\<rparr> target (map_option trim (header text (ascii ''cookie''))) \<longleftrightarrow> presents text target token"
proof -
  have "header text (ascii ''cookie'') = header_scan text (ascii ''cookie'')"
    by (rule header_eq_scan) (simp add: ascii_def)
  then show ?thesis
    by (auto simp: Gate_admits_def query_param_eq_split eq_constant_time_iff presents_def bind_eq_Some_conv
        split: option.splits)
qed

lemma parse_text_Get:
  "parse_text text g = Some (Get path admitted) \<longleftrightarrow> utf8_valid text \<and>
     (\<exists>line ls target. lines text = line # ls \<and> request_words line = Some (ascii ''GET'', target) \<and>
        path = target_path target \<and>
        admitted = (case g of None \<Rightarrow> True | Some gt \<Rightarrow> Gate_admits gt target (map_option trim (header text (ascii ''cookie'')))))"
proof -
  have "ascii ''GET'' \<noteq> ascii ''PUT''" "ascii ''GET'' \<noteq> ascii ''POST''" by (simp_all add: ascii_def)
  then show ?thesis by (auto simp: parse_text_def Let_def split: list.splits option.splits)
qed

text \<open>The request head in what a client sends: up to and with the first blank line, and no longer than
  the limit. A body, and whatever else follows, is not part of it.\<close>

definition request_head :: "bytes \<Rightarrow> bytes \<Rightarrow> bool" where
  "request_head bs head \<longleftrightarrow> head = take (length head) bs \<and> length head \<le> MAX_REQUEST_BYTES \<and>
     find_sub head (CRLF @ CRLF) = Some (length head - 4)"

lemma request_head_iff:
  "request_head bs head \<longleftrightarrow>
     (\<exists>i. find_sub (take MAX_REQUEST_BYTES bs) (CRLF @ CRLF) = Some i \<and> head = take (i + 4) bs)"
proof
  assume h: "request_head bs head"
  then have f: "find_sub head (CRLF @ CRLF) = Some (length head - 4)" "length head \<le> MAX_REQUEST_BYTES"
    and pre: "head = take (length head) bs" by (simp_all add: request_head_def)
  have "4 \<le> length head" using f(1) unfolding find_sub_blank_iff by simp
  moreover have "take MAX_REQUEST_BYTES bs = head @ drop (length head) (take MAX_REQUEST_BYTES bs)"
    using pre f(2) by (metis append_take_drop_id min.absorb1 take_take)
  with find_sub_extend [OF f(1) CRLF_facts(5)] have "find_sub (take MAX_REQUEST_BYTES bs) (CRLF @ CRLF) = Some (length head - 4)"
    by metis
  ultimately show "\<exists>i. find_sub (take MAX_REQUEST_BYTES bs) (CRLF @ CRLF) = Some i \<and> head = take (i + 4) bs"
    using pre by auto
next
  assume "\<exists>i. find_sub (take MAX_REQUEST_BYTES bs) (CRLF @ CRLF) = Some i \<and> head = take (i + 4) bs"
  then obtain i where f: "find_sub (take MAX_REQUEST_BYTES bs) (CRLF @ CRLF) = Some i" and h: "head = take (i + 4) bs" by blast
  have i: "i + 4 \<le> MAX_REQUEST_BYTES" "i + 4 \<le> length bs" using f unfolding find_sub_blank_iff by simp_all
  then have "head = take (i + 4) (take MAX_REQUEST_BYTES bs)" by (simp add: h min_def)
  then have "find_sub head (CRLF @ CRLF) = Some i"
    using find_sub_prefix [OF f CRLF_facts(5), of "i + 4"] by (simp add: CRLF_def)
  then show "request_head bs head" using i h by (simp add: request_head_def)
qed

text \<open>The client asks for a path with the token: a \<open>GET\<close> whose head presents it.\<close>

definition asks_with_token :: "bytes \<Rightarrow> bytes \<Rightarrow> path \<Rightarrow> bool" where
  "asks_with_token token bs path \<longleftrightarrow>
     (\<exists>head line ls target. request_head bs head \<and> utf8_valid head \<and> lines head = line # ls \<and>
        request_words line = Some (ascii ''GET'', target) \<and> target_path target = path \<and> presents head target token)"

lemma request_of_gated:
  assumes "hs_token sv = Some token"
  shows "request_of (server_gate sv) bs = Some (Get path True) \<longleftrightarrow> asks_with_token token bs path"
proof -
  have "server_gate sv = Some \<lparr>gt_token = token\<rparr>" using assms by (simp add: server_gate_def)
  then have g: "parse_text head (server_gate sv) = Some (Get path True) \<longleftrightarrow> utf8_valid head \<and>
      (\<exists>line ls target. lines head = line # ls \<and> request_words line = Some (ascii ''GET'', target) \<and>
        target_path target = path \<and> presents head target token)" for head
    by (auto simp: parse_text_Get Gate_admits_presents)
  show ?thesis unfolding asks_with_token_def request_head_iff
    by (auto simp: request_of_def g split: option.splits)
qed

lemma respond_admitted:
  "respond sv r = None \<longleftrightarrow> r = Some (Get Stream True)"
  "(\<exists>out. respond sv r = Some (ServedIndex, out)) \<longleftrightarrow> r = Some (Get Index True)"
  by (cases "(sv, r)" rule: respond.cases; auto split: option.splits StatusQuery.splits)+

text \<open>C8: A gated server hands out the stream, and the page that carries its token as a cookie, for
  exactly the requests that present the token: those whose head, the bytes up to and with the first blank
  line and no more than 2048, is text, asks for \<open>/stream\<close> or for the page with \<open>GET\<close>, and has the
  token, whole, as the first \<open>t\<close> of its query, or, only when the query has none, in the first \<open>Cookie\<close> header
  of that head. No way of cutting the request into pieces changes that, nor does what follows the
  head.\<close>

theorem gated_server_is_safe:
  assumes "hs_token sv = Some token" "\<forall>c \<in> set cs. c \<noteq> []"
  shows "\<exists>a stats'. accept_one wire_ops sv (Some \<lparr>wi_in = cs, wi_out = []\<rparr>) stats = (Inr a, stats') \<and>
    ((\<exists>w. a = StreamConn w) \<longleftrightarrow> asks_with_token token (concat cs) Stream) \<and>
    ((\<exists>w. a = Answered ServedIndex w) \<longleftrightarrow> asks_with_token token (concat cs) Index)"
proof -
  note r = request_of_gated [OF assms(1), of "concat cs"]
  from accept_one_wire [OF assms(2), of sv stats] show ?thesis
    unfolding r [symmetric] respond_admitted(1) [of sv, symmetric] respond_admitted(2) [symmetric, of _ sv]
    by (cases "respond sv (request_of (server_gate sv) (concat cs))") auto
qed

theorem gated_server_is_safe_witness:
  "\<exists>a stats'. accept_one wire_ops (gated (ascii ''k'') MjpegHttpServer_bind)
      (Some \<lparr>wi_in = [ascii ''GET /?t=k'' @ CRLF, CRLF @ ascii ''t=x''], wi_out = []\<rparr>) serve_stats_default = (Inr a, stats') \<and>
    (\<exists>w. a = Answered ServedIndex w)"
proof -
  let ?cs = "[ascii ''GET /?t=k'' @ CRLF, CRLF @ ascii ''t=x'']" and ?sv = "gated (ascii ''k'') MjpegHttpServer_bind"
  let ?h = "ascii ''GET /?t=k'' @ CRLF @ CRLF"
  have cs: "\<forall>c \<in> set ?cs. c \<noteq> []" by (simp add: ascii_def CRLF_def)
  have sv: "hs_token ?sv = Some (ascii ''k'')" by (simp add: gated_def)
  have "find_sub ?h (CRLF @ CRLF) = Some (length ?h - 4)" "utf8_valid ?h" "lines ?h = [ascii ''GET /?t=k'', []]"
    "request_words (ascii ''GET /?t=k'') = Some (ascii ''GET'', ascii ''/?t=k'')" "target_path (ascii ''/?t=k'') = Index"
    by code_simp+
  moreover have "query_param_split (ascii ''/?t=k'') TOKEN_PARAM = Some (ascii ''k'')" by code_simp
  then have "presents ?h (ascii ''/?t=k'') (ascii ''k'')" by (simp add: presents_def)
  moreover have "?h = take (length ?h) (concat ?cs)" "length ?h \<le> MAX_REQUEST_BYTES"
    by (simp_all add: ascii_def CRLF_def MAX_REQUEST_BYTES_def)
  ultimately have "asks_with_token (ascii ''k'') (concat ?cs) Index"
    unfolding asks_with_token_def request_head_def by blast
  with gated_server_is_safe [OF sv cs, of serve_stats_default] show ?thesis by blast
qed

section \<open>The counters\<close>

definition run_counts :: "serve_stats \<Rightarrow> nat \<Rightarrow> served result \<times> 'm \<times> 'p \<times> serve_stats \<Rightarrow> bool" where
  "run_counts stats frames = (\<lambda>(r, _, _, stats1). \<exists>n. stats1 = stats\<lparr>ss_frames := ss_frames stats + n\<rparr> \<and>
     (\<forall>x. r = Inr x \<longrightarrow> x = ServedStream (frames + n)))"

lemma run_counts_Suc:
  "run_counts (stats\<lparr>ss_frames := Suc (ss_frames stats)\<rparr>) (Suc frames) y \<Longrightarrow> run_counts stats frames y"
proof -
  assume "run_counts (stats\<lparr>ss_frames := Suc (ss_frames stats)\<rparr>) (Suc frames) y"
  then obtain r m p n where "y = (r, m, p, stats\<lparr>ss_frames := ss_frames stats + Suc n\<rparr>)"
    "\<forall>x. r = Inr x \<longrightarrow> x = ServedStream (frames + Suc n)" by (cases y) (auto simp: run_counts_def)
  then show ?thesis unfolding run_counts_def by blast
qed

lemma run_counts_ends [simp]:
  "run_counts stats frames (Inl e, m, p, stats)" "run_counts stats frames (Inr (ServedStream frames), m, p, stats)"
  by (auto simp: run_counts_def intro: exI [of _ 0])

lemma run_loop_counts:
  assumes "run_loop wr next mp p stats frames = Some y"
  shows "run_counts stats frames y"
proof (rule run_loop.raw_induct [of "\<lambda>wr nx mp p stats frames y. run_counts stats frames y", OF _ assms])
  fix rl :: "'a writer \<Rightarrow> 'b source \<Rightarrow> 'a multipart \<Rightarrow> 'b \<Rightarrow> serve_stats \<Rightarrow> nat \<Rightarrow>
    (served result \<times> 'a multipart \<times> 'b \<times> serve_stats) option"
  fix wr nx mp p stats frames y
  assume ih: "\<And>wr nx mp p stats frames y. rl wr nx mp p stats frames = Some y \<Longrightarrow> run_counts stats frames y"
    and body: "(case nx p of None \<Rightarrow> None
      | Some (Inl e, p1) \<Rightarrow> Some (Inl e, mp, p1, stats)
      | Some (Inr packet, p1) \<Rightarrow>
          (case Multipart_push wr packet mp of
             (Inl e, mp1) \<Rightarrow>
               if e = Err Hardware then Some (Inr (ServedStream frames), mp1, p1, stats)
               else Some (Inl e, mp1, p1, stats)
           | (Inr _, mp1) \<Rightarrow> rl wr nx mp1 p1 (stats\<lparr>ss_frames := ss_frames stats + 1\<rparr>) (frames + 1))) = Some y"
  show "run_counts stats frames y"
    using body by (auto split: option.splits prod.splits sum.splits if_splits dest!: ih run_counts_Suc)
qed

lemma StreamConn_run_counts:
  assumes "StreamConn_run wr next c p stats = Some (r, mp1, p1, stats1)"
  shows "\<exists>n k. stats1 = stats\<lparr>ss_streams := ss_streams stats + k, ss_frames := ss_frames stats + n\<rparr> \<and>
    k \<le> 1 \<and> (k = 0 \<longrightarrow> n = 0) \<and> (\<forall>x. r = Inr x \<longrightarrow> x = ServedStream n)"
proof (cases "Multipart_write_response_head wr (Multipart_new c)")
  case (Pair x mp)
  show ?thesis
  proof (cases x)
    case (Inl e)
    then show ?thesis using assms Pair by (intro exI [of _ 0]) (auto simp: StreamConn_run_def)
  next
    case (Inr u)
    then have "run_loop wr next mp p (stats\<lparr>ss_streams := ss_streams stats + 1\<rparr>) 0 = Some (r, mp1, p1, stats1)"
      using assms Pair by (simp add: StreamConn_run_def)
    from run_loop_counts [OF this] obtain n where
      "stats1 = stats\<lparr>ss_streams := ss_streams stats + 1\<rparr>\<lparr>ss_frames := ss_frames stats + n\<rparr>"
      "\<forall>x. r = Inr x \<longrightarrow> x = ServedStream n" by (auto simp: run_counts_def)
    then show ?thesis by (intro exI [of _ n] exI [of _ 1]) simp
  qed
qed

lemma dispatch_counts:
  "case dispatch wr sv c stats r of
     (Answered _ _, stats1) \<Rightarrow> stats1 = stats_other stats
   | (StreamConn _, stats1) \<Rightarrow> stats1 = stats"
  by (cases r) (auto simp: answer_def split: path.splits option.splits)

lemma accept_one_counts:
  assumes "accept_one ops sv conn stats = (x, stats1)"
  shows "(stats1 = stats \<and> x = Inl (Err Hardware)) \<or>
    (\<exists>k. stats1 = stats\<lparr>ss_connections := ss_connections stats + 1, ss_other := ss_other stats + k\<rparr> \<and> k \<le> 1 \<and>
      (\<forall>w. x = Inr (StreamConn w) \<longrightarrow> k = 0) \<and> (\<forall>s w. x = Inr (Answered s w) \<longrightarrow> k = 1))"
proof (cases conn)
  case None
  then show ?thesis using assms by (simp add: accept_one_def)
next
  case (Some c)
  obtain y c1 where y: "read_request ops (server_gate sv) [] c = (y, c1)" by (cases "read_request ops (server_gate sv) [] c")
  let ?st = "stats\<lparr>ss_connections := ss_connections stats + 1\<rparr>"
  show ?thesis
  proof (cases y)
    case (Inl e)
    then show ?thesis using assms Some y by (intro disjI2 exI [of _ 0]) (auto simp: accept_one_def Let_def)
  next
    case (Inr q)
    show ?thesis
    proof (cases q)
      case None
      then show ?thesis using assms Some y Inr
        by (intro disjI2 exI [of _ 1]) (auto simp: accept_one_def Let_def answer_def stats_other_def)
    next
      case R: (Some request)
      obtain a st1 where d: "dispatch (TcpSink_write ops) sv c1 ?st request = (a, st1)"
        by (cases "dispatch (TcpSink_write ops) sv c1 ?st request")
      have e: "x = Inr a" "stats1 = st1" using assms Some y Inr R d by (simp_all add: accept_one_def Let_def)
      from dispatch_counts [where wr = "TcpSink_write ops" and sv = sv and c = c1 and stats = ?st and r = request] show ?thesis
        unfolding e d prod.case by (cases a) (auto simp: stats_other_def intro: exI [of _ 0] exI [of _ 1])
    qed
  qed
qed

text \<open>The states of the counters and of the source in any run of the server, over connections that do
  anything, failed accepts included.\<close>

inductive server_run :: "'c net_ops \<Rightarrow> http_server \<Rightarrow> 'p source \<Rightarrow> 'p \<Rightarrow> serve_stats \<Rightarrow> bool"
  for ops :: "'c net_ops" and sv :: http_server and "next" :: "'p source" where
  start: "server_run ops sv next p serve_stats_default"
| connection: "server_run ops sv next p stats \<Longrightarrow> serve_one ops sv next conn p stats = Some (r, p1, stats1) \<Longrightarrow>
    server_run ops sv next p1 stats1"

definition stats_ok :: "serve_stats \<Rightarrow> bool" where
  "stats_ok stats \<longleftrightarrow> ss_other stats + ss_streams stats \<le> ss_connections stats \<and> (ss_streams stats = 0 \<longrightarrow> ss_frames stats = 0)"

lemma serve_one_ok:
  assumes "serve_one ops sv next conn p stats = Some (r, p1, stats1)" "stats_ok stats"
  shows "stats_ok stats1"
proof -
  obtain x st where x: "accept_one ops sv conn stats = (x, st)" by (cases "accept_one ops sv conn stats")
  note c = accept_one_counts [OF x]
  show ?thesis
  proof (cases x)
    case (Inl e)
    then have "stats1 = st" using assms(1) x by (simp add: serve_one_def)
    then show ?thesis using c assms(2) by (auto simp: stats_ok_def)
  next
    case (Inr a)
    show ?thesis
    proof (cases a)
      case (Answered s w)
      then have "stats1 = st" using assms(1) x Inr by (simp add: serve_one_def)
      then show ?thesis using c assms(2) by (auto simp: stats_ok_def)
    next
      case (StreamConn w)
      then obtain mp1 where "StreamConn_run (TcpSink_write ops) next w p st = Some (r, mp1, p1, stats1)"
        using assms(1) x Inr by (auto simp: serve_one_def)
      from StreamConn_run_counts [OF this] c assms(2) show ?thesis
        unfolding Inr StreamConn by (auto simp: stats_ok_def)
    qed
  qed
qed

text \<open>C29: In every run of the server, whatever the connections do, each connection is counted at most
  once as a stream or as another answer, and no frame is counted before a stream was.\<close>

theorem server_counters:
  assumes "server_run ops sv next p stats"
  shows "ss_other stats + ss_streams stats \<le> ss_connections stats \<and> (ss_streams stats = 0 \<longrightarrow> ss_frames stats = 0)"
proof -
  from assms have "stats_ok stats"
  proof (induction rule: server_run.induct)
    case (start p)
    show ?case by (simp add: stats_ok_def serve_stats_default_def)
  next
    case (connection p stats conn r p1 stats1)
    show ?case by (rule serve_one_ok [OF connection.hyps(2) connection.IH])
  qed
  then show ?thesis by (simp add: stats_ok_def)
qed

theorem server_counters_witness:
  "server_run wire_ops MjpegHttpServer_bind (\<lambda>p :: unit. Some (Inl (Err Hardware), p)) () (stats_other (serve_stats_default\<lparr>ss_connections := 1\<rparr>)) \<and>
   ss_other (stats_other (serve_stats_default\<lparr>ss_connections := 1\<rparr>)) + ss_streams (stats_other (serve_stats_default\<lparr>ss_connections := 1\<rparr>))
     \<le> ss_connections (stats_other (serve_stats_default\<lparr>ss_connections := 1\<rparr>))"
proof -
  let ?w = "\<lparr>wi_in = [], wi_out = []\<rparr>" and ?src = "\<lambda>p :: unit. Some (Inl (Err Hardware), p)"
  let ?st = "stats_other (serve_stats_default\<lparr>ss_connections := 1\<rparr>)"
  have "\<forall>c \<in> set ([] :: bytes list). c \<noteq> []" by simp
  then obtain rest where rest: "read_request wire_ops (server_gate MjpegHttpServer_bind) [] ?w =
      (Inr (request_of (server_gate MjpegHttpServer_bind) (concat [])), \<lparr>wi_in = rest, wi_out = []\<rparr>)"
    by (rule read_request_from_start)
  have "find_sub [] (CRLF @ CRLF) = None" by code_simp
  then have "request_of (server_gate MjpegHttpServer_bind) (concat []) = None" by (simp add: request_of_def)
  with rest have "serve_one wire_ops MjpegHttpServer_bind ?src (Some ?w) () serve_stats_default = Some (Inr ServedBadRequest, (), ?st)"
    by (simp add: serve_one_def accept_one_def Let_def answer_def serve_stats_default_def)
  from server_run.connection [OF server_run.start this] have "server_run wire_ops MjpegHttpServer_bind ?src () ?st" .
  with server_counters [OF this] show ?thesis by blast
qed

section \<open>When a stream ends\<close>

text \<open>A viewer that takes in only so much: \<open>room\<close> bounds what it still accepts, whatever it is sent.\<close>

definition takes_at_most :: "'c writer \<Rightarrow> ('c \<Rightarrow> nat) \<Rightarrow> bool" where
  "takes_at_most wr room \<longleftrightarrow>
     (\<forall>c bs u c1. wr c bs = (Inr u, c1) \<longrightarrow> room c1 \<le> room c \<and> (bs \<noteq> [] \<longrightarrow> room c1 < room c))"

lemma write_seq_room:
  "takes_at_most wr room \<Longrightarrow> write_seq wr bs c = (Inr u, c1) \<Longrightarrow> room c1 \<le> room c \<and> (bs \<noteq> [] \<longrightarrow> List.hd bs \<noteq> [] \<longrightarrow> room c1 < room c)"
proof (induction bs arbitrary: c)
  case (Cons b bs)
  from Cons.prems(2) obtain v c2 where w: "wr c b = (Inr v, c2)" "write_seq wr bs c2 = (Inr u, c1)"
    by (auto split: prod.splits sum.splits)
  from w(1) Cons.prems(1) have "room c2 \<le> room c" "b \<noteq> [] \<longrightarrow> room c2 < room c" by (auto simp: takes_at_most_def)
  then show ?case using Cons.IH [OF Cons.prems(1) w(2)] by auto
qed simp

lemma Multipart_push_room:
  assumes "takes_at_most wr room" "Multipart_push wr pkt m = (Inr u, m1)"
  shows "room (mt_sink m1) < room (mt_sink m)"
proof -
  have f: "fmt_u64 v (replicate 20 0) = Inr (decimal (unat v))" for v by (rule fmt_u64_decimal) simp
  from assms(2) obtain bs v s where bs: "write_seq wr (ascii ''--'' # bs) (mt_sink m) = (Inr v, s)" "m1 = m\<lparr>mt_sink := s, mt_frames := mt_frames m + 1\<rparr>"
    by (auto simp: Multipart_push_def Let_def f simp del: write_seq.simps split: if_splits prod.splits sum.splits)
  have "ascii ''--'' \<noteq> []" by (simp add: ascii_def)
  with write_seq_room [OF assms(1) bs(1)] bs(2) show ?thesis by simp
qed

lemma write_seq_TcpSink_error: "write_seq (TcpSink_write ops) bs c = (Inl e, c1) \<Longrightarrow> e = Err Hardware"
  by (induction bs arbitrary: c) (auto simp: TcpSink_write_def split: prod.splits sum.splits bool.splits)

lemma Multipart_push_TcpSink_error:
  "Multipart_push (TcpSink_write ops) pkt m = (Inl e, m1) \<Longrightarrow> e = Err Hardware \<or> e = Err Unsupported"
proof -
  have f: "fmt_u64 v (replicate 20 0) = Inr (decimal (unat v))" for v by (rule fmt_u64_decimal) simp
  assume "Multipart_push (TcpSink_write ops) pkt m = (Inl e, m1)"
  then show ?thesis
    by (auto simp: Multipart_push_def Let_def f simp del: write_seq.simps split: if_splits prod.splits sum.splits
        dest!: write_seq_TcpSink_error)
qed

definition stream_ending :: "'p source \<Rightarrow> served result \<Rightarrow> bool" where
  "stream_ending src r \<longleftrightarrow>
     (case r of Inr s \<Rightarrow> \<exists>n. s = ServedStream n | Inl e \<Rightarrow> e = Err Unsupported \<or> (\<exists>p p1. src p = Some (Inl e, p1)))"

lemma run_loop_ends:
  assumes "takes_at_most (TcpSink_write ops) room" "\<forall>p. src p \<noteq> None"
  shows "\<exists>r mp1 p1 stats1. run_loop (TcpSink_write ops) src mp p stats frames = Some (r, mp1, p1, stats1) \<and> stream_ending src r"
proof (induction "room (mt_sink mp)" arbitrary: mp p stats frames rule: less_induct)
  case less
  note un = run_loop.simps [of "TcpSink_write ops" src mp p stats frames]
  obtain x p1 where x: "src p = Some (x, p1)" using spec [OF assms(2), of p] by (cases "src p") auto
  show ?case
  proof (cases x)
    case (Inl e)
    then show ?thesis using x un by (auto simp: stream_ending_def)
  next
    case (Inr pkt)
    obtain y mp1 where y: "Multipart_push (TcpSink_write ops) pkt mp = (y, mp1)"
      by (cases "Multipart_push (TcpSink_write ops) pkt mp")
    show ?thesis
    proof (cases y)
      case (Inl e)
      then show ?thesis using x y \<open>x = Inr pkt\<close> un Multipart_push_TcpSink_error [of ops pkt mp e mp1]
        by (auto simp: stream_ending_def)
    next
      case (Inr u)
      then have "room (mt_sink mp1) < room (mt_sink mp)" using Multipart_push_room [OF assms(1)] y by blast
      from less.hyps [OF this, of p1 "stats\<lparr>ss_frames := ss_frames stats + 1\<rparr>" "frames + 1"]
      show ?thesis using x y \<open>x = Inr pkt\<close> Inr un by simp
    qed
  qed
qed

text \<open>C26: A stream ends: to a viewer that takes in only a bounded amount, whatever a source that returns
  does, \<open>run\<close> returns. It reports the frames it pushed (as many as were counted) when the viewer left,
  and otherwise returns the source's own error, or \<open>Unsupported\<close> for a packet that is no JPEG.\<close>

theorem StreamConn_run_returns:
  assumes "takes_at_most (TcpSink_write ops) room" "\<forall>p. src p \<noteq> None"
  shows "\<exists>r mp1 p1 stats1. StreamConn_run (TcpSink_write ops) src c p stats = Some (r, mp1, p1, stats1) \<and>
    (case r of
       Inr s \<Rightarrow> s = ServedStream (ss_frames stats1 - ss_frames stats)
     | Inl e \<Rightarrow> e = Err Unsupported \<or> (\<exists>q q1. src q = Some (Inl e, q1)))"
proof -
  obtain r mp1 p1 stats1 where r: "StreamConn_run (TcpSink_write ops) src c p stats = Some (r, mp1, p1, stats1)" "stream_ending src r"
  proof (cases "Multipart_write_response_head (TcpSink_write ops) (Multipart_new c)")
    case (Pair x mp)
    show thesis
    proof (cases x)
      case (Inl e)
      then show thesis using that Pair by (simp add: StreamConn_run_def stream_ending_def)
    next
      case (Inr u)
      then show thesis
        using that run_loop_ends [OF assms, of mp p "stats\<lparr>ss_streams := ss_streams stats + 1\<rparr>" 0] Pair
        by (auto simp: StreamConn_run_def)
    qed
  qed
  from StreamConn_run_counts [OF r(1)] r show ?thesis
    by (intro exI [of _ r] exI [of _ mp1] exI [of _ p1] exI [of _ stats1]) (auto simp: stream_ending_def split: sum.splits)
qed

text \<open>A connection with room for so many bytes.\<close>

definition bounded_ops :: "nat net_ops" where
  "bounded_ops = \<lparr>op_read = (\<lambda>c n. (Some [], c)), op_write_all = (\<lambda>c bs. if length bs \<le> c then (True, c - length bs) else (False, 0))\<rparr>"

theorem StreamConn_run_returns_witness:
  "\<exists>r mp1 p1 stats1. StreamConn_run (TcpSink_write bounded_ops)
      (\<lambda>p. Some (Inr \<lparr>mp_codec = Jpeg, mp_key = True, mp_timestamp = of_nat p, mp_data = [255, 216, 255, 217]\<rparr>, p + 1 :: nat)) 400 0
      serve_stats_default = Some (r, mp1, p1, stats1) \<and>
    (case r of Inr s \<Rightarrow> s = ServedStream (ss_frames stats1) | Inl e \<Rightarrow> e = Err Unsupported)"
proof -
  have "takes_at_most (TcpSink_write bounded_ops) id"
    by (auto simp: takes_at_most_def TcpSink_write_def bounded_ops_def neq_Nil_conv split: if_splits)
  from StreamConn_run_returns [OF this, of "\<lambda>p. Some (Inr \<lparr>mp_codec = Jpeg, mp_key = True, mp_timestamp = of_nat p,
      mp_data = [255, 216, 255, 217]\<rparr>, p + 1 :: nat)" 400 0 serve_stats_default]
  show ?thesis by (auto simp: serve_stats_default_def split: sum.splits)
qed


text \<open>And it ends for no other reason: while every write succeeds and every packet is a JPEG, the loop
  runs on.\<close>

lemma Multipart_push_accepted:
  assumes "\<forall>c bs. \<exists>c1. wr c bs = (Inr (), c1)" "mp_codec pkt = Jpeg" "mp_data pkt \<noteq> []"
  shows "\<exists>m1. Multipart_push wr pkt m = (Inr (), m1)"
proof -
  have w: "\<exists>c1. write_seq wr bs c = (Inr (), c1)" for bs c
  proof (induction bs arbitrary: c)
    case (Cons b bs)
    obtain c1 where "wr c b = (Inr (), c1)" using assms(1) by blast
    then show ?case using Cons by simp
  qed simp
  have f: "fmt_u64 v (replicate 20 0) = Inr (decimal (unat v))" for v by (rule fmt_u64_decimal) simp
  obtain c1 where "write_seq wr [ascii ''--'', mt_boundary m,
      CRLF @ ascii ''Content-Type: image/jpeg'' @ CRLF @ ascii ''Content-Length: '',
      decimal (unat (of_nat (length (mp_data pkt)) :: u64)), CRLF @ ascii ''X-Timestamp: '', decimal (unat (mp_timestamp pkt)),
      CRLF @ CRLF, mp_data pkt, CRLF] (mt_sink m) = (Inr (), c1)" using w by blast
  then show ?thesis using assms(2,3) by (simp add: Multipart_push_def Let_def f del: write_seq.simps)
qed

lemma run_loop_runs_on:
  assumes "\<forall>c bs. \<exists>c1. wr c bs = (Inr (), c1)"
    and "\<forall>p. \<exists>pkt p1. src p = Some (Inr pkt, p1) \<and> mp_codec pkt = Jpeg \<and> mp_data pkt \<noteq> []"
  shows "run_loop wr src mp p stats frames = None"
proof (cases "run_loop wr src mp p stats frames")
  case (Some y)
  have "\<not> (wr' = wr \<and> src' = src)" if "run_loop wr' src' mp p stats frames = Some y" for wr' src'
  proof (rule run_loop.raw_induct [of "\<lambda>wr' src' mp p stats frames y. \<not> (wr' = wr \<and> src' = src)", OF _ that], rule notI, elim conjE)
    fix rl :: "'a writer \<Rightarrow> 'b source \<Rightarrow> 'a multipart \<Rightarrow> 'b \<Rightarrow> serve_stats \<Rightarrow> nat \<Rightarrow>
      (served result \<times> 'a multipart \<times> 'b \<times> serve_stats) option"
    fix wr' src' mp p stats frames y
    assume ih: "\<And>wr' src' mp p stats frames y. rl wr' src' mp p stats frames = Some y \<Longrightarrow> \<not> (wr' = wr \<and> src' = src)"
      and body: "(case src' p of None \<Rightarrow> None
        | Some (Inl e, p1) \<Rightarrow> Some (Inl e, mp, p1, stats)
        | Some (Inr packet, p1) \<Rightarrow>
            (case Multipart_push wr' packet mp of
               (Inl e, mp1) \<Rightarrow>
                 if e = Err Hardware then Some (Inr (ServedStream frames), mp1, p1, stats)
                 else Some (Inl e, mp1, p1, stats)
             | (Inr _, mp1) \<Rightarrow> rl wr' src' mp1 p1 (stats\<lparr>ss_frames := ss_frames stats + 1\<rparr>) (frames + 1))) = Some y"
      and same: "wr' = wr" "src' = src"
    obtain pkt p1 where s: "src p = Some (Inr pkt, p1)" "mp_codec pkt = Jpeg" "mp_data pkt \<noteq> []" using assms(2) by blast
    obtain m1 where "Multipart_push wr pkt mp = (Inr (), m1)" using Multipart_push_accepted [OF assms(1) s(2,3)] by blast
    then show False using body ih same s by (auto dest: ih)
  qed
  from this [OF Some] show ?thesis by simp
qed simp

section \<open>Where the documentation says otherwise\<close>

text \<open>A gated server answers a request that is no \<open>GET\<close> with 405, token or not; \<open>serve\<close> also returns
  when accepting fails, and when the source yields a packet that is no JPEG.\<close>

lemma gated_put_is_405:
  "respond (gated token sv) (Some (Put path False n)) = Some (ServedMethodNotAllowed, snd (write_status Vec_write MethodNotAllowed []))"
  by simp

lemma serve_accept_fails: "serve ops sv src [] p stats = Some (Inl (Err Hardware), p, stats)"
  by (simp add: serve_one_def accept_one_def)

lemma run_loop_not_jpeg:
  "src p = Some (Inr pkt, p1) \<Longrightarrow> mp_codec pkt \<noteq> Jpeg \<Longrightarrow>
   run_loop wr src mp p stats frames = Some (Inl (Err Unsupported), mp, p1, stats)"
  by (subst run_loop.simps) (simp add: Multipart_push_def)

end
