(* ===== verification/Encoder.thy ===== *)
theory Encoder
  imports Media Annexb
begin

text \<open>
  The encoder seam and what sits behind it: the JPEG passthrough of \<open>encoder.rs\<close>, the software
  JPEG encoder of \<open>jpeg.rs\<close>, the H.264 encoder of \<open>h264.rs\<close> and the choice between them,
  \<open>policy.rs\<close>. Frames, geometries and the encoders themselves belong to other crates: the data
  has the fields their clients name, the functions are parameters.
\<close>

section \<open>Frames\<close>

datatype pixel_format =
    JpegFormat
  | Yuv420p
  | Yuyv422
  | Rgb888
  | Bgr888
  | Rgba8888
  | Gray8
  | OtherFormat nat

record geometry =
  gm_width :: nat
  gm_height :: nat
  gm_format :: pixel_format

text \<open>A borrowed slice: where it is and what it holds.\<close>

record span =
  sp_ptr :: nat
  sp_data :: bytes

record plane =
  pn_data :: span
  pn_stride :: nat

datatype planes = Packed span | Planar plane plane plane

record frame =
  fr_geometry :: geometry
  fr_timestamp :: micros
  fr_sequence :: u32
  fr_planes :: planes

section \<open>The seam\<close>

record encoder_config =
  ec_bitrate_kbps :: u32
  ec_fps :: u8
  ec_gop :: u16
  ec_quality :: u8

definition EncoderConfig_default :: encoder_config where
  "EncoderConfig_default = \<lparr>ec_bitrate_kbps = 0, ec_fps = 15, ec_gop = 15, ec_quality = 80\<rparr>"

text \<open>\<open>encode\<close> gets the frame and the output buffer, and returns the packet (whose bytes are in one
  of the two), the buffer and the encoder.\<close>

record 'e video_encoder =
  ve_codec :: codec
  ve_configure :: "geometry \<Rightarrow> encoder_config \<Rightarrow> ('e, unit) op"
  ve_encode :: "frame \<Rightarrow> bytes \<Rightarrow> 'e \<Rightarrow> media_packet result \<times> bytes \<times> 'e"
  ve_request_keyframe :: "'e \<Rightarrow> 'e"

section \<open>Passthrough\<close>

record passthrough =
  pt_geometry :: "geometry option"

definition Passthrough_default :: passthrough where
  "Passthrough_default = \<lparr>pt_geometry = None\<rparr>"

definition Passthrough_configure :: "geometry \<Rightarrow> encoder_config \<Rightarrow> (passthrough, unit) op" where
  "Passthrough_configure g config p =
     (if gm_format g \<noteq> JpegFormat then (Inl (Err Unsupported), p)
      else (Inr (), p\<lparr>pt_geometry := Some g\<rparr>))"

text \<open>\<open>coded\<close> is \<open>Frame::coded\<close>, of the crate that has the frames.\<close>

definition Passthrough_encode ::
  "(frame \<Rightarrow> bytes option) \<Rightarrow> frame \<Rightarrow> bytes \<Rightarrow> passthrough \<Rightarrow> media_packet result \<times> bytes \<times> passthrough" where
  "Passthrough_encode coded fr out p =
     (case coded fr of
        None \<Rightarrow> (Inl (Err Unsupported), out, p)
      | Some d \<Rightarrow>
          (Inr \<lparr>mp_codec = Jpeg, mp_key = True, mp_timestamp = fr_timestamp fr, mp_data = d\<rparr>, out, p))"

definition Passthrough_encoder :: "(frame \<Rightarrow> bytes option) \<Rightarrow> passthrough video_encoder" where
  "Passthrough_encoder coded =
     \<lparr>ve_codec = Jpeg, ve_configure = Passthrough_configure, ve_encode = Passthrough_encode coded,
      ve_request_keyframe = id\<rparr>"

section \<open>The software JPEG encoder\<close>

record soft_jpeg =
  sj_geometry :: "geometry option"
  sj_quality :: u8
  sj_frames :: u32

definition SoftJpeg_new :: soft_jpeg where
  "SoftJpeg_new = \<lparr>sj_geometry = None, sj_quality = 80, sj_frames = 0\<rparr>"

definition SoftJpeg_configure :: "geometry \<Rightarrow> encoder_config \<Rightarrow> (soft_jpeg, unit) op" where
  "SoftJpeg_configure g config e =
     (if gm_format g \<notin> {Yuyv422, Rgb888, Bgr888, Rgba8888, Gray8} then (Inl (Err Unsupported), e)
      else if gm_width g = 0 \<or> gm_height g = 0 \<or> gm_width g > 65535 \<or> gm_height g > 65535
      then (Inl (Err InvalidGeometry), e)
      else
        (Inr (), \<lparr>sj_geometry = Some g,
           sj_quality = (if ec_quality config = 0 then 80 else min (ec_quality config) 100), sj_frames = 0\<rparr>))"

text \<open>\<open>encode_frame\<close> is the image crate's: it returns the buffer and the length it wrote, or an error.\<close>

definition SoftJpeg_encode ::
  "(frame \<Rightarrow> u8 \<Rightarrow> bytes \<Rightarrow> nat result \<times> bytes) \<Rightarrow> frame \<Rightarrow> bytes \<Rightarrow> soft_jpeg \<Rightarrow>
     media_packet result \<times> bytes \<times> soft_jpeg" where
  "SoftJpeg_encode encode_frame fr out e =
     (case sj_geometry e of
        None \<Rightarrow> (Inl (Err Unsupported), out, e)
      | Some g \<Rightarrow>
          if fr_geometry fr \<noteq> g then (Inl (Err InvalidGeometry), out, e)
          else
            (case encode_frame fr (sj_quality e) out of
               (Inl err, out1) \<Rightarrow> (Inl err, out1, e)
             | (Inr n, out1) \<Rightarrow>
                 (let e1 = e\<lparr>sj_frames := sj_frames e + 1\<rparr> in
                  case subslice out1 0 n of
                    Inl err \<Rightarrow> (Inl err, out1, e1)
                  | Inr d \<Rightarrow>
                      (Inr \<lparr>mp_codec = Jpeg, mp_key = True, mp_timestamp = fr_timestamp fr, mp_data = d\<rparr>, out1, e1))))"

definition SoftJpeg_encoder :: "(frame \<Rightarrow> u8 \<Rightarrow> bytes \<Rightarrow> nat result \<times> bytes) \<Rightarrow> soft_jpeg video_encoder" where
  "SoftJpeg_encoder encode_frame =
     \<lparr>ve_codec = Jpeg, ve_configure = SoftJpeg_configure, ve_encode = SoftJpeg_encode encode_frame,
      ve_request_keyframe = id\<rparr>"

section \<open>The H.264 encoder\<close>

definition qp_for_quality :: "u8 \<Rightarrow> u8" where
  "qp_for_quality quality =
     (let q = ucast (if quality > 100 then 100 else quality) :: u32 in ucast (40 - q * 24 div 100))"

text \<open>\<open>u32::saturating_mul\<close>\<close>

definition sat_mul32 :: "u32 \<Rightarrow> u32 \<Rightarrow> u32" where
  "sat_mul32 a b = (if unat a * unat b < 2 ^ 32 then a * b else - 1)"

text \<open>
  The fields of the encoder crate's configuration that are set, on top of its \<open>baseline\<close> for a
  size. The frame rate is an \<open>f32\<close> that holds a byte exactly.
\<close>

record 'b h264_config =
  hc_base :: 'b
  hc_gop_size :: u32
  hc_min_keyint :: u32
  hc_framerate :: u8
  hc_bitrate :: u32
  hc_qp :: u8

definition chip_config :: "(nat \<Rightarrow> nat \<Rightarrow> 'b) \<Rightarrow> geometry \<Rightarrow> encoder_config \<Rightarrow> 'b h264_config" where
  "chip_config baseline g config =
     (let gop = (if ec_gop config = 0 then 1 else ucast (ec_gop config)) in
      \<lparr>hc_base = baseline (gm_width g) (gm_height g), hc_gop_size = gop, hc_min_keyint = gop,
       hc_framerate = max (ec_fps config) 1, hc_bitrate = sat_mul32 (ec_bitrate_kbps config) 1000,
       hc_qp = qp_for_quality (ec_quality config)\<rparr>)"

datatype encode_error = EncBufferTooSmall nat | FrameMismatch | OtherEncodeError

definition map_err :: "encode_error \<Rightarrow> error" where
  "map_err e =
     (case e of
        EncBufferTooSmall needed \<Rightarrow> BufferTooSmall needed
      | FrameMismatch \<Rightarrow> InvalidGeometry
      | OtherEncodeError \<Rightarrow> Unsupported)"

text \<open>The operations of the encoder crate.\<close>

record ('b, 'n, 'y) h264_crate =
  hx_baseline :: "nat \<Rightarrow> nat \<Rightarrow> 'b"
  hx_new :: "'b h264_config \<Rightarrow> encode_error + 'n"
  hx_planes :: "nat \<Rightarrow> nat \<Rightarrow> bytes \<Rightarrow> bytes \<Rightarrow> bytes \<Rightarrow> nat \<Rightarrow> nat \<Rightarrow> 'y option"
  hx_encode_into :: "'n \<Rightarrow> 'y \<Rightarrow> bytes \<Rightarrow> (encode_error + nat) \<times> bytes \<times> 'n"
  hx_flush_into :: "'n \<Rightarrow> bytes \<Rightarrow> (encode_error + nat) \<times> bytes \<times> 'n"
  hx_request_keyframe :: "'n \<Rightarrow> 'n"

record 'n h264 =
  h_geometry :: "geometry option"
  h_config :: encoder_config
  h_encoder :: "'n option"
  h_frames :: u32

definition H264_new :: "'n h264" where
  "H264_new = \<lparr>h_geometry = None, h_config = EncoderConfig_default, h_encoder = None, h_frames = 0\<rparr>"

definition H264_flush :: "('b, 'n, 'y) h264_crate \<Rightarrow> bytes \<Rightarrow> 'n h264 \<Rightarrow> nat result \<times> bytes \<times> 'n h264" where
  "H264_flush x out e =
     (case h_encoder e of
        None \<Rightarrow> (Inr 0, out, e)
      | Some enc \<Rightarrow>
          (case hx_flush_into x enc out of
             (Inl err, out1, enc1) \<Rightarrow> (Inl (Err (map_err err)), out1, e\<lparr>h_encoder := Some enc1\<rparr>)
           | (Inr n, out1, enc1) \<Rightarrow> (Inr n, out1, e\<lparr>h_encoder := Some enc1\<rparr>)))"

definition planes_of :: "('b, 'n, 'y) h264_crate \<Rightarrow> frame \<Rightarrow> 'y result" where
  "planes_of x fr =
     (case fr_planes fr of
        Packed _ \<Rightarrow> Inl (Err Unsupported)
      | Planar y u v \<Rightarrow>
          ok_or
            (hx_planes x (gm_width (fr_geometry fr)) (gm_height (fr_geometry fr))
               (sp_data (pn_data y)) (sp_data (pn_data u)) (sp_data (pn_data v))
               (pn_stride y) (max (pn_stride u) (pn_stride v)))
            InvalidGeometry)"

definition H264_configure :: "('b, 'n, 'y) h264_crate \<Rightarrow> geometry \<Rightarrow> encoder_config \<Rightarrow> ('n h264, unit) op" where
  "H264_configure x g config e =
     (if gm_format g \<noteq> Yuv420p then (Inl (Err Unsupported), e)
      else if gm_width g mod 2 \<noteq> 0 \<or> gm_height g mod 2 \<noteq> 0 \<or> gm_width g = 0 then (Inl (Err InvalidGeometry), e)
      else
        (case hx_new x (chip_config (hx_baseline x) g config) of
           Inl err \<Rightarrow> (Inl (Err (map_err err)), e)
         | Inr enc \<Rightarrow>
             (Inr (), \<lparr>h_geometry = Some g, h_config = config, h_encoder = Some enc, h_frames = 0\<rparr>)))"

definition H264_encode ::
  "('b, 'n, 'y) h264_crate \<Rightarrow> frame \<Rightarrow> bytes \<Rightarrow> 'n h264 \<Rightarrow> media_packet result \<times> bytes \<times> 'n h264" where
  "H264_encode x fr out e =
     (case h_geometry e of
        None \<Rightarrow> (Inl (Err Unsupported), out, e)
      | Some g \<Rightarrow>
          if gm_width (fr_geometry fr) \<noteq> gm_width g \<or> gm_height (fr_geometry fr) \<noteq> gm_height g
          then (Inl (Err InvalidGeometry), out, e)
          else
            (case h_encoder e of
               None \<Rightarrow> (Inl (Err Unsupported), out, e)
             | Some enc \<Rightarrow>
                 (case planes_of x fr of
                    Inl err \<Rightarrow> (Inl err, out, e)
                  | Inr planes \<Rightarrow>
                      (case hx_encode_into x enc planes out of
                         (Inl err, out1, enc1) \<Rightarrow> (Inl (Err (map_err err)), out1, e\<lparr>h_encoder := Some enc1\<rparr>)
                       | (Inr n, out1, enc1) \<Rightarrow>
                           (let e1 = e\<lparr>h_encoder := Some enc1, h_frames := h_frames e + 1\<rparr> in
                            case subslice out1 0 n of
                              Inl err \<Rightarrow> (Inl err, out1, e1)
                            | Inr d \<Rightarrow>
                                (Inr \<lparr>mp_codec = H264, mp_key = contains_idr d, mp_timestamp = fr_timestamp fr,
                                   mp_data = d\<rparr>, out1, e1))))))"

definition H264_request_keyframe :: "('b, 'n, 'y) h264_crate \<Rightarrow> 'n h264 \<Rightarrow> 'n h264" where
  "H264_request_keyframe x e = e\<lparr>h_encoder := map_option (hx_request_keyframe x) (h_encoder e)\<rparr>"

definition H264_encoder :: "('b, 'n, 'y) h264_crate \<Rightarrow> 'n h264 video_encoder" where
  "H264_encoder x =
     \<lparr>ve_codec = H264, ve_configure = H264_configure x, ve_encode = H264_encode x,
      ve_request_keyframe = H264_request_keyframe x\<rparr>"

section \<open>Which encoder for which job\<close>

datatype job = Preview | StreamJob | Archive | Analytics

definition Job_ALL :: "job list" where
  "Job_ALL = [Preview, StreamJob, Archive, Analytics]"

fun Job_tag :: "job \<Rightarrow> string" where
  "Job_tag Preview = ''preview''"
| "Job_tag StreamJob = ''stream''"
| "Job_tag Archive = ''archive''"
| "Job_tag Analytics = ''analytics''"

text \<open>The chips the source names; the enumeration of the other crate is open.\<close>

datatype chip =
  Esp32P4 | Esp32S3 | Esp32 | Esp32S2 | Esp32C6 | Esp32C3 | Esp32C5 | Esp32C61 | Esp32H2 | OtherChip nat

datatype H264Path = Software | HardwareEncoder

record choice =
  ch_on_chip :: codec
  ch_h264 :: "H264Path option"
  ch_host_transcodes :: bool

fun h264_path :: "chip \<Rightarrow> H264Path option" where
  "h264_path Esp32P4 = Some HardwareEncoder"
| "h264_path Esp32S3 = Some Software"
| "h264_path Esp32 = Some Software"
| "h264_path Esp32S2 = Some Software"
| "h264_path _ = None"

fun codec_for :: "job \<Rightarrow> chip \<Rightarrow> choice" where
  "codec_for StreamJob chip =
     (case h264_path chip of
        Some p \<Rightarrow> \<lparr>ch_on_chip = H264, ch_h264 = Some p, ch_host_transcodes = False\<rparr>
      | None \<Rightarrow> \<lparr>ch_on_chip = Jpeg, ch_h264 = None, ch_host_transcodes = False\<rparr>)"
| "codec_for Archive chip =
     (case h264_path chip of
        Some p \<Rightarrow> \<lparr>ch_on_chip = H264, ch_h264 = Some p, ch_host_transcodes = True\<rparr>
      | None \<Rightarrow> \<lparr>ch_on_chip = Jpeg, ch_h264 = None, ch_host_transcodes = True\<rparr>)"
| "codec_for _ chip = \<lparr>ch_on_chip = Jpeg, ch_h264 = None, ch_host_transcodes = False\<rparr>"

section \<open>What the encoders promise\<close>

lemma codec_for_consistent:
  "ch_on_chip (codec_for j c) = (if ch_h264 (codec_for j c) = None then Jpeg else H264)"
  "ch_h264 (codec_for j c) = (if j \<in> {StreamJob, Archive} then h264_path c else None)"
  "ch_host_transcodes (codec_for j c) \<longleftrightarrow> j = Archive"
  by (cases j; cases "h264_path c"; simp)+

lemma Job_tags: "map Job_tag Job_ALL = [''preview'', ''stream'', ''archive'', ''analytics'']" "set Job_ALL = UNIV"
  using job.exhaust by (auto simp: Job_ALL_def)

text \<open>Quality 0 to 100 becomes the parameter 40 to 16, and more quality never a larger one.\<close>

lemma unat_qp: "unat (qp_for_quality q) = 40 - min (unat q) 100 * 24 div 100"
proof -
  let ?m = "if q > 100 then 100 else q"
  have m: "unat ?m = min (unat q) 100" by (simp add: word_less_nat_alt min_def)
  then have u: "unat (ucast ?m :: u32) = min (unat q) 100"
    by (subst unat_ucast_up) simp_all
  have d: "min (unat q) 100 * 24 div 100 \<le> 24" by (simp add: div_le_mono [of _ 2400 100, simplified])
  have "unat (ucast ?m * 24 :: u32) = min (unat q) 100 * 24"
    by (subst unat_word_ariths) (simp add: u)
  then have "unat (ucast ?m * 24 div 100 :: u32) = min (unat q) 100 * 24 div 100" by (simp add: unat_div)
  then have "unat (40 - ucast ?m * 24 div 100 :: u32) = 40 - min (unat q) 100 * 24 div 100"
    using d by (subst unat_sub) (simp_all add: word_le_nat_alt)
  then show ?thesis unfolding qp_for_quality_def Let_def
    by (simp add: unsigned_ucast_eq take_bit_nat_eq_self)
qed

lemma qp_for_quality_range: "16 \<le> unat (qp_for_quality q)" "unat (qp_for_quality q) \<le> 40"
  using div_le_mono [of "min (unat q) 100 * 24" 2400 100] by (simp_all add: unat_qp)

lemma qp_for_quality_antitone: "a \<le> b \<Longrightarrow> qp_for_quality b \<le> qp_for_quality a"
  by (auto simp: word_le_nat_alt unat_qp intro!: diff_le_mono2 div_le_mono)

lemma chip_config_in_range:
  "1 \<le> unat (hc_gop_size (chip_config b g c))" "hc_min_keyint (chip_config b g c) = hc_gop_size (chip_config b g c)"
  "1 \<le> hc_framerate (chip_config b g c)"
  "unat (hc_bitrate (chip_config b g c)) = min (unat (ec_bitrate_kbps c) * 1000) (2 ^ 32 - 1)"
proof -
  have "unat (ucast (ec_gop c) :: u32) = unat (ec_gop c)" by (rule unat_ucast_up) simp
  then have "ucast (ec_gop c) \<noteq> (0 :: u32)" if "ec_gop c \<noteq> 0"
    using that unat_eq_0 [of "ec_gop c"] by (metis unat_0)
  then show "1 \<le> unat (hc_gop_size (chip_config b g c))"
    by (simp add: chip_config_def Let_def Suc_le_eq unat_gt_0)
  show "hc_min_keyint (chip_config b g c) = hc_gop_size (chip_config b g c)" "1 \<le> hc_framerate (chip_config b g c)"
    by (simp_all add: chip_config_def Let_def)
  show "unat (hc_bitrate (chip_config b g c)) = min (unat (ec_bitrate_kbps c) * 1000) (2 ^ 32 - 1)"
    by (auto simp: chip_config_def Let_def sat_mul32_def unat_word_ariths unsigned_minus_1_eq_mask mask_eq_exp_minus_1)
qed

text \<open>The states of an H.264 encoder under any sequence of calls.\<close>

inductive h264_reach :: "('b, 'n, 'y) h264_crate \<Rightarrow> 'n h264 \<Rightarrow> bool" for x :: "('b, 'n, 'y) h264_crate" where
  created: "h264_reach x H264_new"
| configured: "h264_reach x e \<Longrightarrow> h264_reach x (snd (H264_configure x g config e))"
| encoded: "h264_reach x e \<Longrightarrow> h264_reach x (snd (snd (H264_encode x fr out e)))"
| flushed: "h264_reach x e \<Longrightarrow> h264_reach x (snd (snd (H264_flush x out e)))"
| requested: "h264_reach x e \<Longrightarrow> h264_reach x (H264_request_keyframe x e)"

definition h264_ok :: "'n h264 \<Rightarrow> bool" where
  "h264_ok e \<longleftrightarrow>
     (case h_geometry e of
        None \<Rightarrow> e = H264_new
      | Some g \<Rightarrow> h_encoder e \<noteq> None \<and> gm_format g = Yuv420p \<and> even (gm_width g) \<and> even (gm_height g) \<and>
          gm_width g \<noteq> 0)"

lemma h264_ok_keep:
  "h264_ok e \<Longrightarrow> h_encoder e = Some enc \<Longrightarrow> h264_ok (e\<lparr>h_encoder := Some enc1\<rparr>)"
  "h264_ok e \<Longrightarrow> h_encoder e = Some enc \<Longrightarrow> h264_ok (e\<lparr>h_encoder := Some enc1, h_frames := n\<rparr>)"
  by (auto simp: h264_ok_def H264_new_def split: option.splits)

lemma H264_configure_cases:
  "(\<exists>f. H264_configure x g config e = (Inl f, e)) \<or>
   (gm_format g = Yuv420p \<and> even (gm_width g) \<and> even (gm_height g) \<and> gm_width g \<noteq> 0 \<and>
    (\<exists>enc. H264_configure x g config e =
       (Inr (), \<lparr>h_geometry = Some g, h_config = config, h_encoder = Some enc, h_frames = 0\<rparr>)))"
  by (cases "hx_new x (chip_config (hx_baseline x) g config)") (auto simp: H264_configure_def)

lemma H264_encode_state:
  "snd (snd (H264_encode x fr out e)) = e \<or>
   (\<exists>enc enc1. h_encoder e = Some enc \<and>
      (snd (snd (H264_encode x fr out e)) = e\<lparr>h_encoder := Some enc1\<rparr> \<or>
       snd (snd (H264_encode x fr out e)) = e\<lparr>h_encoder := Some enc1, h_frames := h_frames e + 1\<rparr>))"
proof (cases "h_encoder e")
  case None
  then show ?thesis by (simp add: H264_encode_def split: option.split)
next
  case (Some enc)
  show ?thesis
  proof (cases "planes_of x fr")
    case (Inl f)
    with Some show ?thesis by (simp add: H264_encode_def split: option.split)
  next
    case (Inr ps)
    obtain r out1 enc1 where r: "hx_encode_into x enc ps out = (r, out1, enc1)" by (metis prod_cases3)
    have "snd (snd (H264_encode x fr out e)) = e \<or>
        snd (snd (H264_encode x fr out e)) =
          (case r of Inl _ \<Rightarrow> e\<lparr>h_encoder := Some enc1\<rparr>
             | Inr _ \<Rightarrow> e\<lparr>h_encoder := Some enc1, h_frames := h_frames e + 1\<rparr>)"
      using Some Inr r by (cases r; cases "subslice out1 0 (projr r)"; cases "h_geometry e")
        (simp_all add: H264_encode_def Let_def)
    then show ?thesis using Some by (cases r) auto
  qed
qed

lemma H264_encode_ok: "h264_ok e \<Longrightarrow> h264_ok (snd (snd (H264_encode x fr out e)))"
  using H264_encode_state [of x fr out e]
proof (elim disjE exE conjE)
  fix enc enc1 assume ok: "h264_ok e" and e: "h_encoder e = Some enc"
  note k = h264_ok_keep [OF ok e]
  show "snd (snd (H264_encode x fr out e)) = e\<lparr>h_encoder := Some enc1\<rparr> \<Longrightarrow>
      h264_ok (snd (snd (H264_encode x fr out e)))"
    "snd (snd (H264_encode x fr out e)) = e\<lparr>h_encoder := Some enc1, h_frames := h_frames e + 1\<rparr> \<Longrightarrow>
      h264_ok (snd (snd (H264_encode x fr out e)))"
    by (simp_all add: k)
qed simp

lemma H264_request_keyframe_ok: "h264_ok e \<Longrightarrow> h264_ok (H264_request_keyframe x e)"
proof (cases "h_encoder e")
  case None
  then have "e\<lparr>h_encoder := None\<rparr> = e" by (cases e) simp
  then have "H264_request_keyframe x e = e" using None by (simp only: H264_request_keyframe_def option.map)
  moreover assume "h264_ok e"
  ultimately show ?thesis by (simp only:)
next
  case (Some enc)
  moreover assume "h264_ok e"
  ultimately show ?thesis by (simp add: H264_request_keyframe_def h264_ok_keep(1))
qed

lemma H264_configure_ok: "h264_ok e \<Longrightarrow> h264_ok (snd (H264_configure x g config e))"
  using H264_configure_cases [of x g config e] by (auto simp: h264_ok_def split: option.splits)

lemma H264_flush_ok: "h264_ok e \<Longrightarrow> h264_ok (snd (snd (H264_flush x out e)))"
  unfolding H264_flush_def by (auto intro: h264_ok_keep split: option.split sum.split prod.split)

lemma h264_reach_ok: "h264_reach x e \<Longrightarrow> h264_ok e"
  by (induction rule: h264_reach.induct)
    (simp_all add: H264_configure_ok H264_encode_ok H264_flush_ok H264_request_keyframe_ok,
      simp add: h264_ok_def H264_new_def)

lemma H264_encode_packet:
  assumes "H264_encode x fr out e = (Inr pkt, out1, e1)"
  shows "\<exists>g n. h_geometry e = Some g \<and> gm_width (fr_geometry fr) = gm_width g \<and>
    gm_height (fr_geometry fr) = gm_height g \<and> n \<le> length out1 \<and>
    pkt = \<lparr>mp_codec = H264, mp_key = contains_idr (take n out1), mp_timestamp = fr_timestamp fr,
      mp_data = take n out1\<rparr> \<and> h_geometry e1 = h_geometry e \<and> h_frames e1 = h_frames e + 1"
  using assms by (auto simp: H264_encode_def Let_def subslice_def split: option.splits sum.splits prod.splits if_splits)

text \<open>C21: In every state an H.264 encoder reaches, whatever the encoder crate returns and whichever calls
  failed before: it has a geometry exactly when it has an encoder for it, and then one that is planar
  4:2:0, of even sides and not of zero width; a refused configuration changes nothing; a packet is only
  ever made from a frame of the configured size, is a prefix of the output buffer, has the frame's
  timestamp, and is marked as key exactly when its own NAL units contain an IDR slice.\<close>

theorem H264_session:
  assumes "h264_reach x e"
  shows "(case h_geometry e of None \<Rightarrow> h_encoder e = None
      | Some g \<Rightarrow> h_encoder e \<noteq> None \<and> gm_format g = Yuv420p \<and> even (gm_width g) \<and> even (gm_height g) \<and>
          gm_width g \<noteq> 0) \<and>
    (\<forall>g c f. fst (H264_configure x g c e) = Inl f \<longrightarrow> snd (H264_configure x g c e) = e) \<and>
    (\<forall>fr out pkt out1 e1. H264_encode x fr out e = (Inr pkt, out1, e1) \<longrightarrow>
       (\<exists>g n. h_geometry e = Some g \<and> gm_width (fr_geometry fr) = gm_width g \<and>
          gm_height (fr_geometry fr) = gm_height g \<and> n \<le> length out1 \<and> mp_codec pkt = H264 \<and>
          mp_data pkt = take n out1 \<and> mp_timestamp pkt = fr_timestamp fr \<and>
          (mp_key pkt \<longleftrightarrow> contains_idr (mp_data pkt)) \<and> h_frames e1 = h_frames e + 1))"
proof (intro conjI allI impI)
  from h264_reach_ok [OF assms] show "case h_geometry e of None \<Rightarrow> h_encoder e = None
      | Some g \<Rightarrow> h_encoder e \<noteq> None \<and> gm_format g = Yuv420p \<and> even (gm_width g) \<and> even (gm_height g) \<and>
          gm_width g \<noteq> 0"
    by (auto simp: h264_ok_def H264_new_def split: option.splits)
next
  fix g c f assume "fst (H264_configure x g c e) = Inl f"
  with H264_configure_cases [of x g c e] show "snd (H264_configure x g c e) = e" by auto
next
  fix fr out pkt out1 e1 assume "H264_encode x fr out e = (Inr pkt, out1, e1)"
  from H264_encode_packet [OF this] show "\<exists>g n. h_geometry e = Some g \<and> gm_width (fr_geometry fr) = gm_width g \<and>
          gm_height (fr_geometry fr) = gm_height g \<and> n \<le> length out1 \<and> mp_codec pkt = H264 \<and>
          mp_data pkt = take n out1 \<and> mp_timestamp pkt = fr_timestamp fr \<and>
          (mp_key pkt \<longleftrightarrow> contains_idr (mp_data pkt)) \<and> h_frames e1 = h_frames e + 1"
    by auto
qed

text \<open>A crate that encodes every picture as one IDR slice, and a picture for it.\<close>

definition idr_crate :: "(unit, nat, unit) h264_crate" where
  "idr_crate =
     \<lparr>hx_baseline = (\<lambda>_ _. ()), hx_new = (\<lambda>_. Inr 0), hx_planes = (\<lambda>_ _ _ _ _ _ _. Some ()),
      hx_encode_into = (\<lambda>n _ out. (Inr 5, [0, 0, 0, 1, 0x65] @ drop 5 out, n + 1)),
      hx_flush_into = (\<lambda>n out. (Inr 0, out, n)), hx_request_keyframe = id\<rparr>"

definition example_frame :: "nat \<Rightarrow> frame" where
  "example_frame ptr =
     \<lparr>fr_geometry = \<lparr>gm_width = 2, gm_height = 2, gm_format = Yuv420p\<rparr>, fr_timestamp = 7, fr_sequence = 3,
      fr_planes = Planar \<lparr>pn_data = \<lparr>sp_ptr = ptr, sp_data = [1, 2, 3, 4]\<rparr>, pn_stride = 2\<rparr>
        \<lparr>pn_data = \<lparr>sp_ptr = ptr + 4, sp_data = [5]\<rparr>, pn_stride = 1\<rparr>
        \<lparr>pn_data = \<lparr>sp_ptr = ptr + 5, sp_data = [6]\<rparr>, pn_stride = 1\<rparr>\<rparr>"

theorem H264_session_witness:
  "\<exists>e pkt out1 e1.
     e = snd (H264_configure idr_crate (fr_geometry (example_frame 100)) EncoderConfig_default H264_new) \<and>
     H264_encode idr_crate (example_frame 100) [9, 9, 9, 9, 9, 9] e = (Inr pkt, out1, e1) \<and>
     mp_data pkt = [0, 0, 0, 1, 0x65] \<and> mp_timestamp pkt = 7 \<and> (mp_key pkt \<longleftrightarrow> contains_idr (mp_data pkt))"
proof -
  let ?fr = "example_frame 100"
  let ?e = "snd (H264_configure idr_crate (fr_geometry ?fr) EncoderConfig_default H264_new)"
  have e: "?e = \<lparr>h_geometry = Some (fr_geometry ?fr), h_config = EncoderConfig_default,
      h_encoder = Some 0, h_frames = 0\<rparr>"
    by (simp add: H264_configure_def idr_crate_def example_frame_def)
  obtain pkt out1 e1 where p: "H264_encode idr_crate ?fr [9, 9, 9, 9, 9, 9] ?e = (Inr pkt, out1, e1)"
      "mp_data pkt = [0, 0, 0, 1, 0x65]"
    unfolding e by (auto simp: H264_encode_def planes_of_def idr_crate_def example_frame_def subslice_def)
  have "h264_reach idr_crate ?e" by (intro h264_reach.configured h264_reach.created)
  from H264_session [OF this] p(1)
  have "mp_timestamp pkt = fr_timestamp ?fr \<and> (mp_key pkt \<longleftrightarrow> contains_idr (mp_data pkt))" by fast
  with p show ?thesis by (auto simp: example_frame_def)
qed

section \<open>The seam as a contract\<close>

text \<open>
  What the users of \<open>VideoEncoder\<close> rely on: every call keeps the encoder in its good states, whether it
  succeeds or not, a refused configuration changes nothing, and packets have the codec the encoder
  announces and the timestamp of their frame.
\<close>

locale frame_encoder =
  fixes enc :: "'e video_encoder"
    and good :: "'e \<Rightarrow> bool"
  assumes configure_good: "good e \<Longrightarrow> good (snd (ve_configure enc g config e))"
    and configure_refused: "fst (ve_configure enc g config e) = Inl f \<Longrightarrow> snd (ve_configure enc g config e) = e"
    and encode_good: "good e \<Longrightarrow> good (snd (snd (ve_encode enc fr out e)))"
    and encode_packet: "ve_encode enc fr out e = (Inr pkt, out1, e1) \<Longrightarrow>
      mp_codec pkt = ve_codec enc \<and> mp_timestamp pkt = fr_timestamp fr"
    and request_good: "good e \<Longrightarrow> good (ve_request_keyframe enc e)"
begin

text \<open>Frames encoded one after the other, each into a buffer of its own.\<close>

primrec encode_run :: "(frame \<times> bytes) list \<Rightarrow> 'e \<Rightarrow> media_packet result list \<times> 'e" where
  "encode_run [] e = ([], e)"
| "encode_run (x # xs) e =
     (case ve_encode enc (fst x) (snd x) e of (r, _, e1) \<Rightarrow>
        (case encode_run xs e1 of (rs, e2) \<Rightarrow> (r # rs, e2)))"

lemma encode_run_packets:
  "encode_run xs e = (rs, e1) \<Longrightarrow> length rs = length xs \<and> (good e \<longrightarrow> good e1) \<and>
   (\<forall>i pkt. i < length rs \<longrightarrow> rs ! i = Inr pkt \<longrightarrow>
      mp_codec pkt = ve_codec enc \<and> mp_timestamp pkt = fr_timestamp (fst (xs ! i)))"
proof (induction xs arbitrary: e rs)
  case (Cons x xs)
  obtain r out2 e2 where v: "ve_encode enc (fst x) (snd x) e = (r, out2, e2)" by (metis prod_cases3)
  obtain rs2 e3 where n: "encode_run xs e2 = (rs2, e3)" by fastforce
  from Cons.prems v n have eq: "rs = r # rs2" "e3 = e1" by simp_all
  have "good e \<longrightarrow> good e2" using encode_good [of e "fst x" "snd x"] v by simp
  moreover have "mp_codec pkt = ve_codec enc \<and> mp_timestamp pkt = fr_timestamp (fst x)" if "r = Inr pkt" for pkt
    using encode_packet v that by simp
  ultimately show ?case using Cons.IH [of e2 rs2] n eq by (auto simp: nth_Cons split: nat.splits)
qed simp

end

interpretation passthrough_seam: frame_encoder "Passthrough_encoder coded" "\<lambda>_. True"
  for coded :: "frame \<Rightarrow> bytes option"
  by unfold_locales
    (auto simp: Passthrough_encoder_def Passthrough_configure_def Passthrough_encode_def split: option.splits if_splits)

definition soft_jpeg_ok :: "soft_jpeg \<Rightarrow> bool" where
  "soft_jpeg_ok e \<longleftrightarrow> sj_quality e \<noteq> 0 \<and> sj_quality e \<le> 100 \<and>
     (\<forall>g. sj_geometry e = Some g \<longrightarrow>
        gm_format g \<in> {Yuyv422, Rgb888, Bgr888, Rgba8888, Gray8} \<and>
        1 \<le> gm_width g \<and> gm_width g \<le> 65535 \<and> 1 \<le> gm_height g \<and> gm_height g \<le> 65535)"

lemma SoftJpeg_new_ok: "soft_jpeg_ok SoftJpeg_new"
  by (simp add: soft_jpeg_ok_def SoftJpeg_new_def word_le_nat_alt)

lemma SoftJpeg_configure_cases:
  "(\<exists>f. SoftJpeg_configure g config e = (Inl f, e)) \<or>
   (\<exists>e1. SoftJpeg_configure g config e = (Inr (), e1) \<and> soft_jpeg_ok e1)"
proof (cases "gm_format g \<notin> {Yuyv422, Rgb888, Bgr888, Rgba8888, Gray8} \<or>
    gm_width g = 0 \<or> gm_height g = 0 \<or> gm_width g > 65535 \<or> gm_height g > 65535")
  case True
  then show ?thesis unfolding SoftJpeg_configure_def by (metis (full_types))
next
  case False
  let ?q = "if ec_quality config = 0 then 80 else min (ec_quality config) 100"
  have "(80 :: u8) \<le> 100" by (simp add: word_le_nat_alt)
  then have q: "?q \<noteq> 0" "?q \<le> 100" by (auto simp: min_def)
  from False have "SoftJpeg_configure g config e = (Inr (), \<lparr>sj_geometry = Some g, sj_quality = ?q, sj_frames = 0\<rparr>)"
    unfolding SoftJpeg_configure_def by simp
  moreover have "soft_jpeg_ok \<lparr>sj_geometry = Some g, sj_quality = ?q, sj_frames = 0\<rparr>"
    using q False unfolding soft_jpeg_ok_def by simp
  ultimately show ?thesis by blast
qed

lemma SoftJpeg_encode_state:
  "sj_geometry (snd (snd (SoftJpeg_encode encode_frame fr out e))) = sj_geometry e \<and>
   sj_quality (snd (snd (SoftJpeg_encode encode_frame fr out e))) = sj_quality e"
  by (auto simp: SoftJpeg_encode_def Let_def split: option.split sum.split prod.split)

interpretation soft_jpeg_seam: frame_encoder "SoftJpeg_encoder encode_frame" soft_jpeg_ok
  for encode_frame :: "frame \<Rightarrow> u8 \<Rightarrow> bytes \<Rightarrow> nat result \<times> bytes"
proof unfold_locales
  fix e g config
  assume "soft_jpeg_ok e"
  then show "soft_jpeg_ok (snd (ve_configure (SoftJpeg_encoder encode_frame) g config e))"
    using SoftJpeg_configure_cases [of g config e] by (auto simp: SoftJpeg_encoder_def)
next
  fix g config e f
  assume "fst (ve_configure (SoftJpeg_encoder encode_frame) g config e) = Inl f"
  then show "snd (ve_configure (SoftJpeg_encoder encode_frame) g config e) = e"
    using SoftJpeg_configure_cases [of g config e] by (auto simp: SoftJpeg_encoder_def)
next
  fix e fr out
  assume "soft_jpeg_ok e"
  then show "soft_jpeg_ok (snd (snd (ve_encode (SoftJpeg_encoder encode_frame) fr out e)))"
    using SoftJpeg_encode_state [of encode_frame fr out e] by (simp add: SoftJpeg_encoder_def soft_jpeg_ok_def)
next
  fix fr out e pkt out1 e1
  assume "ve_encode (SoftJpeg_encoder encode_frame) fr out e = (Inr pkt, out1, e1)"
  then show "mp_codec pkt = ve_codec (SoftJpeg_encoder encode_frame) \<and> mp_timestamp pkt = fr_timestamp fr"
    by (auto simp: SoftJpeg_encoder_def SoftJpeg_encode_def Let_def
        split: option.splits sum.splits prod.splits if_splits)
qed (simp add: SoftJpeg_encoder_def)

interpretation h264_seam: frame_encoder "H264_encoder x" h264_ok
  for x :: "('b, 'n, 'y) h264_crate"
proof unfold_locales
  fix g config e f
  assume "fst (ve_configure (H264_encoder x) g config e) = Inl f"
  then show "snd (ve_configure (H264_encoder x) g config e) = e"
    using H264_configure_cases [of x g config e] by (auto simp: H264_encoder_def)
next
  fix fr out e pkt out1 e1
  assume "ve_encode (H264_encoder x) fr out e = (Inr pkt, out1, e1)"
  then have "H264_encode x fr out e = (Inr pkt, out1, e1)" by (simp add: H264_encoder_def)
  from H264_encode_packet [OF this]
  show "mp_codec pkt = ve_codec (H264_encoder x) \<and> mp_timestamp pkt = fr_timestamp fr"
    by (auto simp: H264_encoder_def)
qed (simp_all add: H264_encoder_def H264_encode_ok H264_request_keyframe_ok H264_configure_ok)

end
