(* ===== verification/Source.thy ===== *)
theory Source
  imports Encoder Pacer
begin

text \<open>
  Where packets come from, \<open>source.rs\<close>: \<open>EncodedSource\<close> joins a camera to an encoder and a pacer.
  The frame the pacer admits is remembered as offsets into the scratch buffer (\<open>Shape\<close>) and
  rebuilt over it. The camera and the constructors of a frame belong to other crates and are
  parameters.
\<close>

section \<open>What the other crates provide\<close>

text \<open>\<open>Frame::packed\<close>, \<open>Frame::yuv420p\<close> (a plane is its bytes and its stride) and \<open>Frame::coded\<close>.\<close>

record frame_api =
  fa_packed :: "geometry \<Rightarrow> micros \<Rightarrow> u32 \<Rightarrow> span \<Rightarrow> frame result"
  fa_yuv420p ::
    "geometry \<Rightarrow> micros \<Rightarrow> u32 \<Rightarrow> span \<times> nat \<Rightarrow> span \<times> nat \<Rightarrow> span \<times> nat \<Rightarrow> frame result"
  fa_coded :: "frame \<Rightarrow> bytes option"

text \<open>\<open>ImageSource::grab\<close>: the camera gets the buffer (and may return slices of it, or others).\<close>

type_synonym 's grab = "span \<Rightarrow> 's \<Rightarrow> frame result \<times> bytes \<times> 's"

section \<open>Shapes\<close>

record plane_shape =
  ps_offset :: nat
  ps_len :: nat
  ps_stride :: nat

datatype shape_kind =
    PackedShape nat nat
  | PlanarShape plane_shape plane_shape plane_shape

record shape =
  sh_geometry :: geometry
  sh_timestamp :: micros
  sh_sequence :: u32
  sh_kind :: shape_kind

text \<open>\<open>usize::checked_sub\<close>\<close>

definition checked_sub :: "nat \<Rightarrow> nat \<Rightarrow> nat option" where
  "checked_sub a b = (if b \<le> a then Some (a - b) else None)"

text \<open>A slice never reaches past the end of the address space, so the sum below does not overflow.\<close>

definition plane_shape_of :: "plane \<Rightarrow> nat \<Rightarrow> nat \<Rightarrow> plane_shape result" where
  "plane_shape_of p base base_len =
     bind_r (ok_or (checked_sub (sp_ptr (pn_data p)) base) InvalidGeometry) (\<lambda>offset.
     if offset + length (sp_data (pn_data p)) > base_len then Inl (Err InvalidGeometry)
     else Inr \<lparr>ps_offset = offset, ps_len = length (sp_data (pn_data p)), ps_stride = pn_stride p\<rparr>)"

definition Shape_of :: "frame \<Rightarrow> nat \<Rightarrow> nat \<Rightarrow> shape result" where
  "Shape_of fr base base_len =
     bind_r
       (case fr_planes fr of
          Packed d \<Rightarrow>
            bind_r (ok_or (checked_sub (sp_ptr d) base) InvalidGeometry) (\<lambda>offset.
            if offset + length (sp_data d) > base_len then Inl (Err InvalidGeometry)
            else Inr (PackedShape offset (length (sp_data d))))
        | Planar y u v \<Rightarrow>
            bind_r (plane_shape_of y base base_len) (\<lambda>ys.
            bind_r (plane_shape_of u base base_len) (\<lambda>us.
            bind_r (plane_shape_of v base base_len) (\<lambda>vs.
            Inr (PlanarShape ys us vs)))))
       (\<lambda>kind. Inr \<lparr>sh_geometry = fr_geometry fr, sh_timestamp = fr_timestamp fr,
          sh_sequence = fr_sequence fr, sh_kind = kind\<rparr>)"

text \<open>\<open>buf.get(offset..offset + len).ok_or(..)\<close>, with where the slice is.\<close>

definition span_get :: "span \<Rightarrow> nat \<Rightarrow> nat \<Rightarrow> span result" where
  "span_get buf offset len =
     ok_or (map_option (\<lambda>d. \<lparr>sp_ptr = sp_ptr buf + offset, sp_data = d\<rparr>)
       (get_range (sp_data buf) offset (offset + len))) InvalidGeometry"

definition Shape_rebuild :: "frame_api \<Rightarrow> shape \<Rightarrow> span \<Rightarrow> frame result" where
  "Shape_rebuild api sh buf =
     (case sh_kind sh of
        PackedShape offset len \<Rightarrow>
          bind_r (span_get buf offset len) (fa_packed api (sh_geometry sh) (sh_timestamp sh) (sh_sequence sh))
      | PlanarShape y u v \<Rightarrow>
          (let sl = (\<lambda>p. span_get buf (ps_offset p) (ps_len p)) in
           bind_r (sl y) (\<lambda>yd. bind_r (sl u) (\<lambda>ud. bind_r (sl v) (\<lambda>vd.
           fa_yuv420p api (sh_geometry sh) (sh_timestamp sh) (sh_sequence sh)
             (yd, ps_stride y) (ud, ps_stride u) (vd, ps_stride v))))))"

section \<open>The source\<close>

record ('s, 'e) encoded_source =
  es_source :: 's
  es_encoder :: 'e
  es_pacer :: pacer
  es_frame_bytes :: nat
  es_dropped :: nat
  es_produced :: nat

definition EncodedSource_new :: "'s \<Rightarrow> 'e \<Rightarrow> nat \<Rightarrow> u32 \<Rightarrow> ('s, 'e) encoded_source result" where
  "EncodedSource_new src enc frame_bytes fps_cap =
     (if frame_bytes = 0 then Inl (Err InvalidGeometry)
      else Inr \<lparr>es_source = src, es_encoder = enc, es_pacer = Pacer_new fps_cap,
        es_frame_bytes = frame_bytes, es_dropped = 0, es_produced = 0\<rparr>)"

text \<open>
  The \<open>loop\<close> of \<open>next_packet\<close>: frames are grabbed until one is admitted. It need not end, when the
  clock of the camera stands still.
\<close>

partial_function (option) EncodedSource_grab ::
  "'s grab \<Rightarrow> nat \<Rightarrow> bytes \<Rightarrow> ('s, 'e) encoded_source \<Rightarrow>
     (shape result \<times> bytes \<times> ('s, 'e) encoded_source) option" where
  "EncodedSource_grab grab base buf es =
     (case grab \<lparr>sp_ptr = base, sp_data = buf\<rparr> (es_source es) of
        (Inl e, buf1, s1) \<Rightarrow> Some (Inl e, buf1, es\<lparr>es_source := s1\<rparr>)
      | (Inr fr, buf1, s1) \<Rightarrow>
          (case Pacer_admit (es_pacer es) (fr_timestamp fr) of (ok, p1) \<Rightarrow>
             (let es1 = es\<lparr>es_source := s1, es_pacer := p1\<rparr> in
              if ok then Some (Shape_of fr base (length buf), buf1, es1)
              else EncodedSource_grab grab base buf1 (es1\<lparr>es_dropped := es_dropped es1 + 1\<rparr>))))"

text \<open>The scratch buffer is at \<open>base\<close>; what is left in it is returned too.\<close>

definition EncodedSource_next_packet ::
  "target \<Rightarrow> frame_api \<Rightarrow> 's grab \<Rightarrow> 'e video_encoder \<Rightarrow> nat \<Rightarrow> bytes \<Rightarrow> ('s, 'e) encoded_source \<Rightarrow>
     (media_packet result \<times> bytes \<times> ('s, 'e) encoded_source) option" where
  "EncodedSource_next_packet t api grab enc base scratch es =
     (if length scratch \<le> es_frame_bytes es then
        Some (bind_r (usize_add t (es_frame_bytes es) 1) (\<lambda>needed. Inl (Err (BufferTooSmall needed))),
          scratch, es)
      else
        (let frame_buf = take (es_frame_bytes es) scratch; out = drop (es_frame_bytes es) scratch in
         case EncodedSource_grab grab base frame_buf es of
           None \<Rightarrow> None
         | Some (r, buf1, es1) \<Rightarrow>
             Some
               (case bind_r r (\<lambda>sh. Shape_rebuild api sh \<lparr>sp_ptr = base, sp_data = buf1\<rparr>) of
                  Inl e \<Rightarrow> (Inl e, buf1 @ out, es1)
                | Inr fr \<Rightarrow>
                    (case ve_encode enc fr out (es_encoder es1) of
                       (Inl e, out1, enc1) \<Rightarrow> (Inl e, buf1 @ out1, es1\<lparr>es_encoder := enc1\<rparr>)
                     | (Inr pkt, out1, enc1) \<Rightarrow>
                         (Inr pkt, buf1 @ out1,
                          es1\<lparr>es_encoder := enc1, es_produced := es_produced es1 + 1\<rparr>)))))"

section \<open>A frame survives being remembered as offsets\<close>

definition frame_spans :: "frame \<Rightarrow> span list" where
  "frame_spans fr =
     (case fr_planes fr of Packed d \<Rightarrow> [d] | Planar y u v \<Rightarrow> [pn_data y, pn_data u, pn_data v])"

definition span_within :: "span \<Rightarrow> span \<Rightarrow> bool" where
  "span_within buf s \<longleftrightarrow> sp_ptr buf \<le> sp_ptr s \<and>
     sp_ptr s + length (sp_data s) \<le> sp_ptr buf + length (sp_data buf)"

definition span_shows :: "span \<Rightarrow> span \<Rightarrow> bool" where
  "span_shows buf s \<longleftrightarrow>
     take (length (sp_data s)) (drop (sp_ptr s - sp_ptr buf) (sp_data buf)) = sp_data s"

text \<open>The frame is one its constructor returns.\<close>

definition frame_built :: "frame_api \<Rightarrow> frame \<Rightarrow> bool" where
  "frame_built api fr \<longleftrightarrow>
     (case fr_planes fr of
        Packed d \<Rightarrow> fa_packed api (fr_geometry fr) (fr_timestamp fr) (fr_sequence fr) d
      | Planar y u v \<Rightarrow>
          fa_yuv420p api (fr_geometry fr) (fr_timestamp fr) (fr_sequence fr)
            (pn_data y, pn_stride y) (pn_data u, pn_stride u) (pn_data v, pn_stride v)) = Inr fr"

lemma span_get_within:
  assumes "span_within buf s" "span_shows buf s"
  shows "span_get buf (sp_ptr s - sp_ptr buf) (length (sp_data s)) = Inr s"
proof -
  obtain o' where o: "sp_ptr s = sp_ptr buf + o'"
    using assms(1) le_iff_add by (auto simp: span_within_def)
  then show ?thesis using assms
    by (cases s) (simp add: span_get_def span_within_def span_shows_def)
qed

lemma plane_shape_of_eq:
  "plane_shape_of p (sp_ptr buf) (length (sp_data buf)) =
     (if span_within buf (pn_data p)
      then Inr \<lparr>ps_offset = sp_ptr (pn_data p) - sp_ptr buf, ps_len = length (sp_data (pn_data p)),
        ps_stride = pn_stride p\<rparr>
      else Inl (Err InvalidGeometry))"
  by (auto simp: plane_shape_of_def span_within_def checked_sub_def)

lemma Shape_of_eq:
  "Shape_of fr (sp_ptr buf) (length (sp_data buf)) =
     (if \<forall>s \<in> set (frame_spans fr). span_within buf s
      then Inr \<lparr>sh_geometry = fr_geometry fr, sh_timestamp = fr_timestamp fr,
        sh_sequence = fr_sequence fr,
        sh_kind =
          (case fr_planes fr of
             Packed d \<Rightarrow> PackedShape (sp_ptr d - sp_ptr buf) (length (sp_data d))
           | Planar y u v \<Rightarrow>
               (let f = (\<lambda>p. \<lparr>ps_offset = sp_ptr (pn_data p) - sp_ptr buf,
                  ps_len = length (sp_data (pn_data p)), ps_stride = pn_stride p\<rparr>)
                in PlanarShape (f y) (f u) (f v)))\<rparr>
      else Inl (Err InvalidGeometry))"
  by (cases "fr_planes fr")
    (auto simp: Shape_of_def frame_spans_def plane_shape_of_eq span_within_def checked_sub_def Let_def)

lemma Shape_rebuild_frame:
  assumes "\<forall>s \<in> set (frame_spans fr). span_within buf s \<and> span_shows buf1 s"
    and "sp_ptr buf1 = sp_ptr buf" "length (sp_data buf1) = length (sp_data buf)"
    and "Shape_of fr (sp_ptr buf) (length (sp_data buf)) = Inr sh"
  shows "Shape_rebuild api sh buf1 =
    (case fr_planes fr of
        Packed d \<Rightarrow> fa_packed api (fr_geometry fr) (fr_timestamp fr) (fr_sequence fr) d
      | Planar y u v \<Rightarrow>
          fa_yuv420p api (fr_geometry fr) (fr_timestamp fr) (fr_sequence fr)
            (pn_data y, pn_stride y) (pn_data u, pn_stride u) (pn_data v, pn_stride v))"
proof -
  have g: "span_get buf1 (sp_ptr s - sp_ptr buf) (length (sp_data s)) = Inr s"
    if "s \<in> set (frame_spans fr)" for s
    using span_get_within [of buf1 s] that assms(1-3) by (simp add: span_within_def)
  have w: "\<forall>s \<in> set (frame_spans fr). span_within buf s" using assms(1) by simp
  show ?thesis using assms(4) w g
    by (cases "fr_planes fr") (auto simp: Shape_of_eq Shape_rebuild_def frame_spans_def Let_def)
qed

text \<open>C28: A frame is remembered as offsets into the scratch buffer and rebuilt over it unchanged:
  when its planes are slices of the buffer and its constructor accepts it, remembering and rebuilding
  gives back the same frame, byte for byte and with every stride. A plane that reaches outside the
  buffer is refused as \<open>InvalidGeometry\<close>, and nothing panics.\<close>

theorem Shape_rebuild_roundtrip:
  "(if \<forall>s \<in> set (frame_spans fr). span_within buf s
    then \<exists>sh. Shape_of fr (sp_ptr buf) (length (sp_data buf)) = Inr sh \<and>
      (frame_built api fr \<and> (\<forall>s \<in> set (frame_spans fr). span_shows buf s) \<longrightarrow>
         Shape_rebuild api sh buf = Inr fr)
    else Shape_of fr (sp_ptr buf) (length (sp_data buf)) = Inl (Err InvalidGeometry))"
proof (cases "\<forall>s \<in> set (frame_spans fr). span_within buf s")
  case True
  then obtain sh where sh: "Shape_of fr (sp_ptr buf) (length (sp_data buf)) = Inr sh"
    by (simp add: Shape_of_eq)
  with True Shape_rebuild_frame [OF _ refl refl sh, of api] show ?thesis
    by (simp add: frame_built_def)
next
  case False
  then show ?thesis by (subst if_not_P) (auto simp: Shape_of_eq)
qed

definition plain_frame_api :: frame_api where
  "plain_frame_api =
     \<lparr>fa_packed = (\<lambda>g t q d. Inr \<lparr>fr_geometry = g, fr_timestamp = t, fr_sequence = q, fr_planes = Packed d\<rparr>),
      fa_yuv420p = (\<lambda>g t q (y, ys) (u, us) (v, vs).
        Inr \<lparr>fr_geometry = g, fr_timestamp = t, fr_sequence = q,
          fr_planes = Planar \<lparr>pn_data = y, pn_stride = ys\<rparr> \<lparr>pn_data = u, pn_stride = us\<rparr> \<lparr>pn_data = v, pn_stride = vs\<rparr>\<rparr>),
      fa_coded = (\<lambda>fr. case fr_planes fr of
        Packed d \<Rightarrow> if gm_format (fr_geometry fr) = JpegFormat then Some (sp_data d) else None
      | Planar _ _ _ \<Rightarrow> None)\<rparr>"

theorem Shape_rebuild_roundtrip_witness:
  "\<exists>sh. Shape_of (example_frame 101) 100 8 = Inr sh \<and>
     Shape_rebuild plain_frame_api sh \<lparr>sp_ptr = 100, sp_data = [0, 1, 2, 3, 4, 5, 6, 0]\<rparr> =
       Inr (example_frame 101)"
proof -
  let ?b = "\<lparr>sp_ptr = 100, sp_data = [0, 1, 2, 3, 4, 5, 6, 0]\<rparr> :: span"
  have f: "\<forall>s \<in> set (frame_spans (example_frame 101)). span_within ?b s"
    "\<forall>s \<in> set (frame_spans (example_frame 101)). span_shows ?b s"
    "frame_built plain_frame_api (example_frame 101)"
    by (simp_all add: example_frame_def frame_spans_def span_within_def span_shows_def frame_built_def
        plain_frame_api_def)
  from Shape_rebuild_roundtrip [of "example_frame 101" ?b plain_frame_api] f
  have "\<exists>sh. Shape_of (example_frame 101) (sp_ptr ?b) (length (sp_data ?b)) = Inr sh \<and>
      Shape_rebuild plain_frame_api sh ?b = Inr (example_frame 101)" by auto
  moreover have "sp_ptr ?b = 100" "length (sp_data ?b) = 8" by simp_all
  ultimately show ?thesis by metis
qed

section \<open>The loop of a packet\<close>

text \<open>A camera whose clock goes on: a frame is no earlier than the clock, which is then at least one
  step past the frame.\<close>

definition camera_advances :: "'s grab \<Rightarrow> ('s \<Rightarrow> nat) \<Rightarrow> nat \<Rightarrow> bool" where
  "camera_advances grab clock step \<longleftrightarrow>
     (\<forall>buf s fr buf1 s1. grab buf s = (Inr fr, buf1, s1) \<longrightarrow>
        clock s \<le> unat (fr_timestamp fr) \<and> unat (fr_timestamp fr) + step \<le> clock s1)"

text \<open>What a pacer drops was too early, and moves nothing.\<close>

lemma Pacer_admit_dropped:
  assumes "Pacer_admit p t = (False, p1)"
  shows "unat t + unat (pc_tolerance p) < due_at p" "p1 = p\<lparr>pc_dropped := pc_dropped p + 1\<rparr>"
proof -
  have i: "pc_interval p \<noteq> 0" using assms by (auto simp: Pacer_admit_def Let_def)
  have "due_at p < 2 ^ 64"
    by (auto simp: due_at_def split: option.split intro: order.strict_trans2 [OF unsigned_less])
  with Pacer_admit_due(1) [OF i, of t] assms
  show "unat t + unat (pc_tolerance p) < due_at p" by auto
  show "p1 = p\<lparr>pc_dropped := pc_dropped p + 1\<rparr>"
    using assms by (auto simp: Pacer_admit_def Let_def split: if_splits)
qed

lemma EncodedSource_grab_returns:
  assumes "camera_advances grab clock step" "0 < step"
  shows "\<exists>r buf1 es1 k. EncodedSource_grab grab base buf es = Some (r, buf1, es1) \<and>
    es_dropped es1 = es_dropped es + k \<and> pc_dropped (es_pacer es1) = pc_dropped (es_pacer es) + k \<and>
    es_produced es1 = es_produced es \<and>
    (k = 0 \<or> clock (es_source es) + (k - 1) * step + unat (pc_tolerance (es_pacer es)) < due_at (es_pacer es))"
proof (induction "due_at (es_pacer es) - clock (es_source es)" arbitrary: es buf rule: less_induct)
  case less
  obtain x buf1 s1 where g: "grab \<lparr>sp_ptr = base, sp_data = buf\<rparr> (es_source es) = (x, buf1, s1)"
    by (metis prod_cases3)
  show ?case
  proof (cases x)
    case (Inl e)
    then show ?thesis by (subst EncodedSource_grab.simps) (simp add: g)
  next
    case (Inr fr)
    obtain ok p1 where a: "Pacer_admit (es_pacer es) (fr_timestamp fr) = (ok, p1)" by fastforce
    show ?thesis
    proof (cases ok)
      case True
      then show ?thesis using Pacer_admit_counts [OF a]
        by (subst EncodedSource_grab.simps) (simp add: g Inr a Let_def)
    next
      case False
      have t: "clock (es_source es) \<le> unat (fr_timestamp fr)" "unat (fr_timestamp fr) + step \<le> clock s1"
        using assms(1) g Inr by (auto simp: camera_advances_def)
      from a False have a': "Pacer_admit (es_pacer es) (fr_timestamp fr) = (False, p1)" by simp
      note d = Pacer_admit_dropped [OF a']
      let ?es1 = "es\<lparr>es_source := s1, es_pacer := p1, es_dropped := es_dropped es + 1\<rparr>"
      have due: "due_at p1 = due_at (es_pacer es)" by (simp add: d(2) due_at_def)
      have "due_at (es_pacer ?es1) - clock (es_source ?es1) < due_at (es_pacer es) - clock (es_source es)"
        using t d(1) assms(2) due by simp
      from less [OF this, of buf1] obtain r buf2 es2 k where
        k: "EncodedSource_grab grab base buf1 ?es1 = Some (r, buf2, es2)"
          "es_dropped es2 = es_dropped es + 1 + k" "pc_dropped (es_pacer es2) = pc_dropped p1 + k"
          "es_produced es2 = es_produced es"
          "k = 0 \<or> clock s1 + (k - 1) * step + unat (pc_tolerance p1) < due_at p1"
        by auto
      have "EncodedSource_grab grab base buf es = Some (r, buf2, es2)"
        using k(1) False by (subst EncodedSource_grab.simps) (simp add: g Inr a Let_def)
      moreover have "clock (es_source es) + k * step + unat (pc_tolerance (es_pacer es)) < due_at (es_pacer es)"
        using k(5) t d due by (cases k) auto
      ultimately show ?thesis using k(2-4) d(2)
        by (intro exI [of _ r] exI [of _ buf2] exI [of _ es2] exI [of _ "Suc k"]) simp
    qed
  qed
qed

text \<open>C27: A packet is produced or refused, never waited for without end: over a camera whose clock
  goes on by at least one step per frame, \<open>next_packet\<close> returns, on every target and whatever the
  encoder does, and the frames it drops on the way are at most the steps between the camera's clock
  and the due time. The drops are counted alike by the source and its pacer, and a packet is counted
  exactly when one is returned.\<close>

theorem EncodedSource_next_packet_returns:
  assumes "camera_advances grab clock step" and "0 < step"
  shows "\<exists>r scratch1 es1 k.
    EncodedSource_next_packet t api grab enc base scratch es = Some (r, scratch1, es1) \<and>
    es_dropped es1 = es_dropped es + k \<and> pc_dropped (es_pacer es1) = pc_dropped (es_pacer es) + k \<and>
    es_produced es1 = es_produced es + (case r of Inl _ \<Rightarrow> 0 | Inr _ \<Rightarrow> 1) \<and>
    (k = 0 \<or> clock (es_source es) + (k - 1) * step + unat (pc_tolerance (es_pacer es)) < due_at (es_pacer es))"
proof (cases "length scratch \<le> es_frame_bytes es")
  case True
  then show ?thesis
    by (intro exI [of _ "bind_r (usize_add t (es_frame_bytes es) 1) (\<lambda>needed. Inl (Err (BufferTooSmall needed)))"]
        exI [of _ scratch] exI [of _ es] exI [of _ 0])
      (auto simp: EncodedSource_next_packet_def bind_r_def split: sum.splits)
next
  case False
  from EncodedSource_grab_returns [OF assms, of base "take (es_frame_bytes es) scratch" es]
  obtain r buf1 es1 k where g: "EncodedSource_grab grab base (take (es_frame_bytes es) scratch) es = Some (r, buf1, es1)"
    and k: "es_dropped es1 = es_dropped es + k" "pc_dropped (es_pacer es1) = pc_dropped (es_pacer es) + k"
      "es_produced es1 = es_produced es"
      "k = 0 \<or> clock (es_source es) + (k - 1) * step + unat (pc_tolerance (es_pacer es)) < due_at (es_pacer es)"
    by blast
  have "\<exists>r2 scratch2 es2. EncodedSource_next_packet t api grab enc base scratch es = Some (r2, scratch2, es2) \<and>
      es_dropped es2 = es_dropped es1 \<and> es_pacer es2 = es_pacer es1 \<and>
      es_produced es2 = es_produced es1 + (case r2 of Inl _ \<Rightarrow> 0 | Inr _ \<Rightarrow> 1)"
  proof (cases "bind_r r (\<lambda>sh. Shape_rebuild api sh \<lparr>sp_ptr = base, sp_data = buf1\<rparr>)")
    case (Inl e)
    with False g show ?thesis by (simp add: EncodedSource_next_packet_def Let_def)
  next
    case (Inr fr)
    obtain x out1 enc1 where "ve_encode enc fr (drop (es_frame_bytes es) scratch) (es_encoder es1) = (x, out1, enc1)"
      by (metis prod_cases3)
    with False g Inr show ?thesis by (cases x) (simp_all add: EncodedSource_next_packet_def Let_def)
  qed
  with k show ?thesis by auto
qed


text \<open>The camera of the repository's test: a six-byte JPEG, 20 ms after the last.\<close>

definition test_camera :: "nat grab" where
  "test_camera buf n =
     (if n * 20000 < 2 ^ 64 then
        (case put (sp_data buf) 0 [0xFF, 0xD8, 0x00, of_nat n, 0xFF, 0xD9] of
           Inl e \<Rightarrow> (Inl e, sp_data buf, n)
         | Inr b \<Rightarrow>
             (Inr \<lparr>fr_geometry = \<lparr>gm_width = 320, gm_height = 240, gm_format = JpegFormat\<rparr>,
                fr_timestamp = of_nat (n * 20000), fr_sequence = of_nat n,
                fr_planes = Packed \<lparr>sp_ptr = sp_ptr buf, sp_data = take 6 b\<rparr>\<rparr>, b, n + 1))
      else (Inl (Err Hardware), sp_data buf, n))"

lemma test_camera_advances: "camera_advances test_camera (\<lambda>n. n * 20000) 20000"
proof -
  have t: "unat (of_nat k :: u64) = k" if "k < 2 ^ 64" for k using that by (simp add: unat_of_nat)
  have "n * 20000 \<le> unat (fr_timestamp fr) \<and> unat (fr_timestamp fr) + 20000 \<le> s1 * 20000"
    if a: "test_camera buf n = (Inr fr, buf1, s1)" for buf n fr buf1 s1
  proof (cases "n * 20000 < 2 ^ 64")
    case True
    with a have "fr_timestamp fr = of_nat (n * 20000)" "s1 = n + 1"
      unfolding test_camera_def by (auto split: sum.splits)
    with t [OF True] show ?thesis by simp
  next
    case False
    then show ?thesis using a unfolding test_camera_def if_not_P [OF False] by simp
  qed
  then show ?thesis unfolding camera_advances_def by blast
qed

definition test_source :: "(nat, passthrough) encoded_source" where
  "test_source =
     \<lparr>es_source = 1, es_encoder = Passthrough_default, es_pacer = snd (Pacer_admit (Pacer_new 10) 0),
      es_frame_bytes = 64, es_dropped = 0, es_produced = 1\<rparr>"

lemma due_at_test_source: "due_at (es_pacer test_source) = 100000"
  by (simp add: test_source_def Pacer_new_def Pacer_with_burst_def Pacer_admit_def sat_add_def due_at_def Let_def)

theorem EncodedSource_next_packet_returns_witness:
  "\<exists>r scratch1 es1.
     EncodedSource_next_packet (esp32_target True) plain_frame_api test_camera
       (Passthrough_encoder (fa_coded plain_frame_api)) 4096 (replicate 65 0) test_source =
       Some (r, scratch1, es1) \<and> es_dropped es1 \<le> 4"
proof -
  have s: "0 < (20000 :: nat)" "es_source test_source = 1" "es_dropped test_source = 0"
    by (simp_all add: test_source_def)
  have k: "k \<le> 4" if "k = 0 \<or> 1 * 20000 + (k - 1) * 20000 + m < (100000 :: nat)" for k m
    using that by (cases k) auto
  from EncodedSource_next_packet_returns [OF test_camera_advances s(1), of "esp32_target True" plain_frame_api
      "Passthrough_encoder (fa_coded plain_frame_api)" 4096 "replicate 65 0" test_source, unfolded due_at_test_source s(2,3)]
  show ?thesis using k by (metis add_0)
qed

section \<open>A paced stream\<close>

text \<open>Packets pulled one after the other, each into a scratch buffer of its own.\<close>

fun EncodedSource_pull ::
  "target \<Rightarrow> frame_api \<Rightarrow> 's grab \<Rightarrow> 'e video_encoder \<Rightarrow> nat \<Rightarrow> bytes list \<Rightarrow> ('s, 'e) encoded_source \<Rightarrow>
     (media_packet result list \<times> ('s, 'e) encoded_source) option" where
  "EncodedSource_pull t api grab enc base [] es = Some ([], es)"
| "EncodedSource_pull t api grab enc base (scratch # scratches) es =
     (case EncodedSource_next_packet t api grab enc base scratch es of
        None \<Rightarrow> None
      | Some (r, _, es1) \<Rightarrow>
          map_option (\<lambda>(rs, es2). (r # rs, es2)) (EncodedSource_pull t api grab enc base scratches es1))"

text \<open>A camera that captures the given JPEGs at the given times, at the front of the buffer.\<close>

definition jpeg_frame :: "geometry \<Rightarrow> micros \<times> bytes \<Rightarrow> u32 \<Rightarrow> nat \<Rightarrow> frame" where
  "jpeg_frame g f q base =
     \<lparr>fr_geometry = g, fr_timestamp = fst f, fr_sequence = q,
      fr_planes = Packed \<lparr>sp_ptr = base, sp_data = snd f\<rparr>\<rparr>"

fun captures :: "frame_api \<Rightarrow> 's grab \<Rightarrow> geometry \<Rightarrow> nat \<Rightarrow> nat \<Rightarrow> (micros \<times> bytes) list \<Rightarrow> 's \<Rightarrow> bool" where
  "captures api grab g base n [] s \<longleftrightarrow> True"
| "captures api grab g base n (f # fs) s \<longleftrightarrow>
     (\<forall>buf. length buf = n \<longrightarrow>
        (\<exists>q buf1 s1. grab \<lparr>sp_ptr = base, sp_data = buf\<rparr> s = (Inr (jpeg_frame g f q base), buf1, s1) \<and>
           length buf1 = n \<and> length (snd f) \<le> n \<and> take (length (snd f)) buf1 = snd f \<and>
           frame_built api (jpeg_frame g f q base) \<and>
           fa_coded api (jpeg_frame g f q base) = Some (snd f) \<and> captures api grab g base n fs s1))"

definition admitted_frames :: "'f list \<Rightarrow> bool list \<Rightarrow> 'f list" where
  "admitted_frames fs oks = map fst (filter snd (zip fs oks))"

definition jpeg_packet :: "micros \<times> bytes \<Rightarrow> media_packet" where
  "jpeg_packet f = \<lparr>mp_codec = Jpeg, mp_key = True, mp_timestamp = fst f, mp_data = snd f\<rparr>"

text \<open>The counters of the source and of its pacer go together.\<close>

definition counts_agree :: "('s, 'e) encoded_source \<Rightarrow> ('s, 'e) encoded_source \<Rightarrow> bool" where
  "counts_agree es es1 \<longleftrightarrow>
     es_dropped es1 + pc_dropped (es_pacer es) = es_dropped es + pc_dropped (es_pacer es1) \<and>
     es_produced es1 + pc_admitted (es_pacer es) = es_produced es + pc_admitted (es_pacer es1)"

lemma EncodedSource_grab_captured:
  fixes e0 :: "('s, 'e) encoded_source"
  assumes "captures api grab g base n fs (es_source e0)" "Pacer_run (es_pacer e0) (map fst fs) = (oks, p1)"
    and "True \<in> set oks" "length buf = n"
  shows "\<exists>f fs1 oks1 q buf1 es1 sh.
    EncodedSource_grab grab base buf e0 = Some (Inr sh, buf1, es1) \<and> length buf1 = n \<and>
    Shape_rebuild api sh \<lparr>sp_ptr = base, sp_data = buf1\<rparr> = Inr (jpeg_frame g f q base) \<and>
    fa_coded api (jpeg_frame g f q base) = Some (snd f) \<and>
    admitted_frames fs oks = f # admitted_frames fs1 oks1 \<and> count_list oks True = Suc (count_list oks1 True) \<and>
    captures api grab g base n fs1 (es_source es1) \<and> Pacer_run (es_pacer es1) (map fst fs1) = (oks1, p1) \<and>
    es_frame_bytes es1 = es_frame_bytes e0 \<and> es_produced es1 = es_produced e0 \<and> es_encoder es1 = es_encoder e0 \<and>
    es_dropped es1 + pc_dropped (es_pacer e0) = es_dropped e0 + pc_dropped (es_pacer es1) \<and>
    pc_admitted (es_pacer es1) = pc_admitted (es_pacer e0) + 1"
  using assms
proof (induction fs arbitrary: e0 oks buf)
  case Nil
  then show ?case by simp
next
  case (Cons f fs)
  from Cons.prems(1,4) obtain q buf1 s1 where
    gr: "grab \<lparr>sp_ptr = base, sp_data = buf\<rparr> (es_source e0) = (Inr (jpeg_frame g f q base), buf1, s1)"
      "length buf1 = n" "length (snd f) \<le> n" "take (length (snd f)) buf1 = snd f"
      "frame_built api (jpeg_frame g f q base)"
      "fa_coded api (jpeg_frame g f q base) = Some (snd f)" "captures api grab g base n fs s1"
    by auto
  obtain ok p2 where a: "Pacer_admit (es_pacer e0) (fst f) = (ok, p2)" by fastforce
  obtain oks2 p3 where r: "Pacer_run p2 (map fst fs) = (oks2, p3)" by fastforce
  from Cons.prems(2) a r have oks: "oks = ok # oks2" "p1 = p3" by simp_all
  have ts: "fr_timestamp (jpeg_frame g f q base) = fst f" by (simp add: jpeg_frame_def)
  show ?case
  proof (cases ok)
    case True
    let ?fr = "jpeg_frame g f q base" and ?b = "\<lparr>sp_ptr = base, sp_data = buf1\<rparr>"
    have w: "\<forall>s \<in> set (frame_spans ?fr). span_within ?b s \<and> span_shows ?b s"
      using gr by (simp add: frame_spans_def jpeg_frame_def span_within_def span_shows_def)
    then obtain sh where sh: "Shape_of ?fr (sp_ptr ?b) (length (sp_data ?b)) = Inr sh"
      using Shape_of_eq [of ?fr ?b] by auto
    from Shape_rebuild_frame [OF w refl refl sh, of api] gr(5)
    have rb: "Shape_rebuild api sh ?b = Inr ?fr" by (simp add: frame_built_def)
    have "EncodedSource_grab grab base buf e0 = Some (Inr sh, buf1, e0\<lparr>es_source := s1, es_pacer := p2\<rparr>)"
      using True sh gr(2) Cons.prems(4) by (subst EncodedSource_grab.simps) (simp add: gr(1) ts a Let_def)
    then show ?thesis using rb gr(2,6,7) r oks Pacer_admit_counts [OF a] True
      by (intro exI [of _ f] exI [of _ fs] exI [of _ oks2] exI [of _ q] exI [of _ buf1]
          exI [of _ "e0\<lparr>es_source := s1, es_pacer := p2\<rparr>"] exI [of _ sh])
        (simp add: admitted_frames_def)
  next
    case False
    let ?e1 = "e0\<lparr>es_source := s1, es_pacer := p2, es_dropped := es_dropped e0 + 1\<rparr>"
    have step: "EncodedSource_grab grab base buf e0 = EncodedSource_grab grab base buf1 ?e1"
      using False by (subst EncodedSource_grab.simps) (simp add: gr(1) ts a Let_def)
    have "captures api grab g base n fs (es_source ?e1)" using gr(7) by simp
    moreover have "Pacer_run (es_pacer ?e1) (map fst fs) = (oks2, p1)" using r oks by simp
    moreover have "True \<in> set oks2" using Cons.prems(3) oks False by simp
    moreover have "admitted_frames (f # fs) oks = admitted_frames fs oks2"
      "count_list oks True = count_list oks2 True"
      using oks False by (simp_all add: admitted_frames_def)
    ultimately show ?thesis using Cons.IH [of ?e1 oks2 buf1] gr(2) Pacer_admit_counts [OF a] False step
      by fastforce
  qed
qed

lemma EncodedSource_next_packet_captured:
  assumes "captures api grab g base (es_frame_bytes es) fs (es_source es)"
    and "Pacer_run (es_pacer es) (map fst fs) = (oks, p1)" and "True \<in> set oks"
    and "es_frame_bytes es < length scratch"
  shows "\<exists>f fs1 oks1 scratch1 es1.
    EncodedSource_next_packet t api grab (Passthrough_encoder (fa_coded api)) base scratch es =
      Some (Inr (jpeg_packet f), scratch1, es1) \<and> length scratch1 = length scratch \<and>
    admitted_frames fs oks = f # admitted_frames fs1 oks1 \<and> count_list oks True = Suc (count_list oks1 True) \<and>
    captures api grab g base (es_frame_bytes es) fs1 (es_source es1) \<and>
    Pacer_run (es_pacer es1) (map fst fs1) = (oks1, p1) \<and> es_frame_bytes es1 = es_frame_bytes es \<and>
    counts_agree es es1"
proof -
  let ?n = "es_frame_bytes es"
  have "length (take ?n scratch) = ?n" using assms(4) by simp
  from EncodedSource_grab_captured [OF assms(1-3) this] obtain f fs1 oks1 q buf1 es1 sh where
    gr: "EncodedSource_grab grab base (take ?n scratch) es = Some (Inr sh, buf1, es1)"
      "length buf1 = ?n"
      "Shape_rebuild api sh \<lparr>sp_ptr = base, sp_data = buf1\<rparr> = Inr (jpeg_frame g f q base)"
      "fa_coded api (jpeg_frame g f q base) = Some (snd f)"
      "admitted_frames fs oks = f # admitted_frames fs1 oks1" "count_list oks True = Suc (count_list oks1 True)"
      "captures api grab g base ?n fs1 (es_source es1)" "Pacer_run (es_pacer es1) (map fst fs1) = (oks1, p1)"
      "es_frame_bytes es1 = es_frame_bytes es" "es_produced es1 = es_produced es"
      "es_dropped es1 + pc_dropped (es_pacer es) = es_dropped es + pc_dropped (es_pacer es1)"
      "pc_admitted (es_pacer es1) = pc_admitted (es_pacer es) + 1"
    by blast
  have "EncodedSource_next_packet t api grab (Passthrough_encoder (fa_coded api)) base scratch es =
      Some (Inr (jpeg_packet f), buf1 @ drop ?n scratch,
        es1\<lparr>es_encoder := es_encoder es1, es_produced := es_produced es1 + 1\<rparr>)"
    using assms(4) gr(1,3,4)
    by (simp add: EncodedSource_next_packet_def Let_def Passthrough_encoder_def Passthrough_encode_def
        jpeg_packet_def jpeg_frame_def)
  then show ?thesis using assms(4) gr(2,5-12)
    by (intro exI [of _ f] exI [of _ fs1] exI [of _ oks1] exI [of _ "buf1 @ drop ?n scratch"]
        exI [of _ "es1\<lparr>es_encoder := es_encoder es1, es_produced := es_produced es1 + 1\<rparr>"])
      (simp add: counts_agree_def)
qed


text \<open>C15: A paced stream, camera to packets. Over a camera that captures JPEGs at any times, pulling packets
  through a passthrough gives exactly the frames the pacer admits, in order, each with its own bytes
  and its own timestamp, and one packet for every scratch buffer; the counters of the source account
  for every frame as those of the pacer do. It holds from any state of the source and the pacer.\<close>

theorem EncodedSource_delivers:
  assumes "captures api grab g base (es_frame_bytes es) fs (es_source es)"
    and "Pacer_run (es_pacer es) (map fst fs) = (oks, p1)"
    and "length scratches \<le> count_list oks True"
    and "\<forall>scratch \<in> set scratches. es_frame_bytes es < length scratch"
  shows "\<exists>es1. EncodedSource_pull t api grab (Passthrough_encoder (fa_coded api)) base scratches es =
      Some (map (\<lambda>f. Inr (jpeg_packet f)) (take (length scratches) (admitted_frames fs oks)), es1) \<and>
    counts_agree es es1"
  using assms
proof (induction scratches arbitrary: es fs oks)
  case Nil
  then show ?case by (simp add: counts_agree_def)
next
  case (Cons sc scs)
  have "count_list oks True \<noteq> 0" using Cons.prems(3) by auto
  then have "True \<in> set oks" by (metis count_list_0_iff)
  from EncodedSource_next_packet_captured [OF Cons.prems(1,2) this, of sc t] Cons.prems(4)
  obtain f fs1 oks1 scratch1 es1 where
    n: "EncodedSource_next_packet t api grab (Passthrough_encoder (fa_coded api)) base sc es =
        Some (Inr (jpeg_packet f), scratch1, es1)"
      "admitted_frames fs oks = f # admitted_frames fs1 oks1" "count_list oks True = Suc (count_list oks1 True)"
      "captures api grab g base (es_frame_bytes es) fs1 (es_source es1)"
      "Pacer_run (es_pacer es1) (map fst fs1) = (oks1, p1)" "es_frame_bytes es1 = es_frame_bytes es"
      "counts_agree es es1"
    by auto
  have "\<exists>es2. EncodedSource_pull t api grab (Passthrough_encoder (fa_coded api)) base scs es1 =
      Some (map (\<lambda>f. Inr (jpeg_packet f)) (take (length scs) (admitted_frames fs1 oks1)), es2) \<and>
      counts_agree es1 es2"
    using Cons.IH [of es1 fs1 oks1] n(3-6) Cons.prems(3,4) by simp
  then show ?case using n(1,2,7) by (auto simp: counts_agree_def)
qed

definition test_frame :: "nat \<Rightarrow> micros \<times> bytes" where
  "test_frame n = (of_nat (n * 20000), [0xFF, 0xD8, 0x00, of_nat n, 0xFF, 0xD9])"

lemma test_camera_captures:
  assumes "6 \<le> n" "(k + m) * 20000 < 2 ^ 64"
  shows "captures plain_frame_api test_camera \<lparr>gm_width = 320, gm_height = 240, gm_format = JpegFormat\<rparr>
    base n (map test_frame [k..<k + m]) k"
  using assms(2)
proof (induction m arbitrary: k)
  case (Suc m)
  have u: "[k..<k + Suc m] = k # [Suc k..<Suc k + m]" by (simp add: upt_conv_Cons)
  have lt: "k * 20000 < 2 ^ 64" using Suc.prems by simp
  have p: "put buf 0 [0xFF, 0xD8, 0x00, of_nat k, 0xFF, 0xD9] =
      Inr ([0xFF, 0xD8, 0x00, of_nat k, 0xFF, 0xD9] @ drop 6 buf)" if "length buf = n" for buf :: bytes
    using that assms(1) by (simp add: eval_nat_numeral)
  have "captures plain_frame_api test_camera \<lparr>gm_width = 320, gm_height = 240, gm_format = JpegFormat\<rparr>
      base n (map test_frame [Suc k..<Suc k + m]) (Suc k)"
    using Suc.prems by (intro Suc.IH) simp
  then show ?case unfolding u list.map captures.simps test_camera_def if_P [OF lt]
    using assms(1)
    by (auto simp: p jpeg_frame_def test_frame_def frame_built_def plain_frame_api_def)
qed simp

theorem EncodedSource_delivers_witness:
  "\<exists>es1. EncodedSource_pull (esp32_target True) plain_frame_api test_camera
       (Passthrough_encoder (fa_coded plain_frame_api)) 4096 [replicate 65 0, replicate 65 0]
       \<lparr>es_source = 0, es_encoder = Passthrough_default, es_pacer = Pacer_new 10, es_frame_bytes = 64,
         es_dropped = 0, es_produced = 0\<rparr> =
     Some ([Inr (jpeg_packet (test_frame 0)), Inr (jpeg_packet (test_frame 5))], es1)"
proof -
  let ?es = "\<lparr>es_source = 0 :: nat, es_encoder = Passthrough_default, es_pacer = Pacer_new 10, es_frame_bytes = 64,
    es_dropped = 0, es_produced = 0\<rparr>"
  let ?fs = "map test_frame [0..<0 + 6]" and ?oks = "[True, False, False, False, False, True]"
  have ts: "map fst ?fs = [0, 20000, 40000, 60000, 80000, 100000]"
    by (simp add: test_frame_def upt_rec)
  have r: "fst (Pacer_run (Pacer_new 10) [0, 20000, 40000, 60000, 80000, 100000]) = ?oks"
  proof -
    have "fst (Pacer_run (Pacer_new 10) [0, 20000, 40000, 60000, 80000, 100000]) =
        spaced 100000 None (map unat [0 :: u64, 20000, 40000, 60000, 80000, 100000])"
      by (rule Pacer_run_spaced) (simp_all add: Pacer_new_def Pacer_with_burst_def)
    then show ?thesis by simp
  qed
  then obtain p1 where run: "Pacer_run (es_pacer ?es) (map fst ?fs) = (?oks, p1)"
    unfolding ts by (cases "Pacer_run (Pacer_new 10) [0, 20000, 40000, 60000, 80000, 100000]") simp
  have cap: "captures plain_frame_api test_camera \<lparr>gm_width = 320, gm_height = 240, gm_format = JpegFormat\<rparr>
      4096 (es_frame_bytes ?es) ?fs (es_source ?es)"
    using test_camera_captures [of 64 0 6 4096] by simp
  have adm: "take 2 (admitted_frames ?fs ?oks) = [test_frame 0, test_frame 5]"
    by (simp add: admitted_frames_def upt_rec eval_nat_numeral)
  have c: "length [replicate 65 0, replicate 65 0 :: bytes] \<le> count_list ?oks True"
    "\<forall>sc \<in> set [replicate 65 0, replicate 65 0 :: bytes]. es_frame_bytes ?es < length sc"
    "length [replicate 65 0, replicate 65 0 :: bytes] = 2"
    by simp_all
  note d = EncodedSource_delivers [OF cap run c(1,2), of "esp32_target True", unfolded c(3) adm list.map]
  from d obtain es1 where "EncodedSource_pull (esp32_target True) plain_frame_api test_camera
       (Passthrough_encoder (fa_coded plain_frame_api)) 4096 [replicate 65 0, replicate 65 0] ?es =
     Some ([Inr (jpeg_packet (test_frame 0)), Inr (jpeg_packet (test_frame 5))], es1)" by blast
  then show ?thesis by (rule exI)
qed

text \<open>
  The source over any encoder that keeps the contract of the seam: its encoder stays in the good
  states, and a packet has the codec the encoder announces.
\<close>

lemma EncodedSource_grab_encoder:
  fixes es es1 :: "('s, 'e) encoded_source"
  assumes "EncodedSource_grab grab base buf es = Some (r, buf1, es1)"
  shows "es_encoder es1 = es_encoder es"
proof -
  let ?P = "\<lambda>(grab :: 's grab) (base :: nat) (buf :: bytes) (es :: ('s, 'e) encoded_source)
    (z :: shape result \<times> bytes \<times> ('s, 'e) encoded_source). es_encoder (snd (snd z)) = es_encoder es"
  have "es_encoder (snd (snd (r, buf1, es1))) = es_encoder es"
  proof (rule EncodedSource_grab.raw_induct [of ?P, OF _ assms])
    fix gl :: "'s grab \<Rightarrow> nat \<Rightarrow> bytes \<Rightarrow> ('s, 'e) encoded_source \<Rightarrow> (shape result \<times> bytes \<times> ('s, 'e) encoded_source) option"
      and grab :: "'s grab" and base and buf and es :: "('s, 'e) encoded_source" and z
    assume IH: "\<And>grab base buf es z. gl grab base buf es = Some z \<Longrightarrow> es_encoder (snd (snd z)) = es_encoder es"
      and step: "(case grab \<lparr>sp_ptr = base, sp_data = buf\<rparr> (es_source es) of
          (Inl e, buf1, s1) \<Rightarrow> Some (Inl e, buf1, es\<lparr>es_source := s1\<rparr>)
        | (Inr fr, buf1, s1) \<Rightarrow>
            (case Pacer_admit (es_pacer es) (fr_timestamp fr) of (ok, p1) \<Rightarrow>
               (let es1 = es\<lparr>es_source := s1, es_pacer := p1\<rparr> in
                if ok then Some (Shape_of fr base (length buf), buf1, es1)
                else gl grab base buf1 (es1\<lparr>es_dropped := es_dropped es1 + 1\<rparr>)))) = Some z"
    obtain x buf1 s1 where g: "grab \<lparr>sp_ptr = base, sp_data = buf\<rparr> (es_source es) = (x, buf1, s1)"
      by (metis prod_cases3)
    show "es_encoder (snd (snd z)) = es_encoder es"
    proof (cases x)
      case (Inl e)
      then show ?thesis using step g by auto
    next
      case (Inr fr)
      obtain ok p1 where a: "Pacer_admit (es_pacer es) (fr_timestamp fr) = (ok, p1)" by fastforce
      show ?thesis
      proof (cases ok)
        case True
        then show ?thesis using step g Inr a by (auto simp: Let_def)
      next
        case False
        then have "gl grab base buf1 (es\<lparr>es_source := s1, es_pacer := p1, es_dropped := es_dropped es + 1\<rparr>) = Some z"
          using step g Inr a by (simp add: Let_def)
        from IH [OF this] show ?thesis by simp
      qed
    qed
  qed
  then show ?thesis by simp
qed

context frame_encoder
begin

lemma next_packet_good:
  assumes "good (es_encoder es)"
    and "EncodedSource_next_packet t api grab enc base scratch es = Some (r, scratch1, es1)"
  shows "good (es_encoder es1) \<and> (\<forall>pkt. r = Inr pkt \<longrightarrow> mp_codec pkt = ve_codec enc)"
proof (cases "length scratch \<le> es_frame_bytes es")
  case True
  then show ?thesis using assms
    by (auto simp: EncodedSource_next_packet_def bind_r_def split: sum.splits)
next
  case False
  then obtain r2 buf1 es2 where
    g: "EncodedSource_grab grab base (take (es_frame_bytes es) scratch) es = Some (r2, buf1, es2)"
    using assms(2) by (auto simp: EncodedSource_next_packet_def Let_def split: option.splits)
  then have e: "good (es_encoder es2)" using EncodedSource_grab_encoder assms(1) by metis
  show ?thesis
  proof (cases "bind_r r2 (\<lambda>sh. Shape_rebuild api sh \<lparr>sp_ptr = base, sp_data = buf1\<rparr>)")
    case (Inl f)
    with False g e assms(2) show ?thesis by (auto simp: EncodedSource_next_packet_def Let_def)
  next
    case (Inr fr)
    obtain x out1 enc1 where v: "ve_encode enc fr (drop (es_frame_bytes es) scratch) (es_encoder es2) = (x, out1, enc1)"
      by (metis prod_cases3)
    have "good enc1" using encode_good [OF e, of fr "drop (es_frame_bytes es) scratch"] v by simp
    with False g Inr v assms(2) encode_packet show ?thesis
      by (cases x) (auto simp: EncodedSource_next_packet_def Let_def)
  qed
qed

lemma pull_good:
  "good (es_encoder es) \<Longrightarrow> EncodedSource_pull t api grab enc base scratches es = Some (rs, es1) \<Longrightarrow>
   good (es_encoder es1) \<and> (\<forall>pkt. Inr pkt \<in> set rs \<longrightarrow> mp_codec pkt = ve_codec enc)"
proof (induction scratches arbitrary: es rs)
  case (Cons sc scs)
  from Cons.prems(2) obtain r sc1 es2 rs2 where
    n: "EncodedSource_next_packet t api grab enc base sc es = Some (r, sc1, es2)"
      "EncodedSource_pull t api grab enc base scs es2 = Some (rs2, es1)" "rs = r # rs2"
    by (auto split: option.splits)
  from next_packet_good [OF Cons.prems(1) n(1)] Cons.IH [OF _ n(2)] n(3) show ?case by auto
qed simp

end

text \<open>An H.264 camera, from start to end: whatever the encoder crate does, every packet is H.264.\<close>

lemma EncodedSource_h264_packets:
  assumes "EncodedSource_new src H264_new n cap = Inr es"
    and "EncodedSource_pull t api grab (H264_encoder x) base scratches es = Some (rs, es1)"
  shows "h264_ok (es_encoder es1) \<and> (\<forall>pkt. Inr pkt \<in> set rs \<longrightarrow> mp_codec pkt = H264)"
proof -
  have "h264_ok (es_encoder es)"
    using assms(1) by (auto simp: EncodedSource_new_def h264_ok_def H264_new_def split: if_splits)
  from h264_seam.pull_good [OF this assms(2)] show ?thesis by (simp add: H264_encoder_def)
qed

end
