(* ===== verification/UdpNet.thy ===== *)
theory UdpNet
  imports Udp Pacer RtpJpeg
begin

text \<open>
  Datagrams over sockets, \<open>udp_net.rs\<close>: the two senders (JPEG over RTP and raw packets, each with an
  optional bit-rate budget) and the two receivers, with their counters. The socket and the clock
  belong to the standard library and are parameters.
\<close>

section \<open>The socket\<close>

text \<open>A receive delivers a datagram, times out, or fails.\<close>

datatype received = Datagram bytes | TimedOut | RecvFailed

text \<open>
  \<open>us_bind\<close> and \<open>us_connect\<close> on addresses, \<open>us_send\<close> (true when sent), \<open>us_set_timeout\<close> (true when
  set), \<open>us_recv\<close> into a buffer no datagram exceeds, and \<open>us_elapsed\<close>, the nanoseconds since the
  receiver started.
\<close>

record ('a, 'c) udp_ops =
  us_bind :: "'a \<Rightarrow> 'c option"
  us_connect :: "'c \<Rightarrow> 'a \<Rightarrow> bool \<times> 'c"
  us_send :: "'c \<Rightarrow> bytes \<Rightarrow> bool \<times> 'c"
  us_set_timeout :: "'c \<Rightarrow> bool \<times> 'c"
  us_recv :: "'c \<Rightarrow> received \<times> 'c"
  us_elapsed :: "'c \<Rightarrow> nat \<times> 'c"

definition open_socket :: "('a, 'c) udp_ops \<Rightarrow> 'a \<Rightarrow> 'a \<Rightarrow> 'c result" where
  "open_socket ops lo dest =
     bind_r (ok_or (us_bind ops lo) Hardware) (\<lambda>c.
     case us_connect ops c dest of (ok, c1) \<Rightarrow> if ok then Inr c1 else Inl (Err Hardware))"

section \<open>Senders\<close>

record tx_stats =
  tx_frames :: nat
  tx_packets :: nat
  tx_bytes :: nat
  tx_dropped :: nat

definition TxStats_default :: tx_stats where
  "TxStats_default = \<lparr>tx_frames = 0, tx_packets = 0, tx_bytes = 0, tx_dropped = 0\<rparr>"

text \<open>The closure both senders pass on: send the datagram, then count it.\<close>

definition send_counted :: "('a, 'c) udp_ops \<Rightarrow> ('c \<times> tx_stats) writer" where
  "send_counted ops s d =
     (case s of (c, st) \<Rightarrow>
        (case us_send ops c d of (ok, c1) \<Rightarrow>
           if ok then (Inr (), c1, st\<lparr>tx_packets := tx_packets st + 1, tx_bytes := tx_bytes st + length d\<rparr>)
           else (Inl (Err Hardware), c1, st)))"

text \<open>\<open>usize::div_ceil\<close>\<close>

definition div_ceil :: "nat \<Rightarrow> nat \<Rightarrow> nat" where
  "div_ceil a b = (a + b - 1) div b"

record 'c rtp_sender =
  js_socket :: 'c
  js_payloader :: jpeg_payloader
  js_scratch :: bytes
  js_budget :: "budget option"
  js_stats :: tx_stats

definition RtpJpegSender_bind :: "('a, 'c) udp_ops \<Rightarrow> 'a \<Rightarrow> 'a \<Rightarrow> u32 \<Rightarrow> nat \<Rightarrow> 'c rtp_sender result" where
  "RtpJpegSender_bind ops lo dest ssrc mtu =
     bind_r (open_socket ops lo dest) (\<lambda>c.
     bind_r (JpegPayloader_new ssrc (ucast (ssrc AND 0xFFFF)) mtu) (\<lambda>p.
     Inr \<lparr>js_socket = c, js_payloader = p, js_scratch = replicate mtu 0, js_budget = None,
       js_stats = TxStats_default\<rparr>))"

definition RtpJpegSender_with_budget :: "target \<Rightarrow> u32 \<Rightarrow> u32 \<Rightarrow> 'c rtp_sender \<Rightarrow> 'c rtp_sender result" where
  "RtpJpegSender_with_budget t kbps burst_ms s =
     bind_r (Budget_new t kbps burst_ms) (\<lambda>b. Inr (s\<lparr>js_budget := Some b\<rparr>))"

definition RtpJpegSender_wire_len :: "'c rtp_sender \<Rightarrow> nat \<Rightarrow> nat" where
  "RtpJpegSender_wire_len s payload =
     (let room = length (js_scratch s) - (rtp_HEADER_LEN + 8);
          packets = div_ceil payload (max room 1)
      in payload + packets * (rtp_HEADER_LEN + 8) + 4 + 128)"

text \<open>
  The result is \<open>None\<close> when the payloader does not return. \<open>since\<close> is \<open>Micros::since\<close>, as for the
  budget.
\<close>

definition RtpJpegSender_send_frame ::
  "('a, 'c) udp_ops \<Rightarrow> (micros \<Rightarrow> micros \<Rightarrow> u64) \<Rightarrow> bytes \<Rightarrow> micros \<Rightarrow> 'c rtp_sender \<Rightarrow>
     (nat result \<times> 'c rtp_sender) option" where
  "RtpJpegSender_send_frame ops since jpeg timestamp s =
     (let wire = RtpJpegSender_wire_len s (length jpeg);
          admit = (case js_budget s of
              None \<Rightarrow> (True, None)
            | Some b \<Rightarrow> (case Budget_admit since b timestamp wire of (ok, b1) \<Rightarrow> (ok, Some b1)));
          s1 = s\<lparr>js_budget := snd admit\<rparr>
      in if \<not> fst admit
         then Some (Inr 0, s1\<lparr>js_stats := (js_stats s1)\<lparr>tx_dropped := tx_dropped (js_stats s1) + 1\<rparr>\<rparr>)
         else
           map_option
             (\<lambda>(r, p, scratch, c, st).
                let s2 = s1\<lparr>js_socket := c, js_payloader := p, js_scratch := scratch, js_stats := st\<rparr> in
                case r of
                  Inl e \<Rightarrow> (Inl e, s2)
                | Inr n \<Rightarrow> (Inr n, s2\<lparr>js_stats := st\<lparr>tx_frames := tx_frames st + 1\<rparr>\<rparr>))
             (JpegPayloader_packetize (send_counted ops) (js_payloader s1) jpeg timestamp (js_scratch s1)
                (js_socket s1, js_stats s1)))"

record 'c raw_sender =
  rw_socket :: 'c
  rw_framer :: framer
  rw_scratch :: bytes
  rw_budget :: "budget option"
  rw_stats :: tx_stats

definition RawUdpSender_bind :: "('a, 'c) udp_ops \<Rightarrow> 'a \<Rightarrow> 'a \<Rightarrow> nat \<Rightarrow> 'c raw_sender result" where
  "RawUdpSender_bind ops lo dest mtu =
     bind_r (open_socket ops lo dest) (\<lambda>c.
     bind_r (Framer_new mtu) (\<lambda>fr.
     Inr \<lparr>rw_socket = c, rw_framer = fr, rw_scratch = replicate mtu 0, rw_budget = None,
       rw_stats = TxStats_default\<rparr>))"

definition RawUdpSender_with_budget :: "target \<Rightarrow> u32 \<Rightarrow> u32 \<Rightarrow> 'c raw_sender \<Rightarrow> 'c raw_sender result" where
  "RawUdpSender_with_budget t kbps burst_ms s =
     bind_r (Budget_new t kbps burst_ms) (\<lambda>b. Inr (s\<lparr>rw_budget := Some b\<rparr>))"

definition RawUdpSender_send_packet ::
  "('a, 'c) udp_ops \<Rightarrow> (micros \<Rightarrow> micros \<Rightarrow> u64) \<Rightarrow> (codec \<Rightarrow> u8) \<Rightarrow> media_packet \<Rightarrow> 'c raw_sender \<Rightarrow>
     (nat result \<times> 'c raw_sender) option" where
  "RawUdpSender_send_packet ops since tag p s =
     (let room = max (length (rw_scratch s) - udp_HEADER_LEN) 1;
          wire = length (mp_data p) + div_ceil (length (mp_data p)) room * udp_HEADER_LEN;
          admit = (case rw_budget s of
              None \<Rightarrow> (True, None)
            | Some b \<Rightarrow> (case Budget_admit since b (mp_timestamp p) wire of (ok, b1) \<Rightarrow> (ok, Some b1)));
          s1 = s\<lparr>rw_budget := snd admit\<rparr>
      in if \<not> fst admit
         then Some (Inr 0, s1\<lparr>rw_stats := (rw_stats s1)\<lparr>tx_dropped := tx_dropped (rw_stats s1) + 1\<rparr>\<rparr>)
         else
           map_option
             (\<lambda>(r, fr, scratch, c, st).
                let s2 = s1\<lparr>rw_socket := c, rw_framer := fr, rw_scratch := scratch, rw_stats := st\<rparr> in
                case r of
                  Inl e \<Rightarrow> (Inl e, s2)
                | Inr n \<Rightarrow> (Inr n, s2\<lparr>rw_stats := st\<lparr>tx_frames := tx_frames st + 1\<rparr>\<rparr>))
             (Framer_frame tag (send_counted ops) (rw_framer s1) p (rw_scratch s1) (rw_socket s1, rw_stats s1)))"

section \<open>Receivers\<close>

record rx_stats =
  rx_packets :: nat
  rx_bytes :: nat
  rx_frames :: nat
  rx_lost :: nat
  rx_dropped :: nat
  rx_bad :: nat
  rx_first_frame_at :: "u64 option"
  rx_last_frame_at :: "u64 option"

definition RxStats_default :: rx_stats where
  "RxStats_default = \<lparr>rx_packets = 0, rx_bytes = 0, rx_frames = 0, rx_lost = 0, rx_dropped = 0, rx_bad = 0,
     rx_first_frame_at = None, rx_last_frame_at = None\<rparr>"

definition RxStats_frame_at :: "('a, 'c) udp_ops \<Rightarrow> 'c \<Rightarrow> rx_stats \<Rightarrow> 'c \<times> rx_stats" where
  "RxStats_frame_at ops c st =
     (case us_elapsed ops c of (ns, c1) \<Rightarrow>
        let now = (of_nat (ns div 1000) :: u64) in
        (c1, st\<lparr>rx_first_frame_at := Some (case rx_first_frame_at st of None \<Rightarrow> now | Some a \<Rightarrow> a),
           rx_last_frame_at := Some now, rx_frames := rx_frames st + 1\<rparr>))"

record until =
  ut_frames :: nat
  ut_for_at_most :: nat

definition keep_receiving :: "until \<Rightarrow> nat \<Rightarrow> rx_stats \<Rightarrow> bool" where
  "keep_receiving u ns st \<longleftrightarrow> ns < ut_for_at_most u \<and> (ut_frames u = 0 \<or> rx_frames st < ut_frames u)"

text \<open>
  The loop of a receiver over what it does with a datagram: \<open>handle\<close> gets the socket, the counters and
  the receiver's own state. Both receivers have this loop; it ends only by the clock, the number of
  frames or an error.
\<close>

partial_function (option) receive_loop ::
  "('a, 'c) udp_ops \<Rightarrow> until \<Rightarrow> (bytes \<Rightarrow> 'c \<Rightarrow> rx_stats \<Rightarrow> 'd \<Rightarrow> unit result \<times> 'c \<times> rx_stats \<times> 'd) \<Rightarrow>
     'c \<Rightarrow> rx_stats \<Rightarrow> 'd \<Rightarrow> (unit result \<times> 'c \<times> rx_stats \<times> 'd) option" where
  "receive_loop ops u handle c st d =
     (case us_elapsed ops c of (ns, c1) \<Rightarrow>
        if \<not> keep_receiving u ns st then Some (Inr (), c1, st, d)
        else
          (case us_recv ops c1 of
             (TimedOut, c2) \<Rightarrow> receive_loop ops u handle c2 st d
           | (RecvFailed, c2) \<Rightarrow> Some (Inl (Err Hardware), c2, st, d)
           | (Datagram bs, c2) \<Rightarrow>
               (let st1 = st\<lparr>rx_packets := rx_packets st + 1, rx_bytes := rx_bytes st + length bs\<rparr> in
                case handle bs c2 st1 d of
                  (Inl e, c3, st2, d1) \<Rightarrow> Some (Inl e, c3, st2, d1)
                | (Inr _, c3, st2, d1) \<Rightarrow> receive_loop ops u handle c3 st2 d1)))"

text \<open>The \<open>match d.push(..)\<close> of \<open>receive_rtp_jpeg\<close>; the caller's closure has the state \<open>'v\<close>.\<close>

definition rtp_handle ::
  "target \<Rightarrow> ('a, 'c) udp_ops \<Rightarrow> ('v \<Rightarrow> bytes \<Rightarrow> u32 \<Rightarrow> u16 \<Rightarrow> u16 \<Rightarrow> 'v) \<Rightarrow> bytes \<Rightarrow> 'c \<Rightarrow> rx_stats \<Rightarrow>
     jpeg_depayloader \<times> 'v \<Rightarrow> unit result \<times> 'c \<times> rx_stats \<times> jpeg_depayloader \<times> 'v" where
  "rtp_handle t ops on_frame bs c st dv =
     (case dv of (d, v) \<Rightarrow>
        (case JpegDepayloader_push t d bs of
           (Inl Panic, d1) \<Rightarrow> (Inl Panic, c, st, d1, v)
         | (Inl (Err _), d1) \<Rightarrow> (Inr (), c, st\<lparr>rx_bad := rx_bad st + 1\<rparr>, d1, v)
         | (Inr (Frame len ts w h), d1) \<Rightarrow>
             (case RxStats_frame_at ops c st of (c1, st1) \<Rightarrow>
                (case JpegDepayloader_jpeg d1 of
                   Inl e \<Rightarrow> (Inl e, c1, st1, d1, v)
                 | Inr jpeg \<Rightarrow> (Inr (), c1, st1, d1, on_frame v jpeg ts w h)))
         | (Inr _, d1) \<Rightarrow> (Inr (), c, st, d1, v)))"

definition receive_rtp_jpeg ::
  "target \<Rightarrow> ('a, 'c) udp_ops \<Rightarrow> ('v \<Rightarrow> bytes \<Rightarrow> u32 \<Rightarrow> u16 \<Rightarrow> u16 \<Rightarrow> 'v) \<Rightarrow> bytes \<Rightarrow> until \<Rightarrow> 'c \<Rightarrow> 'v \<Rightarrow>
     (rx_stats result \<times> 'c \<times> 'v) option" where
  "receive_rtp_jpeg t ops on_frame buf u c v =
     (if length buf < HEADER_RESERVE + 2 then Some (Inl (Err (BufferTooSmall (HEADER_RESERVE + 2))), c, v)
      else
        (case us_set_timeout ops c of (ok, c1) \<Rightarrow>
           if \<not> ok then Some (Inl (Err Hardware), c1, v)
           else
             (case JpegDepayloader_new buf of
                Inl e \<Rightarrow> Some (Inl e, c1, v)
              | Inr d \<Rightarrow>
                  map_option
                    (\<lambda>(r, c2, st, d1, v1).
                       (bind_r r (\<lambda>_. Inr (st\<lparr>rx_lost := unat (dp_lost d1), rx_dropped := unat (dp_dropped d1)\<rparr>)), c2, v1))
                    (receive_loop ops u (rtp_handle t ops on_frame) c1 RxStats_default (d, v)))))"

definition raw_handle ::
  "target \<Rightarrow> ('a, 'c) udp_ops \<Rightarrow> ('v \<Rightarrow> udp_header \<Rightarrow> bytes \<Rightarrow> 'v) \<Rightarrow> bytes \<Rightarrow> 'c \<Rightarrow> rx_stats \<Rightarrow>
     reassembler \<times> 'v \<Rightarrow> unit result \<times> 'c \<times> rx_stats \<times> reassembler \<times> 'v" where
  "raw_handle t ops on_packet bs c st rv =
     (case rv of (r, v) \<Rightarrow>
        (case Reassembler_push t r bs of
           (Inl Panic, r1) \<Rightarrow> (Inl Panic, c, st, r1, v)
         | (Inl (Err _), r1) \<Rightarrow> (Inr (), c, st\<lparr>rx_bad := rx_bad st + 1\<rparr>, r1, v)
         | (Inr (Complete h), r1) \<Rightarrow>
             (case RxStats_frame_at ops c st of (c1, st1) \<Rightarrow>
                (case Reassembler_packet r1 h of
                   Inl e \<Rightarrow> (Inl e, c1, st1, r1, v)
                 | Inr bs1 \<Rightarrow> (Inr (), c1, st1, r1, on_packet v h bs1)))
         | (Inr _, r1) \<Rightarrow> (Inr (), c, st, r1, v)))"

definition receive_raw ::
  "target \<Rightarrow> ('a, 'c) udp_ops \<Rightarrow> ('v \<Rightarrow> udp_header \<Rightarrow> bytes \<Rightarrow> 'v) \<Rightarrow> bytes \<Rightarrow> until \<Rightarrow> 'c \<Rightarrow> 'v \<Rightarrow>
     (rx_stats result \<times> 'c \<times> 'v) option" where
  "receive_raw t ops on_packet buf u c v =
     (case us_set_timeout ops c of (ok, c1) \<Rightarrow>
        if \<not> ok then Some (Inl (Err Hardware), c1, v)
        else
          map_option
            (\<lambda>(r, c2, st, r1, v1). (bind_r r (\<lambda>_. Inr (st\<lparr>rx_lost := rs_lost r1\<rparr>)), c2, v1))
            (receive_loop ops u (raw_handle t ops on_packet) c1 RxStats_default (Reassembler_new buf, v)))"

section \<open>What a sender counts\<close>

lemma sum_list_udp_datagrams:
  assumes "udp_HEADER_LEN < fr_mtu fr"
  shows "sum_list (map length (udp_datagrams tag fr p)) =
    length (mp_data p) + length (udp_datagrams tag fr p) * udp_HEADER_LEN"
proof -
  have "length (udp_datagram tag (fr_seq fr) p f) = length (snd f) + udp_HEADER_LEN" for f
    by (cases f) (simp add: udp_datagram_def udp_HEADER_LEN_def)
  then have "sum_list (map length (udp_datagrams tag fr p)) =
      (\<Sum>f \<leftarrow> fragments (fr_mtu fr - udp_HEADER_LEN) 0 (mp_data p). length (snd f) + udp_HEADER_LEN)"
    by (simp add: udp_datagrams_def comp_def)
  also have "\<dots> = length (mp_data p) + length (udp_datagrams tag fr p) * udp_HEADER_LEN"
    using sum_fragments [of "fr_mtu fr - udp_HEADER_LEN" 0 "mp_data p"] assms
    by (simp add: sum_list_addf udp_datagrams_def sum_list_triv)
  finally show ?thesis .
qed

text \<open>Whatever the socket does, the counters grow by exactly the datagrams it took.\<close>

lemma write_seq_send_counted:
  "write_seq (send_counted ops) ds (c, st) = (r, c1, st1) \<Longrightarrow>
   \<exists>k \<le> length ds. st1 = st\<lparr>tx_packets := tx_packets st + k,
      tx_bytes := tx_bytes st + sum_list (map length (take k ds))\<rparr> \<and>
     (case r of Inl e \<Rightarrow> e = Err Hardware \<and> k < length ds | Inr _ \<Rightarrow> k = length ds)"
proof (induction ds arbitrary: c st)
  case Nil
  then show ?case by auto
next
  case (Cons d ds)
  obtain ok c2 where s: "us_send ops c d = (ok, c2)" by fastforce
  show ?case
  proof (cases ok)
    case False
    with Cons.prems s have "r = Inl (Err Hardware)" "st1 = st" by (simp_all add: send_counted_def)
    then show ?thesis by (intro exI [of _ 0]) simp
  next
    case True
    let ?st = "st\<lparr>tx_packets := tx_packets st + 1, tx_bytes := tx_bytes st + length d\<rparr>"
    from True s have "send_counted ops (c, st) d = (Inr (), c2, ?st)" by (simp add: send_counted_def)
    with Cons.prems have "write_seq (send_counted ops) ds (c2, ?st) = (r, c1, st1)" by simp
    from Cons.IH [OF this] obtain k where k: "k \<le> length ds"
      "st1 = ?st\<lparr>tx_packets := tx_packets ?st + k, tx_bytes := tx_bytes ?st + sum_list (map length (take k ds))\<rparr>"
      "case r of Inl e \<Rightarrow> e = Err Hardware \<and> k < length ds | Inr _ \<Rightarrow> k = length ds"
      by blast
    then show ?thesis by (intro exI [of _ "Suc k"]) (simp split: sum.splits)
  qed
qed

lemma write_seq_send_counted_bounds:
  assumes "write_seq (send_counted ops) ds (c, st) = (x, c1, st1)"
  shows "tx_bytes st1 \<le> tx_bytes st + sum_list (map length ds)" "tx_dropped st1 = tx_dropped st"
    "x \<noteq> Inl Panic"
proof -
  from write_seq_send_counted [OF assms] obtain k where k: "k \<le> length ds"
    "st1 = st\<lparr>tx_packets := tx_packets st + k, tx_bytes := tx_bytes st + sum_list (map length (take k ds))\<rparr>"
    "case x of Inl e \<Rightarrow> e = Err Hardware \<and> k < length ds | Inr _ \<Rightarrow> k = length ds" by blast
  have "sum_list (map length ds) = sum_list (map length (take k ds)) + sum_list (map length (drop k ds))"
    by (metis append_take_drop_id map_append sum_list_append)
  then show "tx_bytes st1 \<le> tx_bytes st + sum_list (map length ds)" using k(2) by simp
  show "tx_dropped st1 = tx_dropped st" "x \<noteq> Inl Panic" using k(2,3) by (auto split: sum.splits)
qed

lemma div_ceil_le: "0 < n \<Longrightarrow> div_ceil a n \<le> a"
proof -
  assume n: "0 < n"
  then have "a * 1 \<le> a * n" by (intro mult_le_mono2) simp
  with n have "a + n - 1 < n + a * n" by linarith
  then have "a + n - 1 < Suc a * n" by (simp only: mult_Suc)
  then have "(a + n - 1) div n < Suc a" by (rule less_mult_imp_div_less)
  then show ?thesis by (simp add: div_ceil_def)
qed

section \<open>A sender and its budget\<close>

text \<open>The answer of the budget, if there is one.\<close>

definition ask_budget :: "(micros \<Rightarrow> micros \<Rightarrow> u64) \<Rightarrow> budget option \<Rightarrow> micros \<Rightarrow> nat \<Rightarrow> bool \<times> budget option" where
  "ask_budget since bo t n =
     (case bo of None \<Rightarrow> (True, None)
      | Some b \<Rightarrow> (case Budget_admit since b t n of (ok, b1) \<Rightarrow> (ok, Some b1)))"

text \<open>Items sent one after the other.\<close>

fun send_run :: "('p \<Rightarrow> 's \<Rightarrow> (nat result \<times> 's) option) \<Rightarrow> 'p list \<Rightarrow> 's \<Rightarrow> (nat result list \<times> 's) option" where
  "send_run send [] s = Some ([], s)"
| "send_run send (p # ps) s =
     (case send p s of
        None \<Rightarrow> None
      | Some (r, s1) \<Rightarrow> map_option (\<lambda>(rs, s2). (r # rs, s2)) (send_run send ps s1))"

text \<open>
  What both senders promise: the budget is asked once for \<open>wire p\<close> bytes, and no more than that is
  sent when it admits, nothing when it does not; only a faulty item makes a call panic.
\<close>

locale budgeted_sender =
  fixes since :: "micros \<Rightarrow> micros \<Rightarrow> u64"
    and send :: "'p \<Rightarrow> 's \<Rightarrow> (nat result \<times> 's) option"
    and time :: "'p \<Rightarrow> micros" and wire :: "'p \<Rightarrow> nat" and fits faulty :: "'p \<Rightarrow> bool"
    and ok :: "'s \<Rightarrow> bool" and budget :: "'s \<Rightarrow> budget option" and stats :: "'s \<Rightarrow> tx_stats"
  assumes send_bounds:
      "ok s \<Longrightarrow> fits p \<Longrightarrow> ask_budget since (budget s) (time p) (wire p) = (adm, bo) \<Longrightarrow>
       \<exists>r s1. send p s = Some (r, s1) \<and> ok s1 \<and> budget s1 = bo \<and> (r = Inl Panic \<longrightarrow> faulty p) \<and>
         tx_bytes (stats s1) \<le> tx_bytes (stats s) + (if adm then wire p else 0) \<and>
         tx_dropped (stats s1) = tx_dropped (stats s) + (if adm then 0 else 1)"
    and wire_bound: "ok s \<Longrightarrow> fits p \<Longrightarrow> wire p < 2 ^ 64"
begin

lemma send_run_budget:
  assumes "ok s" "\<forall>p \<in> set ps. fits p" "budget s = Some b"
    and "Budget_run since b (map (\<lambda>p. (time p, wire p)) ps) = (oks, b1)"
  shows "\<exists>rs s1. send_run send ps s = Some (rs, s1) \<and>
    length rs = length ps \<and> (\<forall>(p, r) \<in> set (zip ps rs). r = Inl Panic \<longrightarrow> faulty p) \<and> budget s1 = Some b1 \<and>
    tx_bytes (stats s1) \<le> tx_bytes (stats s) + admitted_bytes (map (\<lambda>p. (time p, wire p)) ps) oks \<and>
    tx_dropped (stats s1) = tx_dropped (stats s) + count_list oks False"
  using assms
proof (induction ps arbitrary: s b oks)
  case Nil
  then show ?case by simp
next
  case (Cons p ps)
  let ?fs = "map (\<lambda>p. (time p, wire p)) ps"
  obtain adm b2 where a: "Budget_admit since b (time p) (wire p) = (adm, b2)" by fastforce
  obtain oks2 b3 where r: "Budget_run since b2 ?fs = (oks2, b3)" by fastforce
  from Cons.prems(4) a r have oks: "oks = adm # oks2" "b3 = b1" by simp_all
  have ask: "ask_budget since (budget s) (time p) (wire p) = (adm, Some b2)"
    using Cons.prems(3) a by (simp add: ask_budget_def)
  have p: "fits p" using Cons.prems(2) by simp
  from send_bounds [OF Cons.prems(1) p ask] obtain r1 s1 where
    s1: "send p s = Some (r1, s1)" "ok s1" "budget s1 = Some b2"
    and out: "r1 = Inl Panic \<longrightarrow> faulty p" "tx_bytes (stats s1) \<le> tx_bytes (stats s) + (if adm then wire p else 0)"
      "tx_dropped (stats s1) = tx_dropped (stats s) + (if adm then 0 else 1)"
    by blast
  from Cons.IH [OF s1(2) _ s1(3), of oks2] Cons.prems(2) r oks(2) obtain rs s2 where
    s2: "send_run send ps s1 = Some (rs, s2)" "length rs = length ps"
      "\<forall>(p, r) \<in> set (zip ps rs). r = Inl Panic \<longrightarrow> faulty p" "budget s2 = Some b1"
      "tx_bytes (stats s2) \<le> tx_bytes (stats s1) + admitted_bytes ?fs oks2"
      "tx_dropped (stats s2) = tx_dropped (stats s1) + count_list oks2 False"
    by auto
  have "admitted_bytes (map (\<lambda>p. (time p, wire p)) (p # ps)) oks =
      (if adm then wire p else 0) + admitted_bytes ?fs oks2"
    by (simp add: admitted_bytes_def oks)
  then show ?case using s1(1) s2 out oks(1)
    by (intro exI [of _ "r1 # rs"] exI [of _ s2]) auto
qed

lemma send_run_within:
  assumes "ok s" "budget s = Some b" "bg_bytes_per_second b \<noteq> 0" "budget_ok b" "monotone_clock since"
    and "sorted (map (\<lambda>p. unat (time p)) ps)"
    and "\<forall>p \<in> set ps. lo \<le> unat (time p) \<and> unat (time p) \<le> hi" "\<forall>p \<in> set ps. fits p"
  shows "\<exists>rs s1 b1. send_run send ps s = Some (rs, s1) \<and>
    length rs = length ps \<and> (\<forall>(p, r) \<in> set (zip ps rs). r = Inl Panic \<longrightarrow> faulty p) \<and>
    tx_bytes (stats s1) \<le> tx_bytes (stats s) +
      unat (bg_burst_bytes b) + (hi - lo) * unat (bg_bytes_per_second b) div 1000000 \<and>
    budget s1 = Some b1 \<and> tx_dropped (stats s1) + bg_dropped b = tx_dropped (stats s) + bg_dropped b1"
proof -
  let ?fs = "map (\<lambda>p. (time p, wire p)) ps"
  obtain oks b1 where r: "Budget_run since b ?fs = (oks, b1)" by fastforce
  have w: "\<forall>f \<in> set ?fs. snd f < 2 ^ 64" using wire_bound [OF assms(1)] assms(8) by simp
  have s: "sorted (map (\<lambda>f. unat (fst f)) ?fs)" "\<forall>f \<in> set ?fs. lo \<le> unat (fst f) \<and> unat (fst f) \<le> hi"
    using assms(6,7) by (simp_all add: comp_def)
  from Budget_run_cap [OF assms(3,4,5) s w r] Budget_run_counts [OF r] send_run_budget [OF assms(1,8,2) r]
  show ?thesis by auto
qed

end

section \<open>The raw sender\<close>

definition raw_sender_ok :: "nat \<Rightarrow> 'c raw_sender \<Rightarrow> bool" where
  "raw_sender_ok mtu s \<longleftrightarrow> udp_HEADER_LEN < mtu \<and> fr_mtu (rw_framer s) = mtu \<and> length (rw_scratch s) = mtu"

text \<open>The bytes the budget is asked for.\<close>

definition raw_wire_len :: "nat \<Rightarrow> media_packet \<Rightarrow> nat" where
  "raw_wire_len mtu p =
     length (mp_data p) + div_ceil (length (mp_data p)) (mtu - udp_HEADER_LEN) * udp_HEADER_LEN"

lemma raw_wire_len_datagrams:
  assumes "udp_HEADER_LEN < fr_mtu fr" "mp_data p \<noteq> []"
  shows "sum_list (map length (udp_datagrams tag fr p)) = raw_wire_len (fr_mtu fr) p"
proof -
  let ?n = "fr_mtu fr - udp_HEADER_LEN"
  have "1 * ?n \<le> length (mp_data p) + ?n - 1" using assms by (cases "mp_data p") auto
  then have "1 \<le> (length (mp_data p) + ?n - 1) div ?n" using assms(1) by (simp add: less_eq_div_iff_mult_less_eq)
  then show ?thesis using assms sum_list_udp_datagrams [OF assms(1), of tag p]
    by (simp add: raw_wire_len_def div_ceil_def udp_datagrams_length length_fragments)
qed

lemma RawUdpSender_send_packet_cases:
  assumes "raw_sender_ok mtu s" "length (mp_data p) < 2 ^ 32"
    and "ask_budget since (rw_budget s) (mp_timestamp p) (raw_wire_len mtu p) = (ok, bo)"
  shows "\<exists>r s1. RawUdpSender_send_packet ops since tag p s = Some (r, s1) \<and> raw_sender_ok mtu s1 \<and>
    rw_budget s1 = bo \<and>
    (if \<not> ok
     then r = Inr 0 \<and> rw_socket s1 = rw_socket s \<and> rw_framer s1 = rw_framer s \<and>
       rw_stats s1 = (rw_stats s)\<lparr>tx_dropped := tx_dropped (rw_stats s) + 1\<rparr>
     else \<exists>x c st. rw_framer s1 = (rw_framer s)\<lparr>fr_seq := fr_seq (rw_framer s) + 1\<rparr> \<and>
       write_seq (send_counted ops) (udp_datagrams tag (rw_framer s) p) (rw_socket s, rw_stats s) = (x, c, st) \<and>
       rw_socket s1 = c \<and>
       (case x of
          Inl e \<Rightarrow> r = Inl e \<and> rw_stats s1 = st
        | Inr _ \<Rightarrow> r = Inr (length (udp_datagrams tag (rw_framer s) p)) \<and>
            rw_stats s1 = st\<lparr>tx_frames := tx_frames st + 1\<rparr>))"
proof -
  have m: "udp_HEADER_LEN < fr_mtu (rw_framer s)" "fr_mtu (rw_framer s) \<le> length (rw_scratch s)"
    and mm: "fr_mtu (rw_framer s) = mtu" "length (rw_scratch s) = mtu" "udp_HEADER_LEN < mtu"
    using assms(1) by (simp_all add: raw_sender_ok_def)
  have w: "length (mp_data p) + div_ceil (length (mp_data p)) (max (length (rw_scratch s) - udp_HEADER_LEN) 1) *
      udp_HEADER_LEN = raw_wire_len mtu p"
  proof -
    have "max (mtu - udp_HEADER_LEN) 1 = mtu - udp_HEADER_LEN" using mm(3) by linarith
    then show ?thesis by (simp only: mm(2) raw_wire_len_def)
  qed
  note unf = RawUdpSender_send_packet_def [of ops since tag p s, unfolded Let_def w, folded ask_budget_def, unfolded assms(3)]
  show ?thesis
  proof (cases ok)
    case False
    then show ?thesis using assms(1) unf by (simp add: raw_sender_ok_def)
  next
    case True
    obtain x c st where ws: "write_seq (send_counted ops) (udp_datagrams tag (rw_framer s) p) (rw_socket s, rw_stats s) = (x, c, st)"
      by (metis prod_cases3)
    obtain sc1 where sc: "length sc1 = length (rw_scratch s)"
      and f: "Framer_frame tag (send_counted ops) (rw_framer s) p (rw_scratch s) (rw_socket s, rw_stats s) =
        (case write_seq (send_counted ops) (udp_datagrams tag (rw_framer s) p) (rw_socket s, rw_stats s) of
           (Inl e, s') \<Rightarrow> Some (Inl e, (rw_framer s)\<lparr>fr_seq := fr_seq (rw_framer s) + 1\<rparr>, sc1, s')
         | (Inr _, s') \<Rightarrow> Some (Inr (length (udp_datagrams tag (rw_framer s) p)),
             (rw_framer s)\<lparr>fr_seq := fr_seq (rw_framer s) + 1\<rparr>, sc1, s'))"
      by (rule Framer_frame_spec [OF m assms(2)])
    show ?thesis using True unf sc mm ws
      by (cases x) (simp_all add: f raw_sender_ok_def)
  qed
qed


abbreviation RawUdpSender_run ::
  "('a, 'c) udp_ops \<Rightarrow> (micros \<Rightarrow> micros \<Rightarrow> u64) \<Rightarrow> (codec \<Rightarrow> u8) \<Rightarrow> media_packet list \<Rightarrow> 'c raw_sender \<Rightarrow>
     (nat result list \<times> 'c raw_sender) option" where
  "RawUdpSender_run ops since tag \<equiv> send_run (RawUdpSender_send_packet ops since tag)"

lemma RawUdpSender_send_packet_bounds:
  assumes "raw_sender_ok mtu s" "mp_data p \<noteq> []" "length (mp_data p) < 2 ^ 32"
    and "ask_budget since (rw_budget s) (mp_timestamp p) (raw_wire_len mtu p) = (ok, bo)"
  shows "\<exists>r s1. RawUdpSender_send_packet ops since tag p s = Some (r, s1) \<and> raw_sender_ok mtu s1 \<and>
    rw_budget s1 = bo \<and> r \<noteq> Inl Panic \<and>
    tx_bytes (rw_stats s1) \<le> tx_bytes (rw_stats s) + (if ok then raw_wire_len mtu p else 0) \<and>
    tx_dropped (rw_stats s1) = tx_dropped (rw_stats s) + (if ok then 0 else 1)"
proof -
  from RawUdpSender_send_packet_cases [OF assms(1,3,4), of ops tag] obtain r s1 where
    c: "RawUdpSender_send_packet ops since tag p s = Some (r, s1)" "raw_sender_ok mtu s1" "rw_budget s1 = bo"
      "if \<not> ok
       then r = Inr 0 \<and> rw_socket s1 = rw_socket s \<and> rw_framer s1 = rw_framer s \<and>
         rw_stats s1 = (rw_stats s)\<lparr>tx_dropped := tx_dropped (rw_stats s) + 1\<rparr>
       else \<exists>x c st. rw_framer s1 = (rw_framer s)\<lparr>fr_seq := fr_seq (rw_framer s) + 1\<rparr> \<and>
         write_seq (send_counted ops) (udp_datagrams tag (rw_framer s) p) (rw_socket s, rw_stats s) = (x, c, st) \<and>
         rw_socket s1 = c \<and>
         (case x of
            Inl e \<Rightarrow> r = Inl e \<and> rw_stats s1 = st
          | Inr _ \<Rightarrow> r = Inr (length (udp_datagrams tag (rw_framer s) p)) \<and>
              rw_stats s1 = st\<lparr>tx_frames := tx_frames st + 1\<rparr>)"
    by blast
  have len: "sum_list (map length (udp_datagrams tag (rw_framer s) p)) = raw_wire_len mtu p"
    using raw_wire_len_datagrams [of "rw_framer s" p tag] assms(1,2) by (simp add: raw_sender_ok_def)
  show ?thesis
  proof (cases ok)
    case False
    then show ?thesis using c by auto
  next
    case True
    with c(4) obtain x c st where
      ws: "write_seq (send_counted ops) (udp_datagrams tag (rw_framer s) p) (rw_socket s, rw_stats s) = (x, c, st)"
        "case x of Inl e \<Rightarrow> r = Inl e \<and> rw_stats s1 = st
          | Inr _ \<Rightarrow> r = Inr (length (udp_datagrams tag (rw_framer s) p)) \<and>
              rw_stats s1 = st\<lparr>tx_frames := tx_frames st + 1\<rparr>" by auto
    from write_seq_send_counted_bounds [OF ws(1)] ws(2) len True
    have "r \<noteq> Inl Panic" "tx_bytes (rw_stats s1) \<le> tx_bytes (rw_stats s) + raw_wire_len mtu p"
      "tx_dropped (rw_stats s1) = tx_dropped (rw_stats s)"
      by (auto split: sum.splits)
    with c(1-3) True show ?thesis by simp
  qed
qed

lemma raw_wire_len_bound:
  assumes "length (mp_data p) < 2 ^ 32" "udp_HEADER_LEN < mtu"
  shows "raw_wire_len mtu p < 2 ^ 64"
  using div_ceil_le [of "mtu - udp_HEADER_LEN" "length (mp_data p)"] assms
  by (simp add: raw_wire_len_def udp_HEADER_LEN_def)

interpretation raw: budgeted_sender since "RawUdpSender_send_packet ops since tag" mp_timestamp "raw_wire_len mtu"
  "\<lambda>p. mp_data p \<noteq> [] \<and> length (mp_data p) < 2 ^ 32" "\<lambda>_. False" "raw_sender_ok mtu" rw_budget rw_stats
  for since ops tag mtu
proof (unfold_locales, goal_cases)
  case (1 s p adm bo)
  with RawUdpSender_send_packet_bounds [of mtu s p since adm bo ops tag] show ?case by auto
next
  case (2 s p)
  then show ?case using raw_wire_len_bound [of p mtu] by (simp add: raw_sender_ok_def)
qed

text \<open>An empty packet takes one datagram, of 28 bytes, and none of the budget.\<close>

lemma raw_wire_len_empty:
  assumes "udp_HEADER_LEN < fr_mtu fr" "mp_data p = []"
  shows "raw_wire_len (fr_mtu fr) p = 0" "sum_list (map length (udp_datagrams tag fr p)) = udp_HEADER_LEN"
proof -
  have "(fr_mtu fr - udp_HEADER_LEN - 1) div (fr_mtu fr - udp_HEADER_LEN) = 0" using assms(1) by simp
  then show "raw_wire_len (fr_mtu fr) p = 0" using assms(2) by (simp add: raw_wire_len_def div_ceil_def)
  show "sum_list (map length (udp_datagrams tag fr p)) = udp_HEADER_LEN"
    using assms by (simp add: sum_list_udp_datagrams udp_datagrams_length length_fragments)
qed

text \<open>C18: A raw sender with a budget stays within it on the wire, headers included. From any state of
  the sender, over packets that are not empty, captured in order within \<open>[lo, hi]\<close>, every call returns
  and none panics whatever the socket does, and the bytes sent are at most the burst plus the rate
  times the span. What the budget drops the sender counts.\<close>

theorem RawUdpSender_within_budget:
  assumes "raw_sender_ok mtu s" and "rw_budget s = Some b"
    and "bg_bytes_per_second b \<noteq> 0" and "budget_ok b" and "monotone_clock since"
    and "sorted (map (\<lambda>p. unat (mp_timestamp p)) ps)"
    and "\<forall>p \<in> set ps. lo \<le> unat (mp_timestamp p) \<and> unat (mp_timestamp p) \<le> hi"
    and "\<forall>p \<in> set ps. mp_data p \<noteq> [] \<and> length (mp_data p) < 2 ^ 32"
  shows "\<exists>rs s1 b1. RawUdpSender_run ops since tag ps s = Some (rs, s1) \<and> Inl Panic \<notin> set rs \<and>
    tx_bytes (rw_stats s1) \<le> tx_bytes (rw_stats s) +
      unat (bg_burst_bytes b) + (hi - lo) * unat (bg_bytes_per_second b) div 1000000 \<and>
    rw_budget s1 = Some b1 \<and>
    tx_dropped (rw_stats s1) + bg_dropped b = tx_dropped (rw_stats s) + bg_dropped b1"
proof -
  have np: "Inl Panic \<notin> set rs" if l: "length rs = length ps" and f: "\<forall>(p, r) \<in> set (zip ps rs). r = Inl Panic \<longrightarrow> False"
    for rs :: "nat result list"
  proof
    assume "Inl Panic \<in> set rs"
    then obtain p where "(p, Inl Panic) \<in> set (zip ps rs)" by (rule in_set_impl_in_set_zip2 [OF l [symmetric]])
    with f show False by fastforce
  qed
  show ?thesis
    by (rule exE [OF raw.send_run_within [OF assms]], elim exE conjE, intro exI conjI)
      (assumption | rule np)+
qed


text \<open>A socket that takes everything and keeps what it took.\<close>

definition list_ops :: "(unit, bytes list) udp_ops" where
  "list_ops =
     \<lparr>us_bind = (\<lambda>_. Some []), us_connect = (\<lambda>c _. (True, c)), us_send = (\<lambda>c d. (True, c @ [d])),
      us_set_timeout = (\<lambda>c. (True, c)),
      us_recv = (\<lambda>c. case c of [] \<Rightarrow> (TimedOut, []) | d # ds \<Rightarrow> (Datagram d, ds)),
      us_elapsed = (\<lambda>c. (if c = [] then 10 else 1, c))\<rparr>"

definition example_raw_sender :: "bytes list raw_sender" where
  "example_raw_sender =
     \<lparr>rw_socket = [], rw_framer = \<lparr>fr_mtu = 31, fr_seq = 7\<rparr>, rw_scratch = replicate 31 0,
      rw_budget = Some example_budget, rw_stats = TxStats_default\<rparr>"

theorem RawUdpSender_within_budget_witness:
  "\<exists>rs s1. RawUdpSender_run list_ops (\<lambda>b a. b - a) (\<lambda>_. 1) [udp_example_packet, udp_example_packet]
       example_raw_sender = Some (rs, s1) \<and> Inl Panic \<notin> set rs \<and> tx_bytes (rw_stats s1) \<le> 12500"
proof -
  have c: "monotone_clock (\<lambda>b a. b - a)" by (simp add: monotone_clock_def unat_sub word_le_nat_alt)
  have s: "raw_sender_ok 31 example_raw_sender" "rw_budget example_raw_sender = Some example_budget"
    "bg_bytes_per_second example_budget \<noteq> 0" "budget_ok example_budget"
    "tx_bytes (rw_stats example_raw_sender) = 0" "unat (bg_burst_bytes example_budget) = 12500"
    by (simp_all add: raw_sender_ok_def example_raw_sender_def udp_HEADER_LEN_def example_budget_def
        budget_ok_def TxStats_default_def)
  have p: "sorted (map (\<lambda>p. unat (mp_timestamp p)) [udp_example_packet, udp_example_packet])"
    "\<forall>p \<in> set [udp_example_packet, udp_example_packet]. 5 \<le> unat (mp_timestamp p) \<and> unat (mp_timestamp p) \<le> 5"
    "\<forall>p \<in> set [udp_example_packet, udp_example_packet]. mp_data p \<noteq> [] \<and> length (mp_data p) < 2 ^ 32"
    by (simp_all add: udp_example_packet_def)
  from RawUdpSender_within_budget [OF s(1-4) c p, of list_ops "\<lambda>_. 1"] show ?thesis
    unfolding s(5,6) by auto
qed

section \<open>Receivers return\<close>

text \<open>The clock does not run backwards, and a receive, which waits for a datagram or a timeout, takes
  time; no datagram is longer than the receive buffer.\<close>

definition clock_runs :: "('a, 'c) udp_ops \<Rightarrow> bool" where
  "clock_runs ops \<longleftrightarrow>
     (\<forall>c. fst (us_elapsed ops c) \<le> fst (us_elapsed ops (snd (us_elapsed ops c))) \<and>
        fst (us_elapsed ops c) < fst (us_elapsed ops (snd (us_recv ops c))))"

definition recv_bounded :: "('a, 'c) udp_ops \<Rightarrow> bool" where
  "recv_bounded ops \<longleftrightarrow> (\<forall>c bs c1. us_recv ops c = (Datagram bs, c1) \<longrightarrow> length bs \<le> 65536)"

text \<open>The loop returns when what holds of the receiver (\<open>ok\<close>, at a time) is kept by what it does with a
  datagram and not lost with time; where datagrams do not make it panic (\<open>safe\<close>), it does not.\<close>

lemma receive_loop_returns:
  assumes "clock_runs ops" "recv_bounded ops"
    and later: "\<And>c c' d. ok c d \<Longrightarrow> fst (us_elapsed ops c) \<le> fst (us_elapsed ops c') \<Longrightarrow> ok c' d"
    and handle: "\<And>bs c c1 c2 st d r c3 st1 d1. ok c d \<Longrightarrow> fst (us_elapsed ops c) < ut_for_at_most u \<Longrightarrow>
      fst (us_elapsed ops c) \<le> fst (us_elapsed ops c1) \<Longrightarrow> us_recv ops c1 = (Datagram bs, c2) \<Longrightarrow> length bs \<le> 65536 \<Longrightarrow>
      handle bs c2 st d = (r, c3, st1, d1) \<Longrightarrow>
      ok c3 d1 \<and> (safe \<longrightarrow> no_panic r) \<and> fst (us_elapsed ops c2) \<le> fst (us_elapsed ops c3)"
    and "ok c d"
  shows "\<exists>r c1 st1 d1. receive_loop ops u handle c st d = Some (r, c1, st1, d1) \<and> (safe \<longrightarrow> no_panic r)"
  using assms(5)
proof (induction "ut_for_at_most u - fst (us_elapsed ops c)" arbitrary: c st d rule: less_induct)
  case less
  obtain ns c1 where e: "us_elapsed ops c = (ns, c1)" by fastforce
  obtain x c2 where x: "us_recv ops c1 = (x, c2)" by fastforce
  have t: "ns \<le> fst (us_elapsed ops c1)" "fst (us_elapsed ops c1) < fst (us_elapsed ops c2)"
    using assms(1) e x unfolding clock_runs_def by (metis fst_conv snd_conv)+
  note unf = receive_loop.simps [of ops u handle c st d]
  show ?case
  proof (cases "keep_receiving u ns st")
    case False
    then show ?thesis by (simp add: unf e)
  next
    case True
    then have lt: "ns < ut_for_at_most u" by (simp add: keep_receiving_def)
    show ?thesis
    proof (cases x)
      case (Datagram bs)
      let ?st = "st\<lparr>rx_packets := Suc (rx_packets st), rx_bytes := rx_bytes st + length bs\<rparr>"
      obtain r c3 st2 d1 where h: "handle bs c2 ?st d = (r, c3, st2, d1)" by (metis prod_cases4)
      have "length bs \<le> 65536" using assms(2) x Datagram by (auto simp: recv_bounded_def)
      from handle [OF less.prems _ _ x [unfolded Datagram] this h] lt t e
      have d1: "ok c3 d1" "safe \<longrightarrow> no_panic r" "fst (us_elapsed ops c2) \<le> fst (us_elapsed ops c3)" by simp_all
      then have "ut_for_at_most u - fst (us_elapsed ops c3) < ut_for_at_most u - fst (us_elapsed ops c)"
        using t lt e by simp
      from less.hyps [OF this d1(1), of st2] d1 True Datagram show ?thesis
        by (cases r) (auto simp: unf e x h Let_def no_panic_def)
    next
      case TimedOut
      have "ut_for_at_most u - fst (us_elapsed ops c2) < ut_for_at_most u - fst (us_elapsed ops c)"
        using t lt e by simp
      moreover have "ok c2 d" using later [OF less.prems, of c2] t e by simp
      ultimately show ?thesis using less.hyps [of c2 d st] True TimedOut by (simp add: unf e x)
    next
      case RecvFailed
      then show ?thesis using True by (simp add: unf e x)
    qed
  qed
qed

lemma RxStats_frame_at_clock:
  assumes "clock_runs ops" "RxStats_frame_at ops c st = (c1, st1)"
  shows "fst (us_elapsed ops c) \<le> fst (us_elapsed ops c1)"
  using assms by (auto simp: RxStats_frame_at_def clock_runs_def Let_def split: prod.splits)
    (metis fst_conv snd_conv)

text \<open>The datagrams a receiver can still get, when a receive takes at least \<open>n\<close> nanoseconds.\<close>

definition receives_left :: "('a, 'c) udp_ops \<Rightarrow> nat \<Rightarrow> nat \<Rightarrow> 'c \<Rightarrow> nat" where
  "receives_left ops n T c = (T - fst (us_elapsed ops c) + n - 1) div n"

definition receive_takes :: "('a, 'c) udp_ops \<Rightarrow> nat \<Rightarrow> bool" where
  "receive_takes ops n \<longleftrightarrow> 0 < n \<and> (\<forall>c. fst (us_elapsed ops c) + n \<le> fst (us_elapsed ops (snd (us_recv ops c))))"

lemma receives_left_mono:
  "fst (us_elapsed ops c) \<le> fst (us_elapsed ops c') \<Longrightarrow> receives_left ops n T c' \<le> receives_left ops n T c"
  unfolding receives_left_def by (intro div_le_mono) simp

lemma div_up_less:
  assumes "0 < n" "0 < a" "a' \<le> a - n"
  shows "(a' + n - 1) div n + 1 \<le> (a + n - 1) div (n :: nat)"
proof (cases "n \<le> a")
  case True
  have "(a' + n - 1) div n + 1 = (a' + n - 1 + n) div n" using assms(1) by (subst div_add_self2) simp_all
  also have "\<dots> \<le> (a + n - 1) div n" using True assms by (intro div_le_mono) linarith
  finally show ?thesis .
next
  case False
  then have "(a' + n - 1) div n = 0" using assms by (intro div_less) linarith
  moreover have "n div n \<le> (a + n - 1) div n" using assms(2) by (intro div_le_mono) linarith
  ultimately show ?thesis using assms(1) by simp
qed

lemma receives_left_less:
  assumes "0 < n" "fst (us_elapsed ops c) < T" "fst (us_elapsed ops c) + n \<le> fst (us_elapsed ops c')"
  shows "receives_left ops n T c' + 1 \<le> receives_left ops n T c"
  unfolding receives_left_def using assms by (intro div_up_less) linarith+

definition room_left :: "target \<Rightarrow> nat \<Rightarrow> jpeg_depayloader \<Rightarrow> bool" where
  "room_left t n d \<longleftrightarrow> counters_room t n (2 * n) (32767 * n - (32767 - gap_room d)) d"

lemma room_left_mono: "room_left t n d \<Longrightarrow> m \<le> n \<Longrightarrow> room_left t m d"
  unfolding room_left_def by (erule counters_room_mono) (simp_all add: diff_le_mono)

lemma room_left_new:
  "JpegDepayloader_new buf = Inr d \<Longrightarrow> n \<le> 131077 \<Longrightarrow> room_left t n d"
  by (auto simp: JpegDepayloader_new_def room_left_def counters_room_def gap_room_def split: if_splits)

lemma JpegDepayloader_push_room:
  assumes "depayloader_ok d" "room_left t (Suc n) d"
  shows "no_panic (fst (JpegDepayloader_push t d bs))" "room_left t n (snd (JpegDepayloader_push t d bs))"
proof -
  have "gap_room d \<le> 32767" by (simp add: gap_room_def)
  then have "counters_room t (n + 1) (2 * n + 2) (32767 * n + gap_room d) d"
    using assms(2) unfolding room_left_def by (elim counters_room_mono) simp_all
  with JpegDepayloader_push_keeps [OF assms(1), of t n "2 * n" "32767 * n" bs]
  have k: "no_panic (fst (JpegDepayloader_push t d bs)) \<and> counters_room t n (2 * n) (32767 * n) (snd (JpegDepayloader_push t d bs))"
    by (simp add: keeps_def)
  then show "no_panic (fst (JpegDepayloader_push t d bs))" "room_left t n (snd (JpegDepayloader_push t d bs))"
    unfolding room_left_def by (auto elim: counters_room_mono)
qed

lemma rtp_handle_safe:
  assumes "clock_runs ops" "depayloader_ok (fst dv)" "rtp_handle t ops f bs c st dv = (r, c1, st1, dv1)"
  shows "depayloader_ok (fst dv1) \<and> fst (us_elapsed ops c) \<le> fst (us_elapsed ops c1) \<and>
    (room_left t (Suc n) (fst dv) \<longrightarrow> no_panic r \<and> room_left t n (fst dv1))"
proof -
  obtain d v where dv: "dv = (d, v)" by (cases dv)
  obtain x d1 where p: "JpegDepayloader_push t d bs = (x, d1)" by fastforce
  have safe: "depayloader_ok d1" "room_left t (Suc n) d \<longrightarrow> no_panic x \<and> room_left t n d1"
    using JpegDepayloader_push_safe(1) [of d t bs] JpegDepayloader_push_room [of d t n bs] assms(2) dv p by auto
  then have j: "no_panic (JpegDepayloader_jpeg d1)"
    by (auto simp: JpegDepayloader_jpeg_def depayloader_ok_def split: option.splits)
  obtain c2 st2 where fa: "RxStats_frame_at ops c st = (c2, st2)" by fastforce
  note clock = RxStats_frame_at_clock [OF assms(1) fa]
  from assms(3) safe j clock show ?thesis
    by (auto simp: rtp_handle_def dv p fa no_panic_def split: sum.splits fault.splits depayload.splits)
qed

lemma Reassembler_push_complete:
  assumes "Reassembler_push t r bs = (Inr (Complete h), r1)"
  shows "unat (uh_total h) \<le> length (rs_buf r1)"
  using assms
  by (auto simp: Reassembler_push_def Reassembler_start_def Let_def copy_range_def
      split: sum.splits option.splits prod.splits if_splits)

lemma raw_handle_safe:
  assumes "clock_runs ops" "2 ^ 32 + 65536 \<le> usize_mod t" "length bs \<le> 65536"
    and "raw_handle t ops f bs c st rv = (x, c1, st1, rv1)"
  shows "no_panic x \<and> fst (us_elapsed ops c) \<le> fst (us_elapsed ops c1)"
proof -
  obtain r v where rv: "rv = (r, v)" by (cases rv)
  obtain y r1 where p: "Reassembler_push t r bs = (y, r1)" by fastforce
  have "2 ^ 32 + length bs \<le> usize_mod t" using assms(2,3) by linarith
  then have safe: "no_panic y" using Reassembler_push_no_panic' [of bs t r] p by simp
  have j: "no_panic (Reassembler_packet r1 h)" if "y = Inr (Complete h)" for h
    using Reassembler_push_complete [of t r bs h r1] p that by (simp add: Reassembler_packet_def)
  obtain c2 st2 where fa: "RxStats_frame_at ops c st = (c2, st2)" by fastforce
  note clock = RxStats_frame_at_clock [OF assms(1) fa]
  from assms(4) safe j clock show ?thesis
    by (auto simp: raw_handle_def rv p fa no_panic_def split: sum.splits fault.splits reassembly.splits)
qed

lemma rtp_receive_loop_returns:
  assumes "clock_runs ops" "recv_bounded ops" "JpegDepayloader_new buf = Inr d"
  shows "\<exists>r c1 st1 dv1. receive_loop ops u (rtp_handle t ops on_frame) c st (d, v) = Some (r, c1, st1, dv1) \<and>
    (\<not> overflow_checks t \<or> (receive_takes ops n \<and> ut_for_at_most u \<le> 131077 * n) \<longrightarrow> no_panic r)"
proof -
  let ?safe = "\<not> overflow_checks t \<or> (receive_takes ops n \<and> ut_for_at_most u \<le> 131077 * n)"
  let ?left = "receives_left ops n (ut_for_at_most u)"
  let ?ok = "\<lambda>c dv. depayloader_ok (fst dv) \<and> (?safe \<longrightarrow> \<not> overflow_checks t \<or> room_left t (?left c) (fst dv))"
  show ?thesis
  proof (rule receive_loop_returns [OF assms(1,2), where ok = ?ok], goal_cases later handle start)
    case (later c c' dv)
    then show ?case using receives_left_mono [OF later(2)] room_left_mono by blast
  next
    case (handle bs c c1 c2 st dv r c3 st1 dv1)
    let ?m = "if overflow_checks t then ?left c3 else 0"
    have s: "depayloader_ok (fst dv1) \<and> fst (us_elapsed ops c2) \<le> fst (us_elapsed ops c3) \<and>
        (room_left t (Suc ?m) (fst dv) \<longrightarrow> no_panic r \<and> room_left t ?m (fst dv1))"
      by (rule rtp_handle_safe [OF assms(1) _ handle(6)]) (use handle(1) in simp)
    have "room_left t (Suc ?m) (fst dv)" if safe: ?safe
    proof (cases "overflow_checks t")
      case True
      then have "0 < n" "fst (us_elapsed ops c1) + n \<le> fst (us_elapsed ops c2)"
        using safe handle(4) unfolding receive_takes_def by (auto dest: spec [of _ c1])
      then have "Suc (?left c3) \<le> ?left c" using receives_left_less [OF _ handle(2), of n c3] handle(3) s by simp
      with True safe handle(1) room_left_mono show ?thesis by auto
    qed (simp add: room_left_def counters_room_def)
    with s show ?case by auto
  next
    case start
    have "room_left t (?left c) d" if "receive_takes ops n" "ut_for_at_most u \<le> 131077 * n"
    proof (rule room_left_new [OF assms(3)])
      have n: "0 < n" using that(1) by (simp add: receive_takes_def)
      have "?left c \<le> (131077 * n + n - 1) div n" unfolding receives_left_def using that(2) by (intro div_le_mono) simp
      also have "\<dots> = 131077" using n by (intro div_nat_eqI) simp_all
      finally show "?left c \<le> 131077" .
    qed
    then show ?case using depayloader_ok_new [OF assms(3)] by auto
  qed
qed

text \<open>C20: Receivers end, and when they do not panic. When time goes on at the socket, whatever datagrams
  arrive, in any order and of any content, and for every limit on frames and time: \<open>receive_rtp_jpeg\<close> returns
  on every target; it does not panic where the build does not check overflow, nor where it does
  and the receiver listens for at most 131077 times the least time a receive takes (the loss counter, a
  \<open>u32\<close>, can overflow after that many datagrams). \<open>receive_raw\<close> returns without a panic on a target
  whose \<open>usize\<close> is wider than the 32-bit offset of the header.\<close>

theorem receivers_return:
  assumes "clock_runs ops" and "recv_bounded ops"
  shows "(\<exists>r c1 v1. receive_rtp_jpeg t ops on_frame buf u c v = Some (r, c1, v1) \<and>
      (\<not> overflow_checks t \<or> (receive_takes ops n \<and> ut_for_at_most u \<le> 131077 * n) \<longrightarrow> no_panic r)) \<and>
    (2 ^ 32 + 65536 \<le> usize_mod t \<longrightarrow>
      (\<exists>r c1 w1. receive_raw t ops on_packet buf u c w = Some (r, c1, w1) \<and> no_panic r))"
proof (intro conjI impI)
  obtain tset c1 where st: "us_set_timeout ops c = (tset, c1)" by fastforce
  have np: "no_panic (bind_r r (\<lambda>_. Inr x))" if "no_panic r" for r :: "unit result" and x :: rx_stats
    using that by (cases r) (simp_all add: no_panic_def)
  let ?safe = "\<not> overflow_checks t \<or> (receive_takes ops n \<and> ut_for_at_most u \<le> 131077 * n)"
  show "\<exists>r c1 v1. receive_rtp_jpeg t ops on_frame buf u c v = Some (r, c1, v1) \<and> (?safe \<longrightarrow> no_panic r)"
  proof (cases "length buf < HEADER_RESERVE + 2 \<or> \<not> tset")
    case True
    then show ?thesis by (auto simp: receive_rtp_jpeg_def st)
  next
    case False
    then obtain d where d: "JpegDepayloader_new buf = Inr d" by (simp add: JpegDepayloader_new_def)
    from rtp_receive_loop_returns [OF assms d, of u t on_frame c1 RxStats_default v n]
    obtain r c2 st2 d2 v2 where "receive_loop ops u (rtp_handle t ops on_frame) c1 RxStats_default (d, v) =
        Some (r, c2, st2, d2, v2)" "?safe \<longrightarrow> no_panic r" by (metis (no_types, lifting) prod.collapse)
    with False d np [of r] show ?thesis by (auto simp: receive_rtp_jpeg_def st)
  qed
  assume t: "2 ^ 32 + 65536 \<le> usize_mod t"
  have "\<exists>r c2 st2 rw. receive_loop ops u (raw_handle t ops on_packet) c1 RxStats_default (Reassembler_new buf, w) =
      Some (r, c2, st2, rw) \<and> (True \<longrightarrow> no_panic r)"
    by (rule receive_loop_returns [OF assms, where ok = "\<lambda>_ _. True"]) (use raw_handle_safe [OF assms(1) t] in blast)+
  then obtain r c2 st2 r2 w2 where "receive_loop ops u (raw_handle t ops on_packet) c1 RxStats_default (Reassembler_new buf, w) =
      Some (r, c2, st2, r2, w2)" "no_panic r" by auto
  with np [of r] show "\<exists>r c1 w1. receive_raw t ops on_packet buf u c w = Some (r, c1, w1) \<and> no_panic r"
    by (cases tset) (auto simp: receive_raw_def st)
qed


text \<open>A socket whose datagrams are all there, each taking a nanosecond, then timeouts.\<close>

definition queue_ops :: "(unit, bytes list \<times> nat) udp_ops" where
  "queue_ops =
     \<lparr>us_bind = (\<lambda>_. Some ([], 0)), us_connect = (\<lambda>c _. (True, c)), us_send = (\<lambda>c d. (True, c)),
      us_set_timeout = (\<lambda>c. (True, c)),
      us_recv = (\<lambda>(q, n). case q of
          [] \<Rightarrow> (TimedOut, [], n + 250000000)
        | d # ds \<Rightarrow> (if length d \<le> 65536 then Datagram d else TimedOut, ds, n + 1)),
      us_elapsed = (\<lambda>(q, n). (n, q, n))\<rparr>"

lemma queue_ops_ok: "clock_runs queue_ops" "recv_bounded queue_ops"
  by (auto simp: clock_runs_def recv_bounded_def queue_ops_def split: list.splits if_splits)

theorem receivers_return_witness:
  "(\<exists>r c1 v1. receive_rtp_jpeg (host_target True) queue_ops (\<lambda>n _ _ _ _. n + 1) (replicate 2048 0)
      \<lparr>ut_frames = 0, ut_for_at_most = 100000\<rparr> ([[0x80, 26], []], 0) (0 :: nat) = Some (r, c1, v1) \<and> no_panic r) \<and>
   (\<exists>r c1 w1. receive_raw (host_target True) queue_ops (\<lambda>n _ _. n + 1) (replicate 2048 0)
      \<lparr>ut_frames = 0, ut_for_at_most = 1000000000\<rparr> ([[0x80, 26], []], 0) (0 :: nat) = Some (r, c1, w1) \<and> no_panic r)"
proof -
  have t: "2 ^ 32 + 65536 \<le> usize_mod (host_target True)" by simp
  have n: "receive_takes queue_ops 1" by (auto simp: receive_takes_def queue_ops_def split: list.splits)
  note r = receivers_return [OF queue_ops_ok, where t = "host_target True" and n = 1]
  have u: "ut_for_at_most \<lparr>ut_frames = 0, ut_for_at_most = 100000\<rparr> \<le> 131077 * 1" by simp
  have "\<not> overflow_checks (host_target True) \<or> (receive_takes queue_ops 1 \<and>
      ut_for_at_most \<lparr>ut_frames = 0, ut_for_at_most = 100000\<rparr> \<le> 131077 * 1)" using n u by blast
  then show ?thesis using r [THEN conjunct1, of "\<lambda>n _ _ _ _. n + 1" "replicate 2048 0" "\<lparr>ut_frames = 0, ut_for_at_most = 100000\<rparr>"
      "([[0x80, 26], []], 0)" "0 :: nat"] r [THEN conjunct2, THEN mp, OF t, of "\<lambda>n _ _. n + 1" "replicate 2048 0"
      "\<lparr>ut_frames = 0, ut_for_at_most = 1000000000\<rparr>" "([[0x80, 26], []], 0)" "0 :: nat"] by meson
qed

section \<open>From sender to receiver\<close>

text \<open>What a socket delivers until the deadline, when reading the clock does not disturb it.\<close>

fun delivers :: "('a, 'c) udp_ops \<Rightarrow> nat \<Rightarrow> received list \<Rightarrow> 'c \<Rightarrow> bool" where
  "delivers ops deadline [] c \<longleftrightarrow> deadline \<le> fst (us_elapsed ops c)"
| "delivers ops deadline (x # xs) c \<longleftrightarrow>
     fst (us_elapsed ops c) < deadline \<and> fst (us_recv ops c) = x \<and>
     delivers ops deadline xs (snd (us_recv ops c))"

definition clock_is_read :: "('a, 'c) udp_ops \<Rightarrow> bool" where
  "clock_is_read ops \<longleftrightarrow> (\<forall>c. snd (us_elapsed ops c) = c)"

fun datagrams_of :: "received list \<Rightarrow> bytes list" where
  "datagrams_of [] = []"
| "datagrams_of (Datagram d # xs) = d # datagrams_of xs"
| "datagrams_of (_ # xs) = datagrams_of xs"

text \<open>The datagrams of packets sent in order; those of one packet may overtake each other.\<close>

fun arrives :: "(codec \<Rightarrow> u8) \<Rightarrow> framer \<Rightarrow> media_packet list \<Rightarrow> bytes list \<Rightarrow> bool" where
  "arrives tag fr [] ds \<longleftrightarrow> ds = []"
| "arrives tag fr (p # ps) ds \<longleftrightarrow>
     (let n = length (udp_datagrams tag fr p) in
      mset (take n ds) = mset (udp_datagrams tag fr p) \<and>
      arrives tag (fr\<lparr>fr_seq := fr_seq fr + 1\<rparr>) ps (drop n ds))"

text \<open>What a receiver hands to a client that keeps everything.\<close>

definition keep_packet ::
  "(u32 \<times> micros \<times> u8 \<times> bool \<times> bytes) list \<Rightarrow> udp_header \<Rightarrow> bytes \<Rightarrow> (u32 \<times> micros \<times> u8 \<times> bool \<times> bytes) list" where
  "keep_packet v h bs = v @ [(uh_seq h, uh_timestamp h, uh_codec h, uh_key h, bs)]"

fun kept_packets ::
  "(codec \<Rightarrow> u8) \<Rightarrow> u32 \<Rightarrow> media_packet list \<Rightarrow> (u32 \<times> micros \<times> u8 \<times> bool \<times> bytes) list" where
  "kept_packets tag q [] = []"
| "kept_packets tag q (p # ps) =
     (q, mp_timestamp p, tag (mp_codec p), mp_key p, mp_data p) # kept_packets tag (q + 1) ps"

text \<open>One datagram is handled: what it adds to the counters.\<close>

lemma receive_loop_datagram:
  assumes "clock_is_read ops" "fst (us_elapsed ops c) < T" "us_recv ops c = (Datagram bs, c1)"
    and "handle bs c1 (st\<lparr>rx_packets := Suc (rx_packets st), rx_bytes := rx_bytes st + length bs\<rparr>) d =
      (Inr u, c2, st2, d2)"
  shows "receive_loop ops \<lparr>ut_frames = 0, ut_for_at_most = T\<rparr> handle c st d =
    receive_loop ops \<lparr>ut_frames = 0, ut_for_at_most = T\<rparr> handle c2 st2 d2"
proof -
  obtain ns where e: "us_elapsed ops c = (ns, c)"
    using assms(1) by (metis clock_is_read_def prod.collapse)
  have "keep_receiving \<lparr>ut_frames = 0, ut_for_at_most = T\<rparr> ns st" using assms(2) e by (simp add: keep_receiving_def)
  then show ?thesis using assms(3,4)
    by (simp add: receive_loop.simps [of ops _ handle c st d] e Let_def)
qed

lemma receive_loop_timeout:
  assumes "clock_is_read ops" "fst (us_elapsed ops c) < T" "us_recv ops c = (TimedOut, c1)"
  shows "receive_loop ops \<lparr>ut_frames = 0, ut_for_at_most = T\<rparr> handle c st d =
    receive_loop ops \<lparr>ut_frames = 0, ut_for_at_most = T\<rparr> handle c1 st d"
proof -
  obtain ns where e: "us_elapsed ops c = (ns, c)"
    using assms(1) by (metis clock_is_read_def prod.collapse)
  have "keep_receiving \<lparr>ut_frames = 0, ut_for_at_most = T\<rparr> ns st" using assms(2) e by (simp add: keep_receiving_def)
  then show ?thesis using assms(3)
    by (simp add: receive_loop.simps [of ops _ handle c st d] e)
qed

text \<open>
  What both receivers promise, for a client that keeps what it gets: a datagram is pushed and the
  answer counted, what is kept of it goes to the client, and the socket and the loop's own counters
  are left alone.
\<close>

definition bad_answers :: "'y result list \<Rightarrow> nat" where
  "bad_answers ys = length (filter (\<lambda>y. case y of Inl _ \<Rightarrow> True | Inr _ \<Rightarrow> False) ys)"

lemma bad_answers_simps [simp]:
  "bad_answers [] = 0" "bad_answers (Inr a # ys) = bad_answers ys" "bad_answers (Inl e # ys) = Suc (bad_answers ys)"
  "bad_answers (ys @ zs) = bad_answers ys + bad_answers zs" "bad_answers (replicate n (Inr a)) = 0"
  by (simp_all add: bad_answers_def filter_replicate)

lemma bad_answers_Cons: "bad_answers (y # ys) = bad_answers [y] + bad_answers ys"
  by (cases y) simp_all

locale receiver =
  fixes ops :: "('a, 'c) udp_ops"
    and handle :: "bytes \<Rightarrow> 'c \<Rightarrow> rx_stats \<Rightarrow> 'd \<times> 'k list \<Rightarrow> unit result \<times> 'c \<times> rx_stats \<times> 'd \<times> 'k list"
    and push :: "'d \<Rightarrow> bytes \<Rightarrow> 'y result \<times> 'd" and ok :: "'d \<Rightarrow> bool"
    and kept :: "'y result \<Rightarrow> 'd \<Rightarrow> 'k list"
  assumes push_ok: "ok d \<Longrightarrow> ok (snd (push d bs))"
    and handle_answer:
      "clock_is_read ops \<Longrightarrow> ok d \<Longrightarrow> push d bs = (y, d1) \<Longrightarrow> y \<noteq> Inl Panic \<Longrightarrow>
       \<exists>st1. handle bs c st (d, v) = (Inr (), c, st1, d1, v @ kept y d1) \<and>
         rx_packets st1 = rx_packets st \<and> rx_bytes st1 = rx_bytes st \<and>
         rx_frames st1 = rx_frames st + length (kept y d1) \<and> rx_bad st1 = rx_bad st + bad_answers [y]"
begin

lemma receive_loop_script:
  assumes "clock_is_read ops" "delivers ops T xs c" "RecvFailed \<notin> set xs" "ok d"
    and "feed push d (datagrams_of xs) = (ys, d1)" "Inl Panic \<notin> set ys"
  shows "\<exists>c1 st1. receive_loop ops \<lparr>ut_frames = 0, ut_for_at_most = T\<rparr> handle c st (d, v) =
      Some (Inr (), c1, st1, d1, v @ feed_kept push kept d (datagrams_of xs)) \<and>
    rx_packets st1 = rx_packets st + length (datagrams_of xs) \<and>
    rx_bytes st1 = rx_bytes st + sum_list (map length (datagrams_of xs)) \<and>
    rx_frames st1 = rx_frames st + length (feed_kept push kept d (datagrams_of xs)) \<and>
    rx_bad st1 = rx_bad st + bad_answers ys"
  using assms(2-6)
proof (induction xs arbitrary: c st d v ys)
  case Nil
  obtain ns where e: "us_elapsed ops c = (ns, c)"
    using assms(1) by (metis clock_is_read_def prod.collapse)
  then have "\<not> keep_receiving \<lparr>ut_frames = 0, ut_for_at_most = T\<rparr> ns st"
    using Nil.prems(1) by (simp add: keep_receiving_def)
  then show ?case using Nil.prems(4)
    by (simp add: receive_loop.simps [of ops _ _ c st] e)
next
  case (Cons x xs)
  let ?u = "\<lparr>ut_frames = 0, ut_for_at_most = T\<rparr>"
  obtain c1 where x: "us_recv ops c = (x, c1)" and c1: "delivers ops T xs c1" "fst (us_elapsed ops c) < T"
    using Cons.prems(1) by (metis delivers.simps(2) prod.collapse)
  show ?case
  proof (cases x)
    case (Datagram bs)
    obtain y d2 where p: "push d bs = (y, d2)" by fastforce
    obtain ys2 d3 where f: "feed push d2 (datagrams_of xs) = (ys2, d3)" by fastforce
    from Cons.prems(4) p f Datagram have ys: "ys = y # ys2" "d3 = d1" by simp_all
    let ?st = "st\<lparr>rx_packets := Suc (rx_packets st), rx_bytes := rx_bytes st + length bs\<rparr>"
    have "y \<noteq> Inl Panic" using Cons.prems(5) ys(1) by auto
    from handle_answer [OF assms(1) Cons.prems(3) p this, of c1 ?st v] obtain st2 where
      h: "handle bs c1 ?st (d, v) = (Inr (), c1, st2, d2, v @ kept y d2)"
      and st2: "rx_packets st2 = Suc (rx_packets st)" "rx_bytes st2 = rx_bytes st + length bs"
        "rx_frames st2 = rx_frames st + length (kept y d2)" "rx_bad st2 = rx_bad st + bad_answers [y]"
      by auto
    have step: "receive_loop ops ?u handle c st (d, v) = receive_loop ops ?u handle c1 st2 (d2, v @ kept y d2)"
      by (rule receive_loop_datagram [where d = "(d, v)" and handle = handle, OF assms(1) c1(2) x [unfolded Datagram] h])
    have k: "feed_kept push kept d (datagrams_of (x # xs)) = kept y d2 @ feed_kept push kept d2 (datagrams_of xs)"
      by (simp add: Datagram p)
    have "RecvFailed \<notin> set xs" "Inl Panic \<notin> set ys2" "feed push d2 (datagrams_of xs) = (ys2, d1)"
      using Cons.prems(2,5) ys f by simp_all
    moreover have "ok d2" using push_ok [OF Cons.prems(3), of bs] p by simp
    ultimately show ?thesis using Cons.IH [OF c1(1), of d2 ys2 st2 "v @ kept y d2"] st2 Datagram
      unfolding step k ys(1) bad_answers_Cons [of y ys2] by auto
  next
    case TimedOut
    have "receive_loop ops ?u handle c st (d, v) = receive_loop ops ?u handle c1 st (d, v)"
      by (rule receive_loop_timeout [OF assms(1) c1(2) x [unfolded TimedOut]])
    with Cons.IH [OF c1(1), of d ys st v] Cons.prems(2-5) TimedOut show ?thesis by simp
  next
    case RecvFailed
    then show ?thesis using Cons.prems(2) by simp
  qed
qed

end

text \<open>The raw receiver keeps the packets that are complete.\<close>

definition kept_answer :: "reassembly result \<Rightarrow> reassembler \<Rightarrow> (u32 \<times> micros \<times> u8 \<times> bool \<times> bytes) list" where
  "kept_answer y r =
     (case y of Inr (Complete h) \<Rightarrow> keep_packet [] h (take (unat (uh_total h)) (rs_buf r)) | _ \<Rightarrow> [])"

abbreviation kept_of :: "target \<Rightarrow> reassembler \<Rightarrow> bytes list \<Rightarrow> (u32 \<times> micros \<times> u8 \<times> bool \<times> bytes) list" where
  "kept_of t \<equiv> feed_kept (Reassembler_push t) kept_answer"

lemma raw_handle_answer:
  assumes "clock_is_read ops" "Reassembler_push t r bs = (y, r2)" "y \<noteq> Inl Panic"
  shows "\<exists>st2. raw_handle t ops keep_packet bs c st (r, v) = (Inr (), c, st2, r2, v @ kept_answer y r2) \<and>
    rx_packets st2 = rx_packets st \<and> rx_bytes st2 = rx_bytes st \<and>
    rx_frames st2 = rx_frames st + length (kept_answer y r2) \<and> rx_bad st2 = rx_bad st + bad_answers [y]"
proof (cases y)
  case (Inl e)
  with assms(2,3) show ?thesis
    by (cases e) (simp_all add: raw_handle_def kept_answer_def)
next
  case (Inr a)
  obtain ns where e: "us_elapsed ops c = (ns, c)"
    using assms(1) by (metis clock_is_read_def prod.collapse)
  show ?thesis
  proof (cases a)
    case (Complete h)
    with Reassembler_push_complete [of t r bs h r2] assms(2) Inr
    have "Reassembler_packet r2 h = Inr (take (unat (uh_total h)) (rs_buf r2))"
      by (simp add: Reassembler_packet_def)
    then show ?thesis using Inr Complete assms(2)
      by (simp add: raw_handle_def RxStats_frame_at_def e Let_def keep_packet_def kept_answer_def)
  qed (simp_all add: raw_handle_def assms(2) Inr kept_answer_def)
qed

interpretation raw_receiver: receiver ops "raw_handle t ops keep_packet" "Reassembler_push t" "\<lambda>_. True" kept_answer
  for ops t
  by unfold_locales (simp, blast intro: raw_handle_answer)

lemma Reassembler_feed_arrives:
  assumes "udp_HEADER_LEN < fr_mtu fr" "rs_current r = None" "arrives tag fr ps ds"
    and "\<forall>p \<in> set ps. length (mp_data p) < 2 ^ 32 \<and> length (mp_data p) < usize_mod t \<and>
      length (mp_data p) \<le> length (rs_buf r)"
  shows "\<exists>rs r1. Reassembler_feed t r ds = (rs, r1) \<and> Inl Panic \<notin> set rs \<and>
    bad_answers rs = 0 \<and> rs_lost r1 = rs_lost r \<and>
    kept_of t r ds = kept_packets tag (fr_seq fr) ps"
  using assms
proof (induction ps arbitrary: fr r ds)
  case Nil
  then show ?case by simp
next
  case (Cons p ps)
  let ?n = "length (udp_datagrams tag fr p)" and ?fr = "fr\<lparr>fr_seq := fr_seq fr + 1\<rparr>"
  have arr: "mset (take ?n ds) = mset (udp_datagrams tag fr p)" "arrives tag ?fr ps (drop ?n ds)"
    using Cons.prems(3) by (simp_all add: Let_def)
  from Reassembler_feed_packet [OF Cons.prems(1) _ _ _ Cons.prems(2) arr(1), of t] Cons.prems(4)
  obtain r1 h where f: "Reassembler_feed t r (take ?n ds) =
        (replicate (length (take ?n ds) - 1) (Inr Partial) @ [Inr (Complete h)], r1)"
    and h: "Reassembler_packet r1 h = Inr (mp_data p)" "uh_seq h = fr_seq fr" "uh_timestamp h = mp_timestamp p"
      "uh_codec h = tag (mp_codec p)" "uh_key h = mp_key p"
    and r1: "rs_current r1 = None" "rs_lost r1 = rs_lost r" "length (rs_buf r1) = length (rs_buf r)"
    by auto
  from Cons.IH [of ?fr r1 "drop ?n ds"] Cons.prems(1,4) arr(2) r1 obtain rs r2 where
    IH: "Reassembler_feed t r1 (drop ?n ds) = (rs, r2)" "Inl Panic \<notin> set rs" "bad_answers rs = 0"
      "rs_lost r2 = rs_lost r" "kept_of t r1 (drop ?n ds) = kept_packets tag (fr_seq fr + 1) ps"
    by auto
  have "Reassembler_feed t r ds =
      (replicate (length (take ?n ds) - 1) (Inr Partial) @ [Inr (Complete h)] @ rs, r2)"
    using feed_append [of "Reassembler_push t" r "take ?n ds" "drop ?n ds"] f IH(1) by simp
  moreover have "kept_of t r ds = kept_packets tag (fr_seq fr) (p # ps)"
    using feed_kept_append [of "Reassembler_push t" kept_answer r "take ?n ds" "drop ?n ds"] feed_kept_last [OF _ f, of kept_answer] f h IH(5)
    by (simp add: kept_answer_def keep_packet_def Reassembler_packet_def subslice_def split: if_splits)
  moreover have "bad_answers (replicate m (Inr Partial) @ [Inr (Complete h)] @ rs) = 0" for m
    using IH(3) by simp
  moreover have "Inl Panic \<notin> set (replicate m (Inr Partial) @ [Inr (Complete h)] @ rs)" for m
    using IH(2) by auto
  ultimately show ?case using IH(4) by auto
qed

fun sent_datagrams :: "(codec \<Rightarrow> u8) \<Rightarrow> framer \<Rightarrow> media_packet list \<Rightarrow> bytes list" where
  "sent_datagrams tag fr [] = []"
| "sent_datagrams tag fr (p # ps) =
     udp_datagrams tag fr p @ sent_datagrams tag (fr\<lparr>fr_seq := fr_seq fr + 1\<rparr>) ps"

lemma arrives_mset: "arrives tag fr ps ds \<Longrightarrow> mset ds = mset (sent_datagrams tag fr ps)"
proof (induction ps arbitrary: fr ds)
  case (Cons p ps)
  let ?n = "length (udp_datagrams tag fr p)"
  have "mset ds = mset (take ?n ds) + mset (drop ?n ds)" by (simp flip: mset_append)
  with Cons show ?case by (simp add: Let_def)
qed simp

lemma arrives_sent: "arrives tag fr ps (sent_datagrams tag fr ps)"
  by (induction ps arbitrary: fr) simp_all

text \<open>A socket that takes every datagram.\<close>

definition takes_all :: "('a, 'c) udp_ops \<Rightarrow> bool" where
  "takes_all ops \<longleftrightarrow> (\<forall>c d. fst (us_send ops c d))"

definition send_all :: "('a, 'c) udp_ops \<Rightarrow> bytes list \<Rightarrow> 'c \<Rightarrow> 'c" where
  "send_all ops ds c = foldl (\<lambda>c d. snd (us_send ops c d)) c ds"

lemma write_seq_takes_all:
  assumes "takes_all ops"
  shows "write_seq (send_counted ops) ds (c, st) =
    (Inr (), send_all ops ds c,
     st\<lparr>tx_packets := tx_packets st + length ds, tx_bytes := tx_bytes st + sum_list (map length ds)\<rparr>)"
proof (induction ds arbitrary: c st)
  case (Cons d ds)
  obtain c1 where "us_send ops c d = (True, c1)"
    using assms by (metis takes_all_def prod.collapse)
  then show ?case by (simp add: send_counted_def [of ops "(c, st)"] Cons.IH send_all_def)
qed (simp add: send_all_def)

lemma RawUdpSender_run_sends:
  assumes "raw_sender_ok mtu s" "rw_budget s = None" "takes_all ops"
    and "\<forall>p \<in> set ps. length (mp_data p) < 2 ^ 32"
  shows "\<exists>rs s1. RawUdpSender_run ops since tag ps s = Some (rs, s1) \<and> length rs = length ps \<and>
    (\<forall>r \<in> set rs. \<exists>n. r = Inr n) \<and>
    rw_socket s1 = send_all ops (sent_datagrams tag (rw_framer s) ps) (rw_socket s) \<and>
    tx_frames (rw_stats s1) = tx_frames (rw_stats s) + length ps \<and>
    tx_packets (rw_stats s1) = tx_packets (rw_stats s) + length (sent_datagrams tag (rw_framer s) ps) \<and>
    tx_bytes (rw_stats s1) = tx_bytes (rw_stats s) + sum_list (map length (sent_datagrams tag (rw_framer s) ps))"
  using assms
proof (induction ps arbitrary: s)
  case Nil
  then show ?case by (simp add: send_all_def)
next
  case (Cons p ps)
  have "ask_budget since (rw_budget s) (mp_timestamp p) (raw_wire_len mtu p) = (True, None)"
    using Cons.prems(2) by (simp add: ask_budget_def)
  from RawUdpSender_send_packet_cases [OF Cons.prems(1) _ this, of ops tag] Cons.prems(4)
    write_seq_takes_all [OF Cons.prems(3), of "udp_datagrams tag (rw_framer s) p" "rw_socket s" "rw_stats s"]
  obtain n s1 where s1: "RawUdpSender_send_packet ops since tag p s = Some (Inr n, s1)" "raw_sender_ok mtu s1"
      "rw_budget s1 = None" "rw_framer s1 = (rw_framer s)\<lparr>fr_seq := fr_seq (rw_framer s) + 1\<rparr>"
      "rw_socket s1 = send_all ops (udp_datagrams tag (rw_framer s) p) (rw_socket s)"
      "tx_frames (rw_stats s1) = tx_frames (rw_stats s) + 1"
      "tx_packets (rw_stats s1) = tx_packets (rw_stats s) + length (udp_datagrams tag (rw_framer s) p)"
      "tx_bytes (rw_stats s1) = tx_bytes (rw_stats s) + sum_list (map length (udp_datagrams tag (rw_framer s) p))"
    by auto
  from Cons.IH [OF s1(2,3) Cons.prems(3)] Cons.prems(4) obtain rs s2 where
    "RawUdpSender_run ops since tag ps s1 = Some (rs, s2)" "length rs = length ps" "\<forall>r \<in> set rs. \<exists>n. r = Inr n"
    "rw_socket s2 = send_all ops (sent_datagrams tag (rw_framer s1) ps) (rw_socket s1)"
    "tx_frames (rw_stats s2) = tx_frames (rw_stats s1) + length ps"
    "tx_packets (rw_stats s2) = tx_packets (rw_stats s1) + length (sent_datagrams tag (rw_framer s1) ps)"
    "tx_bytes (rw_stats s2) = tx_bytes (rw_stats s1) + sum_list (map length (sent_datagrams tag (rw_framer s1) ps))"
    by auto
  then show ?case using s1 by (intro exI [of _ "Inr n # rs"] exI [of _ s2]) (simp add: send_all_def)
qed

lemma receive_raw_script:
  assumes "clock_is_read ops" "us_set_timeout ops c = (True, c1)" "delivers ops T xs c1" "RecvFailed \<notin> set xs"
    and "Reassembler_feed t (Reassembler_new buf) (datagrams_of xs) = (rs, r1)" "Inl Panic \<notin> set rs"
  shows "\<exists>st c2. receive_raw t ops keep_packet buf \<lparr>ut_frames = 0, ut_for_at_most = T\<rparr> c v =
      Some (Inr st, c2, v @ kept_of t (Reassembler_new buf) (datagrams_of xs)) \<and>
    rx_packets st = length (datagrams_of xs) \<and> rx_bytes st = sum_list (map length (datagrams_of xs)) \<and>
    rx_frames st = length (kept_of t (Reassembler_new buf) (datagrams_of xs)) \<and> rx_bad st = bad_answers rs \<and>
    rx_lost st = rs_lost r1"
proof -
  from raw_receiver.receive_loop_script [OF assms(1,3,4) TrueI assms(5,6), of RxStats_default v]
  obtain c2 st1 where "receive_loop ops \<lparr>ut_frames = 0, ut_for_at_most = T\<rparr> (raw_handle t ops keep_packet) c1
        RxStats_default (Reassembler_new buf, v) =
      Some (Inr (), c2, st1, r1, v @ kept_of t (Reassembler_new buf) (datagrams_of xs))"
    and "rx_packets st1 = length (datagrams_of xs)" "rx_bytes st1 = sum_list (map length (datagrams_of xs))"
      "rx_frames st1 = length (kept_of t (Reassembler_new buf) (datagrams_of xs))" "rx_bad st1 = bad_answers rs"
    by (auto simp: RxStats_default_def)
  then show ?thesis by (simp add: receive_raw_def assms(2))
qed

text \<open>C9: Raw packets over a network, sender to receiver. Packets sent one after the other without a budget
  through a socket that takes them are cut into datagrams, all counted; when the datagrams of each packet
  arrive before those of the next one, but in any order among themselves and with timeouts in between, the
  receiver hands its client exactly the packets in order, with sequence, timestamp, codec tag, key flag and
  bytes, counts the same datagrams and bytes as the sender, one frame per packet, nothing lost and nothing
  bad, and ends at its deadline.\<close>

theorem raw_udp_end_to_end:
  assumes "raw_sender_ok mtu s" and "rw_budget s = None" and "takes_all ops"
    and "\<forall>p \<in> set ps. length (mp_data p) < 2 ^ 32 \<and> length (mp_data p) < usize_mod t \<and>
      length (mp_data p) \<le> length buf"
    and "clock_is_read rops" and "us_set_timeout rops c = (True, c1)" and "delivers rops T xs c1"
    and "RecvFailed \<notin> set xs" and "arrives tag (rw_framer s) ps (datagrams_of xs)"
  shows "\<exists>rs s1 st c2. RawUdpSender_run ops since tag ps s = Some (rs, s1) \<and>
    rw_socket s1 = send_all ops (sent_datagrams tag (rw_framer s) ps) (rw_socket s) \<and>
    mset (datagrams_of xs) = mset (sent_datagrams tag (rw_framer s) ps) \<and>
    receive_raw t rops keep_packet buf \<lparr>ut_frames = 0, ut_for_at_most = T\<rparr> c [] =
      Some (Inr st, c2, kept_packets tag (fr_seq (rw_framer s)) ps) \<and>
    tx_packets (rw_stats s1) = tx_packets (rw_stats s) + rx_packets st \<and>
    tx_bytes (rw_stats s1) = tx_bytes (rw_stats s) + rx_bytes st \<and>
    rx_frames st = length ps \<and> rx_lost st = 0 \<and> rx_bad st = 0"
proof -
  let ?ds = "datagrams_of xs" and ?sent = "sent_datagrams tag (rw_framer s) ps" and ?r = "Reassembler_new buf"
  have m: "mset ?ds = mset ?sent" by (rule arrives_mset [OF assms(9)])
  then have len: "length ?ds = length ?sent" by (rule mset_eq_length)
  have "mset (map length ?ds) = mset (map length ?sent)" using m by simp
  then have sum: "sum_list (map length ?ds) = sum_list (map length ?sent)" by (metis sum_mset_sum_list)
  have "udp_HEADER_LEN < fr_mtu (rw_framer s)" "rs_current ?r = None" "rs_buf ?r = buf" "rs_lost ?r = 0"
    using assms(1) by (simp_all add: raw_sender_ok_def Reassembler_new_def)
  with Reassembler_feed_arrives [OF this(1,2) assms(9), of t] assms(4) obtain rs r1 where
    f: "Reassembler_feed t ?r ?ds = (rs, r1)" "Inl Panic \<notin> set rs" "bad_answers rs = 0" "rs_lost r1 = 0"
      "kept_of t ?r ?ds = kept_packets tag (fr_seq (rw_framer s)) ps"
    by auto
  have k: "length (kept_packets tag q ps) = length ps" for q by (induction ps arbitrary: q) simp_all
  have "\<forall>p \<in> set ps. length (mp_data p) < 2 ^ 32" using assms(4) by blast
  from RawUdpSender_run_sends [OF assms(1-3) this, of since tag]
    receive_raw_script [OF assms(5-8) f(1,2), of "[]"] f(3-5) m len sum k
  show ?thesis by auto
qed


lemma datagrams_of_append: "datagrams_of (xs @ ys) = datagrams_of xs @ datagrams_of ys"
  by (induction xs rule: datagrams_of.induct) simp_all

lemma datagrams_of_map: "datagrams_of (map Datagram ds) = ds"
  by (induction ds) simp_all

text \<open>A socket that follows a script.\<close>

definition script_ops :: "(unit, received list) udp_ops" where
  "script_ops =
     \<lparr>us_bind = (\<lambda>_. Some []), us_connect = (\<lambda>c _. (True, c)), us_send = (\<lambda>c d. (True, c)),
      us_set_timeout = (\<lambda>c. (True, c)),
      us_recv = (\<lambda>c. case c of [] \<Rightarrow> (TimedOut, []) | x # xs \<Rightarrow> (x, xs)),
      us_elapsed = (\<lambda>c. (if c = [] then 10 else 1, c))\<rparr>"

lemma script_ops_delivers: "delivers script_ops 10 xs xs"
  by (induction xs) (simp_all add: script_ops_def)

theorem raw_udp_end_to_end_witness:
  "\<exists>rs s1 st c2 xs.
     RawUdpSender_run list_ops (\<lambda>b a. b - a) (\<lambda>_. 1) [udp_example_packet, udp_example_packet]
       (example_raw_sender\<lparr>rw_budget := None\<rparr>) = Some (rs, s1) \<and>
     receive_raw (host_target True) script_ops keep_packet (replicate 6 0)
       \<lparr>ut_frames = 0, ut_for_at_most = 10\<rparr> xs [] =
       Some (Inr st, c2, [(7, 5, 1, True, [1, 2, 3, 4, 5]), (8, 5, 1, True, [1, 2, 3, 4, 5])]) \<and>
     rx_frames st = 2 \<and> rx_lost st = 0 \<and> rx_bad st = 0"
proof -
  let ?s = "example_raw_sender\<lparr>rw_budget := None\<rparr>" and ?p = udp_example_packet
  let ?fr = "rw_framer ?s" and ?tag = "\<lambda>_ :: codec. 1 :: u8"
  define xs where "xs = TimedOut # map Datagram (rev (udp_datagrams ?tag ?fr ?p)) @
    TimedOut # map Datagram (udp_datagrams ?tag (?fr\<lparr>fr_seq := fr_seq ?fr + 1\<rparr>) ?p)"
  have s: "raw_sender_ok 31 ?s" "rw_budget ?s = None" "takes_all list_ops" "fr_seq ?fr = 7"
    by (simp_all add: raw_sender_ok_def example_raw_sender_def udp_HEADER_LEN_def takes_all_def list_ops_def)
  have p: "\<forall>p \<in> set [?p, ?p]. length (mp_data p) < 2 ^ 32 \<and> length (mp_data p) < usize_mod (host_target True) \<and>
      length (mp_data p) \<le> length (replicate 6 0 :: bytes)"
    by (simp add: udp_example_packet_def)
  have r: "clock_is_read script_ops" "us_set_timeout script_ops xs = (True, xs)"
    by (simp_all add: clock_is_read_def script_ops_def)
  have x: "RecvFailed \<notin> set xs" by (auto simp: xs_def)
  have ds: "datagrams_of xs = rev (udp_datagrams ?tag ?fr ?p) @ udp_datagrams ?tag (?fr\<lparr>fr_seq := fr_seq ?fr + 1\<rparr>) ?p"
    by (simp add: xs_def datagrams_of_append datagrams_of_map)
  have a: "arrives ?tag ?fr [?p, ?p] (datagrams_of xs)"
    unfolding ds arrives.simps Let_def by simp
  have k: "kept_packets ?tag (fr_seq ?fr) [?p, ?p] =
      [(7, 5, 1, True, [1, 2, 3, 4, 5]), (8, 5, 1, True, [1, 2, 3, 4, 5])]"
    unfolding s(4) by (simp add: udp_example_packet_def)
  from raw_udp_end_to_end [OF s(1-3) p r script_ops_delivers x a, of "\<lambda>b a. b - a", unfolded k]
  show ?thesis by (simp only: list.size numeral_2_eq_2 One_nat_def add_0 plus_nat.add_Suc) blast
qed

end
