(* ===== verification/RtpBudget.thy ===== *)
theory RtpBudget
  imports UdpNet
begin

text \<open>
  The RTP sender and its budget: how many bytes a JPEG takes on the wire, and what \<open>wire_len\<close>
  estimates. Without restart intervals the estimate is never too low and the sender is a
  \<open>budgeted_sender\<close>; with them every packet is four bytes longer than it assumes.
\<close>

section \<open>What a JPEG takes on the wire\<close>

definition rtp_overhead :: "jpeg_scan \<Rightarrow> nat" where
  "rtp_overhead info = 20 + (if js_restart_interval info = None then 0 else 4)"

lemma sum_rtp_packets:
  "sum_list (map length (rtp_packets ts r ps)) = sum_list (map (length \<circ> snd) ps) + 12 * length ps"
  by (induction ps arbitrary: r) (auto simp: comp_def)

lemma sum_mark_last: "sum_list (map (length \<circ> snd) (mark_last m ps)) = sum_list (map length ps)"
  by (simp only: map_map [symmetric] map_snd_mark_last)

lemma div_ceil_step:
  assumes "0 < n" "a \<noteq> 0"
  shows "div_ceil a n = Suc (div_ceil (a - n) n)"
proof -
  have s: "(x + n) div n = Suc (x div n)" for x using div_add_self2 [of n x] assms(1) by simp
  show ?thesis
  proof (cases "n \<le> a")
    case True
    then have "a + n - 1 = (a - n + n - 1) + n" using assms by linarith
    then show ?thesis unfolding div_ceil_def by (simp only: s)
  next
    case False
    then have "a + n - 1 = (a - 1) + n" "(a - 1) div n = 0" "(a - n + n - 1) div n = 0" using assms by simp_all
    then show ?thesis unfolding div_ceil_def by (simp only: s)
  qed
qed

lemma div_ceil_mono: "a \<le> b \<Longrightarrow> div_ceil a n \<le> div_ceil b n"
  by (auto simp: div_ceil_def intro: div_le_mono)

lemma jpeg_payloads_later:
  assumes "jpeg_tables_full info" "157 \<le> mtu" "off \<noteq> 0"
  shows "length (jpeg_payloads info mtu off rest) = div_ceil (length rest) (mtu - rtp_overhead info) \<and>
    sum_list (map length (jpeg_payloads info mtu off rest)) =
      length rest + (rtp_overhead info - 12) * length (jpeg_payloads info mtu off rest)"
  using assms
proof (induction info mtu off rest rule: jpeg_payloads.induct)
  case (1 info mtu off rest)
  let ?n = "mtu - rtp_overhead info"
  have h: "12 + length (jpeg_head_bytes info off) = rtp_overhead info"
    using length_jpeg_head_bytes [OF "1.prems"(1), of off] "1.prems"(3) by (simp add: rtp_overhead_def)
  have n: "0 < ?n" using "1.prems"(2) by (simp add: rtp_overhead_def)
  show ?case
  proof (cases "rest = []")
    case True
    then show ?thesis using n by (simp add: jpeg_payloads.simps div_ceil_def)
  next
    case False
    have ps: "jpeg_payloads info mtu off rest =
        (jpeg_head_bytes info off @ take ?n rest) # jpeg_payloads info mtu (off + ?n) (drop ?n rest)"
      using False n by (subst jpeg_payloads.simps) (simp add: h Let_def)
    have c: "\<not> (rest = [] \<or> ?n = 0)" using False n by simp
    have hb: "length (jpeg_head_bytes info off) = rtp_overhead info - 12" using h by simp
    have "length (jpeg_payloads info mtu (off + ?n) (drop ?n rest)) = div_ceil (length (drop ?n rest)) ?n \<and>
      sum_list (map length (jpeg_payloads info mtu (off + ?n) (drop ?n rest))) =
        length (drop ?n rest) + (rtp_overhead info - 12) * length (jpeg_payloads info mtu (off + ?n) (drop ?n rest))"
      using "1.IH" [of ?n] c "1.prems" h by simp
    then show ?thesis using False n div_ceil_step [of ?n "length rest"] by (simp add: ps hb)
  qed
qed

definition jpeg_packet_count :: "nat \<Rightarrow> jpeg_scan \<Rightarrow> nat" where
  "jpeg_packet_count mtu info = length (jpeg_payloads info mtu 0 (js_scan info))"

lemma jpeg_wire_bytes:
  assumes "jpeg_tables_full info" "157 \<le> mtu" "js_scan info \<noteq> []"
  shows "jpeg_packet_count mtu info =
      Suc (div_ceil (length (js_scan info) - (mtu - (rtp_overhead info + 4 + 64 * js_qtable_count info))) (mtu - rtp_overhead info))"
    and "sum_list (map length (rtp_packets ts r (mark_last True (jpeg_payloads info mtu 0 (js_scan info))))) =
      length (js_scan info) + 4 + 64 * js_qtable_count info + rtp_overhead info * jpeg_packet_count mtu info"
proof -
  let ?rest = "js_scan info" and ?h0 = "rtp_overhead info + 4 + 64 * js_qtable_count info"
  have h: "12 + length (jpeg_head_bytes info 0) = ?h0"
    using length_jpeg_head_bytes [OF assms(1), of 0] by (simp add: rtp_overhead_def)
  have n: "0 < mtu - ?h0" using jpeg_head_fits [OF assms(1,2), of 0] h by simp
  let ?n = "mtu - ?h0"
  have ps: "jpeg_payloads info mtu 0 ?rest =
      (jpeg_head_bytes info 0 @ take ?n ?rest) # jpeg_payloads info mtu ?n (drop ?n ?rest)"
    using assms(3) n by (subst jpeg_payloads.simps) (simp add: h Let_def)
  have "?n \<noteq> 0" using n by simp
  note later = jpeg_payloads_later [OF assms(1,2) this, of "drop ?n ?rest"]
  show "jpeg_packet_count mtu info = Suc (div_ceil (length ?rest - ?n) (mtu - rtp_overhead info))"
    using later by (simp add: jpeg_packet_count_def ps)
  have hb: "length (jpeg_head_bytes info 0) = (rtp_overhead info - 12) + 4 + 64 * js_qtable_count info" "12 \<le> rtp_overhead info"
    using h by (simp_all add: rtp_overhead_def)
  obtain v where v: "rtp_overhead info = v + 12" using hb(2) le_Suc_ex add.commute by metis
  show "sum_list (map length (rtp_packets ts r (mark_last True (jpeg_payloads info mtu 0 ?rest)))) =
      length ?rest + 4 + 64 * js_qtable_count info + rtp_overhead info * jpeg_packet_count mtu info"
    using later hb(1) by (simp add: sum_rtp_packets sum_mark_last jpeg_packet_count_def ps v algebra_simps)
qed

section \<open>The estimate\<close>

definition rtp_sender_ok :: "nat \<Rightarrow> 'c rtp_sender \<Rightarrow> bool" where
  "rtp_sender_ok mtu s \<longleftrightarrow> 157 \<le> mtu \<and> jpp_mtu (js_payloader s) = mtu \<and> length (js_scratch s) = mtu"

definition rtp_wire_len :: "nat \<Rightarrow> nat \<Rightarrow> nat" where
  "rtp_wire_len mtu n = n + div_ceil n (mtu - 20) * 20 + 132"

lemma RtpJpegSender_wire_len_eq:
  "rtp_sender_ok mtu s \<Longrightarrow> RtpJpegSender_wire_len s n = rtp_wire_len mtu n"
  by (auto simp: RtpJpegSender_wire_len_def rtp_sender_ok_def rtp_wire_len_def rtp_HEADER_LEN_def Let_def max_def)

lemma rtp_wire_len_bound: "n < 2 ^ 32 \<Longrightarrow> 157 \<le> mtu \<Longrightarrow> rtp_wire_len mtu n < 2 ^ 64"
  using div_ceil_le [of "mtu - 20" n] by (simp add: rtp_wire_len_def)

lemma wire_bytes_estimated:
  assumes "JpegScan_parse jpeg = Inr info" "js_qtables info ! 0 \<noteq> []" "js_restart_interval info = None" "157 \<le> mtu"
  shows "sum_list (map length (rtp_packets ts r (mark_last True (jpeg_payloads info mtu 0 (js_scan info))))) \<le> rtp_wire_len mtu (length jpeg)"
proof (cases "js_scan info = []")
  case True
  then have "jpeg_payloads info mtu 0 (js_scan info) = []" by (simp add: jpeg_payloads.simps Let_def)
  then show ?thesis by simp
next
  case False
  have tf: "jpeg_tables_full info" using jpeg_tables_from_parse [OF JpegScan_parse_ok [OF assms(1)] assms(2)] by simp
  have v: "rtp_overhead info = 20" using assms(3) by (simp add: rtp_overhead_def)
  note w = jpeg_wire_bytes(1) [OF tf assms(4) False, unfolded v] jpeg_wire_bytes(2) [OF tf assms(4) False, of ts r, unfolded v]
  have "div_ceil (length (js_scan info) - (mtu - (20 + 4 + 64 * js_qtable_count info))) (mtu - 20) \<le> div_ceil (length jpeg) (mtu - 20)"
    using JpegScan_parse_length [OF assms(1)] by (intro div_ceil_mono) linarith
  then have "20 * jpeg_packet_count mtu info \<le> 20 * div_ceil (length jpeg) (mtu - 20) + 20" unfolding w(1) by simp
  moreover have "js_qtable_count info \<le> 2" using tf by (simp add: jpeg_tables_full_def)
  ultimately show ?thesis using JpegScan_parse_length [OF assms(1)] unfolding w(2) rtp_wire_len_def by linarith
qed

section \<open>The sender\<close>

text \<open>A JPEG the estimate is right for, one without restart intervals; what is no JPEG is refused, and
  harmless. A JPEG whose first quantization table is missing makes \<open>packetize\<close> panic, with nothing sent.\<close>

definition budgetable :: "bytes \<Rightarrow> bool" where
  "budgetable jpeg \<longleftrightarrow> length jpeg < 2 ^ 32 \<and>
     (\<forall>info. JpegScan_parse jpeg = Inr info \<longrightarrow> js_restart_interval info = None)"

definition missing_table :: "bytes \<Rightarrow> bool" where
  "missing_table jpeg \<longleftrightarrow>
     (case JpegScan_parse jpeg of Inl _ \<Rightarrow> False | Inr info \<Rightarrow> js_qtables info ! 0 = [] \<and> js_scan info \<noteq> [])"

lemma RtpJpegSender_send_frame_bounds:
  assumes "rtp_sender_ok mtu s" "budgetable jpeg"
    and "ask_budget since (js_budget s) t (rtp_wire_len mtu (length jpeg)) = (adm, bo)"
  shows "\<exists>r s1. RtpJpegSender_send_frame ops since jpeg t s = Some (r, s1) \<and> rtp_sender_ok mtu s1 \<and> js_budget s1 = bo \<and>
    (r = Inl Panic \<longrightarrow> missing_table jpeg) \<and>
    tx_bytes (js_stats s1) \<le> tx_bytes (js_stats s) + (if adm then rtp_wire_len mtu (length jpeg) else 0) \<and>
    tx_dropped (js_stats s1) = tx_dropped (js_stats s) + (if adm then 0 else 1)"
proof -
  note unf = RtpJpegSender_send_frame_def [of ops since jpeg t s, unfolded Let_def RtpJpegSender_wire_len_eq [OF assms(1)],
      folded ask_budget_def, unfolded assms(3)]
  have m: "157 \<le> mtu" "jpp_mtu (js_payloader s) = mtu" "length (js_scratch s) = mtu"
    using assms(1) by (simp_all add: rtp_sender_ok_def)
  show ?thesis
  proof (cases adm)
    case False
    then show ?thesis using assms(1) by (simp add: unf rtp_sender_ok_def)
  next
    case True
    show ?thesis
    proof (cases "JpegScan_parse jpeg")
      case (Inl e)
      then have "e \<noteq> Panic" using JpegScan_parse_no_panic [of jpeg] by (auto simp: no_panic_def)
      then show ?thesis using True Inl m by (simp add: unf JpegPayloader_packetize_def rtp_sender_ok_def)
    next
      case (Inr info)
      then have ri: "js_restart_interval info = None" using assms(2) by (simp add: budgetable_def)
      show ?thesis
      proof (cases "js_qtables info ! 0 = []")
      case True
      from JpegPayloader_packetize_missing_table [OF _ _ Inr this, of "js_payloader s" "js_scratch s" "send_counted ops" t
          "(js_socket s, js_stats s)"] m \<open>adm\<close> Inr True
      show ?thesis by (simp add: unf rtp_sender_ok_def missing_table_def)
      next
      case i: False
      define ds where "ds = rtp_packets (Rtp_timestamp (jpp_rtp (js_payloader s)) t) (jpp_rtp (js_payloader s))
        (mark_last True (jpeg_payloads info (jpp_mtu (js_payloader s)) 0 (js_scan info)))"
      obtain x c st where ws: "write_seq (send_counted ops) ds (js_socket s, js_stats s) = (x, c, st)" by (metis prod_cases3)
      from JpegPayloader_packetize_any [OF _ _ Inr i ds_def, of "js_scratch s" "send_counted ops" "(js_socket s, js_stats s)"] m
      obtain scratch' p' where p: "length scratch' = mtu" "jpp_mtu p' = mtu"
        "JpegPayloader_packetize (send_counted ops) (js_payloader s) jpeg t (js_scratch s) (js_socket s, js_stats s) =
          (case x of Inl e \<Rightarrow> Some (Inl e, p', scratch', c, st) | Inr _ \<Rightarrow> Some (Inr (length ds), p', scratch', c, st))"
        using ws by auto
      have "sum_list (map length ds) \<le> rtp_wire_len mtu (length jpeg)"
        unfolding ds_def m(2) by (rule wire_bytes_estimated [OF Inr i ri m(1)])
      with write_seq_send_counted_bounds [OF ws] have b: "tx_bytes st \<le> tx_bytes (js_stats s) + rtp_wire_len mtu (length jpeg)"
        "tx_dropped st = tx_dropped (js_stats s)" "x \<noteq> Inl Panic" by linarith+
      show ?thesis using True m p b by (cases x) (simp_all add: unf rtp_sender_ok_def)
      qed
    qed
  qed
qed

interpretation rtp: budgeted_sender since "\<lambda>(jpeg, t). RtpJpegSender_send_frame ops since jpeg t" snd
  "\<lambda>(jpeg, t). rtp_wire_len mtu (length jpeg)" "\<lambda>(jpeg, t). budgetable jpeg" "\<lambda>(jpeg, t). missing_table jpeg" "rtp_sender_ok mtu" js_budget js_stats
  for since ops mtu
proof (unfold_locales, goal_cases)
  case (1 s p adm bo)
  with RtpJpegSender_send_frame_bounds [of mtu s "fst p" since "snd p" adm bo ops] show ?case
    unfolding case_prod_beta by blast
next
  case (2 s p)
  then have "length (fst p) < 2 ^ 32" "157 \<le> mtu" by (auto simp: budgetable_def rtp_sender_ok_def case_prod_beta)
  from rtp_wire_len_bound [OF this] show ?case by (simp add: case_prod_beta)
qed

abbreviation RtpJpegSender_run ::
  "('a, 'c) udp_ops \<Rightarrow> (micros \<Rightarrow> micros \<Rightarrow> u64) \<Rightarrow> (bytes \<times> micros) list \<Rightarrow> 'c rtp_sender \<Rightarrow>
     (nat result list \<times> 'c rtp_sender) option" where
  "RtpJpegSender_run ops since \<equiv> send_run (\<lambda>(jpeg, t). RtpJpegSender_send_frame ops since jpeg t)"

text \<open>C19: An RTP sender with a budget stays within it on the wire, headers included, for JPEGs without
  restart intervals. From any state of the sender, over frames captured in order within \<open>[lo, hi]\<close>,
  JPEG or not, every call returns whatever the socket does, and the bytes sent are at most the burst plus
  the rate times the span: \<open>wire_len\<close>, which never parses the frame, is no lower than the packets that
  come of it. What the budget drops the sender counts. A call panics only for a JPEG whose first
  quantization table is missing, and the budget holds then, too, for a caller that catches the panic.\<close>

theorem RtpJpegSender_within_budget:
  assumes "rtp_sender_ok mtu s" "js_budget s = Some b"
    and "bg_bytes_per_second b \<noteq> 0" "budget_ok b" "monotone_clock since"
    and "sorted (map (\<lambda>f. unat (snd f)) fs)"
    and "\<forall>f \<in> set fs. lo \<le> unat (snd f) \<and> unat (snd f) \<le> hi"
    and "\<forall>f \<in> set fs. budgetable (fst f)"
  shows "\<exists>rs s1 b1. RtpJpegSender_run ops since fs s = Some (rs, s1) \<and> length rs = length fs \<and>
    (\<forall>(f, r) \<in> set (zip fs rs). r = Inl Panic \<longrightarrow> missing_table (fst f)) \<and>
    tx_bytes (js_stats s1) \<le> tx_bytes (js_stats s) +
      unat (bg_burst_bytes b) + (hi - lo) * unat (bg_bytes_per_second b) div 1000000 \<and>
    js_budget s1 = Some b1 \<and>
    tx_dropped (js_stats s1) + bg_dropped b = tx_dropped (js_stats s) + bg_dropped b1"
proof -
  have "\<forall>f \<in> set fs. case f of (jpeg, t) \<Rightarrow> budgetable jpeg" using assms(8) by auto
  from rtp.send_run_within [OF assms(1-7) this, of ops] show ?thesis by (simp add: case_prod_beta')
qed

definition plain_scan :: jpeg_scan where
  "plain_scan = \<lparr>js_width = 8, js_height = 16, js_type = 1, js_restart_interval = None,
     js_qtables = [replicate 64 1, []], js_qtable_count = 1, js_scan = [1, 2, 3]\<rparr>"

definition example_rtp_sender :: "nat \<Rightarrow> bytes list rtp_sender" where
  "example_rtp_sender mtu =
     \<lparr>js_socket = [], js_payloader = \<lparr>jpp_rtp = Rtp_new 1 PT_JPEG VIDEO_CLOCK_HZ 7, jpp_mtu = mtu\<rparr>,
      js_scratch = replicate mtu 0, js_budget = Some example_budget, js_stats = TxStats_default\<rparr>"

lemma length_rebuilt_jpeg:
  assumes "jpeg_tables_full info"
  shows "length (rebuilt_jpeg info) = jpeg_header_len (js_qtable_count info) (js_restart_interval info \<noteq> None) + length (js_scan info) + 2"
  using assms length_jpeg_header [of "take (js_qtable_count info) (js_qtables info)" "js_qtable_count info"]
  by (simp add: rebuilt_jpeg_def jpeg_tables_full_def)

text \<open>A JPEG, one without its first table, and something else.\<close>

definition budget_frames :: "(bytes \<times> micros) list" where
  "budget_frames = [(rebuilt_jpeg plain_scan, 5), (one_table_jpeg, 5), ([1, 2], 6)]"

theorem RtpJpegSender_within_budget_witness:
  "\<exists>rs s1. RtpJpegSender_run list_ops (\<lambda>b a. b - a) budget_frames (example_rtp_sender 200) = Some (rs, s1) \<and>
    length rs = 3 \<and> rs ! 0 \<noteq> Inl Panic \<and> rs ! 2 \<noteq> Inl Panic \<and> tx_bytes (js_stats s1) \<le> 12500"
proof -
  have c: "monotone_clock (\<lambda>b a. b - a)" by (simp add: monotone_clock_def unat_sub word_le_nat_alt)
  have ok: "jpeg_scan_ok plain_scan" "js_qtables plain_scan ! 0 \<noteq> []"
    by (auto simp: plain_scan_def jpeg_scan_ok_def jpeg_tables_ok_two jpeg_dims_ok_def intro: exI [of _ 1])
  have l: "length (rebuilt_jpeg plain_scan) = 541"
    unfolding length_rebuilt_jpeg [OF jpeg_tables_from_parse(1) [OF ok]] by (simp add: plain_scan_def jpeg_header_len_def)
  have "JpegScan_parse [1, 2] = Inl (Err InvalidFormat)" by (simp add: JpegScan_parse_def)
  note p = JpegScan_parse_rebuilt [OF ok] one_table_jpeg_parse this
  have "length one_table_jpeg = 107" by (simp add: one_table_jpeg_def)
  with p l have f: "sorted (map (\<lambda>f. unat (snd f)) budget_frames)"
    "\<forall>f \<in> set budget_frames. 5 \<le> unat (snd f) \<and> unat (snd f) \<le> 6"
    "\<forall>f \<in> set budget_frames. budgetable (fst f)"
    by (simp_all add: budgetable_def budget_frames_def plain_scan_def)
  have g: "\<not> missing_table (rebuilt_jpeg plain_scan)" "\<not> missing_table [1, 2]"
    using p ok(2) by (simp_all add: missing_table_def)
  have s: "rtp_sender_ok 200 (example_rtp_sender 200)" "js_budget (example_rtp_sender 200) = Some example_budget"
    "bg_bytes_per_second example_budget \<noteq> 0" "budget_ok example_budget"
    "tx_bytes (js_stats (example_rtp_sender 200)) = 0" "unat (bg_burst_bytes example_budget) = 12500"
    "unat (bg_bytes_per_second example_budget) = 25000"
    by (simp_all add: rtp_sender_ok_def example_rtp_sender_def example_budget_def budget_ok_def TxStats_default_def)
  from RtpJpegSender_within_budget [OF s(1-4) c f, of list_ops, unfolded s(5-7)] obtain rs s1 where
    r: "RtpJpegSender_run list_ops (\<lambda>b a. b - a) budget_frames (example_rtp_sender 200) = Some (rs, s1)"
      "length rs = length budget_frames" "\<forall>(f, r) \<in> set (zip budget_frames rs). r = Inl Panic \<longrightarrow> missing_table (fst f)"
      "tx_bytes (js_stats s1) \<le> 12500" by auto
  moreover have "length rs = 3" using r(2) by (simp add: budget_frames_def)
  then obtain a b c where "rs = [a, b, c]" by (auto simp: numeral_3_eq_3 length_Suc_conv)
  ultimately show ?thesis using g by (auto simp: budget_frames_def simp del: send_run.simps)
qed

section \<open>With restart intervals\<close>

text \<open>Every packet then carries four bytes more than \<open>wire_len\<close> counts: a JPEG of 40 kB over an MTU of
  200 takes 45540 bytes, and the budget is asked for fewer.\<close>

definition restart_scan :: jpeg_scan where
  "restart_scan = \<lparr>js_width = 8, js_height = 16, js_type = 65, js_restart_interval = Some 4,
     js_qtables = [replicate 64 1, []], js_qtable_count = 1, js_scan = replicate 40000 0\<rparr>"

lemma RtpJpegSender_wire_len_undercounts:
  "JpegScan_parse (rebuilt_jpeg restart_scan) = Inr restart_scan"
  "sum_list (map length (rtp_packets ts r (mark_last True (jpeg_payloads restart_scan 200 0 (js_scan restart_scan))))) = 45540"
  "RtpJpegSender_wire_len (example_rtp_sender 200) (length (rebuilt_jpeg restart_scan)) < 45540"
proof -
  have ok: "jpeg_scan_ok restart_scan" "js_qtables restart_scan ! 0 \<noteq> []"
    by (auto simp: restart_scan_def jpeg_scan_ok_def jpeg_tables_ok_two jpeg_dims_ok_def intro: exI [of _ 1])
  note tf = jpeg_tables_from_parse(1) [OF ok]
  show "JpegScan_parse (rebuilt_jpeg restart_scan) = Inr restart_scan" by (rule JpegScan_parse_rebuilt [OF ok])
  have i: "length (js_scan restart_scan) = 40000" "js_qtable_count restart_scan = 1" "rtp_overhead restart_scan = 24"
    "js_restart_interval restart_scan \<noteq> None"
    by (simp_all add: restart_scan_def rtp_overhead_def)
  then have "js_scan restart_scan \<noteq> []" by auto
  note w = jpeg_wire_bytes(1) [OF tf _ this, of 200] jpeg_wire_bytes(2) [OF tf _ this, of 200 ts r]
  have "jpeg_packet_count 200 restart_scan = 228" using w(1) by (simp add: i div_ceil_def)
  then show "sum_list (map length (rtp_packets ts r (mark_last True (jpeg_payloads restart_scan 200 0 (js_scan restart_scan))))) = 45540"
    using w(2) by (simp add: i)
  have "rtp_sender_ok 200 (example_rtp_sender 200)" by (simp add: rtp_sender_ok_def example_rtp_sender_def)
  then show "RtpJpegSender_wire_len (example_rtp_sender 200) (length (rebuilt_jpeg restart_scan)) < 45540"
    unfolding RtpJpegSender_wire_len_eq [OF \<open>rtp_sender_ok 200 (example_rtp_sender 200)\<close>] length_rebuilt_jpeg [OF tf]
    using i by (simp add: rtp_wire_len_def div_ceil_def jpeg_header_len_def)
qed

end
