(* ===== verification/RtpNet.thy ===== *)
theory RtpNet
  imports RtpBudget
begin

text \<open>
  JPEG over RTP from a sender to a receiver, \<open>udp_net.rs\<close> over \<open>rtp.rs\<close>: what arrives in order is
  handed to the client completely, and whatever the network loses, repeats or reorders, the client
  is never handed a picture that was not sent.
\<close>

section \<open>What the sender sends\<close>

definition frame_packets :: "nat \<Rightarrow> rtp \<Rightarrow> jpeg_scan \<Rightarrow> micros \<Rightarrow> bytes list" where
  "frame_packets mtu r info t =
     rtp_packets (Rtp_timestamp r t) r (mark_last True (jpeg_payloads info mtu 0 (js_scan info)))"

text \<open>What is no JPEG is refused, and no packet of it leaves.\<close>

fun sent_packets :: "nat \<Rightarrow> rtp \<Rightarrow> (bytes \<times> micros) list \<Rightarrow> bytes list" where
  "sent_packets mtu r [] = []"
| "sent_packets mtu r ((jpeg, t) # fs) =
     (case JpegScan_parse jpeg of
        Inl _ \<Rightarrow> sent_packets mtu r fs
      | Inr info \<Rightarrow> frame_packets mtu r info t @
          sent_packets mtu ((rtp_next ^^ length (frame_packets mtu r info t)) r) fs)"

text \<open>The scans sent, with their RTP timestamps, and the pictures a receiver makes of them.\<close>

fun sent_scans :: "rtp \<Rightarrow> (bytes \<times> micros) list \<Rightarrow> (u32 \<times> jpeg_scan) list" where
  "sent_scans r [] = []"
| "sent_scans r ((jpeg, t) # fs) =
     (case JpegScan_parse jpeg of
        Inl _ \<Rightarrow> sent_scans r fs
      | Inr info \<Rightarrow> (Rtp_timestamp r t, info) # sent_scans r fs)"

definition picture_of :: "u32 \<times> jpeg_scan \<Rightarrow> bytes \<times> u32 \<times> u16 \<times> u16" where
  "picture_of x = (rebuilt_jpeg (snd x), fst x, js_width (snd x), js_height (snd x))"

lemma Rtp_timestamp_after [simp]: "Rtp_timestamp ((rtp_next ^^ n) r) t = Rtp_timestamp r t"
  by (simp add: Rtp_timestamp_def rtp_next_funpow)

lemma rtp_after_payload_type [simp]: "rt_payload_type ((rtp_next ^^ n) r) = rt_payload_type r"
  by (simp add: rtp_next_funpow)

lemma sent_scans_after [simp]: "sent_scans ((rtp_next ^^ n) r) fs = sent_scans r fs"
  by (induction fs rule: sent_scans.induct) (auto split: sum.split)

text \<open>JPEGs that can be sent, and received into a buffer of \<open>n\<close> bytes.\<close>

definition scan_fits :: "nat \<Rightarrow> jpeg_scan \<Rightarrow> bool" where
  "scan_fits n info \<longleftrightarrow> js_qtables info ! 0 \<noteq> [] \<and> js_scan info \<noteq> [] \<and> length (js_scan info) < 2 ^ 24 \<and>
     HEADER_RESERVE + length (js_scan info) + 2 \<le> n"

definition picture_fits :: "nat \<Rightarrow> bytes \<Rightarrow> bool" where
  "picture_fits n jpeg \<longleftrightarrow> (\<forall>info. JpegScan_parse jpeg = Inr info \<longrightarrow> scan_fits n info)"

lemma sent_scans_source:
  "x \<in> set (sent_scans r fs) \<Longrightarrow>
   \<exists>f \<in> set fs. JpegScan_parse (fst f) = Inr (snd x) \<and> fst x = Rtp_timestamp r (snd f)"
  by (induction fs rule: sent_scans.induct) (auto split: sum.splits)

lemma sent_scans_fit:
  assumes "\<forall>f \<in> set fs. picture_fits n (fst f)" "x \<in> set (sent_scans r fs)"
  shows "jpeg_scan_ok (snd x)" "jpeg_tables_full (snd x)" "scan_fits n (snd x)" "JpegScan_parse (rebuilt_jpeg (snd x)) = Inr (snd x)"
proof -
  from sent_scans_source [OF assms(2)] obtain f where f: "f \<in> set fs" "JpegScan_parse (fst f) = Inr (snd x)" by blast
  show fits: "scan_fits n (snd x)" using assms(1) f by (simp add: picture_fits_def)
  show so: "jpeg_scan_ok (snd x)" by (rule JpegScan_parse_ok [OF f(2)])
  have "js_qtables (snd x) ! 0 \<noteq> []" using fits by (simp add: scan_fits_def)
  then show "jpeg_tables_full (snd x)" "JpegScan_parse (rebuilt_jpeg (snd x)) = Inr (snd x)"
    using jpeg_tables_from_parse(1) [OF so] JpegScan_parse_rebuilt [OF so] by blast+
qed

lemma RtpJpegSender_send_frame_sends:
  assumes "rtp_sender_ok mtu s" "js_budget s = None" "takes_all ops"
    and "\<forall>info. JpegScan_parse jpeg = Inr info \<longrightarrow> js_qtables info ! 0 \<noteq> []"
    and ds: "ds = sent_packets mtu (jpp_rtp (js_payloader s)) [(jpeg, t)]"
  shows "\<exists>r s1. RtpJpegSender_send_frame ops since jpeg t s = Some (r, s1) \<and> rtp_sender_ok mtu s1 \<and> js_budget s1 = None \<and>
    r = map_sum id (\<lambda>_. length ds) (JpegScan_parse jpeg) \<and> js_socket s1 = send_all ops ds (js_socket s) \<and>
    jpp_rtp (js_payloader s1) = (rtp_next ^^ length ds) (jpp_rtp (js_payloader s)) \<and>
    tx_frames (js_stats s1) = tx_frames (js_stats s) + length (sent_scans (jpp_rtp (js_payloader s)) [(jpeg, t)]) \<and>
    tx_packets (js_stats s1) = tx_packets (js_stats s) + length ds \<and>
    tx_bytes (js_stats s1) = tx_bytes (js_stats s) + sum_list (map length ds) \<and>
    tx_dropped (js_stats s1) = tx_dropped (js_stats s)"
proof -
  have m: "157 \<le> mtu" "jpp_mtu (js_payloader s) = mtu" "length (js_scratch s) = mtu"
    using assms(1) by (simp_all add: rtp_sender_ok_def)
  note unf = RtpJpegSender_send_frame_def [of ops since jpeg t s, unfolded Let_def assms(2) option.case fst_conv snd_conv]
  show ?thesis
  proof (cases "JpegScan_parse jpeg")
    case (Inl e)
    then have d: "ds = []" by (simp add: ds)
    show ?thesis unfolding d using m assms(2) Inl
      by (simp add: unf JpegPayloader_packetize_def rtp_sender_ok_def send_all_def)
  next
    case (Inr info)
    have d: "ds = rtp_packets (Rtp_timestamp (jpp_rtp (js_payloader s)) t) (jpp_rtp (js_payloader s))
        (mark_last True (jpeg_payloads info (jpp_mtu (js_payloader s)) 0 (js_scan info)))"
      by (simp add: ds Inr frame_packets_def m(2))
    have "js_qtables info ! 0 \<noteq> []" using assms(4) Inr by blast
    from JpegPayloader_packetize_any [OF _ _ Inr this d, of "js_scratch s" "send_counted ops" "(js_socket s, js_stats s)"] m
      write_seq_takes_all [OF assms(3), of ds "js_socket s" "js_stats s"]
    obtain scratch' p' where p: "length scratch' = mtu" "jpp_mtu p' = mtu"
      "jpp_rtp p' = (rtp_next ^^ length ds) (jpp_rtp (js_payloader s))"
      "JpegPayloader_packetize (send_counted ops) (js_payloader s) jpeg t (js_scratch s) (js_socket s, js_stats s) =
        Some (Inr (length ds), p', scratch', send_all ops ds (js_socket s),
          (js_stats s)\<lparr>tx_packets := tx_packets (js_stats s) + length ds, tx_bytes := tx_bytes (js_stats s) + sum_list (map length ds)\<rparr>)"
      by auto
    then show ?thesis using m(1) Inr by (simp add: unf rtp_sender_ok_def)
  qed
qed

lemma sent_packets_Cons:
  "sent_packets mtu r (f # fs) =
     sent_packets mtu r [f] @ sent_packets mtu ((rtp_next ^^ length (sent_packets mtu r [f])) r) fs"
  by (cases f) (simp split: sum.split)

lemma sent_scans_Cons: "sent_scans r (f # fs) = sent_scans r [f] @ sent_scans r fs"
  by (cases f) (simp split: sum.split)

lemma RtpJpegSender_run_sends:
  assumes "rtp_sender_ok mtu s" "js_budget s = None" "takes_all ops" "\<forall>f \<in> set fs. picture_fits n (fst f)"
  shows "\<exists>rs s1. RtpJpegSender_run ops since fs s = Some (rs, s1) \<and> Inl Panic \<notin> set rs \<and>
    js_socket s1 = send_all ops (sent_packets mtu (jpp_rtp (js_payloader s)) fs) (js_socket s) \<and>
    tx_frames (js_stats s1) = tx_frames (js_stats s) + length (sent_scans (jpp_rtp (js_payloader s)) fs) \<and>
    tx_packets (js_stats s1) = tx_packets (js_stats s) + length (sent_packets mtu (jpp_rtp (js_payloader s)) fs) \<and>
    tx_bytes (js_stats s1) = tx_bytes (js_stats s) + sum_list (map length (sent_packets mtu (jpp_rtp (js_payloader s)) fs)) \<and>
    tx_dropped (js_stats s1) = tx_dropped (js_stats s)"
  using assms
proof (induction fs arbitrary: s)
  case Nil
  then show ?case by (simp add: send_all_def)
next
  case (Cons f fs)
  obtain jpeg t where f: "f = (jpeg, t)" by fastforce
  have q: "\<forall>info. JpegScan_parse jpeg = Inr info \<longrightarrow> js_qtables info ! 0 \<noteq> []"
    using Cons.prems(4) by (auto simp: f picture_fits_def scan_fits_def)
  from RtpJpegSender_send_frame_sends [OF Cons.prems(1-3) q refl, of since t] obtain r s1 where
    s1: "RtpJpegSender_send_frame ops since jpeg t s = Some (r, s1)" "rtp_sender_ok mtu s1" "js_budget s1 = None"
      "r = map_sum id (\<lambda>_. length (sent_packets mtu (jpp_rtp (js_payloader s)) [f])) (JpegScan_parse jpeg)"
      "js_socket s1 = send_all ops (sent_packets mtu (jpp_rtp (js_payloader s)) [f]) (js_socket s)"
      "jpp_rtp (js_payloader s1) = (rtp_next ^^ length (sent_packets mtu (jpp_rtp (js_payloader s)) [f])) (jpp_rtp (js_payloader s))"
      "tx_frames (js_stats s1) = tx_frames (js_stats s) + length (sent_scans (jpp_rtp (js_payloader s)) [f])"
      "tx_packets (js_stats s1) = tx_packets (js_stats s) + length (sent_packets mtu (jpp_rtp (js_payloader s)) [f])"
      "tx_bytes (js_stats s1) = tx_bytes (js_stats s) + sum_list (map length (sent_packets mtu (jpp_rtp (js_payloader s)) [f]))"
      "tx_dropped (js_stats s1) = tx_dropped (js_stats s)"
    unfolding f by blast
  have np: "r \<noteq> Inl Panic" using s1(4) JpegScan_parse_no_panic [of jpeg] by (cases "JpegScan_parse jpeg") (auto simp: no_panic_def)
  from Cons.IH [OF s1(2,3) Cons.prems(3)] Cons.prems(4) obtain rs s2 where
    "RtpJpegSender_run ops since fs s1 = Some (rs, s2)" "Inl Panic \<notin> set rs"
    "js_socket s2 = send_all ops (sent_packets mtu (jpp_rtp (js_payloader s1)) fs) (js_socket s1)"
    "tx_frames (js_stats s2) = tx_frames (js_stats s1) + length (sent_scans (jpp_rtp (js_payloader s1)) fs)"
    "tx_packets (js_stats s2) = tx_packets (js_stats s1) + length (sent_packets mtu (jpp_rtp (js_payloader s1)) fs)"
    "tx_bytes (js_stats s2) = tx_bytes (js_stats s1) + sum_list (map length (sent_packets mtu (jpp_rtp (js_payloader s1)) fs))"
    "tx_dropped (js_stats s2) = tx_dropped (js_stats s1)"
    by auto
  with s1 np show ?case unfolding sent_packets_Cons [of mtu _ f fs] sent_scans_Cons [of _ f fs]
    by (intro exI [of _ "r # rs"] exI [of _ s2]) (simp add: f send_all_def del: sent_packets.simps sent_scans.simps)
qed

lemma RtpJpegSender_bind_ok:
  assumes "RtpJpegSender_bind ops lo dest ssrc mtu = Inr s"
  shows "rtp_sender_ok mtu s" "js_budget s = None" "rt_payload_type (jpp_rtp (js_payloader s)) = PT_JPEG"
    "js_stats s = TxStats_default" "157 \<le> mtu"
  using assms by (auto simp: RtpJpegSender_bind_def JpegPayloader_new_def rtp_sender_ok_def Rtp_new_def PT_JPEG_def
      rtp_HEADER_LEN_def bind_r_eq_Inr_iff split: if_splits)

section \<open>The receiver keeps pictures\<close>

definition keep_picture ::
  "(bytes \<times> u32 \<times> u16 \<times> u16) list \<Rightarrow> bytes \<Rightarrow> u32 \<Rightarrow> u16 \<Rightarrow> u16 \<Rightarrow> (bytes \<times> u32 \<times> u16 \<times> u16) list" where
  "keep_picture v jpeg ts w h = v @ [(jpeg, ts, w, h)]"

definition kept_picture :: "depayload result \<Rightarrow> jpeg_depayloader \<Rightarrow> (bytes \<times> u32 \<times> u16 \<times> u16) list" where
  "kept_picture y d =
     (case y of
        Inr (Frame len ts w h) \<Rightarrow> (case JpegDepayloader_jpeg d of Inr jpeg \<Rightarrow> [(jpeg, ts, w, h)] | Inl _ \<Rightarrow> [])
      | _ \<Rightarrow> [])"

lemma depayloader_ok_jpeg: "depayloader_ok d \<Longrightarrow> \<exists>jpeg. JpegDepayloader_jpeg d = Inr jpeg"
  by (auto simp: JpegDepayloader_jpeg_def depayloader_ok_def subslice_def split: option.splits)

lemma rtp_handle_answer:
  assumes "clock_is_read ops" "depayloader_ok d" "JpegDepayloader_push tg d bs = (y, d1)" "y \<noteq> Inl Panic"
  shows "\<exists>st1. rtp_handle tg ops keep_picture bs c st (d, v) = (Inr (), c, st1, d1, v @ kept_picture y d1) \<and>
    rx_packets st1 = rx_packets st \<and> rx_bytes st1 = rx_bytes st \<and>
    rx_frames st1 = rx_frames st + length (kept_picture y d1) \<and> rx_bad st1 = rx_bad st + bad_answers [y]"
proof (cases y)
  case (Inl e)
  with assms(3,4) show ?thesis by (cases e) (simp_all add: rtp_handle_def kept_picture_def)
next
  case (Inr a)
  obtain ns where e: "us_elapsed ops c = (ns, c)"
    using assms(1) by (metis clock_is_read_def prod.collapse)
  show ?thesis
  proof (cases a)
    case (Frame len ts w h)
    have "depayloader_ok d1" using JpegDepayloader_push_safe(1) [OF assms(2), of tg bs] assms(3) by simp
    then obtain jpeg where "JpegDepayloader_jpeg d1 = Inr jpeg" using depayloader_ok_jpeg by blast
    then show ?thesis using Inr Frame assms(3)
      by (simp add: rtp_handle_def RxStats_frame_at_def e Let_def keep_picture_def kept_picture_def)
  qed (simp_all add: rtp_handle_def assms(3) Inr kept_picture_def)
qed

interpretation rtp_receiver: receiver ops "rtp_handle tg ops keep_picture" "JpegDepayloader_push tg" depayloader_ok kept_picture
  for tg ops
  by unfold_locales (simp add: JpegDepayloader_push_safe, blast intro: rtp_handle_answer)

abbreviation kept_pictures :: "target \<Rightarrow> jpeg_depayloader \<Rightarrow> bytes list \<Rightarrow> (bytes \<times> u32 \<times> u16 \<times> u16) list" where
  "kept_pictures tg \<equiv> feed_kept (JpegDepayloader_push tg) kept_picture"

lemma receive_rtp_jpeg_script:
  assumes "clock_is_read ops" "us_set_timeout ops c = (True, c1)" "delivers ops T xs c1" "RecvFailed \<notin> set xs"
    and "JpegDepayloader_new buf = Inr d" "JpegDepayloader_feed tg d (datagrams_of xs) = (ys, d1)" "Inl Panic \<notin> set ys"
  shows "\<exists>st c2. receive_rtp_jpeg tg ops keep_picture buf \<lparr>ut_frames = 0, ut_for_at_most = T\<rparr> c v =
      Some (Inr st, c2, v @ kept_pictures tg d (datagrams_of xs)) \<and>
    rx_packets st = length (datagrams_of xs) \<and> rx_bytes st = sum_list (map length (datagrams_of xs)) \<and>
    rx_frames st = length (kept_pictures tg d (datagrams_of xs)) \<and> rx_bad st = bad_answers ys \<and>
    rx_lost st = unat (dp_lost d1) \<and> rx_dropped st = unat (dp_dropped d1)"
proof -
  have ok: "depayloader_ok d" by (rule depayloader_ok_new [OF assms(5)])
  have n: "\<not> length buf < HEADER_RESERVE + 2" using assms(5) by (auto simp: JpegDepayloader_new_def)
  from rtp_receiver.receive_loop_script [OF assms(1,3,4) ok assms(6,7), of RxStats_default v]
  obtain c2 st1 where "receive_loop ops \<lparr>ut_frames = 0, ut_for_at_most = T\<rparr> (rtp_handle tg ops keep_picture) c1
        RxStats_default (d, v) = Some (Inr (), c2, st1, d1, v @ kept_pictures tg d (datagrams_of xs))"
    and "rx_packets st1 = length (datagrams_of xs)" "rx_bytes st1 = sum_list (map length (datagrams_of xs))"
      "rx_frames st1 = length (kept_pictures tg d (datagrams_of xs))" "rx_bad st1 = bad_answers ys"
    by (auto simp: RxStats_default_def)
  then show ?thesis using n by (simp add: receive_rtp_jpeg_def assms(2,5))
qed

section \<open>In order\<close>

lemma JpegDepayloader_feed_sent:
  assumes "157 \<le> mtu" "rt_payload_type r = PT_JPEG" "\<forall>f \<in> set fs. picture_fits (length (dp_buf d)) (fst f)"
    and "\<not> dp_in_frame d" "dp_last_seq d = None \<or> dp_last_seq d = Some (rt_seq r - 1)"
    and "counters_room tg (length fs) 1 0 d"
  shows "\<exists>ys d1. JpegDepayloader_feed tg d (sent_packets mtu r fs) = (ys, d1) \<and> bad_answers ys = 0 \<and> Inl Panic \<notin> set ys \<and>
    dp_lost d1 = dp_lost d \<and> dp_dropped d1 = dp_dropped d \<and>
    kept_pictures tg d (sent_packets mtu r fs) = map picture_of (sent_scans r fs)"
  using assms(2-6)
proof (induction fs arbitrary: r d)
  case Nil
  then show ?case by simp
next
  case (Cons f fs)
  obtain jpeg t where f: "f = (jpeg, t)" by fastforce
  show ?case
  proof (cases "JpegScan_parse jpeg")
    case (Inl e)
    then show ?thesis using Cons counters_room_mono [OF Cons.prems(5), of "length fs" 1 0] by (simp add: f)
  next
    case (Inr info)
    let ?ts = "Rtp_timestamp r t" and ?ps = "frame_packets mtu r info t"
    have g: "\<exists>gap. JpegDepayloader_gap tg d (rt_seq r) = Inr (gap, dp_lost d)"
      using Cons.prems(4) JpegDepayloader_gap_next [of d "rt_seq r" tg] by (auto simp: JpegDepayloader_gap_def)
    then obtain gap where g: "JpegDepayloader_gap tg d (rt_seq r) = Inr (gap, dp_lost d)" by blast
    have room: "counters_room tg 1 1 0 d" using counters_room_mono [OF Cons.prems(5), of 1 1 0] by simp
    have "(?ts, info) \<in> set (sent_scans r (f # fs))" by (simp add: f Inr)
    note fit = sent_scans_fit [OF Cons.prems(2) this, unfolded snd_conv]
    have w: "js_scan info \<noteq> []" "length (js_scan info) < 2 ^ 24" "HEADER_RESERVE + length (js_scan info) + 2 \<le> length (dp_buf d)"
      using fit(3) by (simp_all add: scan_fits_def)
    from JpegDepayloader_feed_frame [OF fit(1,2) assms(1) w(2,1) Cons.prems(1) w(3) g room, of ?ts] obtain d1 where
      d1: "JpegDepayloader_feed tg d ?ps = (replicate (length ?ps - 1) (Inr Fragment) @
          [Inr (Frame (length (rebuilt_jpeg info)) ?ts (js_width info) (js_height info))], d1)"
        "JpegDepayloader_jpeg d1 = Inr (rebuilt_jpeg info)" "dp_dropped d1 = dp_dropped d"
        "dp_lost d1 = dp_lost d" "dp_frames d1 = dp_frames d + 1" "\<not> dp_in_frame d1" "length (dp_buf d1) = length (dp_buf d)"
        "dp_last_seq d1 = Some (rt_seq ((rtp_next ^^ length ?ps) r) - 1)"
      using Cons.prems(3) by (auto simp: frame_packets_def)
    have room1: "counters_room tg (length fs) 1 0 d1"
      using Cons.prems(5) u32_add_room(2) [of tg "dp_frames d" "length fs" 1] d1(3-5) by (simp add: counters_room_def)
    have kept: "kept_pictures tg d ?ps = [picture_of (?ts, info)]"
      using feed_kept_last [OF _ d1(1), of kept_picture] d1(2) by (simp add: kept_picture_def picture_of_def)
    have "rt_payload_type ((rtp_next ^^ length ?ps) r) = PT_JPEG"
      "\<forall>f \<in> set fs. picture_fits (length (dp_buf d1)) (fst f)"
      using Cons.prems(1,2) d1(7) by simp_all
    from Cons.IH [OF this d1(6) disjI2 [OF d1(8)] room1] obtain ys d2 where
      "JpegDepayloader_feed tg d1 (sent_packets mtu ((rtp_next ^^ length ?ps) r) fs) = (ys, d2)" "bad_answers ys = 0"
      "Inl Panic \<notin> set ys"
      "dp_lost d2 = dp_lost d" "dp_dropped d2 = dp_dropped d"
      "kept_pictures tg d1 (sent_packets mtu ((rtp_next ^^ length ?ps) r) fs) = map picture_of (sent_scans r fs)"
      using d1(3,4) by auto
    then show ?thesis by (simp add: f Inr feed_append feed_kept_append d1(1) kept)
  qed
qed

section \<open>Out of order\<close>

text \<open>A packet of a frame, wherever it lies in it.\<close>

definition packet_of :: "u32 \<times> jpeg_scan \<Rightarrow> bytes \<Rightarrow> bool" where
  "packet_of x pkt \<longleftrightarrow>
     (\<exists>r m off c. pkt = rtp_header_bytes r m (fst x) @ jpeg_head_bytes (snd x) off @ c \<and>
        rt_payload_type r = PT_JPEG \<and> off < length (js_scan (snd x)) \<and>
        c = take (length c) (drop off (js_scan (snd x))) \<and> off + length c \<le> length (js_scan (snd x)) \<and>
        (m \<longrightarrow> off + length c = length (js_scan (snd x))))"

lemma rtp_packets_of:
  assumes "jpeg_tables_full info" "157 \<le> mtu" "rt_payload_type r = PT_JPEG"
    and "rest = drop off (js_scan info)" "off \<le> length (js_scan info)"
    and "pkt \<in> set (rtp_packets ts r (mark_last True (jpeg_payloads info mtu off rest)))"
  shows "packet_of (ts, info) pkt"
  using assms
proof (induction info mtu off rest arbitrary: r rule: jpeg_payloads.induct)
  case (1 info mtu off rest)
  let ?hb = "jpeg_head_bytes info off"
  define n where n: "n = mtu - (12 + length ?hb)"
  have npos: "0 < n" using jpeg_head_fits [OF "1.prems"(1,2), of off] by (simp add: n)
  let ?ps = "jpeg_payloads info mtu (off + n) (drop n rest)"
  have ne: "rest \<noteq> []"
  proof
    assume "rest = []"
    then show False using "1.prems"(6) by (simp add: jpeg_payloads.simps Let_def)
  qed
  have step: "jpeg_payloads info mtu off rest = (?hb @ take n rest) # ?ps"
    using ne npos by (subst jpeg_payloads.simps) (simp add: Let_def n)
  have last: "?ps = [] \<longleftrightarrow> length rest \<le> n"
    using jpeg_payloads_last [OF "1.prems"(1,2) _ n, of rest "js_scan info"] "1.prems"(4,5) by simp
  have len: "length rest = length (js_scan info) - off" "off < length (js_scan info)"
    using "1.prems"(4) ne by auto
  from "1.prems"(6) consider "pkt = rtp_header_bytes r (?ps = []) ts @ ?hb @ take n rest"
    | "pkt \<in> set (rtp_packets ts (rtp_next r) (mark_last True ?ps))"
    by (auto simp: step mark_last_Cons)
  then show ?case
  proof cases
    case 1
    then show ?thesis unfolding packet_of_def fst_conv snd_conv using len "1.prems"(3,4) last
      by (intro exI [of _ r] exI [of _ "?ps = []"] exI [of _ off] exI [of _ "take n rest"]) (auto simp: min_def)
  next
    case 2
    show ?thesis
    proof (cases "length rest \<le> n")
      case True
      then show ?thesis using 2 last by simp
    next
      case False
      have "rt_payload_type (rtp_next r) = PT_JPEG" using "1.prems"(3) by (simp add: rtp_next_def)
      moreover have "drop n rest = drop (off + n) (js_scan info)" using "1.prems"(4) by (simp add: add.commute)
      moreover have "off + n \<le> length (js_scan info)" using False len by simp
      moreover have "\<not> (rest = [] \<or> n = 0)" using ne npos by simp
      ultimately show ?thesis using "1.IH" [OF n _ "1.prems"(1,2)] 2 by blast
    qed
  qed
qed

lemma sent_packets_of:
  assumes "157 \<le> mtu" "rt_payload_type r = PT_JPEG" "\<forall>f \<in> set fs. picture_fits n (fst f)" "pkt \<in> set (sent_packets mtu r fs)"
  shows "\<exists>x \<in> set (sent_scans r fs). packet_of x pkt"
  using assms(2-4)
proof (induction fs arbitrary: r)
  case (Cons f fs)
  obtain jpeg t where f: "f = (jpeg, t)" by fastforce
  show ?case
  proof (cases "JpegScan_parse jpeg")
    case (Inl e)
    then show ?thesis using Cons by (simp add: f)
  next
    case (Inr info)
    let ?ts = "Rtp_timestamp r t" and ?ps = "frame_packets mtu r info t"
    have x: "(?ts, info) \<in> set (sent_scans r (f # fs))" by (simp add: f Inr)
    have tf: "jpeg_tables_full info" using sent_scans_fit(2) [OF Cons.prems(2) x] by simp
    from Cons.prems(3) consider "pkt \<in> set ?ps" | "pkt \<in> set (sent_packets mtu ((rtp_next ^^ length ?ps) r) fs)"
      by (auto simp: f Inr)
    then show ?thesis
    proof cases
      case 1
      then have "packet_of (?ts, info) pkt"
        unfolding frame_packets_def by (intro rtp_packets_of [OF tf assms(1) Cons.prems(1) _ le0]) simp
      with x show ?thesis by blast
    next
      case 2
      have "rt_payload_type ((rtp_next ^^ length ?ps) r) = PT_JPEG" "\<forall>f \<in> set fs. picture_fits n (fst f)"
        using Cons.prems(1,2) by simp_all
      from Cons.IH [OF this 2] show ?thesis by (auto simp: f Inr)
    qed
  qed
qed simp

text \<open>What the depayloader holds is a beginning of one of the scans sent.\<close>

definition assembling :: "(u32 \<times> jpeg_scan) set \<Rightarrow> jpeg_depayloader \<Rightarrow> bool" where
  "assembling S d \<longleftrightarrow> (dp_in_frame d \<longrightarrow> (\<exists>x \<in> S. \<exists>k. frame_state d (fst x) (snd x) k))"

lemma assembling_data:
  assumes x: "x \<in> S" and so: "jpeg_scan_ok (snd x)" and tf: "jpeg_tables_full (snd x)"
    and fs: "frame_state d (fst x) (snd x) k" and p: "p \<le> length payload" "drop p payload = c"
    and c: "c = take (length c) (drop k (js_scan (snd x)))" "k + length c \<le> length (js_scan (snd x))"
    and m: "m \<Longrightarrow> k + length c = length (js_scan (snd x))" and room: "counters_room tg 1 0 0 d"
  shows "\<exists>a d1. JpegDepayloader_data tg d m payload p = (Inr a, d1) \<and> assembling S d1 \<and>
    set (kept_picture (Inr a) d1) \<subseteq> {picture_of x}"
proof (rule JpegDepayloader_data_ok [OF fs p c, of m tg], goal_cases more finish)
  case (more d1)
  then have "assembling S d1" using x by (auto simp: assembling_def)
  with more show ?thesis by (simp add: kept_picture_def)
next
  case (finish d1)
  have n0: "0 < js_qtable_count (snd x)" using so by (simp add: jpeg_scan_ok_def)
  have "counters_room tg 1 0 0 d1" using finish room by (simp add: counters_room_def)
  from JpegDepayloader_finish_ok [OF _ tf n0 this, of "fst x"] finish m obtain d2 where
    "JpegDepayloader_finish tg d1 =
      (Inr (Frame (length (rebuilt_jpeg (snd x))) (fst x) (js_width (snd x)) (js_height (snd x))), d2)"
    "JpegDepayloader_jpeg d2 = Inr (rebuilt_jpeg (snd x))" "\<not> dp_in_frame d2" by auto
  with finish show ?thesis by (simp add: assembling_def kept_picture_def picture_of_def)
qed

lemma assembling_push:
  assumes fits: "\<forall>x \<in> S. jpeg_scan_ok (snd x) \<and> jpeg_tables_full (snd x) \<and> scan_fits (length (dp_buf d)) (snd x)"
    and one: "\<forall>x \<in> S. \<forall>y \<in> S. fst x = fst y \<longrightarrow> x = y"
    and "assembling S d" "x \<in> S" "packet_of x pkt" "counters_room tg 1 2 (0 + gap_room d) d"
  shows "\<exists>a d1. JpegDepayloader_push tg d pkt = (Inr a, d1) \<and> assembling S d1 \<and>
    set (kept_picture (Inr a) d1) \<subseteq> picture_of ` S"
proof -
  obtain ts info where xi: "x = (ts, info)" by fastforce
  obtain r m off c where pkt: "pkt = rtp_header_bytes r m ts @ jpeg_head_bytes info off @ c" "rt_payload_type r = PT_JPEG"
    and off: "off < length (js_scan info)" "c = take (length c) (drop off (js_scan info))"
      "off + length c \<le> length (js_scan info)" "m \<longrightarrow> off + length c = length (js_scan info)"
    using assms(5) unfolding packet_of_def xi fst_conv snd_conv by blast
  have so: "jpeg_scan_ok info" and tf: "jpeg_tables_full info" and fit: "scan_fits (length (dp_buf d)) info"
    using fits assms(4) xi by auto
  have "off < 2 ^ 24" using off(1) fit by (simp add: scan_fits_def)
  from JpegDepayloader_gap_room [OF assms(6)] obtain gap lost where
    g: "JpegDepayloader_gap tg d (rt_seq r) = Inr (gap, lost)" and rl: "counters_room tg 1 2 0 (d\<lparr>dp_lost := lost\<rparr>)" by blast
  note push = JpegDepayloader_push_head [OF so pkt(2) \<open>off < 2 ^ 24\<close> g, of m ts c, folded pkt(1), unfolded Let_def]
  define d0 where "d0 = d\<lparr>dp_jpeg := None, dp_lost := lost, dp_last_seq := Some (rt_seq r)\<rparr>"
  note push = push [folded d0_def]
  have room: "counters_room tg 1 2 0 d0" using rl by (simp add: d0_def counters_room_def)
  have d0: "dp_buf d0 = dp_buf d" "dp_in_frame d0 = dp_in_frame d" "frame_state d0 u i k \<longleftrightarrow> frame_state d u i k" for u i k
    by (simp_all add: d0_def frame_state_def)
  let ?p = "if js_restart_interval info = None then 8 else 12 :: nat"
  have data: "\<exists>a d2. JpegDepayloader_data tg d1 m (jpeg_head_bytes info off @ c) p = (Inr a, d2) \<and> assembling S d2 \<and>
      set (kept_picture (Inr a) d2) \<subseteq> picture_of ` S"
    if "frame_state d1 ts info off" "p = length (jpeg_head_bytes info off)" "counters_room tg 1 0 0 d1" for d1 p
    using assembling_data [OF assms(4), of d1 off p "jpeg_head_bytes info off @ c" c m tg] so tf that off assms(4)
    by (auto simp: xi)
  consider (first) "off = 0" | (idle) "off \<noteq> 0" "\<not> dp_in_frame d"
    | (stray) "off \<noteq> 0" "dp_in_frame d" "gap \<noteq> 0 \<or> off \<noteq> dp_scan_len d0 \<or> ts \<noteq> dp_timestamp d0"
    | (more) "off \<noteq> 0" "dp_in_frame d" "gap = 0" "off = dp_scan_len d0" "ts = dp_timestamp d0"
    by blast
  then show ?thesis
  proof cases
    case first
    have "HEADER_RESERVE + length (js_scan info) + 2 \<le> length (dp_buf d0)" using fit by (simp add: scan_fits_def d0(1))
    from JpegDepayloader_start_ok [OF so tf this counters_room_mono [OF room, of 0 1 0], of ts c] obtain d1 where
      "JpegDepayloader_start tg d0 ts (js_width info) (js_height info) (js_type info) 255 (js_restart_interval info)
        (jpeg_head_bytes info off @ c) ?p = (Inr (length (jpeg_head_bytes info off)), d1)" "frame_state d1 ts info off"
      "dp_frames d1 = dp_frames d0" "dp_lost d1 = dp_lost d0" "dp_dropped d1 = dp_dropped d0 + (if dp_in_frame d0 \<and> 0 < dp_scan_len d0 then 1 else 0)"
      unfolding first by auto
    moreover from this(3-5) have "counters_room tg 1 0 0 d1"
      using room by (auto simp: counters_room_def unat_u32_bound [simplified])
    ultimately show ?thesis unfolding push using data [of d1] first by simp
  next
    case idle
    then show ?thesis by (simp add: push d0(2) assembling_def kept_picture_def)
  next
    case stray
    have "JpegDepayloader_abandon tg d0 (Inr Dropped) = (Inr Dropped, d0\<lparr>dp_in_frame := False, dp_dropped := dp_dropped d0 + 1\<rparr>)"
      using room by (auto simp: JpegDepayloader_abandon_def u32_add_def counters_room_def)
    then show ?thesis using stray by (simp add: push d0(2) assembling_def kept_picture_def)
  next
    case more
    from assms(3) more(2) obtain y k where y: "y \<in> S" "frame_state d0 (fst y) (snd y) k"
      by (auto simp: assembling_def d0(3))
    then have "dp_timestamp d0 = fst y" "dp_scan_len d0 = k" by (simp_all add: frame_state_def)
    then have "y = x" "k = off" using one y(1) assms(4) more(4,5) by (auto simp: xi)
    then have "frame_state d0 ts info off" using y(2) by (simp add: xi)
    moreover have "?p = length (jpeg_head_bytes info off)" using length_jpeg_head_bytes [OF tf, of off] more(1) by simp
    ultimately show ?thesis unfolding push using data [of d0 ?p] more d0(2) counters_room_mono [OF room, of 1 0 0] by simp
  qed
qed

lemma assembling_feed:
  assumes "\<forall>x \<in> S. jpeg_scan_ok (snd x) \<and> jpeg_tables_full (snd x) \<and> scan_fits (length (dp_buf d)) (snd x)"
    and "\<forall>x \<in> S. \<forall>y \<in> S. fst x = fst y \<longrightarrow> x = y"
    and "depayloader_ok d" "assembling S d" "\<forall>pkt \<in> set pkts. \<exists>x \<in> S. packet_of x pkt" "room_left tg (length pkts) d"
  shows "bad_answers (fst (JpegDepayloader_feed tg d pkts)) = 0 \<and> set (kept_pictures tg d pkts) \<subseteq> picture_of ` S"
  using assms(1,3-6)
proof (induction pkts arbitrary: d)
  case (Cons pkt pkts)
  from Cons.prems(4) obtain x where x: "x \<in> S" "packet_of x pkt" by auto
  have "counters_room tg 1 2 (0 + gap_room d) d"
    using Cons.prems(5) counters_room_mono [of tg _ _ _ d 1 2 "0 + gap_room d"] by (simp add: room_left_def gap_room_def)
  from assembling_push [OF Cons.prems(1) assms(2) Cons.prems(3) x this] obtain a d1 where
    p: "JpegDepayloader_push tg d pkt = (Inr a, d1)" "assembling S d1" "set (kept_picture (Inr a) d1) \<subseteq> picture_of ` S" by blast
  have "length (dp_buf d1) = length (dp_buf d)" "depayloader_ok d1"
    using JpegDepayloader_push_safe(1,2) [OF Cons.prems(2), of tg pkt] p(1) by simp_all
  moreover have "room_left tg (length pkts) d1"
    using JpegDepayloader_push_room(2) [OF Cons.prems(2), of tg "length pkts" pkt] Cons.prems(5) p(1) by simp
  ultimately show ?case using Cons.IH [of d1] Cons.prems p by (cases "JpegDepayloader_feed tg d1 pkts") simp
qed simp

section \<open>From sender to receiver\<close>

lemma rebuilt_pictures_parse:
  assumes "\<forall>f \<in> set fs. picture_fits n (fst f)"
  shows "map (\<lambda>p. JpegScan_parse (fst p)) (map picture_of (sent_scans r fs)) =
    filter (\<lambda>x. case x of Inr _ \<Rightarrow> True | Inl _ \<Rightarrow> False) (map (\<lambda>f. JpegScan_parse (fst f)) fs)"
  using assms
proof (induction fs)
  case (Cons f fs)
  obtain jpeg t where f: "f = (jpeg, t)" by fastforce
  show ?case
  proof (cases "JpegScan_parse jpeg")
    case (Inr info)
    then have "(Rtp_timestamp r t, info) \<in> set (sent_scans r (f # fs))" by (simp add: f)
    from sent_scans_fit(4) [OF Cons.prems this] Cons Inr show ?thesis by (simp add: f picture_of_def)
  qed (use Cons in \<open>simp add: f\<close>)
qed simp

text \<open>C4: JPEG over RTP over a network, sender to receiver. Frames sent one after the other by a fresh sender
  without a budget, through a socket that takes them, are cut into packets, all counted; what is no JPEG
  is refused and counted nowhere. When the packets arrive in order, with timeouts in between, the receiver
  hands its client one picture per JPEG, in order, with its timestamp and dimensions, which parses back to
  the scan of the original: the same tables and entropy-coded data. Both ends count the same packets,
  bytes and frames; nothing is lost, dropped or bad, and the receiver ends at its deadline. Where a build
  checks overflow the frames are fewer than the receiver's \<open>u32\<close> counter of them holds.\<close>

theorem rtp_jpeg_end_to_end:
  assumes "RtpJpegSender_bind ops lo dest ssrc mtu = Inr s" and "takes_all ops"
    and "HEADER_RESERVE + 2 \<le> length buf" and "\<forall>f \<in> set fs. picture_fits (length buf) (fst f)"
    and "clock_is_read rops" and "us_set_timeout rops c = (True, c1)" and "delivers rops T xs c1"
    and "RecvFailed \<notin> set xs" and "datagrams_of xs = sent_packets mtu (jpp_rtp (js_payloader s)) fs"
    and "overflow_checks tg \<longrightarrow> length fs < 2 ^ 32"
  shows "\<exists>rs s1 st c2 v. RtpJpegSender_run ops since fs s = Some (rs, s1) \<and> Inl Panic \<notin> set rs \<and>
    js_socket s1 = send_all ops (datagrams_of xs) (js_socket s) \<and>
    receive_rtp_jpeg tg rops keep_picture buf \<lparr>ut_frames = 0, ut_for_at_most = T\<rparr> c [] = Some (Inr st, c2, v) \<and>
    v = map picture_of (sent_scans (jpp_rtp (js_payloader s)) fs) \<and>
    map (\<lambda>p. JpegScan_parse (fst p)) v =
      filter (\<lambda>x. case x of Inr _ \<Rightarrow> True | Inl _ \<Rightarrow> False) (map (\<lambda>f. JpegScan_parse (fst f)) fs) \<and>
    rx_packets st = tx_packets (js_stats s1) \<and> rx_bytes st = tx_bytes (js_stats s1) \<and>
    rx_frames st = length v \<and> tx_frames (js_stats s1) = length v \<and>
    rx_lost st = 0 \<and> rx_dropped st = 0 \<and> rx_bad st = 0"
proof -
  note b = RtpJpegSender_bind_ok [OF assms(1)]
  let ?r = "jpp_rtp (js_payloader s)"
  from RtpJpegSender_run_sends [OF b(1,2) assms(2,4), of since] obtain rs s1 where
    s1: "RtpJpegSender_run ops since fs s = Some (rs, s1)" "Inl Panic \<notin> set rs"
      "js_socket s1 = send_all ops (datagrams_of xs) (js_socket s)"
      "tx_frames (js_stats s1) = length (sent_scans ?r fs)"
      "tx_packets (js_stats s1) = length (datagrams_of xs)"
      "tx_bytes (js_stats s1) = sum_list (map length (datagrams_of xs))"
    unfolding assms(9) b(4) by (auto simp: TxStats_default_def)
  obtain d where d: "JpegDepayloader_new buf = Inr d" and d0: "dp_buf d = buf" "\<not> dp_in_frame d" "dp_last_seq d = None"
      "dp_lost d = 0" "dp_dropped d = 0" "counters_room tg (length fs) 1 0 d"
    using assms(3,10) by (simp add: JpegDepayloader_new_def counters_room_def)
  have "\<forall>f \<in> set fs. picture_fits (length (dp_buf d)) (fst f)" using assms(4) d0(1) by simp
  from JpegDepayloader_feed_sent [OF b(5,3) this d0(2) disjI1 [OF d0(3)] d0(6)] obtain ys d1 where
    f: "JpegDepayloader_feed tg d (datagrams_of xs) = (ys, d1)" "bad_answers ys = 0" "Inl Panic \<notin> set ys" "dp_lost d1 = 0" "dp_dropped d1 = 0"
      "kept_pictures tg d (datagrams_of xs) = map picture_of (sent_scans ?r fs)"
    unfolding assms(9) d0(4,5) by blast
  from receive_rtp_jpeg_script [OF assms(5-8) d f(1,3), of "[]"] f(2-6) s1
    rebuilt_pictures_parse [OF assms(4), of ?r]
  show ?thesis by auto
qed

text \<open>Two JPEGs, and something else between them.\<close>

definition example_frames :: "(bytes \<times> micros) list" where
  "example_frames = [(rebuilt_jpeg plain_scan, 5), ([1, 2], 6), (rebuilt_jpeg plain_scan, 40000)]"

definition example_rtp :: rtp where
  "example_rtp = Rtp_new 1 PT_JPEG VIDEO_CLOCK_HZ 1"

lemma plain_scan_parse: "JpegScan_parse (rebuilt_jpeg plain_scan) = Inr plain_scan"
proof -
  have "jpeg_scan_ok plain_scan" "js_qtables plain_scan ! 0 \<noteq> []"
    by (auto simp: plain_scan_def jpeg_scan_ok_def jpeg_tables_ok_two jpeg_dims_ok_def intro: exI [of _ 1])
  then show ?thesis by (rule JpegScan_parse_rebuilt)
qed

lemma example_frames_fit:
  "\<forall>f \<in> set example_frames. picture_fits (length (replicate 2048 0 :: bytes)) (fst f)"
  "sent_scans example_rtp example_frames = [(0, plain_scan), (3600, plain_scan)]"
  "map (\<lambda>f. JpegScan_parse (fst f)) example_frames = [Inr plain_scan, Inl (Err InvalidFormat), Inr plain_scan]"
proof -
  have p: "JpegScan_parse [1, 2] = Inl (Err InvalidFormat)" by (simp add: JpegScan_parse_def)
  show "\<forall>f \<in> set example_frames. picture_fits (length (replicate 2048 0 :: bytes)) (fst f)"
    by (simp add: example_frames_def picture_fits_def plain_scan_parse p scan_fits_def)
      (simp add: plain_scan_def HEADER_RESERVE_def)
  show "sent_scans example_rtp example_frames = [(0, plain_scan), (3600, plain_scan)]"
    by (simp add: example_frames_def plain_scan_parse p Rtp_timestamp_def example_rtp_def Rtp_new_def VIDEO_CLOCK_HZ_def)
  show "map (\<lambda>f. JpegScan_parse (fst f)) example_frames = [Inr plain_scan, Inl (Err InvalidFormat), Inr plain_scan]"
    by (simp add: example_frames_def plain_scan_parse p)
qed

lemma example_packets_count: "length (sent_packets 200 example_rtp example_frames) = 2"
proof -
  have ok: "jpeg_scan_ok plain_scan" "js_qtables plain_scan ! 0 \<noteq> []"
    by (auto simp: plain_scan_def jpeg_scan_ok_def jpeg_tables_ok_two jpeg_dims_ok_def intro: exI [of _ 1])
  note tf = jpeg_tables_from_parse(1) [OF ok]
  have i: "length (js_scan plain_scan) = 3" "js_qtable_count plain_scan = 1" "rtp_overhead plain_scan = 20" "js_scan plain_scan \<noteq> []"
    by (simp_all add: plain_scan_def rtp_overhead_def)
  have "jpeg_packet_count 200 plain_scan = 1" using jpeg_wire_bytes(1) [OF tf _ i(4), of 200] by (simp add: i div_ceil_def)
  then have "length (frame_packets 200 r plain_scan t) = 1" for r t by (simp add: frame_packets_def jpeg_packet_count_def)
  moreover have "JpegScan_parse [1, 2] = Inl (Err InvalidFormat)" by (simp add: JpegScan_parse_def)
  ultimately show ?thesis by (simp add: example_frames_def plain_scan_parse)
qed

theorem rtp_jpeg_end_to_end_witness:
  "\<exists>s rs s1 st c2 v xs. RtpJpegSender_bind list_ops () () 1 200 = Inr s \<and>
    RtpJpegSender_run list_ops (\<lambda>b a. b - a) example_frames s = Some (rs, s1) \<and>
    receive_rtp_jpeg (host_target True) script_ops keep_picture (replicate 2048 0) \<lparr>ut_frames = 0, ut_for_at_most = 10\<rparr> xs [] = Some (Inr st, c2, v) \<and>
    map (\<lambda>p. JpegScan_parse (fst p)) v = [Inr plain_scan, Inr plain_scan] \<and>
    rx_frames st = 2 \<and> rx_lost st = 0 \<and> rx_dropped st = 0 \<and> rx_bad st = 0"
proof -
  obtain s where s: "RtpJpegSender_bind list_ops () () 1 200 = Inr s" "jpp_rtp (js_payloader s) = example_rtp"
    by (simp add: RtpJpegSender_bind_def open_socket_def list_ops_def JpegPayloader_new_def rtp_HEADER_LEN_def ok_or_def
        example_rtp_def PT_JPEG_def)
  define xs where "xs = TimedOut # map Datagram (sent_packets 200 (jpp_rtp (js_payloader s)) example_frames)"
  have o: "takes_all list_ops" "clock_is_read script_ops" "us_set_timeout script_ops xs = (True, xs)"
    by (simp_all add: takes_all_def list_ops_def clock_is_read_def script_ops_def)
  have x: "RecvFailed \<notin> set xs" "datagrams_of xs = sent_packets 200 (jpp_rtp (js_payloader s)) example_frames"
    by (auto simp: xs_def datagrams_of_map)
  have room: "HEADER_RESERVE + 2 \<le> length (replicate 2048 0 :: bytes)" by (simp add: HEADER_RESERVE_def)
  have few: "overflow_checks (host_target True) \<longrightarrow> length example_frames < 2 ^ 32" by (simp add: example_frames_def)
  from rtp_jpeg_end_to_end [OF s(1) o(1) room example_frames_fit(1) o(2,3) script_ops_delivers x few, of "\<lambda>b a. b - a", unfolded s(2) example_frames_fit(2,3)]
  obtain rs s1 st c2 v where
    "RtpJpegSender_run list_ops (\<lambda>b a. b - a) example_frames s = Some (rs, s1)"
    "receive_rtp_jpeg (host_target True) script_ops keep_picture (replicate 2048 0) \<lparr>ut_frames = 0, ut_for_at_most = 10\<rparr> xs [] = Some (Inr st, c2, v)"
    "map (\<lambda>p. JpegScan_parse (fst p)) v = [Inr plain_scan, Inr plain_scan]"
    "rx_frames st = length v" "length v = 2" "rx_lost st = 0" "rx_dropped st = 0" "rx_bad st = 0"
    by auto
  with s(1) show ?thesis by (intro exI [of _ s] exI [of _ rs] exI [of _ s1] exI [of _ st] exI [of _ c2] exI [of _ v] exI [of _ xs]) simp
qed

text \<open>C5: Whatever the network does to them, packets of JPEG frames never give a client a picture that was not
  sent. When the frames have distinct RTP timestamps, then for any datagrams taken from those sent, lost,
  repeated and reordered in any way, every picture the receiver hands over has the timestamp of one frame
  and parses back to the scan of that very frame, with its dimensions: no picture mixes two frames, misses
  a part or has one twice. No packet is bad, and every picture is counted. Where a build checks overflow
  at most 131077 datagrams come, as many as surely leave the receiver's \<open>u32\<close> loss counter whole.\<close>

theorem rtp_jpeg_integrity:
  assumes "157 \<le> mtu" and "rt_payload_type r = PT_JPEG"
    and "HEADER_RESERVE + 2 \<le> length buf" and "\<forall>f \<in> set fs. picture_fits (length buf) (fst f)"
    and "distinct (map fst (sent_scans r fs))"
    and "clock_is_read rops" and "us_set_timeout rops c = (True, c1)" and "delivers rops T xs c1"
    and "RecvFailed \<notin> set xs" and "set (datagrams_of xs) \<subseteq> set (sent_packets mtu r fs)"
    and "overflow_checks tg \<longrightarrow> length (datagrams_of xs) \<le> 131077"
  shows "\<exists>st c2 v. receive_rtp_jpeg tg rops keep_picture buf \<lparr>ut_frames = 0, ut_for_at_most = T\<rparr> c [] = Some (Inr st, c2, v) \<and>
    (\<forall>(jpeg, ts, w, h) \<in> set v. \<exists>(sent, t) \<in> set fs. \<exists>info. JpegScan_parse sent = Inr info \<and>
       JpegScan_parse jpeg = Inr info \<and> ts = Rtp_timestamp r t \<and> w = js_width info \<and> h = js_height info) \<and>
    rx_frames st = length v \<and> rx_bad st = 0"
proof -
  let ?S = "set (sent_scans r fs)"
  obtain d where d: "JpegDepayloader_new buf = Inr d" and d0: "dp_buf d = buf" "\<not> dp_in_frame d"
    using assms(3) by (simp add: JpegDepayloader_new_def)
  obtain ys d1 where f: "JpegDepayloader_feed tg d (datagrams_of xs) = (ys, d1)" by fastforce
  have fits: "\<forall>x \<in> ?S. jpeg_scan_ok (snd x) \<and> jpeg_tables_full (snd x) \<and> scan_fits (length (dp_buf d)) (snd x)"
    using sent_scans_fit [OF assms(4)] d0(1) by simp
  have one: "\<forall>x \<in> ?S. \<forall>y \<in> ?S. fst x = fst y \<longrightarrow> x = y"
    using assms(5) by (auto simp: distinct_map inj_on_def)
  have "\<forall>pkt \<in> set (datagrams_of xs). \<exists>x \<in> ?S. packet_of x pkt"
    using sent_packets_of [OF assms(1,2,4)] assms(10) by blast
  moreover have "room_left tg (length (datagrams_of xs)) d"
    using assms(11) room_left_new [OF d] by (cases "overflow_checks tg") (auto simp: room_left_def counters_room_def)
  ultimately have "bad_answers (fst (JpegDepayloader_feed tg d (datagrams_of xs))) = 0 \<and>
      set (kept_pictures tg d (datagrams_of xs)) \<subseteq> picture_of ` ?S"
    using assembling_feed [OF fits one depayloader_ok_new [OF d]] d0(2) by (simp add: assembling_def)
  with f
  have k: "bad_answers ys = 0" "set (kept_pictures tg d (datagrams_of xs)) \<subseteq> picture_of ` ?S"
    by auto
  have np: "Inl Panic \<notin> set ys"
    using JpegDepayloader_feed_fresh [OF d assms(11)] f by (auto simp: no_panic_def)
  have "\<exists>(sent, t) \<in> set fs. \<exists>info. JpegScan_parse sent = Inr info \<and>
      JpegScan_parse (rebuilt_jpeg (snd x)) = Inr info \<and> fst x = Rtp_timestamp r t \<and>
      js_width (snd x) = js_width info \<and> js_height (snd x) = js_height info" if "x \<in> ?S" for x
    using sent_scans_source [OF that] sent_scans_fit(4) [OF assms(4) that] by fastforce
  then have "\<forall>(jpeg, ts, w, h) \<in> set (kept_pictures tg d (datagrams_of xs)). \<exists>(sent, t) \<in> set fs. \<exists>info.
      JpegScan_parse sent = Inr info \<and> JpegScan_parse jpeg = Inr info \<and> ts = Rtp_timestamp r t \<and>
      w = js_width info \<and> h = js_height info"
    using k(2) by (auto simp: picture_of_def)
  with receive_rtp_jpeg_script [OF assms(6-9) d f np, of "[]"] k(1) show ?thesis by auto
qed

theorem rtp_jpeg_integrity_witness:
  "\<exists>st c2 v. receive_rtp_jpeg (host_target True) script_ops keep_picture (replicate 2048 0) \<lparr>ut_frames = 0, ut_for_at_most = 10\<rparr>
      (map Datagram (drop 1 (sent_packets 200 example_rtp example_frames) @ rev (sent_packets 200 example_rtp example_frames))) [] =
      Some (Inr st, c2, v) \<and> (\<forall>(jpeg, ts, w, h) \<in> set v. JpegScan_parse jpeg = Inr plain_scan) \<and>
    rx_frames st = length v \<and> rx_bad st = 0"
proof -
  let ?ps = "sent_packets 200 example_rtp example_frames" and ?buf = "replicate 2048 0 :: bytes"
  let ?xs = "map Datagram (drop 1 ?ps @ rev ?ps)"
  have o: "157 \<le> (200 :: nat)" "rt_payload_type example_rtp = PT_JPEG" "HEADER_RESERVE + 2 \<le> length ?buf"
    by (simp_all add: example_rtp_def Rtp_new_def PT_JPEG_def HEADER_RESERVE_def)
  have d: "distinct (map fst (sent_scans example_rtp example_frames))" by (simp add: example_frames_fit(2))
  have r: "clock_is_read script_ops" "us_set_timeout script_ops ?xs = (True, ?xs)" "RecvFailed \<notin> set ?xs"
    by (auto simp: clock_is_read_def script_ops_def)
  have x: "set (datagrams_of ?xs) \<subseteq> set ?ps"
    unfolding datagrams_of_map by (auto dest: in_set_dropD)
  have i: "info = plain_scan" if "f \<in> set example_frames" "JpegScan_parse (fst f) = Inr info" for f info
  proof -
    have "JpegScan_parse (fst f) \<in> set (map (\<lambda>f. JpegScan_parse (fst f)) example_frames)"
      unfolding set_map using that(1) by (rule imageI)
    then show ?thesis unfolding example_frames_fit(3) that(2) by simp
  qed
  have l: "length (datagrams_of ?xs) \<le> 131077" unfolding datagrams_of_map by (simp add: example_packets_count)
  from rtp_jpeg_integrity [OF o example_frames_fit(1) d r(1,2) script_ops_delivers r(3) x, of "host_target True"] l obtain st c2 v where
    v: "receive_rtp_jpeg (host_target True) script_ops keep_picture ?buf \<lparr>ut_frames = 0, ut_for_at_most = 10\<rparr> ?xs [] = Some (Inr st, c2, v)"
      "rx_frames st = length v" "rx_bad st = 0"
    and p: "\<forall>(jpeg, ts, w, h) \<in> set v. \<exists>(sent, t) \<in> set example_frames. \<exists>info. JpegScan_parse sent = Inr info \<and>
       JpegScan_parse jpeg = Inr info \<and> ts = Rtp_timestamp example_rtp t \<and> w = js_width info \<and> h = js_height info"
    by blast
  have "JpegScan_parse jpeg = Inr plain_scan" if "(jpeg, ts, w, h) \<in> set v" for jpeg ts w h
  proof -
    from bspec [OF p that, unfolded prod.case] obtain f info where
      "f \<in> set example_frames" "JpegScan_parse (fst f) = Inr info" "JpegScan_parse jpeg = Inr info" by fastforce
    then show ?thesis using i by simp
  qed
  with v show ?thesis by blast
qed

end
