(* ===== verification/HalPage.thy ===== *)
theory HalPage
  imports Net
begin

text \<open>
  The camera page on bare metal: the connection loop of the firmware \<open>xiao-s3-sense-hal-page\<close>. It reads
  a request incrementally, answers from a fixed buffer, and streams the camera to one viewer. The
  socket, the camera and the pool of frame slots belong to other crates and are parameters; the
  protocol is the one of \<open>Http\<close> and \<open>MjpegHttp\<close>.
\<close>

definition RESPONSE_BYTES :: nat where
  "RESPONSE_BYTES = 1024"

definition SLOT_BYTES :: nat where
  "SLOT_BYTES = 32 * 1024"

definition POOL_SLOTS :: nat where
  "POOL_SLOTS = 2"

definition PART_BYTES :: nat where
  "PART_BYTES = SLOT_BYTES + 256"

section \<open>The request head\<close>

text \<open>\<open>head\<close> is the filled part of the buffer, \<open>seen\<close> how much of it was searched.\<close>

function page_read :: "'c net_ops \<Rightarrow> bytes \<Rightarrow> nat \<Rightarrow> 'c \<Rightarrow> bool result \<times> bytes \<times> 'c" where
  "page_read ops head seen c =
     (case head_complete_from head seen of
        Inl e \<Rightarrow> (Inl e, head, c)
      | Inr True \<Rightarrow> (Inr True, head, c)
      | Inr False \<Rightarrow>
          (let seen = length head in
           if length head \<ge> MAX_REQUEST_BYTES then (Inr False, head, c)
           else
             (case op_read ops c (MAX_REQUEST_BYTES - length head) of
                (None, c1) \<Rightarrow> (Inr False, head, c1)
              | (Some bs, c1) \<Rightarrow>
                  if bs = [] then (Inr False, head, c1)
                  else page_read ops (head @ take (MAX_REQUEST_BYTES - length head) bs) seen c1)))"
  by pat_completeness auto
termination
  by (relation "measure (\<lambda>(ops, head, seen, c). MAX_REQUEST_BYTES - length head)")
    (auto simp: neq_Nil_conv)

declare page_read.simps [simp del]

definition page_request_of :: "bool result \<times> bytes \<times> 'c \<Rightarrow> request option result \<times> 'c" where
  "page_request_of read =
     (case read of
        (Inl e, _, c) \<Rightarrow> (Inl e, c)
      | (Inr complete, head, c) \<Rightarrow> (if complete then parse_request head None else Inr None, c))"

section \<open>The answers that are no stream\<close>

text \<open>\<open>let _ = http::write_...(&mut sink, ...)\<close>: the outcome of the write is dropped.\<close>

definition page_answer :: "bytes \<Rightarrow> request option \<Rightarrow> bytes \<times> slice_sink" where
  "page_answer response request =
     (let sink = SliceSink_new response in
      case request of
        Some (Get path _) \<Rightarrow>
          (case path of
             Index \<Rightarrow> (ascii ''index'', snd (write_index SliceSink_write None sink))
           | Stream \<Rightarrow> (ascii ''no-camera'', snd (write_status SliceSink_write NoCamera sink))
           | _ \<Rightarrow> (ascii ''not-found'', snd (write_status SliceSink_write NotFound sink)))
      | Some _ \<Rightarrow> (ascii ''method'', snd (write_status SliceSink_write MethodNotAllowed sink))
      | None \<Rightarrow> (ascii ''bad-request'', snd (write_status SliceSink_write BadRequest sink)))"

section \<open>The stream\<close>

text \<open>What \<open>cam.grab\<close> yields: a frame with one plane, a frame of another layout, or an error. The pool
  hands out a slot or none, lends it, and takes it back or refuses.\<close>

datatype grabbed = Packed bytes u64 | OtherPlanes | GrabError

record 'd camera =
  cam_ready :: "'d \<Rightarrow> bool \<times> 'd"
  cam_grab :: "'d \<Rightarrow> grabbed \<times> 'd"

record 'q pool =
  po_acquire :: "'q \<Rightarrow> nat option \<times> 'q"
  po_slot :: "'q \<Rightarrow> nat \<Rightarrow> bool"
  po_release :: "'q \<Rightarrow> nat \<Rightarrow> bool \<times> 'q"

text \<open>The variables of \<open>main\<close> that the loop keeps.\<close>

record ('d, 'q, 'c) page =
  pg_cam :: 'd
  pg_pool :: 'q
  pg_socket :: 'c
  pg_response :: bytes
  pg_part :: bytes
  pg_frames :: nat
  pg_bytes :: nat
  pg_errors :: nat

definition pool_release :: "'q pool \<Rightarrow> nat \<Rightarrow> (('d, 'q, 'c) page, unit) op" where
  "pool_release po slot s =
     (case po_release po (pg_pool s) slot of
        (True, q) \<Rightarrow> (Inr (), s\<lparr>pg_pool := q\<rparr>)
      | (False, q) \<Rightarrow> (Inl Panic, s\<lparr>pg_pool := q\<rparr>))"

text \<open>The arm \<open>Ok(frame)\<close>: one part, formatted in full and sent as one write. The value is \<open>ok\<close>.\<close>

definition page_send :: "'c net_ops \<Rightarrow> bytes \<Rightarrow> u64 \<Rightarrow> (('d, 'q, 'c) page, bool) op" where
  "page_send ops data ts s =
     (let (pushed, mp) = Multipart_push SliceSink_write
            \<lparr>mp_codec = Jpeg, mp_key = True, mp_timestamp = ts, mp_data = data\<rparr>
            (Multipart_new (SliceSink_new (pg_part s)));
          sink = mt_sink mp;
          s = s\<lparr>pg_part := ss_buf sink\<rparr> in
      case pushed of
        Inl Panic \<Rightarrow> (Inl Panic, s)
      | Inl _ \<Rightarrow> (Inr False, s)
      | Inr _ \<Rightarrow>
          (case op_write_all ops (pg_socket s) (SliceSink_written sink) of
             (False, c) \<Rightarrow> (Inr False, s\<lparr>pg_socket := c\<rparr>)
           | (True, c) \<Rightarrow>
               (Inr True,
                s\<lparr>pg_socket := c, pg_frames := pg_frames s + 1, pg_bytes := pg_bytes s + SliceSink_len sink\<rparr>)))"

text \<open>One turn once a frame is ready; the value says whether the loop goes on.\<close>

definition page_turn :: "'d camera \<Rightarrow> 'q pool \<Rightarrow> 'c net_ops \<Rightarrow> (('d, 'q, 'c) page, bool) op" where
  "page_turn cam po ops s =
     (case po_acquire po (pg_pool s) of
        (None, q) \<Rightarrow> (Inl Panic, s\<lparr>pg_pool := q\<rparr>)
      | (Some slot, q) \<Rightarrow>
          if \<not> po_slot po q slot then (Inl Panic, s\<lparr>pg_pool := q\<rparr>)
          else
            (let (frame, d) = cam_grab cam (pg_cam s);
                 s = s\<lparr>pg_pool := q, pg_cam := d\<rparr> in
             case (case frame of
                     Packed data ts \<Rightarrow> map_prod (map_sum id (\<lambda>ok. Some (Some ok))) id (page_send ops data ts s)
                   | OtherPlanes \<Rightarrow> (Inr None, s)
                   | GrabError \<Rightarrow> (Inr (Some None), s\<lparr>pg_errors := pg_errors s + 1\<rparr>)) of
               (Inl e, s) \<Rightarrow> (Inl e, s)
             | (Inr sent, s) \<Rightarrow>
                 (case pool_release po slot s of
                    (Inl e, s) \<Rightarrow> (Inl e, s)
                  | (Inr _, s) \<Rightarrow>
                      (Inr (case sent of None \<Rightarrow> True | Some sent \<Rightarrow> \<not> (sent = Some False \<or> pg_errors s > 100)), s))))"

partial_function (option) page_loop ::
  "'d camera \<Rightarrow> 'q pool \<Rightarrow> 'c net_ops \<Rightarrow> ('d, 'q, 'c) page \<Rightarrow> (unit result \<times> ('d, 'q, 'c) page) option" where
  "page_loop cam po ops s =
     (case cam_ready cam (pg_cam s) of
        (ready, d) \<Rightarrow>
          if \<not> ready then page_loop cam po ops (s\<lparr>pg_cam := d\<rparr>)
          else
            (case page_turn cam po ops (s\<lparr>pg_cam := d\<rparr>) of
               (Inl e, s1) \<Rightarrow> Some (Inl e, s1)
             | (Inr again, s1) \<Rightarrow> if again then page_loop cam po ops s1 else Some (Inr (), s1)))"

definition page_stream ::
  "'d camera \<Rightarrow> 'q pool \<Rightarrow> 'c net_ops \<Rightarrow> ('d, 'q, 'c) page \<Rightarrow> (unit result \<times> ('d, 'q, 'c) page) option" where
  "page_stream cam po ops s0 =
     (let s = s0\<lparr>pg_frames := 0, pg_bytes := 0, pg_errors := 0\<rparr>;
          (ok, mp) = Multipart_write_response_head SliceSink_write (Multipart_new (SliceSink_new (pg_part s)));
          sink = mt_sink mp;
          s = s\<lparr>pg_part := ss_buf sink\<rparr> in
      case ok of
        Inl Panic \<Rightarrow> Some (Inl Panic, s)
      | Inl _ \<Rightarrow> Some (Inr (), s)
      | Inr _ \<Rightarrow>
          (case op_write_all ops (pg_socket s) (SliceSink_written sink) of
             (False, c) \<Rightarrow> Some (Inr (), s\<lparr>pg_socket := c\<rparr>)
           | (True, c) \<Rightarrow> page_loop cam po ops (s\<lparr>pg_socket := c\<rparr>)))"

section \<open>One connection\<close>

datatype page_end = PageStreamed | PageServed bytes bool

text \<open>\<open>cam\<close> is \<open>None\<close> when no sensor answered at boot.\<close>

definition page_connection ::
  "'d camera option \<Rightarrow> 'q pool \<Rightarrow> 'c net_ops \<Rightarrow> ('d, 'q, 'c) page \<Rightarrow> (page_end result \<times> ('d, 'q, 'c) page) option" where
  "page_connection cam po ops s =
     (case page_request_of (page_read ops [] 0 (pg_socket s)) of
        (Inl e, c) \<Rightarrow> Some (Inl e, s\<lparr>pg_socket := c\<rparr>)
      | (Inr request, c) \<Rightarrow>
          (case (request, cam) of
             (Some (Get Stream _), Some cam) \<Rightarrow>
               map_option (map_prod (map_sum id (\<lambda>_. PageStreamed)) id) (page_stream cam po ops (s\<lparr>pg_socket := c\<rparr>))
           | _ \<Rightarrow>
               (let (what, sink) = page_answer (pg_response s) request;
                    (written, c) = op_write_all ops c (SliceSink_written sink) in
                Some (Inr (PageServed what written), s\<lparr>pg_socket := c, pg_response := ss_buf sink\<rparr>))))"

section \<open>What fits in a slice\<close>

lemma write_seq_SliceSink:
  assumes "ss_len s + length (concat bs) \<le> length (ss_buf s)"
  shows "\<exists>s'. write_seq SliceSink_write bs s = (Inr (), s') \<and> length (ss_buf s') = length (ss_buf s) \<and>
    ss_len s' = ss_len s + length (concat bs) \<and> SliceSink_written s' = SliceSink_written s @ concat bs"
  using assms
proof (induction bs arbitrary: s)
  case (Cons b bs)
  obtain s1 where s1: "SliceSink_write s b = (Inr (), s1)" "length (ss_buf s1) = length (ss_buf s)"
    "ss_len s1 = ss_len s + length b" "SliceSink_written s1 = SliceSink_written s @ b"
    using SliceSink_write_ok [of s b] Cons.prems by auto
  with Cons.IH [of s1] Cons.prems show ?case by auto
qed simp

lemma SliceSink_new_facts [simp]:
  "ss_len (SliceSink_new buf) = 0" "ss_buf (SliceSink_new buf) = buf" "SliceSink_written (SliceSink_new buf) = []"
  by (simp_all add: SliceSink_new_def SliceSink_written_def)

lemma write_numbered_SliceSink:
  assumes "length (snd (write_numbered Vec_write vs f [])) \<le> length buf"
  shows "\<exists>s'. write_numbered SliceSink_write vs f (SliceSink_new buf) = (Inr (), s') \<and> length (ss_buf s') = length buf \<and>
    SliceSink_written s' = snd (write_numbered Vec_write vs f [])"
proof -
  have "\<exists>ns. foldr (\<lambda>v r. bind_r (number v) (\<lambda>n. bind_r r (\<lambda>ns. Inr (n # ns)))) vs (Inr []) = Inr ns"
    by (induction vs) auto
  then obtain ns where "foldr (\<lambda>v r. bind_r (number v) (\<lambda>n. bind_r r (\<lambda>ns. Inr (n # ns)))) vs (Inr []) = Inr ns" ..
  then show ?thesis using assms write_seq_SliceSink [of "SliceSink_new buf" "f ns"]
    by (auto simp: write_numbered_def)
qed

section \<open>The request is read as by the stream server\<close>

lemma page_read_eq:
  assumes "find_sub (take seen head) (CRLF @ CRLF) = None"
  shows "page_request_of (page_read ops head seen c) = read_request ops None head c"
  using assms
proof (induction "MAX_REQUEST_BYTES - length head" arbitrary: head seen c rule: less_induct)
  case less
  note un = page_read.simps [of ops head seen c] read_request.simps [of ops None head c]
  have hc: "head_complete_from head seen = head_complete head" by (rule head_complete_from_eq [OF less.prems])
  show ?case
  proof (cases "find_sub head (CRLF @ CRLF)")
    case (Some i)
    then show ?thesis by (simp add: un hc head_complete_eq page_request_of_def parse_request_eq)
  next
    case None
    then have no: "head_complete head = Inr False" by (simp add: head_complete_eq)
    show ?thesis
    proof (cases "length head \<ge> MAX_REQUEST_BYTES")
      case True
      then show ?thesis by (simp add: un hc no page_request_of_def)
    next
      case False
      let ?n = "MAX_REQUEST_BYTES - length head"
      obtain r c1 where r: "op_read ops c ?n = (r, c1)" by (cases "op_read ops c ?n")
      have "page_request_of (page_read ops (head @ take ?n bs) (length head) c1) = read_request ops None (head @ take ?n bs) c1"
        if "bs \<noteq> []" for bs
        by (rule less.hyps) (use that False None in \<open>auto simp: neq_Nil_conv\<close>)
      then show ?thesis using False by (auto simp: un hc no r page_request_of_def split: option.split)
    qed
  qed
qed

section \<open>The answers are those of the stream server\<close>

text \<open>What the page answers, over the table of the server without a token or a status: a stream
  without a camera is 503, and \<open>GET /update\<close> is 404 here and 405 there.\<close>

definition page_response :: "request option \<Rightarrow> bytes" where
  "page_response request =
     (if \<exists>a. request = Some (Get Update a) then snd (write_status Vec_write NotFound [])
      else
        (case respond MjpegHttpServer_bind request of
           None \<Rightarrow> snd (write_status Vec_write NoCamera [])
         | Some (_, out) \<Rightarrow> out))"

lemma parse_text_admitted: "parse_text text None = Some (Get path admitted) \<Longrightarrow> admitted"
  by (auto simp: parse_text_def Let_def split: if_splits list.splits option.splits)

lemma request_of_admitted: "request_of None bs = Some (Get path admitted) \<Longrightarrow> admitted"
  by (auto simp: request_of_def dest: parse_text_admitted split: option.splits)

lemma responses_fit:
  "length (snd (write_status Vec_write st [])) \<le> RESPONSE_BYTES"
  "length (snd (write_index Vec_write None [])) \<le> RESPONSE_BYTES"
proof -
  show "length (snd (write_status Vec_write st [])) \<le> RESPONSE_BYTES" by (cases st; simp only:; code_simp)
  show "length (snd (write_index Vec_write None [])) \<le> RESPONSE_BYTES" by code_simp
qed

lemma write_SliceSink:
  assumes "length buf = RESPONSE_BYTES"
  shows "\<exists>s'. write_status SliceSink_write st (SliceSink_new buf) = (Inr (), s') \<and> length (ss_buf s') = RESPONSE_BYTES \<and>
      SliceSink_written s' = snd (write_status Vec_write st [])"
    and "\<exists>s'. write_index SliceSink_write None (SliceSink_new buf) = (Inr (), s') \<and> length (ss_buf s') = RESPONSE_BYTES \<and>
      SliceSink_written s' = snd (write_index Vec_write None [])"
proof -
  show "\<exists>s'. write_status SliceSink_write st (SliceSink_new buf) = (Inr (), s') \<and> length (ss_buf s') = RESPONSE_BYTES \<and>
      SliceSink_written s' = snd (write_status Vec_write st [])"
    using responses_fit(1) [of st] unfolding write_status_def prod.case_eq_if Let_def assms [symmetric]
    by (rule write_numbered_SliceSink)
  show "\<exists>s'. write_index SliceSink_write None (SliceSink_new buf) = (Inr (), s') \<and> length (ss_buf s') = RESPONSE_BYTES \<and>
      SliceSink_written s' = snd (write_index Vec_write None [])"
    using responses_fit(2) unfolding write_index_def assms [symmetric]
    by (rule write_numbered_SliceSink)
qed

lemma page_answer_sends:
  assumes "length buf = RESPONSE_BYTES" "\<forall>path admitted. request = Some (Get path admitted) \<longrightarrow> admitted"
  shows "\<exists>what sink. page_answer buf request = (what, sink) \<and> SliceSink_written sink = page_response request \<and>
    length (ss_buf sink) = RESPONSE_BYTES"
proof -
  note w = write_SliceSink [OF assms(1)]
  have status: "\<exists>s'. (what, snd (write_status SliceSink_write st (SliceSink_new buf))) = (what, s') \<and>
      SliceSink_written s' = snd (write_status Vec_write st []) \<and> length (ss_buf s') = RESPONSE_BYTES" for st and what :: bytes
    using w(1) [of st] by auto
  have index: "\<exists>s'. (what, snd (write_index SliceSink_write None (SliceSink_new buf))) = (what, s') \<and>
      SliceSink_written s' = snd (write_index Vec_write None []) \<and> length (ss_buf s') = RESPONSE_BYTES" for what :: bytes
    using w(2) by auto
  show ?thesis
  proof (cases request)
    case None
    then show ?thesis using status by (simp add: page_answer_def page_response_def)
  next
    case (Some r)
    show ?thesis
    proof (cases r)
      case (Get path admitted)
      with Some assms(2) have "admitted" by blast
      then show ?thesis using Some Get status index
        by (cases path) (auto simp: page_answer_def page_response_def MjpegHttpServer_bind_def)
    qed (use Some status in \<open>auto simp: page_answer_def page_response_def\<close>)
  qed
qed

lemma op_write_all_wire: "op_write_all wire_ops c bs = (True, c\<lparr>wi_out := wi_out c @ bs\<rparr>)"
  by (simp add: wire_ops_def wire_write_all_def)

text \<open>C13: The page on bare metal answers as the stream server does. From whatever pieces the bytes of a
  request arrive in, it reads the same request; a stream is begun only when there is a camera; every
  other request gets the bytes of the server's table, in one write that always fits the fixed buffer
  and carries nothing of an earlier answer, except that \<open>GET /update\<close> is 404 instead of 405 and
  that a stream without a camera is 503.\<close>

theorem page_answers_as_server:
  assumes "\<forall>c \<in> set cs. c \<noteq> []" "pg_socket s = \<lparr>wi_in = cs, wi_out = []\<rparr>" "length (pg_response s) = RESPONSE_BYTES"
  shows "\<exists>rest what buf. length buf = RESPONSE_BYTES \<and>
    page_connection cam po wire_ops s =
      (case (request_of None (concat cs), cam) of
         (Some (Get Stream _), Some cam) \<Rightarrow>
           map_option (map_prod (map_sum id (\<lambda>_. PageStreamed)) id)
             (page_stream cam po wire_ops (s\<lparr>pg_socket := \<lparr>wi_in = rest, wi_out = []\<rparr>\<rparr>))
       | (request, _) \<Rightarrow>
           Some (Inr (PageServed what True),
             s\<lparr>pg_socket := \<lparr>wi_in = rest, wi_out = page_response request\<rparr>, pg_response := buf\<rparr>))"
proof -
  let ?r = "request_of None (concat cs)"
  obtain rest where rest: "page_request_of (page_read wire_ops [] 0 (pg_socket s)) = (Inr ?r, \<lparr>wi_in = rest, wi_out = []\<rparr>)"
    using page_read_eq [of 0 "[]" wire_ops "pg_socket s"] read_request_from_start [OF assms(1), of None "[]"]
    by (auto simp: assms(2) find_sub_eq_None_iff CRLF_facts)
  obtain what sink where a: "page_answer (pg_response s) ?r = (what, sink)"
    "SliceSink_written sink = page_response ?r" "length (ss_buf sink) = RESPONSE_BYTES"
    using page_answer_sends [OF assms(3), of ?r] request_of_admitted by blast
  show ?thesis
    by (rule exI [of _ rest], rule exI [of _ what], rule exI [of _ "ss_buf sink"])
      (use a in \<open>auto simp: page_connection_def rest op_write_all_wire
        split: option.split request.split path.split\<close>)
qed

text \<open>A pool of two slots, each free or taken.\<close>

definition two_slots :: "(bool \<times> bool) pool" where
  "two_slots =
     \<lparr>po_acquire = (\<lambda>(a, b). if a then (Some 0, (False, b)) else if b then (Some 1, (a, False)) else (None, (a, b))),
      po_slot = (\<lambda>_ slot. slot < POOL_SLOTS),
      po_release = (\<lambda>(a, b) slot. if slot = 0 then (\<not> a, (True, b)) else (\<not> b, (a, True)))\<rparr>"

theorem page_answers_as_server_witness:
  "\<exists>rest what buf. page_connection (None :: unit camera option) two_slots wire_ops
      \<lparr>pg_cam = (), pg_pool = (True, True), pg_socket = \<lparr>wi_in = [ascii ''GET /upd'', ascii ''ate HTTP/1.1'' @ CRLF, CRLF], wi_out = []\<rparr>,
        pg_response = replicate RESPONSE_BYTES 0, pg_part = [], pg_frames = 0, pg_bytes = 0, pg_errors = 0\<rparr> =
    Some (Inr (PageServed what True),
      \<lparr>pg_cam = (), pg_pool = (True, True), pg_socket = \<lparr>wi_in = rest, wi_out = snd (write_status Vec_write NotFound [])\<rparr>,
        pg_response = buf, pg_part = [], pg_frames = 0, pg_bytes = 0, pg_errors = 0\<rparr>)"
proof -
  let ?cs = "[ascii ''GET /upd'', ascii ''ate HTTP/1.1'' @ CRLF, CRLF]"
  have "\<forall>c \<in> set ?cs. c \<noteq> []" by (simp add: ascii_def CRLF_def)
  moreover have "request_of None (concat ?cs) = Some (Get Update True)" by code_simp
  ultimately show ?thesis
    using page_answers_as_server [of ?cs "\<lparr>pg_cam = (), pg_pool = (True, True), pg_socket = \<lparr>wi_in = ?cs, wi_out = []\<rparr>,
        pg_response = replicate RESPONSE_BYTES 0, pg_part = [], pg_frames = 0, pg_bytes = 0, pg_errors = 0\<rparr>" None two_slots]
    by (auto simp: page_response_def)
qed

text \<open>The one path the two servers answer differently.\<close>

lemma page_update_differs:
  "page_response (Some (Get Update True)) = snd (write_status Vec_write NotFound [])"
  "respond MjpegHttpServer_bind (Some (Get Update True)) = Some (ServedMethodNotAllowed, snd (write_status Vec_write MethodNotAllowed []))"
  by (auto simp: page_response_def)

section \<open>What a viewer of the stream receives\<close>

text \<open>What the loop relies on of the pool: while it holds no slot, the pool has one to lend, and takes
  it back.\<close>

definition pool_ok :: "'q pool \<Rightarrow> ('q \<Rightarrow> bool) \<Rightarrow> bool" where
  "pool_ok po free \<longleftrightarrow>
     (\<forall>q. free q \<longrightarrow> (\<exists>slot q1 q2. po_acquire po q = (Some slot, q1) \<and> po_slot po q1 slot \<and>
        po_release po q1 slot = (True, q2) \<and> free q2))"

text \<open>A camera by its script: how often it is not ready, then what the grab yields. A viewer by the
  bytes it still takes; a write that exceeds them delivers what fits and fails.\<close>

type_synonym script = "(nat \<times> grabbed) list"

definition script_camera :: "script camera" where
  "script_camera =
     \<lparr>cam_ready = (\<lambda>gs. case gs of
          (Suc n, g) # gs \<Rightarrow> (False, (n, g) # gs)
        | (0, g) # gs \<Rightarrow> (True, (0, g) # gs)
        | [] \<Rightarrow> (False, [])),
      cam_grab = (\<lambda>gs. case gs of (_, g) # gs \<Rightarrow> (g, gs) | [] \<Rightarrow> (GrabError, []))\<rparr>"

record viewer =
  vw_room :: nat
  vw_got :: bytes

definition viewer_ops :: "viewer net_ops" where
  "viewer_ops =
     \<lparr>op_read = (\<lambda>v n. (Some [], v)),
      op_write_all = (\<lambda>v bs. (length bs \<le> vw_room v,
        \<lparr>vw_room = vw_room v - length bs, vw_got = vw_got v @ take (vw_room v) bs\<rparr>))\<rparr>"

text \<open>The frames a viewer with so much room gets in full, \<open>None\<close> when the loop then waits for ever.\<close>

fun viewed :: "nat \<Rightarrow> nat \<Rightarrow> script \<Rightarrow> (bytes \<times> u64) list option" where
  "viewed room errors [] = None"
| "viewed room errors ((_, OtherPlanes) # gs) = viewed room errors gs"
| "viewed room errors ((_, GrabError) # gs) = (if errors \<ge> 100 then Some [] else viewed room (errors + 1) gs)"
| "viewed room errors ((_, Packed d ts) # gs) =
     (let n = length (part_bytes DEFAULT_BOUNDARY d ts) in
      if d = [] \<or> room < n then Some []
      else map_option (\<lambda>fs. (d, ts) # fs) (viewed (room - n) errors gs))"

text \<open>What it gets after them: the beginning of the part that no longer fits, if that is what ends the loop.\<close>

fun cut_part :: "nat \<Rightarrow> nat \<Rightarrow> script \<Rightarrow> bytes" where
  "cut_part room errors [] = []"
| "cut_part room errors ((_, OtherPlanes) # gs) = cut_part room errors gs"
| "cut_part room errors ((_, GrabError) # gs) = (if errors \<ge> 100 then [] else cut_part room (errors + 1) gs)"
| "cut_part room errors ((_, Packed d ts) # gs) =
     (let b = part_bytes DEFAULT_BOUNDARY d ts in
      if d = [] then [] else if room < length b then take room b else cut_part (room - length b) errors gs)"

abbreviation parts :: "(bytes \<times> u64) list \<Rightarrow> bytes" where
  "parts fs \<equiv> concat (map (\<lambda>(d, ts). part_bytes DEFAULT_BOUNDARY d ts) fs)"

lemma part_fits:
  assumes "length d \<le> SLOT_BYTES"
  shows "length (part_bytes DEFAULT_BOUNDARY d ts) \<le> PART_BYTES"
proof -
  have "length d < 10 ^ 5" using assms by (simp add: SLOT_BYTES_def)
  then have "length (decimal (length d)) \<le> 5" by (rule length_decimal) simp
  moreover have "length (decimal (unat ts)) \<le> 20"
  proof (rule length_decimal)
    have "unat ts < 2 ^ 64" by (rule order.strict_trans2 [OF unsigned_less]) simp
    then show "unat ts < 10 ^ 20" by simp
  qed simp
  ultimately show ?thesis using assms
    by (simp add: part_bytes_def PART_BYTES_def DEFAULT_BOUNDARY_def ascii_def CRLF_def)
qed

lemma Multipart_push_SliceSink:
  assumes "length d \<le> SLOT_BYTES" "d \<noteq> []" "length part = PART_BYTES"
  shows "\<exists>mp. Multipart_push SliceSink_write \<lparr>mp_codec = Jpeg, mp_key = True, mp_timestamp = ts, mp_data = d\<rparr>
        (Multipart_new (SliceSink_new part)) = (Inr (), mp) \<and>
      SliceSink_written (mt_sink mp) = part_bytes DEFAULT_BOUNDARY d ts \<and>
      ss_len (mt_sink mp) = length (part_bytes DEFAULT_BOUNDARY d ts) \<and> length (ss_buf (mt_sink mp)) = PART_BYTES"
proof -
  let ?pkt = "\<lparr>mp_codec = Jpeg, mp_key = True, mp_timestamp = ts, mp_data = d\<rparr>"
  let ?m = "Multipart_new (SliceSink_new part)"
  have m: "mt_sink ?m = SliceSink_new part" "mt_boundary ?m = DEFAULT_BOUNDARY"
    by (simp_all add: Multipart_new_def Multipart_with_boundary_def)
  have "length (mp_data ?pkt) < 2 ^ 64" using assms(1) by (simp add: SLOT_BYTES_def)
  from Multipart_push_writes [OF _ _ this, of ?m SliceSink_write] assms(2) obtain pieces
    where p: "concat pieces = part_bytes DEFAULT_BOUNDARY d ts"
      "Multipart_push SliceSink_write ?pkt ?m =
        (case write_seq SliceSink_write pieces (SliceSink_new part) of
           (Inl e, s) \<Rightarrow> (Inl e, ?m\<lparr>mt_sink := s\<rparr>)
         | (Inr _, s) \<Rightarrow> (Inr (), ?m\<lparr>mt_sink := s, mt_frames := mt_frames ?m + 1\<rparr>))"
    by (auto simp: m)
  have "length (concat pieces) \<le> length part" using part_fits [OF assms(1), of ts] p(1) assms(3) by simp
  with write_seq_SliceSink [of "SliceSink_new part" pieces] obtain s'
    where "write_seq SliceSink_write pieces (SliceSink_new part) = (Inr (), s')" "length (ss_buf s') = PART_BYTES"
      "ss_len s' = length (concat pieces)" "SliceSink_written s' = concat pieces"
    using assms(3) by auto
  then show ?thesis using p by simp
qed

lemma page_send_viewer:
  assumes "length d \<le> SLOT_BYTES" "length (pg_part s) = PART_BYTES"
  shows "\<exists>part. length part = PART_BYTES \<and> page_send viewer_ops d ts s =
    (let b = part_bytes DEFAULT_BOUNDARY d ts; v = pg_socket s;
         v' = \<lparr>vw_room = vw_room v - length b, vw_got = vw_got v @ take (vw_room v) b\<rparr> in
     if d = [] then (Inr False, s\<lparr>pg_part := part\<rparr>)
     else if vw_room v < length b then (Inr False, s\<lparr>pg_part := part, pg_socket := v'\<rparr>)
     else (Inr True, s\<lparr>pg_part := part, pg_socket := v', pg_frames := pg_frames s + 1, pg_bytes := pg_bytes s + length b\<rparr>))"
proof (cases "d = []")
  case True
  then show ?thesis using assms(2)
    by (intro exI [of _ "pg_part s"]) (simp add: page_send_def Multipart_push_def Multipart_new_def Multipart_with_boundary_def)
next
  case False
  from Multipart_push_SliceSink [OF assms(1) False assms(2), of ts] obtain mp where
    "Multipart_push SliceSink_write \<lparr>mp_codec = Jpeg, mp_key = True, mp_timestamp = ts, mp_data = d\<rparr>
        (Multipart_new (SliceSink_new (pg_part s))) = (Inr (), mp)"
    "SliceSink_written (mt_sink mp) = part_bytes DEFAULT_BOUNDARY d ts"
    "ss_len (mt_sink mp) = length (part_bytes DEFAULT_BOUNDARY d ts)" "length (ss_buf (mt_sink mp)) = PART_BYTES" by blast
  then show ?thesis using False
    by (intro exI [of _ "ss_buf (mt_sink mp)"])
      (simp add: page_send_def viewer_ops_def SliceSink_len_def Let_def not_le split: bool.split)
qed

text \<open>What holds between two turns.\<close>

definition page_ready :: "('q \<Rightarrow> bool) \<Rightarrow> (script, 'q, viewer) page \<Rightarrow> bool" where
  "page_ready free s \<longleftrightarrow> free (pg_pool s) \<and> length (pg_part s) = PART_BYTES \<and> pg_errors s \<le> 100"

definition slots_fit :: "script \<Rightarrow> bool" where
  "slots_fit gs \<longleftrightarrow> (\<forall>n d ts. (n, Packed d ts) \<in> set gs \<longrightarrow> length d \<le> SLOT_BYTES)"

lemma slots_fit_Cons [simp]:
  "slots_fit ((n, g) # gs) \<longleftrightarrow> (case g of Packed d ts \<Rightarrow> length d \<le> SLOT_BYTES | _ \<Rightarrow> True) \<and> slots_fit gs"
  by (auto simp: slots_fit_def split: grabbed.split)

text \<open>One turn as the viewer sees it: the pool and the buffer of the part come back in some state.\<close>

definition script_turn ::
  "grabbed \<Rightarrow> script \<Rightarrow> 'q \<Rightarrow> bytes \<Rightarrow> (script, 'q, viewer) page \<Rightarrow> bool result \<times> (script, 'q, viewer) page" where
  "script_turn g gs q part s =
    (let s1 = s\<lparr>pg_pool := q, pg_cam := gs, pg_part := part\<rparr>; v = pg_socket s in
     case g of
       OtherPlanes \<Rightarrow> (Inr True, s1)
     | GrabError \<Rightarrow> (Inr (pg_errors s < 100), s1\<lparr>pg_errors := pg_errors s + 1\<rparr>)
     | Packed d ts \<Rightarrow>
         (let b = part_bytes DEFAULT_BOUNDARY d ts;
              v' = \<lparr>vw_room = vw_room v - length b, vw_got = vw_got v @ take (vw_room v) b\<rparr> in
          if d = [] then (Inr False, s1)
          else if vw_room v < length b then (Inr False, s1\<lparr>pg_socket := v'\<rparr>)
          else (Inr True, s1\<lparr>pg_socket := v', pg_frames := pg_frames s + 1, pg_bytes := pg_bytes s + length b\<rparr>)))"

lemma script_turn_cam [simp]: "script_turn g gs q part (s\<lparr>pg_cam := c\<rparr>) = script_turn g gs q part s"
  by (cases g) (simp_all add: script_turn_def Let_def)

lemma page_turn_viewer:
  assumes "pool_ok po free" "page_ready free s" "pg_cam s = (0, g) # gs" "slots_fit (pg_cam s)"
  shows "\<exists>q part. free q \<and> length part = PART_BYTES \<and> page_turn script_camera po viewer_ops s = script_turn g gs q part s"
proof -
  from assms(1,2) obtain slot q1 q2 where q: "po_acquire po (pg_pool s) = (Some slot, q1)" "po_slot po q1 slot"
    "po_release po q1 slot = (True, q2)" "free q2" unfolding pool_ok_def page_ready_def by blast
  have grab: "cam_grab script_camera (pg_cam s) = (g, gs)" by (simp add: script_camera_def assms(3))
  let ?s = "s\<lparr>pg_pool := q1, pg_cam := gs\<rparr>"
  note facts = page_turn_def q grab pool_release_def script_turn_def
  show ?thesis
  proof (cases g)
    case (Packed d ts)
    then have "length d \<le> SLOT_BYTES" "length (pg_part ?s) = PART_BYTES" "pg_errors s \<le> 100"
      using assms(2-4) by (simp_all add: page_ready_def)
    from page_send_viewer [OF this(1,2), of ts] this(3) q(4) Packed show ?thesis
      by (elim exE conjE, intro exI [of _ q2], rule_tac x = part in exI) (auto simp: facts Let_def)
  next
    case OtherPlanes
    then show ?thesis using assms(2) q(4)
      by (intro exI [of _ q2], rule_tac x = "pg_part s" in exI) (simp add: facts page_ready_def)
  next
    case GrabError
    then show ?thesis using assms(2) q(4)
      by (intro exI [of _ q2], rule_tac x = "pg_part s" in exI) (auto simp: facts page_ready_def)
  qed
qed

lemma page_loop_waits:
  "pg_cam s = (n, g) # gs \<Longrightarrow> page_loop script_camera po ops s = page_loop script_camera po ops (s\<lparr>pg_cam := (0, g) # gs\<rparr>)"
proof (induction n arbitrary: s)
  case (Suc n)
  have "page_loop script_camera po ops s = page_loop script_camera po ops (s\<lparr>pg_cam := (n, g) # gs\<rparr>)"
    by (subst page_loop.simps) (simp add: Suc.prems script_camera_def)
  then show ?case using Suc.IH [of "s\<lparr>pg_cam := (n, g) # gs\<rparr>"] by simp
qed (metis page.surjective page.update_convs(1))

lemma page_loop_starves:
  assumes "pg_cam s = []"
  shows "page_loop script_camera po ops s = None"
proof (cases "page_loop script_camera po ops s")
  case (Some y)
  have "\<not> (cam' = script_camera \<and> pg_cam s = [])" if "page_loop cam' po' ops' s = Some y" for cam' po' ops' s
  proof (rule page_loop.raw_induct [of "\<lambda>cam' po' ops' s y. \<not> (cam' = script_camera \<and> pg_cam s = [])", OF _ that], rule notI, elim conjE)
    fix pl :: "script camera \<Rightarrow> 'a pool \<Rightarrow> 'b net_ops \<Rightarrow> (script, 'a, 'b) page \<Rightarrow> (unit result \<times> (script, 'a, 'b) page) option"
    fix cam' po' ops' s y
    assume ih: "\<And>cam' po' ops' s y. pl cam' po' ops' s = Some y \<Longrightarrow> \<not> (cam' = script_camera \<and> pg_cam s = [])"
      and body: "(case cam_ready cam' (pg_cam s) of
        (ready, d) \<Rightarrow>
          if \<not> ready then pl cam' po' ops' (s\<lparr>pg_cam := d\<rparr>)
          else
            (case page_turn cam' po' ops' (s\<lparr>pg_cam := d\<rparr>) of
               (Inl e, s1) \<Rightarrow> Some (Inl e, s1)
             | (Inr again, s1) \<Rightarrow> if again then pl cam' po' ops' s1 else Some (Inr (), s1))) = Some y"
      and same: "cam' = script_camera" "pg_cam s = []"
    from body same have "pl script_camera po' ops' (s\<lparr>pg_cam := []\<rparr>) = Some y" by (simp add: script_camera_def)
    from ih [OF this] show False by simp
  qed
  from this [OF Some] assms show ?thesis by simp
qed simp

lemma page_loop_turn:
  assumes "pg_cam s = (n, g) # gs"
  shows "page_loop script_camera po ops s =
    (case page_turn script_camera po ops (s\<lparr>pg_cam := (0, g) # gs\<rparr>) of
       (Inl e, s1) \<Rightarrow> Some (Inl e, s1)
     | (Inr again, s1) \<Rightarrow> if again then page_loop script_camera po ops s1 else Some (Inr (), s1))"
  unfolding page_loop_waits [OF assms(1)]
  by (subst page_loop.simps) (simp add: script_camera_def)

text \<open>The loop ended at \<open>s1\<close> having shown \<open>fs\<close>, and \<open>rest\<close> of one more part.\<close>

definition streamed ::
  "('q \<Rightarrow> bool) \<Rightarrow> (script, 'q, viewer) page \<Rightarrow> (bytes \<times> u64) list \<Rightarrow> bytes \<Rightarrow> (script, 'q, viewer) page \<Rightarrow> bool" where
  "streamed free s fs rest s1 \<longleftrightarrow>
     free (pg_pool s1) \<and> pg_frames s1 = pg_frames s + length fs \<and> pg_bytes s1 = pg_bytes s + length (parts fs) \<and>
     vw_got (pg_socket s1) = vw_got (pg_socket s) @ parts fs @ rest"

lemma streamed_more:
  assumes "streamed free s' fs rest s1" "pg_frames s' = pg_frames s + 1"
    "pg_bytes s' = pg_bytes s + length (part_bytes DEFAULT_BOUNDARY d ts)"
    "vw_got (pg_socket s') = vw_got (pg_socket s) @ part_bytes DEFAULT_BOUNDARY d ts"
  shows "streamed free s ((d, ts) # fs) rest s1"
  using assms by (auto simp: streamed_def)

lemma page_loop_viewed:
  assumes "pool_ok po free" "page_ready free s" "slots_fit (pg_cam s)"
  shows "case viewed (vw_room (pg_socket s)) (pg_errors s) (pg_cam s) of
      None \<Rightarrow> page_loop script_camera po viewer_ops s = None
    | Some fs \<Rightarrow> \<exists>s1. page_loop script_camera po viewer_ops s = Some (Inr (), s1) \<and>
        streamed free s fs (cut_part (vw_room (pg_socket s)) (pg_errors s) (pg_cam s)) s1"
  using assms(2,3)
proof (induction "pg_cam s" arbitrary: s)
  case Nil
  then show ?case using page_loop_starves [of s po viewer_ops] by (simp flip: Nil.hyps)
next
  case (Cons a gs)
  obtain n g where a: "a = (n, g)" by (cases a)
  let ?s0 = "s\<lparr>pg_cam := (0, g) # gs\<rparr>"
  have cam: "pg_cam s = (n, g) # gs" using Cons.hyps(2) a by simp
  have "page_ready free ?s0" "pg_cam ?s0 = (0, g) # gs" "slots_fit (pg_cam ?s0)"
    using Cons.prems cam by (simp_all add: page_ready_def)
  from page_turn_viewer [OF assms(1) this] obtain q part where t: "free q" "length part = PART_BYTES"
    "page_turn script_camera po viewer_ops ?s0 = script_turn g gs q part s"
    by auto
  note turn = page_loop_turn [OF cam, of po viewer_ops, unfolded t(3)]
  let ?s1 = "s\<lparr>pg_pool := q, pg_cam := gs, pg_part := part\<rparr>"
  have fit: "slots_fit gs" using Cons.prems(2) cam by simp
  have e: "pg_errors s \<le> 100" using Cons.prems(1) by (simp add: page_ready_def)
  show ?case
  proof (cases g)
    case OtherPlanes
    with t have "page_loop script_camera po viewer_ops s = page_loop script_camera po viewer_ops ?s1" by (simp add: turn script_turn_def Let_def)
    then show ?thesis using Cons.hyps(1) [of ?s1] t(1,2) e fit OtherPlanes
      by (auto simp: cam page_ready_def streamed_def split: option.splits)
  next
    case GrabError
    let ?s2 = "?s1\<lparr>pg_errors := pg_errors s + 1\<rparr>"
    from GrabError t have l: "page_loop script_camera po viewer_ops s =
        (if pg_errors s < 100 then page_loop script_camera po viewer_ops ?s2 else Some (Inr (), ?s2))" by (simp add: turn script_turn_def Let_def)
    show ?thesis
    proof (cases "pg_errors s < 100")
      case True
      then show ?thesis using Cons.hyps(1) [of ?s2] t(1,2) fit GrabError
        by (auto simp: cam l page_ready_def streamed_def split: option.splits)
    next
      case False
      then show ?thesis using t(1) GrabError by (simp add: cam l streamed_def)
    qed
  next
    case (Packed d ts)
    let ?b = "part_bytes DEFAULT_BOUNDARY d ts"
    let ?v = "\<lparr>vw_room = vw_room (pg_socket s) - length ?b, vw_got = vw_got (pg_socket s) @ take (vw_room (pg_socket s)) ?b\<rparr>"
    show ?thesis
    proof (cases "d = [] \<or> vw_room (pg_socket s) < length ?b")
      case True
      then show ?thesis using Packed t by (auto simp: cam turn script_turn_def Let_def streamed_def)
    next
      case False
      let ?s2 = "?s1\<lparr>pg_socket := ?v, pg_frames := pg_frames s + 1, pg_bytes := pg_bytes s + length ?b\<rparr>"
      from False Packed t have l: "page_loop script_camera po viewer_ops s = page_loop script_camera po viewer_ops ?s2"
        by (simp add: turn script_turn_def Let_def)
      from False have more: "streamed free ?s2 fs rest s1 \<Longrightarrow> streamed free s ((d, ts) # fs) rest s1" for fs rest s1
        by (rule_tac streamed_more [of free ?s2]) simp_all
      have "page_ready free ?s2" "slots_fit (pg_cam ?s2)" "gs = pg_cam ?s2" using t(1,2) fit e by (simp_all add: page_ready_def)
      note ih = Cons.hyps(1) [OF this(3,1,2)]
      show ?thesis using ih False Packed more by (auto simp: cam l Let_def split: option.splits)
    qed
  qed
qed

lemma head_SliceSink:
  assumes "length part = PART_BYTES"
  shows "\<exists>mp. Multipart_write_response_head SliceSink_write (Multipart_new (SliceSink_new part)) = (Inr (), mp) \<and>
    SliceSink_written (mt_sink mp) = response_head DEFAULT_BOUNDARY \<and> length (ss_buf (mt_sink mp)) = PART_BYTES"
proof -
  let ?bs = "[ascii ''HTTP/1.1 200 OK'' @ CRLF,
     ascii ''Content-Type: multipart/x-mixed-replace; boundary='',
     DEFAULT_BOUNDARY,
     CRLF @ ascii ''Cache-Control: no-cache, no-store'' @ CRLF,
     ascii ''Pragma: no-cache'' @ CRLF,
     ascii ''Connection: close'' @ CRLF,
     ascii ''Access-Control-Allow-Origin: *'' @ CRLF @ CRLF]"
  have b: "concat ?bs = response_head DEFAULT_BOUNDARY" by (simp add: response_head_def)
  have "length (response_head DEFAULT_BOUNDARY) \<le> 256" by code_simp
  then have "length (concat ?bs) \<le> length part" unfolding b assms by (simp add: PART_BYTES_def)
  with write_seq_SliceSink [of "SliceSink_new part" ?bs] obtain s'
    where "write_seq SliceSink_write ?bs (SliceSink_new part) = (Inr (), s')" "length (ss_buf s') = PART_BYTES"
      "SliceSink_written s' = response_head DEFAULT_BOUNDARY"
    unfolding b assms [symmetric] by auto
  then show ?thesis
    by (simp add: Multipart_write_response_head_def Multipart_new_def Multipart_with_boundary_def del: write_seq.simps)
qed

lemma page_stream_starts:
  assumes "length (pg_part s) = PART_BYTES" "length (response_head DEFAULT_BOUNDARY) \<le> vw_room (pg_socket s)"
  shows "\<exists>part. length part = PART_BYTES \<and> page_stream cam po viewer_ops s =
    page_loop cam po viewer_ops
      (s\<lparr>pg_frames := 0, pg_bytes := 0, pg_errors := 0, pg_part := part,
         pg_socket := \<lparr>vw_room = vw_room (pg_socket s) - length (response_head DEFAULT_BOUNDARY),
           vw_got = vw_got (pg_socket s) @ response_head DEFAULT_BOUNDARY\<rparr>\<rparr>)"
proof -
  from head_SliceSink [OF assms(1)] obtain mp where
    "Multipart_write_response_head SliceSink_write (Multipart_new (SliceSink_new (pg_part s))) = (Inr (), mp)"
    "SliceSink_written (mt_sink mp) = response_head DEFAULT_BOUNDARY" "length (ss_buf (mt_sink mp)) = PART_BYTES" by blast
  then show ?thesis using assms(2)
    by (intro exI [of _ "ss_buf (mt_sink mp)"]) (simp add: page_stream_def viewer_ops_def)
qed

text \<open>C14: The stream on bare metal is what the camera grabs. For any camera script and any viewer, with
  a pool that has a slot when none is held, nothing panics and every frame of a slot fits the part
  buffer: the viewer gets the response head and then exactly the parts of the grabbed frames, in
  order, until one does not fit what it still takes, of which it gets the beginning, a frame is empty, or
  a grab has failed 101 times in all; it gets nothing else, and the loop returns, with the frames and bytes of the whole parts counted and the
  slot back in the pool. When the camera delivers nothing more before that, the loop waits.\<close>

theorem page_stream_is_script:
  assumes "pool_ok po free" "free (pg_pool s)" "length (pg_part s) = PART_BYTES" "slots_fit (pg_cam s)"
    and "length (response_head DEFAULT_BOUNDARY) \<le> vw_room (pg_socket s)"
  shows "case viewed (vw_room (pg_socket s) - length (response_head DEFAULT_BOUNDARY)) 0 (pg_cam s) of
      None \<Rightarrow> page_stream script_camera po viewer_ops s = None
    | Some fs \<Rightarrow> \<exists>s1. page_stream script_camera po viewer_ops s = Some (Inr (), s1) \<and>
        vw_got (pg_socket s1) = vw_got (pg_socket s) @ response_head DEFAULT_BOUNDARY @ parts fs @
          cut_part (vw_room (pg_socket s) - length (response_head DEFAULT_BOUNDARY)) 0 (pg_cam s) \<and>
        pg_frames s1 = length fs \<and> pg_bytes s1 = length (parts fs) \<and> free (pg_pool s1)"
proof -
  let ?h = "response_head DEFAULT_BOUNDARY"
  obtain part where p: "length part = PART_BYTES" "page_stream script_camera po viewer_ops s =
    page_loop script_camera po viewer_ops
      (s\<lparr>pg_frames := 0, pg_bytes := 0, pg_errors := 0, pg_part := part,
         pg_socket := \<lparr>vw_room = vw_room (pg_socket s) - length ?h, vw_got = vw_got (pg_socket s) @ ?h\<rparr>\<rparr>)"
    (is "_ = page_loop _ _ _ ?s") using page_stream_starts [OF assms(3,5)] by blast
  have "page_ready free ?s" "slots_fit (pg_cam ?s)" using assms(2,4) p(1) by (simp_all add: page_ready_def)
  from page_loop_viewed [OF assms(1) this] show ?thesis
    by (auto simp: p(2) streamed_def split: option.splits)
qed

lemma two_slots_ok: "pool_ok two_slots (\<lambda>q. q = (True, True))"
  by (auto simp: pool_ok_def two_slots_def POOL_SLOTS_def)

theorem page_stream_is_script_witness:
  "\<exists>s1. page_stream script_camera two_slots viewer_ops
      \<lparr>pg_cam = [(2, Packed [255, 216, 255, 217] 7), (0, GrabError), (0, OtherPlanes), (1, Packed [255, 216, 1, 255, 217] 9), (0, Packed [] 10)],
        pg_pool = (True, True), pg_socket = \<lparr>vw_room = 1000, vw_got = []\<rparr>, pg_response = [],
        pg_part = replicate PART_BYTES 0, pg_frames = 3, pg_bytes = 5, pg_errors = 8\<rparr> = Some (Inr (), s1) \<and>
    vw_got (pg_socket s1) = response_head DEFAULT_BOUNDARY @ part_bytes DEFAULT_BOUNDARY [255, 216, 255, 217] 7 @
      part_bytes DEFAULT_BOUNDARY [255, 216, 1, 255, 217] 9 \<and> pg_frames s1 = 2 \<and> pg_pool s1 = (True, True)"
proof -
  let ?gs = "[(2, Packed [255, 216, 255, 217] 7), (0, GrabError), (0, OtherPlanes), (1, Packed [255, 216, 1, 255, 217] 9), (0, Packed [] 10)]"
  let ?s = "\<lparr>pg_cam = ?gs, pg_pool = (True, True), pg_socket = \<lparr>vw_room = 1000, vw_got = []\<rparr>, pg_response = [],
        pg_part = replicate PART_BYTES 0, pg_frames = 3, pg_bytes = 5, pg_errors = 8\<rparr>"
  have "length (response_head DEFAULT_BOUNDARY) \<le> 1000" by code_simp
  moreover have "viewed (1000 - length (response_head DEFAULT_BOUNDARY)) 0 ?gs = Some [([255, 216, 255, 217], 7), ([255, 216, 1, 255, 217], 9)]"
    by code_simp
  moreover have "cut_part (1000 - length (response_head DEFAULT_BOUNDARY)) 0 ?gs = []" by code_simp
  moreover have "slots_fit ?gs" by (simp add: slots_fit_def SLOT_BYTES_def)
  ultimately show ?thesis
    using page_stream_is_script [OF two_slots_ok, of ?s] by auto
qed

text \<open>Failed grabs are counted over the whole stream: it ends on the 101st with the viewer still there.\<close>

lemma page_loop_gives_up:
  assumes "pool_ok po free" "page_ready free s" "pg_errors s = 100" "pg_cam s = [(0, GrabError)]"
  shows "\<exists>s1. page_loop script_camera po viewer_ops s = Some (Inr (), s1) \<and> pg_socket s1 = pg_socket s"
proof -
  from page_turn_viewer [OF assms(1,2,4)] assms(4) obtain q part
    where "page_turn script_camera po viewer_ops s = script_turn GrabError [] q part s" by (auto simp: slots_fit_def)
  then show ?thesis using assms(3)
    by (simp add: page_loop_turn [OF assms(4)] script_turn_def flip: assms(4))
qed

end
