(* ===== verification/Device.thy ===== *)
theory Device
  imports Source Net Client
begin

text \<open>
  The parts together: a camera behind the paced source, the stream server over it, and the client at
  the other end of a connection that the viewer closes at any byte.
\<close>

section \<open>The source behind the server\<close>

text \<open>\<open>source.next_packet(scratch)\<close>, with the one scratch buffer of the server loop as part of the state.\<close>

definition device_source ::
  "target \<Rightarrow> frame_api \<Rightarrow> 's grab \<Rightarrow> 'e video_encoder \<Rightarrow> nat \<Rightarrow> (bytes \<times> ('s, 'e) encoded_source) source" where
  "device_source t api grab enc base p =
     map_option (\<lambda>(r, scratch1, es1). (r, (scratch1, es1)))
       (EncodedSource_next_packet t api grab enc base (fst p) (snd p))"

section \<open>A connection the viewer closes\<close>

text \<open>A viewer closes the connection after so many bytes: the write that exceeds them is cut and fails.\<close>

record room_wire = wire +
  wi_room :: nat

definition room_write_all :: "room_wire \<Rightarrow> bytes \<Rightarrow> bool \<times> room_wire" where
  "room_write_all w bs =
     (length bs \<le> wi_room w,
      w\<lparr>wi_out := wi_out w @ take (wi_room w) bs, wi_room := wi_room w - length bs\<rparr>)"

definition room_ops :: "room_wire net_ops" where
  "room_ops = \<lparr>op_read = wire_read, op_write_all = room_write_all\<rparr>"

lemma room_write:
  "TcpSink_write room_ops w bs =
     (if length bs \<le> wi_room w then Inr () else Inl (Err Hardware),
      w\<lparr>wi_out := wi_out w @ take (wi_room w) bs, wi_room := wi_room w - length bs\<rparr>)"
  by (simp add: TcpSink_write_def room_ops_def room_write_all_def)

lemma write_seq_room_ops:
  "write_seq (TcpSink_write room_ops) bs w =
     (if length (concat bs) \<le> wi_room w then Inr () else Inl (Err Hardware),
      w\<lparr>wi_out := wi_out w @ take (wi_room w) (concat bs), wi_room := wi_room w - length (concat bs)\<rparr>)"
proof (induction bs arbitrary: w)
  case (Cons b bs)
  then show ?case by (cases "length b \<le> wi_room w") (auto simp: room_write)
qed simp

lemma Multipart_push_room_ops:
  assumes "snd f \<noteq> []" "length (snd f) < 2 ^ 64"
  shows "Multipart_push (TcpSink_write room_ops) (jpeg_packet f) m =
    (let b = part_bytes (mt_boundary m) (snd f) (fst f); w = mt_sink m;
         w1 = w\<lparr>wi_out := wi_out w @ take (wi_room w) b, wi_room := wi_room w - length b\<rparr> in
     if length b \<le> wi_room w then (Inr (), m\<lparr>mt_sink := w1, mt_frames := mt_frames m + 1\<rparr>)
     else (Inl (Err Hardware), m\<lparr>mt_sink := w1\<rparr>))"
proof -
  have "mp_codec (jpeg_packet f) = Jpeg" "mp_data (jpeg_packet f) \<noteq> []" "length (mp_data (jpeg_packet f)) < 2 ^ 64"
    "mp_data (jpeg_packet f) = snd f" "mp_timestamp (jpeg_packet f) = fst f"
    using assms by (simp_all add: jpeg_packet_def)
  from Multipart_push_writes [OF this(1-3), of m "TcpSink_write room_ops"] this(4,5) show ?thesis
    by (auto simp: write_seq_room_ops Let_def)
qed

section \<open>The stream of a paced camera\<close>

definition frame_part :: "micros \<times> bytes \<Rightarrow> bytes \<times> u64" where
  "frame_part f = (snd f, fst f)"

definition shown :: "(micros \<times> bytes) list \<Rightarrow> bytes" where
  "shown fs = concat (map (\<lambda>f. part_bytes DEFAULT_BOUNDARY (snd f) (fst f)) fs)"

lemma shown_simps [simp]:
  "shown [] = []" "shown (f # fs) = part_bytes DEFAULT_BOUNDARY (snd f) (fst f) @ shown fs"
  "shown (fs @ gs) = shown fs @ shown gs"
  by (simp_all add: shown_def)

text \<open>The viewer has room for \<open>k\<close> frames and not for one more.\<close>

definition room_for :: "nat \<Rightarrow> nat \<Rightarrow> (micros \<times> bytes) list \<Rightarrow> bool" where
  "room_for room k fs \<longleftrightarrow> k < length fs \<and> length (shown (take k fs)) \<le> room \<and> room < length (shown (take (Suc k) fs))"

lemma run_loop_device:
  assumes "captures api grab g base (es_frame_bytes es) fs (es_source es)"
    and "Pacer_run (es_pacer es) (map fst fs) = (oks, p1)"
    and "\<forall>f \<in> set (admitted_frames fs oks). snd f \<noteq> [] \<and> length (snd f) < 2 ^ 64"
    and "es_frame_bytes es < length scratch" "k < count_list oks True"
    and "room_for (wi_room (mt_sink mp)) k (admitted_frames fs oks)" "mt_boundary mp = DEFAULT_BOUNDARY"
  shows "\<exists>mp1 scratch1 es1. run_loop (TcpSink_write room_ops) (device_source t api grab (Passthrough_encoder (fa_coded api)) base)
      mp (scratch, es) stats n =
      Some (Inr (ServedStream (n + k)), mp1, (scratch1, es1), stats\<lparr>ss_frames := ss_frames stats + k\<rparr>) \<and>
    wi_out (mt_sink mp1) = wi_out (mt_sink mp) @ take (wi_room (mt_sink mp)) (shown (take (Suc k) (admitted_frames fs oks))) \<and>
    counts_agree es es1"
  using assms
proof (induction k arbitrary: es fs oks scratch mp stats n)
  case 0
  have "True \<in> set oks" using 0(5) by (metis count_list_0_iff less_numeral_extra(3))
  from EncodedSource_next_packet_captured [OF 0(1,2) this 0(4), of t] obtain f fs1 oks1 scratch1 es1 where
    nx: "EncodedSource_next_packet t api grab (Passthrough_encoder (fa_coded api)) base scratch es =
        Some (Inr (jpeg_packet f), scratch1, es1)"
      "admitted_frames fs oks = f # admitted_frames fs1 oks1" "counts_agree es es1"
    by blast
  then have f: "snd f \<noteq> []" "length (snd f) < 2 ^ 64" using 0(3) by simp_all
  show ?case using 0(6) nx
    by (subst run_loop.simps)
      (auto simp: device_source_def Multipart_push_room_ops [OF f] 0(7) Let_def room_for_def)
next
  case (Suc k)
  have "True \<in> set oks" using Suc.prems(5) by (metis count_list_0_iff not_less_zero)
  from EncodedSource_next_packet_captured [OF Suc.prems(1,2) this Suc.prems(4), of t] obtain f fs1 oks1 scratch1 es1 where
    nx: "EncodedSource_next_packet t api grab (Passthrough_encoder (fa_coded api)) base scratch es =
        Some (Inr (jpeg_packet f), scratch1, es1)" "length scratch1 = length scratch"
      "admitted_frames fs oks = f # admitted_frames fs1 oks1" "count_list oks True = Suc (count_list oks1 True)"
      "captures api grab g base (es_frame_bytes es) fs1 (es_source es1)"
      "Pacer_run (es_pacer es1) (map fst fs1) = (oks1, p1)" "es_frame_bytes es1 = es_frame_bytes es"
      "counts_agree es es1"
    by blast
  then have f: "snd f \<noteq> []" "length (snd f) < 2 ^ 64" using Suc.prems(3) by simp_all
  let ?b = "part_bytes DEFAULT_BOUNDARY (snd f) (fst f)" and ?w = "mt_sink mp"
  let ?mp = "mp\<lparr>mt_sink := ?w\<lparr>wi_out := wi_out ?w @ ?b, wi_room := wi_room ?w - length ?b\<rparr>, mt_frames := mt_frames mp + 1\<rparr>"
  have fits: "length ?b \<le> wi_room ?w" "room_for (wi_room ?w - length ?b) k (admitted_frames fs1 oks1)"
    using Suc.prems(6) by (auto simp: room_for_def nx(3))
  have step: "run_loop (TcpSink_write room_ops) (device_source t api grab (Passthrough_encoder (fa_coded api)) base)
      mp (scratch, es) stats n =
    run_loop (TcpSink_write room_ops) (device_source t api grab (Passthrough_encoder (fa_coded api)) base)
      ?mp (scratch1, es1) (stats\<lparr>ss_frames := ss_frames stats + 1\<rparr>) (n + 1)"
    by (subst run_loop.simps)
      (use fits in \<open>simp add: device_source_def nx(1) Multipart_push_room_ops [OF f] Suc.prems(7) Let_def\<close>)
  have "\<exists>mp1 scratch2 es2. run_loop (TcpSink_write room_ops) (device_source t api grab (Passthrough_encoder (fa_coded api)) base)
      ?mp (scratch1, es1) (stats\<lparr>ss_frames := ss_frames stats + 1\<rparr>) (n + 1) =
      Some (Inr (ServedStream (n + 1 + k)), mp1, (scratch2, es2),
        stats\<lparr>ss_frames := ss_frames stats + 1\<rparr>\<lparr>ss_frames := ss_frames (stats\<lparr>ss_frames := ss_frames stats + 1\<rparr>) + k\<rparr>) \<and>
    wi_out (mt_sink mp1) = wi_out (mt_sink ?mp) @ take (wi_room (mt_sink ?mp)) (shown (take (Suc k) (admitted_frames fs1 oks1))) \<and>
    counts_agree es1 es2"
    by (rule Suc.IH) (use Suc.prems nx fits in simp_all)
  then show ?case using nx(8) fits unfolding step by (auto simp: nx(3) counts_agree_def)
qed


lemma head_room:
  assumes "length (response_head DEFAULT_BOUNDARY) \<le> wi_room c"
  shows "Multipart_write_response_head (TcpSink_write room_ops) (Multipart_new c) =
    (Inr (), \<lparr>mt_sink = c\<lparr>wi_out := wi_out c @ response_head DEFAULT_BOUNDARY,
        wi_room := wi_room c - length (response_head DEFAULT_BOUNDARY)\<rparr>,
      mt_boundary = DEFAULT_BOUNDARY, mt_frames = 0\<rparr>)"
proof -
  let ?bs = "[ascii ''HTTP/1.1 200 OK'' @ CRLF,
     ascii ''Content-Type: multipart/x-mixed-replace; boundary='',
     DEFAULT_BOUNDARY,
     CRLF @ ascii ''Cache-Control: no-cache, no-store'' @ CRLF,
     ascii ''Pragma: no-cache'' @ CRLF,
     ascii ''Connection: close'' @ CRLF,
     ascii ''Access-Control-Allow-Origin: *'' @ CRLF @ CRLF]"
  have b: "concat ?bs = response_head DEFAULT_BOUNDARY" by (simp add: response_head_def)
  have "Multipart_write_response_head (TcpSink_write room_ops) (Multipart_new c) =
      (let (r, s) = write_seq (TcpSink_write room_ops) ?bs c in
       (r, \<lparr>mt_sink = s, mt_boundary = DEFAULT_BOUNDARY, mt_frames = 0\<rparr>))"
    by (simp add: Multipart_write_response_head_def Multipart_new_def Multipart_with_boundary_def del: write_seq.simps
        split: prod.split)
  then show ?thesis using assms unfolding write_seq_room_ops b by simp
qed

lemma StreamConn_run_device:
  assumes "captures api grab g base (es_frame_bytes es) fs (es_source es)"
    and "Pacer_run (es_pacer es) (map fst fs) = (oks, p1)"
    and "\<forall>f \<in> set (admitted_frames fs oks). snd f \<noteq> [] \<and> length (snd f) < 2 ^ 64"
    and "es_frame_bytes es < length scratch" "k < count_list oks True"
    and "wi_room c = length (response_head DEFAULT_BOUNDARY) + room" "room_for room k (admitted_frames fs oks)"
  shows "\<exists>mp1 scratch1 es1. StreamConn_run (TcpSink_write room_ops)
      (device_source t api grab (Passthrough_encoder (fa_coded api)) base) c (scratch, es) stats =
      Some (Inr (ServedStream k), mp1, (scratch1, es1),
        stats\<lparr>ss_streams := ss_streams stats + 1, ss_frames := ss_frames stats + k\<rparr>) \<and>
    wi_out (mt_sink mp1) = wi_out c @ response_head DEFAULT_BOUNDARY @ take room (shown (take (Suc k) (admitted_frames fs oks))) \<and>
    counts_agree es es1"
proof -
  let ?h = "response_head DEFAULT_BOUNDARY"
  let ?mp = "\<lparr>mt_sink = c\<lparr>wi_out := wi_out c @ ?h, wi_room := wi_room c - length ?h\<rparr>, mt_boundary = DEFAULT_BOUNDARY, mt_frames = 0\<rparr>"
  have "length ?h \<le> wi_room c" using assms(6) by simp
  note head = head_room [OF this]
  have "room_for (wi_room (mt_sink ?mp)) k (admitted_frames fs oks)" using assms(6,7) by simp
  from run_loop_device [OF assms(1-5) this, of t "stats\<lparr>ss_streams := ss_streams stats + 1\<rparr>" 0] show ?thesis
    by (auto simp: StreamConn_run_def head assms(6))
qed

lemma accept_one_stream:
  assumes "\<forall>c \<in> set rq. c \<noteq> []" "request_of (server_gate sv) (concat rq) = Some (Get Stream True)"
  shows "\<exists>rest. accept_one room_ops sv (Some \<lparr>wi_in = rq, wi_out = [], wi_room = room\<rparr>) stats =
    (Inr (StreamConn \<lparr>wi_in = rest, wi_out = [], wi_room = room\<rparr>), stats\<lparr>ss_connections := ss_connections stats + 1\<rparr>)"
  using read_request_wire [of "\<lparr>wi_in = rq, wi_out = [], wi_room = room\<rparr>" "[]" room_ops "server_gate sv"] assms
  by (auto simp: accept_one_def Let_def room_ops_def)

section \<open>And the client\<close>

lemma shown_parts: "shown fs = concat (map (\<lambda>(body, ts). part_bytes DEFAULT_BOUNDARY body ts) (map frame_part fs))"
  by (simp add: shown_def frame_part_def comp_def)

lemma client_receives:
  assumes "room_for room k fs" "\<forall>c \<in> set reads. c \<noteq> [] \<and> length c \<le> 4096"
    and "concat reads = response_head DEFAULT_BOUNDARY @ take room (shown (take (Suc k) fs))"
    and "sv_write sv w (pull_request path) = (Inr (), w')" "sv_reads sv = map Some reads"
    and "chunk_room (length buf) DEFAULT_BOUNDARY (map frame_part (take (Suc k) fs))" "length buf < usize_mod tgt"
  shows "\<exists>st. pull_stream tgt (Some sv) w path n buf keep_frame [] =
      (Inr st, w', map (frame_of tgt \<circ> frame_part) (take n (take k fs))) \<and> pl_frames st = min n k"
proof -
  let ?q = "fs ! k" and ?ps = "map frame_part (take k fs)"
  have k: "k < length fs" "length (shown (take k fs)) \<le> room" "room < length (shown (take (Suc k) fs))"
    using assms(1) by (auto simp: room_for_def)
  have t: "take (Suc k) fs = take k fs @ [?q]" by (rule take_Suc_conv_app_nth [OF k(1)])
  let ?j = "room - length (shown (take k fs))" and ?b = "part_bytes DEFAULT_BOUNDARY (snd ?q) (fst ?q)"
  have j: "?j < length ?b" using k(2,3) unfolding t by simp
  have "take room (shown (take (Suc k) fs)) = shown (take k fs) @ take ?j ?b" unfolding t using k(2) by simp
  then have c: "concat reads = stream_from Start DEFAULT_BOUNDARY ?ps @ take ?j ?b"
    using assms(3) by (simp add: stream_from_def shown_parts)
  have room: "chunk_room (length buf) DEFAULT_BOUNDARY (?ps @ [frame_part ?q])" using assms(6) unfolding t by simp
  from pull_loop_stream [OF default_boundary_ok room assms(7,2), of ?j n "[]"] c j k(1) show ?thesis
    by (auto simp: pull_stream_def assms(4,5) take_map frame_part_def comp_def min_def)
qed

text \<open>C1: From the camera to the callback of a client. A client asks for the stream, in whatever pieces its
  request arrives; an admitting server accepts it and runs the paced camera to the connection; the
  viewer closes it at any byte after the head. Then \<open>run\<close> returns, reporting and counting exactly the
  frames the viewer got whole, and, however the bytes sent are cut into reads, the client's callback
  receives exactly those: the captured JPEGs the pacer admitted, in order, byte for byte, with their
  timestamps, up to \<open>max_frames\<close>. It holds from any state of source and pacer, and the source's
  counters account for every frame.\<close>

theorem camera_to_client:
  assumes camera: "captures api grab g base (es_frame_bytes es) fs (es_source es)"
      "Pacer_run (es_pacer es) (map fst fs) = (oks, p1)"
      "\<forall>f \<in> set (admitted_frames fs oks). snd f \<noteq> [] \<and> length (snd f) < 2 ^ 64"
      "es_frame_bytes es < length scratch" "k < count_list oks True"
    and request: "\<forall>c \<in> set rq. c \<noteq> []" "concat rq = pull_request path"
      "request_of (server_gate sv) (pull_request path) = Some (Get Stream True)"
    and viewer: "room_for room k (admitted_frames fs oks)"
    and client: "wr w (pull_request path) = (Inr (), w')"
      "chunk_room (length buf) DEFAULT_BOUNDARY (map frame_part (take (Suc k) (admitted_frames fs oks)))"
      "length buf < usize_mod tgt"
  shows "\<exists>c1 stats1 mp scratch1 es1.
    accept_one room_ops sv
        (Some \<lparr>wi_in = rq, wi_out = [], wi_room = length (response_head DEFAULT_BOUNDARY) + room\<rparr>) stats =
      (Inr (StreamConn c1), stats1) \<and>
    StreamConn_run (TcpSink_write room_ops) (device_source t api grab (Passthrough_encoder (fa_coded api)) base)
        c1 (scratch, es) stats1 =
      Some (Inr (ServedStream k), mp, (scratch1, es1),
        stats1\<lparr>ss_streams := ss_streams stats + 1, ss_frames := ss_frames stats + k\<rparr>) \<and>
    wi_out (mt_sink mp) = response_head DEFAULT_BOUNDARY @ take room (shown (take (Suc k) (admitted_frames fs oks))) \<and>
    counts_agree es es1 \<and>
    (\<forall>reads. (\<forall>c \<in> set reads. c \<noteq> [] \<and> length c \<le> 4096) \<longrightarrow> concat reads = wi_out (mt_sink mp) \<longrightarrow>
      (\<exists>st. pull_stream tgt (Some \<lparr>sv_write = wr, sv_reads = map Some reads\<rparr>) w path max_frames buf keep_frame [] =
          (Inr st, w', map (frame_of tgt \<circ> frame_part) (take max_frames (take k (admitted_frames fs oks)))) \<and>
        pl_frames st = min max_frames k))"
proof -
  let ?room = "length (response_head DEFAULT_BOUNDARY) + room"
  have rq: "request_of (server_gate sv) (concat rq) = Some (Get Stream True)" using request(2,3) by simp
  from accept_one_stream [OF request(1) rq, of ?room stats] obtain rest where
    a: "accept_one room_ops sv (Some \<lparr>wi_in = rq, wi_out = [], wi_room = ?room\<rparr>) stats =
      (Inr (StreamConn \<lparr>wi_in = rest, wi_out = [], wi_room = ?room\<rparr>), stats\<lparr>ss_connections := ss_connections stats + 1\<rparr>)"
    by blast
  let ?c = "\<lparr>wi_in = rest, wi_out = [], wi_room = ?room\<rparr>" and ?stats = "stats\<lparr>ss_connections := ss_connections stats + 1\<rparr>"
  have "wi_room ?c = ?room" by simp
  from StreamConn_run_device [OF camera this viewer, of t ?stats] obtain mp scratch1 es1 where
    r: "StreamConn_run (TcpSink_write room_ops) (device_source t api grab (Passthrough_encoder (fa_coded api)) base)
        ?c (scratch, es) ?stats =
      Some (Inr (ServedStream k), mp, (scratch1, es1), ?stats\<lparr>ss_streams := ss_streams stats + 1, ss_frames := ss_frames stats + k\<rparr>)"
      "wi_out (mt_sink mp) = response_head DEFAULT_BOUNDARY @ take room (shown (take (Suc k) (admitted_frames fs oks)))"
      "counts_agree es es1" by auto
  have "\<exists>st. pull_stream tgt (Some \<lparr>sv_write = wr, sv_reads = map Some reads\<rparr>) w path max_frames buf keep_frame [] =
          (Inr st, w', map (frame_of tgt \<circ> frame_part) (take max_frames (take k (admitted_frames fs oks)))) \<and>
        pl_frames st = min max_frames k"
    if "\<forall>c \<in> set reads. c \<noteq> [] \<and> length c \<le> 4096" "concat reads = wi_out (mt_sink mp)" for reads
    by (rule client_receives [OF viewer that(1) _ _ _ client(2,3)]) (use that(2) r(2) client(1) in simp_all)
  with a r show ?thesis by (intro exI conjI) auto
qed

text \<open>A camera of 50 frames a second behind a cap of 10, a gated server, a viewer that leaves one byte into
  the second part, and a client that reads what was sent at once.\<close>

lemma test_stream:
  "\<exists>p1. Pacer_run (Pacer_new 10) (map fst (map test_frame [0..<6])) = ([True, False, False, False, False, True], p1)"
proof -
  have ts: "map fst (map test_frame [0..<6]) = [0, 20000, 40000, 60000, 80000, 100000]"
    by (simp add: test_frame_def upt_rec)
  have "fst (Pacer_run (Pacer_new 10) [0, 20000, 40000, 60000, 80000, 100000]) =
      spaced 100000 None (map unat [0 :: u64, 20000, 40000, 60000, 80000, 100000])"
    by (rule Pacer_run_spaced) (simp_all add: Pacer_new_def Pacer_with_burst_def)
  then show ?thesis unfolding ts by (cases "Pacer_run (Pacer_new 10) [0, 20000, 40000, 60000, 80000, 100000]") simp
qed

definition device_start :: "(nat, passthrough) encoded_source" where
  "device_start = \<lparr>es_source = 0, es_encoder = Passthrough_default, es_pacer = Pacer_new 10, es_frame_bytes = 64,
     es_dropped = 0, es_produced = 0\<rparr>"

theorem camera_to_client_witness:
  "\<exists>c1 stats1 mp p stats2 st.
    accept_one room_ops (gated (ascii ''k'') MjpegHttpServer_bind)
        (Some \<lparr>wi_in = [take 9 (pull_request (ascii ''/stream?t=k'')), drop 9 (pull_request (ascii ''/stream?t=k''))], wi_out = [],
          wi_room = length (response_head DEFAULT_BOUNDARY) + 87\<rparr>) serve_stats_default = (Inr (StreamConn c1), stats1) \<and>
    StreamConn_run (TcpSink_write room_ops)
        (device_source (esp32_target True) plain_frame_api test_camera (Passthrough_encoder (fa_coded plain_frame_api)) 4096)
        c1 (replicate 65 0, device_start) stats1 = Some (Inr (ServedStream 1), mp, p, stats2) \<and>
    pull_stream (esp32_target True) (Some \<lparr>sv_write = Vec_write, sv_reads = [Some (wi_out (mt_sink mp))]\<rparr>) []
        (ascii ''/stream?t=k'') 5 (replicate 5000 0) keep_frame [] =
      (Inr st, pull_request (ascii ''/stream?t=k''), [([0xFF, 0xD8, 0x00, 0x00, 0xFF, 0xD9], Some 0)])"
proof -
  let ?fs = "map test_frame [0..<6]" and ?oks = "[True, False, False, False, False, True]"
  let ?path = "ascii ''/stream?t=k''" and ?g = "\<lparr>gm_width = 320, gm_height = 240, gm_format = JpegFormat\<rparr>"
  let ?sv = "gated (ascii ''k'') MjpegHttpServer_bind"
  let ?rq = "[take 9 (pull_request ?path), drop 9 (pull_request ?path)]"
  have cap: "captures plain_frame_api test_camera ?g 4096 (es_frame_bytes device_start) ?fs (es_source device_start)"
    using test_camera_captures [of 64 0 6 4096] by (simp add: device_start_def)
  from test_stream obtain p1 where run: "Pacer_run (es_pacer device_start) (map fst ?fs) = (?oks, p1)"
    by (auto simp: device_start_def)
  have adm: "admitted_frames ?fs ?oks = [test_frame 0, test_frame 5]"
    by (simp add: admitted_frames_def upt_rec eval_nat_numeral)
  have tf: "test_frame 0 = (0, [0xFF, 0xD8, 0x00, 0x00, 0xFF, 0xD9])" "test_frame 5 = (100000, [0xFF, 0xD8, 0x00, 0x05, 0xFF, 0xD9])"
    by (simp_all add: test_frame_def)
  have frames: "\<forall>f \<in> set (admitted_frames ?fs ?oks). snd f \<noteq> [] \<and> length (snd f) < 2 ^ 64"
    unfolding adm tf by simp
  have size: "es_frame_bytes device_start < length (replicate 65 (0 :: u8))" "1 < count_list ?oks True"
    by (simp_all add: device_start_def)
  have l: "length (response_head DEFAULT_BOUNDARY) = 186" "length (pull_request ?path) = 60"
    "length (part_bytes DEFAULT_BOUNDARY [0xFF, 0xD8, 0x00, 0x00, 0xFF, 0xD9] 0) = 86"
    by code_simp+
  have "length (decimal (unat (100000 :: u64))) \<le> 6" by (rule length_decimal) simp_all
  moreover have "length (decimal (length [0xFF, 0xD8, 0x00, 0x05, 0xFF, 0xD9 :: u8])) \<le> 1" by (rule length_decimal) simp_all
  ultimately have l5: "2 \<le> length (part_bytes DEFAULT_BOUNDARY [0xFF, 0xD8, 0x00, 0x05, 0xFF, 0xD9] 100000)"
    "length (part_bytes DEFAULT_BOUNDARY [0xFF, 0xD8, 0x00, 0x05, 0xFF, 0xD9] 100000) \<le> 900"
    by (simp_all add: part_bytes_def DEFAULT_BOUNDARY_def ascii_def CRLF_def)
  have rq: "\<forall>c \<in> set ?rq. c \<noteq> []" "concat ?rq = pull_request ?path" using l(2) by auto
  have "find_sub (take MAX_REQUEST_BYTES (pull_request ?path)) (CRLF @ CRLF) = Some 56" by code_simp
  moreover have "parse_text (take (56 + 4) (pull_request ?path)) (server_gate ?sv) = Some (Get Stream True)" by code_simp
  ultimately have req: "request_of (server_gate ?sv) (pull_request ?path) = Some (Get Stream True)"
    unfolding request_of_def by (simp only: option.case)
  have room: "room_for 87 1 (admitted_frames ?fs ?oks)" unfolding adm room_for_def tf using l(3) l5 by simp
  have buf: "chunk_room (length (replicate 5000 (0 :: u8))) DEFAULT_BOUNDARY (map frame_part (take (Suc 1) (admitted_frames ?fs ?oks)))"
    "length (replicate 5000 (0 :: u8)) < usize_mod (esp32_target True)"
    unfolding adm tf using l l5 by (simp_all add: chunk_room_def frame_part_def esp32_target_def)
  have w: "Vec_write [] (pull_request ?path) = (Inr (), pull_request ?path)" by (simp add: Vec_write_def)
  from camera_to_client [where wr = Vec_write and w = "[]" and stats = serve_stats_default and t = "esp32_target True" and max_frames = 5,
      OF cap run frames size rq req room w buf]
  obtain c1 stats1 mp scratch1 es1 where r: "accept_one room_ops ?sv
        (Some \<lparr>wi_in = ?rq, wi_out = [], wi_room = length (response_head DEFAULT_BOUNDARY) + 87\<rparr>) serve_stats_default =
      (Inr (StreamConn c1), stats1)"
    "StreamConn_run (TcpSink_write room_ops)
        (device_source (esp32_target True) plain_frame_api test_camera (Passthrough_encoder (fa_coded plain_frame_api)) 4096)
        c1 (replicate 65 0, device_start) stats1 = Some (Inr (ServedStream 1), mp, (scratch1, es1),
          stats1\<lparr>ss_streams := ss_streams serve_stats_default + 1, ss_frames := ss_frames serve_stats_default + 1\<rparr>)"
    "wi_out (mt_sink mp) = response_head DEFAULT_BOUNDARY @ take 87 (shown (take (Suc 1) (admitted_frames ?fs ?oks)))"
    "\<And>reads. \<forall>c \<in> set reads. c \<noteq> [] \<and> length c \<le> 4096 \<Longrightarrow> concat reads = wi_out (mt_sink mp) \<Longrightarrow>
      \<exists>st. pull_stream (esp32_target True) (Some \<lparr>sv_write = Vec_write, sv_reads = map Some reads\<rparr>) [] ?path 5 (replicate 5000 0) keep_frame [] =
          (Inr st, pull_request ?path, map (frame_of (esp32_target True) \<circ> frame_part) (take 5 (take 1 (admitted_frames ?fs ?oks)))) \<and>
        pl_frames st = min 5 1"
    by blast
  have "length (wi_out (mt_sink mp)) \<le> 186 + 87" unfolding r(3) by (simp add: l(1))
  moreover have "wi_out (mt_sink mp) \<noteq> []" unfolding r(3) using l(1) by auto
  ultimately have "\<forall>c \<in> set [wi_out (mt_sink mp)]. c \<noteq> [] \<and> length c \<le> 4096" by simp
  from r(4) [OF this] obtain st where
    "pull_stream (esp32_target True) (Some \<lparr>sv_write = Vec_write, sv_reads = [Some (wi_out (mt_sink mp))]\<rparr>) [] ?path 5 (replicate 5000 0) keep_frame [] =
      (Inr st, pull_request ?path, [([0xFF, 0xD8, 0x00, 0x00, 0xFF, 0xD9], Some 0)])"
    unfolding adm tf by (auto simp: frame_of_def frame_part_def esp32_target_def)
  with r(1,2) show ?thesis by blast
qed

end
