(* ===== verification/Spec2Isabelle.thy ===== *)
theory Spec2Isabelle
  imports Udp Pacer Annexb Rtp RtpJpeg MpegtsRoundtrip Client Net Encoder Source UdpNet RtpBudget RtpNet HalPage Device
begin

text \<open>
  A verification library of \<open>rusty_esp_video\<close>: the video pipeline of a small camera, from the frame
  of a sensor to the bytes a viewer reads, and back.

  \<^bold>\<open>The program.\<close> A camera yields frames; an encoder turns a frame into a coded packet (a JPEG is
  one already); a pacer and a budget decide which go out; a packetizer cuts a packet into the bytes of
  a protocol, through a sink or a closure of its caller; a server or sender owns the socket. Receivers
  undo it. The pure part is the crate \<open>rusty_esp_video-core\<close>, the sockets are in
  \<open>rusty_esp_video-esp\<close>. The parts call each other only through a few operations, which the model
  passes as arguments where the code passes a trait object or a closure.

  \<^bold>\<open>Conventions\<close> (\<open>Prelude\<close>). Machine integers are words of their width; a buffer is a list of bytes;
  a \<open>usize\<close> is a \<open>nat\<close>, and where an operand comes from the wire the addition goes through
  \<open>usize_add\<close> over a \<open>target\<close> that has the width and says whether overflow is checked. An operation
  ends with a value, an error or a panic: a panic is a value (\<open>Inl Panic\<close>), so its absence is proved.
  \<open>&mut self\<close> is a state that is passed and returned, whatever the outcome. The \<open>u32\<close> counters of the RTP
  depayloader, which datagrams can drive over their range, are words, and \<open>u32_add\<close> panics or wraps with
  the target; the \<open>u64\<close> counters are \<open>nat\<close>, and so are \<open>since_psi\<close> and \<open>cc_errors\<close> of \<open>mpegts.rs\<close>, which
  one buffer of more than \<open>2 ^ 32\<close> packets would have to fill. A loop that need not end is a \<open>partial_function\<close> into \<open>option\<close>, where \<open>None\<close> is that it
  does not return, and a theorem that it returns is proved as such.

  \<^bold>\<open>The theories\<close>, and the source each one models.
  \<^item> \<open>Prelude\<close>: results, panics, slices, big-endian fields, the target. \<open>Media\<close>: the packet and codec of
    the core crate of another repository (\<open>packet.rs\<close> re-exports them).
  \<^item> \<open>Sinks\<close>: \<open>sink.rs\<close>. The interfaces \<open>packet_sink\<close> and \<open>datagram_sink\<close> are locales, interpreted on
    the sinks of the crate; the client lemmas say that what was written is a prefix of what was asked,
    cut at the first refusal.
  \<^item> \<open>Udp\<close>: \<open>udp.rs\<close>, \<open>Framer::frame\<close> and \<open>Reassembler::push\<close>. Round trip in any order of arrival, gaps (reported or not),
    panics of the reassembler (and where there are none).
  \<^item> \<open>Pacer\<close>: \<open>pacer.rs\<close>, \<open>Pacer\<close> and \<open>Budget\<close>. Upper bounds over any span of time from any state.
  \<^item> \<open>Annexb\<close>: \<open>annexb.rs\<close>, both scanners, \<open>NalUnits\<close>, \<open>AccessUnits\<close>. The units are the pieces between
    start codes; access units are a partition, and the pictures of an encoder's stream.
  \<^item> \<open>Rtp\<close> and \<open>RtpJpeg\<close>: \<open>rtp.rs\<close>, headers, the H.264 payloader (RFC 6184), the JPEG parser, payloader
    and depayloader (RFC 2435). Round trips against a receiver; no input makes the parser panic, and the
    depayloader panics only where overflow is checked and its counters run over, which 131077 datagrams
    cannot do and one more can.
  \<^item> \<open>Mpegts\<close> and \<open>MpegtsRoundtrip\<close>: \<open>mpegts.rs\<close>, \<open>Mux\<close>, \<open>demux\<close> and the checksum. The demultiplexer
    reads back every access unit, its clock and the tables.
  \<^item> \<open>Strings\<close> and \<open>Bytes\<close>: the string operations of the standard library the code uses, and
    \<open>lib.rs\<close> (\<open>fmt_u64\<close>).
  \<^item> \<open>MjpegHttp\<close>: \<open>mjpeg_http.rs\<close>, the multipart writer and the viewing gate. \<open>MjpegReader\<close>:
    \<open>mjpeg_reader.rs\<close>, the streaming parser, with an inductive relation of its calls and an invariant
    over it and over the parts reported, and where overflow of a declared length makes a call panic. \<open>Client\<close>: \<open>client.rs\<close>; what the writer writes the client delivers, however the stream is
    cut into reads.
  \<^item> \<open>Http\<close>: \<open>http.rs\<close>, requests and responses, both builds of the searches (the portable one and the
    one for the vector unit) and their equality. \<open>Net\<close>: \<open>net.rs\<close>, the stream server: \<open>accept_one\<close> refines
    the decision table \<open>respond\<close>, a gated server gives the stream and the page to exactly the requests whose
    head presents the token, the counters have an invariant, and the loop of a
    stream ends when the viewer takes in a bounded amount.
  \<^item> \<open>Encoder\<close>: \<open>encoder.rs\<close>, \<open>jpeg.rs\<close>, \<open>h264.rs\<close> and \<open>policy.rs\<close>. The trait is the record
    \<open>video_encoder\<close>, its contract the locale \<open>frame_encoder\<close>, interpreted on the three encoders; the
    states an H.264 encoder reaches are an inductive predicate.
  \<^item> \<open>Source\<close>: \<open>source.rs\<close>, \<open>EncodedSource\<close>: frames that are remembered as offsets and rebuilt, the
    loop until the pacer admits one (it returns when the camera's clock goes on), and the stream of a
    paced camera.
  \<^item> \<open>UdpNet\<close>: \<open>udp_net.rs\<close>, senders with their budget and receivers with their deadline: the receivers
    return (and it is said when they do not panic), and what is sent raw is received. What a sender owes its budget is the locale
    \<open>budgeted_sender\<close>, interpreted on the raw sender here and on the RTP sender in \<open>RtpBudget\<close>, so both
    stay within the budget on the wire, and only a JPEG without its first table makes a call panic; \<open>RtpBudget\<close> also has the exact size of a JPEG on the wire, and
    that the estimate is too low when there are restart intervals.
    What a receiver does with a datagram is the locale \<open>receiver\<close>, interpreted on the raw receiver in
    \<open>UdpNet\<close> and on the RTP receiver in \<open>RtpNet\<close>, which shows that JPEGs sent over RTP arrive when their
    packets do so in order, and that whatever is lost, repeated or reordered no picture reaches the
    client that was not sent.
  \<^item> \<open>HalPage\<close>: the connection loop of the firmware \<open>xiao-s3-sense-hal-page\<close>, the same protocol without
    \<open>std\<close>. It answers as the stream server does (with two exceptions that are stated), from a buffer
    of 1024 bytes that every answer fits, and its stream is the frames the camera grabs.

  \<^item> \<open>Device\<close>: the parts together. A paced camera behind the stream server, a viewer that closes the
    connection at any byte, and the client: what the camera captured and the pacer admitted reaches
    the client's callback.

  \<^bold>\<open>Bounds and fuel.\<close> \<open>blank_line_pie\<close> has one unit of fuel more than there are bytes, and every step
  consumes a byte. The loops as partial functions are \<open>Framer_loop\<close>, \<open>JpegPayloader_loop\<close> and the FU-A
  loop (each shown to return), the reads of the client and the server, \<open>EncodedSource_grab\<close>,
  \<open>receive_loop\<close> (shown to return under a hypothesis on the clock or the peer) and \<open>page_loop\<close> (shown when
  it returns and when it waits for ever). The others are structural
  or have a measure.

  \<^bold>\<open>Parameters.\<close> What belongs to another crate or the standard library is an argument: the tag of a
  codec, \<open>Micros::since\<close>, the constructors of a frame, the camera, the encoders of JPEG and H.264, the
  sockets, the clock, the pool of frame slots, and the byte searches of the vector unit.

  \<^bold>\<open>Not modelled.\<close> The firmware \<open>xiao-s3-sense-idf-mjpeg\<close>, the bring-up of the other one and its loop
  around a connection, and the examples (boards, wireless network, argument parsing and printing
  around the modelled parts), the tests, the crate roots that only re-export, the
  \<open>Debug\<close> implementations, accessors that return a field, \<open>RxStats::fps\<close> (floating point), socket
  timeouts as such (a receive may answer \<open>TimedOut\<close>), and the running time of the token comparison, of
  which only the answer is modelled.
\<close>

end
